(* ===== verification/Prelude.thy ===== *)
theory Prelude
  imports Main "HOL-Library.Word"
begin

text \<open>
  Shared vocabulary of the development: the C integer types, the ways in which a
  kernel routine can leave its caller, sequencing of such routines, and the
  generic facts on words that several components need.
\<close>

unbundle bit_operations_syntax

type_synonym u8 = "8 word"
type_synonym u16 = "16 word"
type_synonym u32 = "32 word"
type_synonym u64 = "64 word"

named_theorems outcome_simps \<open>equations that evaluate sequenced kernel routines\<close>

section \<open>Outcomes of a kernel routine\<close>

text \<open>
  \<open>Ok x\<close>: the routine returns \<open>x\<close> to its caller. \<open>Halt\<close>: it reached \<open>hcf()\<close>
  (\<open>kernel/src/cpu.c\<close>), which never returns. \<open>Spin\<close>: it waits in a loop that
  nothing in the sequential execution can end. \<open>Block\<close>: the calling thread has
  been put to sleep. \<open>Fault\<close>: it dereferences a pointer that points to no object,
  indexes an array out of its bounds or divides by zero.
\<close>

datatype 'a outcome = Ok 'a | Halt | Spin | Block | Fault

primrec obind :: "'a outcome \<Rightarrow> ('a \<Rightarrow> 'b outcome) \<Rightarrow> 'b outcome" where
  "obind (Ok x) f = f x"
| "obind Halt f = Halt"
| "obind Spin f = Spin"
| "obind Block f = Block"
| "obind Fault f = Fault"

definition require :: "bool \<Rightarrow> unit outcome" where
  "require b = (if b then Ok () else Fault)"

primrec is_Ok :: "'a outcome \<Rightarrow> bool" where
  "is_Ok (Ok x) = True"
| "is_Ok Halt = False"
| "is_Ok Spin = False"
| "is_Ok Block = False"
| "is_Ok Fault = False"

lemma obind_eq_Ok [outcome_simps]:
  "obind m f = Ok y \<longleftrightarrow> (\<exists>x. m = Ok x \<and> f x = Ok y)"
  by (cases m) simp_all

lemma obind_cong [fundef_cong]:
  "m = m' \<Longrightarrow> (\<And>x. m' = Ok x \<Longrightarrow> f x = g x) \<Longrightarrow> obind m f = obind m' g"
  by (cases m') simp_all

lemma obind_assoc: "obind (obind m f) g = obind m (\<lambda>x. obind (f x) g)"
  by (cases m) simp_all

lemma obind_Ok_right [simp]: "obind m Ok = m"
  by (cases m) simp_all

lemma require_eq_Ok [simp]: "require b = Ok u \<longleftrightarrow> b"
  by (simp add: require_def)

lemma require_True [simp]: "require True = Ok ()"
  by (simp add: require_def)

lemma is_Ok_iff: "is_Ok m \<longleftrightarrow> (\<exists>x. m = Ok x)"
  by (cases m) simp_all

section \<open>Words\<close>

lemma unat_of_nat_u64: "n < 2 ^ 64 \<Longrightarrow> unat (of_nat n :: u64) = n"
  by (simp add: unat_of_nat)

lemma unat_of_nat_u32: "n < 2 ^ 32 \<Longrightarrow> unat (of_nat n :: u32) = n"
  by (simp add: unat_of_nat)

lemma unat_mult_u64: "unat a * unat b < 2 ^ 64 \<Longrightarrow> unat (a * b :: u64) = unat a * unat b"
  by (simp add: unat_word_ariths)

lemma unat_add_u64: "unat a + unat b < 2 ^ 64 \<Longrightarrow> unat (a + b :: u64) = unat a + unat b"
  by (simp add: unat_word_ariths)

lemma unat_u64_bound [simp]: "unat (a :: u64) < 18446744073709551616"
  using unsigned_less [of a] by simp

lemma u64_of_unat: "unat a = n \<Longrightarrow> a = of_nat n" for a :: u64
  by (auto simp: unat_of_nat_u64 word_unat_eq_iff)

text \<open>Rounding a number of bytes up to whole pages.\<close>

lemma div_round_up:
  "(n + 4095) div 4096 = (if n mod 4096 = 0 then n div 4096 else Suc (n div 4096))" for n :: nat
proof -
  define q r where "q = n div 4096" and "r = n mod 4096"
  have n: "n = q * 4096 + r" and r: "r < 4096" by (simp_all add: q_def r_def)
  show ?thesis
  proof (cases "r = 0")
    case True
    then show ?thesis using n by (simp flip: q_def r_def)
  next
    case False
    then have "(n + 4095) div 4096 = Suc q" using n r by (intro div_nat_eqI) simp_all
    then show ?thesis using False by (simp flip: q_def r_def)
  qed
qed

lemma le_round_up: "n \<le> (n + 4095) div 4096 * 4096" for n :: nat
proof -
  have "n = n div 4096 * 4096 + n mod 4096" "n mod 4096 < 4096" by simp_all
  then show ?thesis unfolding div_round_up by (cases "n mod 4096 = 0") auto
qed

end
