(* ===== verification/Dll.thy ===== *)
theory Dll
  imports Prelude
begin

text \<open>
  The intrusive circular doubly linked list of \<open>kernel/src/common/dll.c\<close>. A
  heap of nodes is a partial map from node addresses to nodes; an address outside
  its domain is a pointer that points to no node (\<open>NULL\<close> among them). Every
  read and write of a field goes through the heap, so the C statements and their
  order are visible in the definitions. The second half shows that the operations
  implement insertion, removal and the emptiness test of an ordinary list.
\<close>

section \<open>The node and its operations\<close>

record 'p double_ll_node =
  ll_prev :: 'p
  ll_next :: 'p

type_synonym 'p ll_heap = "'p \<Rightarrow> 'p double_ll_node option"

definition read_next :: "'p \<Rightarrow> 'p ll_heap \<Rightarrow> 'p outcome" where
  "read_next p h = (case h p of None \<Rightarrow> Fault | Some n \<Rightarrow> Ok (ll_next n))"

definition read_prev :: "'p \<Rightarrow> 'p ll_heap \<Rightarrow> 'p outcome" where
  "read_prev p h = (case h p of None \<Rightarrow> Fault | Some n \<Rightarrow> Ok (ll_prev n))"

definition write_next :: "'p \<Rightarrow> 'p \<Rightarrow> 'p ll_heap \<Rightarrow> 'p ll_heap outcome" where
  "write_next p q h =
     (case h p of None \<Rightarrow> Fault | Some n \<Rightarrow> Ok (h(p := Some (n\<lparr>ll_next := q\<rparr>))))"

definition write_prev :: "'p \<Rightarrow> 'p \<Rightarrow> 'p ll_heap \<Rightarrow> 'p ll_heap outcome" where
  "write_prev p q h =
     (case h p of None \<Rightarrow> Fault | Some n \<Rightarrow> Ok (h(p := Some (n\<lparr>ll_prev := q\<rparr>))))"

definition dll_init :: "'p \<Rightarrow> 'p ll_heap \<Rightarrow> 'p ll_heap outcome" where
  "dll_init l h = obind (write_next l l h) (\<lambda>h. write_prev l l h)"

definition dll_add :: "'p \<Rightarrow> 'p \<Rightarrow> 'p \<Rightarrow> 'p ll_heap \<Rightarrow> 'p ll_heap outcome" where
  "dll_add new prv nxt h =
     obind (write_next prv new h) (\<lambda>h.
     obind (write_prev new prv h) (\<lambda>h.
     obind (write_next new nxt h) (\<lambda>h.
     write_prev nxt new h)))"

definition dll_add_after :: "'p \<Rightarrow> 'p \<Rightarrow> 'p ll_heap \<Rightarrow> 'p ll_heap outcome" where
  "dll_add_after head new h = obind (read_next head h) (\<lambda>nxt. dll_add new head nxt h)"

definition dll_add_before :: "'p \<Rightarrow> 'p \<Rightarrow> 'p ll_heap \<Rightarrow> 'p ll_heap outcome" where
  "dll_add_before head new h = obind (read_prev head h) (\<lambda>prv. dll_add new prv head h)"

definition dll_delete :: "'p \<Rightarrow> 'p ll_heap \<Rightarrow> 'p ll_heap outcome" where
  "dll_delete node h =
     obind (read_prev node h) (\<lambda>prv.
     obind (read_next node h) (\<lambda>nxt.
     obind (write_next prv nxt h) (\<lambda>h.
     obind (read_next node h) (\<lambda>nxt.
     obind (read_prev node h) (\<lambda>prv.
     write_prev nxt prv h)))))"

definition dll_empty :: "'p \<Rightarrow> 'p ll_heap \<Rightarrow> bool outcome" where
  "dll_empty head h =
     obind (read_next head h) (\<lambda>n.
     if n = head then obind (read_prev head h) (\<lambda>p. Ok (p = head)) else Ok False)"

section \<open>The list a ring of nodes represents\<close>

abbreviation nextof :: "'p ll_heap \<Rightarrow> 'p \<Rightarrow> 'p option" where
  "nextof h p \<equiv> map_option ll_next (h p)"

abbreviation prevof :: "'p ll_heap \<Rightarrow> 'p \<Rightarrow> 'p option" where
  "prevof h p \<equiv> map_option ll_prev (h p)"

fun chain :: "'p ll_heap \<Rightarrow> 'p list \<Rightarrow> bool" where
  "chain h (x # y # zs) \<longleftrightarrow> nextof h x = Some y \<and> prevof h y = Some x \<and> chain h (y # zs)"
| "chain h zs \<longleftrightarrow> True"

definition ring :: "'p ll_heap \<Rightarrow> 'p \<Rightarrow> 'p list \<Rightarrow> bool" where
  "ring h head xs \<longleftrightarrow> distinct (head # xs) \<and> chain h (head # xs @ [head])"

lemma chain_append:
  "chain h (xs @ y # zs) \<longleftrightarrow> chain h (xs @ [y]) \<and> chain h (y # zs)"
proof (induction xs)
  case Nil
  then show ?case by simp
next
  case (Cons x xs)
  then show ?case by (cases xs) auto
qed

lemma chain_cong:
  assumes "chain h zs"
    and "\<And>z. z \<in> set (butlast zs) \<Longrightarrow> nextof h' z = nextof h z"
    and "\<And>z. z \<in> set (tl zs) \<Longrightarrow> prevof h' z = prevof h z"
  shows "chain h' zs"
  using assms
proof (induction h zs rule: chain.induct)
  case (1 h x y zs)
  have *: "z \<in> set (butlast (y # zs)) \<Longrightarrow> nextof h' z = nextof h z" for z
    using 1(3)[of z] by (auto split: if_splits)
  have **: "z \<in> set (tl (y # zs)) \<Longrightarrow> prevof h' z = prevof h z" for z
    using 1(4)[of z] by auto
  have "chain h' (y # zs)"
    using 1(1)[OF _ *] 1(2) ** by simp
  then show ?case
    using 1(2) 1(3)[of x] 1(4)[of y] by simp
qed auto

lemma chain_in_dom: "chain h zs \<Longrightarrow> 2 \<le> length zs \<Longrightarrow> z \<in> set zs \<Longrightarrow> h z \<noteq> None"
proof (induction h zs rule: chain.induct)
  case (1 h x y zs)
  then show ?case by (cases zs) auto
qed auto

lemma ring_in_dom: "ring h head xs \<Longrightarrow> z = head \<or> z \<in> set xs \<Longrightarrow> h z \<noteq> None"
  using chain_in_dom [of h "head # xs @ [head]" z] by (auto simp: ring_def)

lemma ring_cong:
  assumes "ring h head xs" and "\<And>z. z = head \<or> z \<in> set xs \<Longrightarrow> h' z = h z"
  shows "ring h' head xs"
proof -
  have "chain h' (head # xs @ [head])"
  proof (rule chain_cong)
    show "chain h (head # xs @ [head])" using assms(1) by (simp add: ring_def)
    show "nextof h' z = nextof h z" if "z \<in> set (butlast (head # xs @ [head]))" for z
      using that assms(2)[of z] by (auto simp: butlast_append split: if_splits)
    show "prevof h' z = prevof h z" if "z \<in> set (tl (head # xs @ [head]))" for z
      using that assms(2)[of z] by auto
  qed
  then show ?thesis using assms(1) by (simp add: ring_def)
qed

section \<open>What the operations do to the represented list\<close>

named_theorems field_access \<open>reads and writes of node fields\<close>

lemmas field_access_defs [field_access] =
  read_next_def read_prev_def write_next_def write_prev_def

definition same_nodes :: "'p ll_heap \<Rightarrow> 'p ll_heap \<Rightarrow> 'p set \<Rightarrow> bool" where
  "same_nodes h h' W \<longleftrightarrow> dom h' = dom h \<and> (\<forall>z. z \<notin> W \<longrightarrow> h' z = h z)"

lemma same_nodes_trans:
  "same_nodes h h' W \<Longrightarrow> same_nodes h' h'' W' \<Longrightarrow> same_nodes h h'' (W \<union> W')"
  by (auto simp: same_nodes_def)

lemma same_nodes_mono: "same_nodes h h' W \<Longrightarrow> W \<subseteq> W' \<Longrightarrow> same_nodes h h' W'"
  by (auto simp: same_nodes_def)

lemma write_next_effect:
  assumes "p \<in> dom h"
  shows "\<exists>h'. write_next p q h = Ok h' \<and> nextof h' = (nextof h)(p := Some q) \<and>
    prevof h' = prevof h \<and> same_nodes h h' {p}"
proof -
  obtain n where n: "h p = Some n" using assms by auto
  let ?h = "h(p := Some (n\<lparr>ll_next := q\<rparr>))"
  have "nextof ?h = (nextof h)(p := Some q)" by (simp add: fun_eq_iff)
  moreover have "prevof ?h = prevof h" using n by (simp add: fun_eq_iff)
  moreover have "same_nodes h ?h {p}" using n by (auto simp: same_nodes_def)
  ultimately show ?thesis using n by (simp add: write_next_def)
qed

lemma write_prev_effect:
  assumes "p \<in> dom h"
  shows "\<exists>h'. write_prev p q h = Ok h' \<and> prevof h' = (prevof h)(p := Some q) \<and>
    nextof h' = nextof h \<and> same_nodes h h' {p}"
proof -
  obtain n where n: "h p = Some n" using assms by auto
  let ?h = "h(p := Some (n\<lparr>ll_prev := q\<rparr>))"
  have "prevof ?h = (prevof h)(p := Some q)" by (simp add: fun_eq_iff)
  moreover have "nextof ?h = nextof h" using n by (simp add: fun_eq_iff)
  moreover have "same_nodes h ?h {p}" using n by (auto simp: same_nodes_def)
  ultimately show ?thesis using n by (simp add: write_prev_def)
qed

lemma dll_add_effect:
  assumes "new \<in> dom h" and "prv \<in> dom h" and "nxt \<in> dom h"
  shows "\<exists>h'. dll_add new prv nxt h = Ok h' \<and>
    nextof h' = (nextof h)(prv := Some new, new := Some nxt) \<and>
    prevof h' = (prevof h)(new := Some prv, nxt := Some new) \<and>
    same_nodes h h' {new, prv, nxt}"
proof -
  obtain h1 where 1: "write_next prv new h = Ok h1" "nextof h1 = (nextof h)(prv := Some new)"
      "prevof h1 = prevof h" "same_nodes h h1 {prv}"
    using write_next_effect [of prv h new] assms by blast
  have "new \<in> dom h1" using 1(4) assms by (simp add: same_nodes_def)
  then obtain h2 where 2: "write_prev new prv h1 = Ok h2" "prevof h2 = (prevof h1)(new := Some prv)"
      "nextof h2 = nextof h1" "same_nodes h1 h2 {new}"
    using write_prev_effect [of new h1 prv] by blast
  have "new \<in> dom h2" using 1(4) 2(4) assms by (simp add: same_nodes_def)
  then obtain h3 where 3: "write_next new nxt h2 = Ok h3" "nextof h3 = (nextof h2)(new := Some nxt)"
      "prevof h3 = prevof h2" "same_nodes h2 h3 {new}"
    using write_next_effect [of new h2 nxt] by blast
  have "nxt \<in> dom h3" using 1(4) 2(4) 3(4) assms by (simp add: same_nodes_def)
  then obtain h4 where 4: "write_prev nxt new h3 = Ok h4" "prevof h4 = (prevof h3)(nxt := Some new)"
      "nextof h4 = nextof h3" "same_nodes h3 h4 {nxt}"
    using write_prev_effect [of nxt h3 new] by blast
  have "dll_add new prv nxt h = Ok h4"
    using 1(1) 2(1) 3(1) 4(1) by (simp add: dll_add_def)
  moreover have "same_nodes h h4 {new, prv, nxt}"
    using 1(4) 2(4) 3(4) 4(4) by (auto simp: same_nodes_def)
  ultimately show ?thesis
    using 1(2,3) 2(2,3) 3(2,3) 4(2,3) by simp
qed

lemma dll_delete_effect:
  assumes x: "nextof h x = Some nxt" "prevof h x = Some prv"
    and "prv \<in> dom h" and "nxt \<in> dom h" and "x \<noteq> prv"
  shows "\<exists>h'. dll_delete x h = Ok h' \<and> nextof h' = (nextof h)(prv := Some nxt) \<and>
    prevof h' = (prevof h)(nxt := Some prv) \<and> same_nodes h h' {prv, nxt}"
proof -
  obtain h1 where 1: "write_next prv nxt h = Ok h1" "nextof h1 = (nextof h)(prv := Some nxt)"
      "prevof h1 = prevof h" "same_nodes h h1 {prv}"
    using write_next_effect [of prv h nxt] assms by blast
  have "nxt \<in> dom h1" using 1(4) assms by (simp add: same_nodes_def)
  then obtain h2 where 2: "write_prev nxt prv h1 = Ok h2" "prevof h2 = (prevof h1)(nxt := Some prv)"
      "nextof h2 = nextof h1" "same_nodes h1 h2 {nxt}"
    using write_prev_effect [of nxt h1 prv] by blast
  have "h1 x = h x" using 1(4) assms(5) by (simp add: same_nodes_def)
  then have "dll_delete x h = Ok h2"
    using x 1(1) 2(1) by (auto simp: dll_delete_def read_next_def read_prev_def)
  moreover have "same_nodes h h2 {prv, nxt}"
    using 1(4) 2(4) by (auto simp: same_nodes_def)
  ultimately show ?thesis
    using 1(2,3) 2(2,3) by simp
qed

lemma dll_init_ring:
  assumes "h l \<noteq> None"
  shows "\<exists>h'. dll_init l h = Ok h' \<and> ring h' l [] \<and> (\<forall>z. z \<noteq> l \<longrightarrow> h' z = h z)"
  using assms by (auto simp: dll_init_def field_access ring_def)

lemma ring_first:
  "ring h head xs \<Longrightarrow> read_next head h = Ok (if xs = [] then head else hd xs)"
  by (cases xs) (auto simp: ring_def read_next_def)

lemma ring_last:
  "ring h head xs \<Longrightarrow> read_prev head h = Ok (if xs = [] then head else last xs)"
proof (cases xs rule: rev_cases)
  case Nil
  assume "ring h head xs"
  with Nil show ?thesis by (auto simp: ring_def read_prev_def)
next
  case (snoc ys y)
  assume "ring h head xs"
  with snoc have "chain h ((head # ys) @ y # [head])" by (simp add: ring_def)
  then have "chain h [y, head]" using chain_append [of h "head # ys" y "[head]"] by blast
  with snoc show ?thesis by (auto simp: read_prev_def)
qed

lemma dll_empty_ring: "ring h head xs \<Longrightarrow> dll_empty head h = Ok (xs = [])"
proof -
  assume ring: "ring h head xs"
  show ?thesis
  proof (cases xs)
    case Nil
    then show ?thesis using ring_first [OF ring] ring_last [OF ring] by (simp add: dll_empty_def)
  next
    case (Cons x ys)
    then have "x \<noteq> head" using ring by (auto simp: ring_def)
    then show ?thesis using ring_first [OF ring] Cons by (simp add: dll_empty_def)
  qed
qed

lemma dll_add_ring:
  assumes ring: "ring h head (ys @ zs)" and new: "new \<notin> insert head (set (ys @ zs))"
    and dom: "new \<in> dom h"
    and prv: "prv = last (head # ys)" and nxt: "nxt = hd (zs @ [head])"
  shows "\<exists>h'. dll_add new prv nxt h = Ok h' \<and> ring h' head (ys @ new # zs) \<and>
    same_nodes h h' (insert new (insert head (set (ys @ zs))))"
proof -
  have prv_in: "prv \<in> insert head (set ys)" using prv by auto
  have nxt_in: "nxt \<in> insert head (set zs)" using nxt by (cases zs) auto
  have "prv \<in> dom h" "nxt \<in> dom h"
    using ring_in_dom [OF ring, of prv] ring_in_dom [OF ring, of nxt] prv_in nxt_in by auto
  then obtain h' where h': "dll_add new prv nxt h = Ok h'"
    and eqs: "nextof h' = (nextof h)(prv := Some new, new := Some nxt)"
      "prevof h' = (prevof h)(new := Some prv, nxt := Some new)"
    and frame: "same_nodes h h' {new, prv, nxt}"
    using dll_add_effect [OF dom] by blast
  have N: "nextof h' z = (if z = new then Some nxt else if z = prv then Some new else nextof h z)"
    and P: "prevof h' z = (if z = nxt then Some new else if z = new then Some prv else prevof h z)"
    for z using fun_cong [OF eqs(1), of z] fun_cong [OF eqs(2), of z] by simp_all
  have dist: "distinct (head # ys @ zs)" and ch: "chain h (head # ys @ zs @ [head])"
    using ring by (auto simp: ring_def)
  obtain us where us: "head # ys = us @ [prv]"
    using prv append_butlast_last_id [of "head # ys"] by (metis list.distinct(1))
  obtain vs where vs: "zs @ [head] = nxt # vs"
    using nxt by (cases "zs @ [head]") auto
  have set_us: "set us \<subseteq> insert head (set ys)" using arg_cong [OF us, of set] by auto
  have set_vs: "set (nxt # vs) = insert head (set zs)" using arg_cong [OF vs, of set] by auto
  have d1: "prv \<notin> set us" using dist arg_cong [OF us, of distinct] by auto
  have d2: "nxt \<notin> set vs" using dist arg_cong [OF vs, of distinct] by auto
  have "head # ys @ zs @ [head] = us @ prv # nxt # vs"
    using us vs by (metis append.assoc append_Cons append_Nil)
  then have ch1: "chain h (us @ [prv])" and ch2: "chain h (nxt # vs)"
    using ch chain_append [of h us prv "nxt # vs"] by auto
  have "chain h' (us @ [prv])"
  proof (rule chain_cong [OF ch1])
    fix z assume "z \<in> set (butlast (us @ [prv]))"
    then show "nextof h' z = nextof h z" using N [of z] new set_us d1 by auto
  next
    fix z assume z: "z \<in> set (tl (us @ [prv]))"
    then have zy: "z \<in> set ys" using arg_cong [OF us, of tl] by simp
    then have "z \<noteq> nxt" using dist nxt_in by auto
    then show "prevof h' z = prevof h z" using P [of z] new zy by auto
  qed
  moreover have "chain h' (nxt # vs)"
  proof (rule chain_cong [OF ch2])
    fix z assume "z \<in> set (butlast (nxt # vs))"
    then have zz: "z \<in> set zs" using arg_cong [OF vs, of butlast] by simp
    then have "z \<noteq> prv" using dist prv_in by auto
    then show "nextof h' z = nextof h z" using N [of z] new zz by auto
  next
    fix z assume "z \<in> set (tl (nxt # vs))"
    then show "prevof h' z = prevof h z" using P [of z] new set_vs d2 by auto
  qed
  moreover have "nextof h' prv = Some new" "prevof h' new = Some prv"
    "nextof h' new = Some nxt" "prevof h' nxt = Some new"
    using N [of prv] N [of new] P [of new] P [of nxt] new prv_in nxt_in by auto
  ultimately have "chain h' (us @ prv # new # nxt # vs)"
    using chain_append [of h' us prv "new # nxt # vs"] by simp
  moreover have "head # (ys @ new # zs) @ [head] = us @ prv # new # nxt # vs"
    using us vs by (metis append.assoc append_Cons append_Nil)
  moreover have "distinct (head # ys @ new # zs)" using dist new by auto
  ultimately have "ring h' head (ys @ new # zs)" by (simp add: ring_def)
  moreover have "same_nodes h h' (insert new (insert head (set (ys @ zs))))"
    by (rule same_nodes_mono [OF frame]) (use prv_in nxt_in in auto)
  ultimately show ?thesis using h' by blast
qed

lemma dll_delete_ring:
  assumes ring: "ring h head (ys @ x # zs)"
  shows "\<exists>h'. dll_delete x h = Ok h' \<and> ring h' head (ys @ zs) \<and>
    same_nodes h h' (insert head (set (ys @ zs)))"
proof -
  define prv nxt where "prv = last (head # ys)" and "nxt = hd (zs @ [head])"
  have prv_in: "prv \<in> insert head (set ys)" by (auto simp: prv_def)
  have nxt_in: "nxt \<in> insert head (set zs)" by (cases zs) (auto simp: nxt_def)
  have dist: "distinct (head # ys @ x # zs)" and ch: "chain h (head # ys @ x # zs @ [head])"
    using ring by (auto simp: ring_def)
  obtain us where us: "head # ys = us @ [prv]"
    using prv_def append_butlast_last_id [of "head # ys"] by (metis list.distinct(1))
  obtain vs where vs: "zs @ [head] = nxt # vs"
    using nxt_def by (cases "zs @ [head]") auto
  have set_us: "set us \<subseteq> insert head (set ys)" using arg_cong [OF us, of set] by auto
  have set_vs: "set (nxt # vs) = insert head (set zs)" using arg_cong [OF vs, of set] by auto
  have d1: "prv \<notin> set us" using dist arg_cong [OF us, of distinct] by auto
  have d2: "nxt \<notin> set vs" using dist arg_cong [OF vs, of distinct] by auto
  have "head # ys @ x # zs @ [head] = us @ prv # x # nxt # vs"
    using us vs by (metis append.assoc append_Cons append_Nil)
  then have ch1: "chain h (us @ [prv])" and "chain h (prv # x # nxt # vs)"
    using ch chain_append [of h us prv "x # nxt # vs"] by auto
  then have ch2: "chain h (nxt # vs)" and xn: "nextof h x = Some nxt" "prevof h x = Some prv"
    by auto
  have "prv \<in> dom h" "nxt \<in> dom h"
    using ring_in_dom [OF ring, of prv] ring_in_dom [OF ring, of nxt] prv_in nxt_in by auto
  moreover have "x \<noteq> prv" using prv_in dist by auto
  ultimately obtain h' where h': "dll_delete x h = Ok h'"
    and eqs: "nextof h' = (nextof h)(prv := Some nxt)" "prevof h' = (prevof h)(nxt := Some prv)"
    and frame: "same_nodes h h' {prv, nxt}"
    using dll_delete_effect [of h x nxt prv] xn by blast
  have N: "nextof h' z = (if z = prv then Some nxt else nextof h z)"
    and P: "prevof h' z = (if z = nxt then Some prv else prevof h z)"
    for z using fun_cong [OF eqs(1), of z] fun_cong [OF eqs(2), of z] by simp_all
  have "chain h' (us @ [prv])"
  proof (rule chain_cong [OF ch1])
    fix z assume "z \<in> set (butlast (us @ [prv]))"
    then show "nextof h' z = nextof h z" using N [of z] d1 by auto
  next
    fix z assume z: "z \<in> set (tl (us @ [prv]))"
    then have "z \<in> set ys" using arg_cong [OF us, of tl] by simp
    then have "z \<noteq> nxt" using dist nxt_in by auto
    then show "prevof h' z = prevof h z" using P [of z] by auto
  qed
  moreover have "chain h' (nxt # vs)"
  proof (rule chain_cong [OF ch2])
    fix z assume "z \<in> set (butlast (nxt # vs))"
    then have "z \<in> set zs" using arg_cong [OF vs, of butlast] by simp
    then have "z \<noteq> prv" using dist prv_in by auto
    then show "nextof h' z = nextof h z" using N [of z] by auto
  next
    fix z assume "z \<in> set (tl (nxt # vs))"
    then show "prevof h' z = prevof h z" using P [of z] d2 by auto
  qed
  ultimately have "chain h' (us @ prv # nxt # vs)"
    using chain_append [of h' us prv "nxt # vs"] N [of prv] P [of nxt] by simp
  moreover have "head # (ys @ zs) @ [head] = us @ prv # nxt # vs"
    using us vs by (metis append.assoc append_Cons append_Nil)
  ultimately have "ring h' head (ys @ zs)" using dist by (simp add: ring_def)
  moreover have "same_nodes h h' (insert head (set (ys @ zs)))"
    by (rule same_nodes_mono [OF frame]) (use prv_in nxt_in in auto)
  ultimately show ?thesis using h' by blast
qed

lemma dll_add_after_ring:
  assumes "ring h head xs" and "new \<notin> insert head (set xs)" and "new \<in> dom h"
  shows "\<exists>h'. dll_add_after head new h = Ok h' \<and> ring h' head (new # xs) \<and>
    same_nodes h h' (insert new (insert head (set xs)))"
proof -
  have "hd (xs @ [head]) = (if xs = [] then head else hd xs)" by (cases xs) auto
  then show ?thesis
    using dll_add_ring [of h head "[]" xs new head] assms ring_first [OF assms(1)]
    by (simp add: dll_add_after_def)
qed

lemma dll_add_before_ring:
  assumes "ring h head xs" and "new \<notin> insert head (set xs)" and "new \<in> dom h"
  shows "\<exists>h'. dll_add_before head new h = Ok h' \<and> ring h' head (xs @ [new]) \<and>
    same_nodes h h' (insert new (insert head (set xs)))"
  using dll_add_ring [of h head xs "[]" new] assms ring_last [OF assms(1)]
  by (simp add: dll_add_before_def)

section \<open>The interface the allocator relies on\<close>

text \<open>
  A client that keeps several lists in one heap sees them as a family: for every
  index \<open>k\<close> in \<open>K\<close> the list \<open>F k\<close> hangs off the head \<open>H k\<close>, and the
  lists share no node.
\<close>

definition list_family ::
  "('h \<Rightarrow> 'p \<Rightarrow> 'p list \<Rightarrow> bool) \<Rightarrow> 'k set \<Rightarrow> ('k \<Rightarrow> 'p) \<Rightarrow> ('k \<Rightarrow> 'p list) \<Rightarrow> 'h \<Rightarrow> bool" where
  "list_family rep K H F h \<longleftrightarrow>
     (\<forall>k\<in>K. rep h (H k) (F k)) \<and>
     (\<forall>k\<in>K. \<forall>l\<in>K. k \<noteq> l \<longrightarrow> insert (H k) (set (F k)) \<inter> insert (H l) (set (F l)) = {})"

lemma list_family_rep: "list_family rep K H F h \<Longrightarrow> k \<in> K \<Longrightarrow> rep h (H k) (F k)"
  by (simp add: list_family_def)

lemma list_family_disj:
  "list_family rep K H F h \<Longrightarrow> k \<in> K \<Longrightarrow> l \<in> K \<Longrightarrow> k \<noteq> l \<Longrightarrow>
   insert (H k) (set (F k)) \<inter> insert (H l) (set (F l)) = {}"
  by (simp add: list_family_def)

lemma list_family_update:
  assumes fam: "list_family rep K H F h"
    and k: "rep h' (H k) xs"
    and others: "\<And>l. l \<in> K \<Longrightarrow> l \<noteq> k \<Longrightarrow> rep h' (H l) (F l)"
    and disj: "\<And>l. l \<in> K \<Longrightarrow> l \<noteq> k \<Longrightarrow> insert (H k) (set xs) \<inter> insert (H l) (set (F l)) = {}"
  shows "list_family rep K H (F(k := xs)) h'"
  unfolding list_family_def
proof (intro conjI ballI impI)
  show "rep h' (H l) ((F(k := xs)) l)" if "l \<in> K" for l
    using that k others by simp
next
  fix a b assume "a \<in> K" "b \<in> K" "a \<noteq> b"
  then show "insert (H a) (set ((F(k := xs)) a)) \<inter> insert (H b) (set ((F(k := xs)) b)) = {}"
    using disj [of a] disj [of b] list_family_disj [OF fam, of a b]
    by (cases "a = k"; cases "b = k") (simp_all add: Int_commute)
qed

locale intrusive_list =
  fixes rep :: "'h \<Rightarrow> 'p \<Rightarrow> 'p list \<Rightarrow> bool"
    and nodes :: "'h \<Rightarrow> 'p set"
    and add_front :: "'p \<Rightarrow> 'p \<Rightarrow> 'h \<Rightarrow> 'h outcome"
    and del :: "'p \<Rightarrow> 'h \<Rightarrow> 'h outcome"
    and is_empty :: "'p \<Rightarrow> 'h \<Rightarrow> bool outcome"
    and first :: "'p \<Rightarrow> 'h \<Rightarrow> 'p outcome"
  assumes rep_distinct: "rep h l xs \<Longrightarrow> distinct (l # xs)"
    and rep_nodes: "rep h l xs \<Longrightarrow> insert l (set xs) \<subseteq> nodes h"
    and add_front_law: "rep h l xs \<Longrightarrow> x \<notin> insert l (set xs) \<Longrightarrow> x \<in> nodes h \<Longrightarrow>
      \<exists>h'. add_front l x h = Ok h' \<and> rep h' l (x # xs) \<and> nodes h' = nodes h \<and>
        (\<forall>l' ys. rep h l' ys \<and> insert l' (set ys) \<inter> insert x (insert l (set xs)) = {} \<longrightarrow> rep h' l' ys)"
    and del_law: "rep h l xs \<Longrightarrow> x \<in> set xs \<Longrightarrow>
      \<exists>h'. del x h = Ok h' \<and> rep h' l (remove1 x xs) \<and> nodes h' = nodes h \<and>
        (\<forall>l' ys. rep h l' ys \<and> insert l' (set ys) \<inter> insert l (set xs) = {} \<longrightarrow> rep h' l' ys)"
    and is_empty_law: "rep h l xs \<Longrightarrow> is_empty l h = Ok (xs = [])"
    and first_law: "rep h l (x # xs) \<Longrightarrow> first l h = Ok x"
begin

lemma family_add:
  assumes fam: "list_family rep K H F h" and k: "k \<in> K"
    and fresh: "\<And>l. l \<in> K \<Longrightarrow> x \<notin> insert (H l) (set (F l))" and "x \<in> nodes h"
  shows "\<exists>h'. add_front (H k) x h = Ok h' \<and> list_family rep K H (F(k := x # F k)) h' \<and>
    nodes h' = nodes h"
proof -
  have "rep h (H k) (F k)" using fam k by (simp add: list_family_def)
  then obtain h' where h': "add_front (H k) x h = Ok h'" "rep h' (H k) (x # F k)" "nodes h' = nodes h"
    and frame: "\<And>l ys. rep h l ys \<Longrightarrow> insert l (set ys) \<inter> insert x (insert (H k) (set (F k))) = {}
      \<Longrightarrow> rep h' l ys"
    using add_front_law [of h "H k" "F k" x] fresh [OF k] assms(4) by blast
  have "list_family rep K H (F(k := x # F k)) h'"
  proof (rule list_family_update [OF fam h'(2)])
    fix l assume l: "l \<in> K" "l \<noteq> k"
    have disj: "insert (H k) (set (F k)) \<inter> insert (H l) (set (F l)) = {}"
      using list_family_disj [OF fam k l(1)] l(2) by blast
    then show "insert (H k) (set (x # F k)) \<inter> insert (H l) (set (F l)) = {}"
      using fresh [OF l(1)] by auto
    then show "rep h' (H l) (F l)"
      using list_family_rep [OF fam l(1)] by (intro frame) auto
  qed
  with h' show ?thesis by blast
qed

lemma family_del:
  assumes fam: "list_family rep K H F h" and k: "k \<in> K" and x: "x \<in> set (F k)"
  shows "\<exists>h'. del x h = Ok h' \<and> list_family rep K H (F(k := remove1 x (F k))) h' \<and>
    nodes h' = nodes h"
proof -
  have "rep h (H k) (F k)" using fam k by (simp add: list_family_def)
  then obtain h' where h': "del x h = Ok h'" "rep h' (H k) (remove1 x (F k))" "nodes h' = nodes h"
    and frame: "\<And>l ys. rep h l ys \<Longrightarrow> insert l (set ys) \<inter> insert (H k) (set (F k)) = {}
      \<Longrightarrow> rep h' l ys"
    using del_law [of h "H k" "F k" x] x by blast
  have "list_family rep K H (F(k := remove1 x (F k))) h'"
  proof (rule list_family_update [OF fam h'(2)])
    fix l assume l: "l \<in> K" "l \<noteq> k"
    have disj: "insert (H k) (set (F k)) \<inter> insert (H l) (set (F l)) = {}"
      using list_family_disj [OF fam k l(1)] l(2) by blast
    then show "insert (H k) (set (remove1 x (F k))) \<inter> insert (H l) (set (F l)) = {}"
      using set_remove1_subset [of x "F k"] by auto
    show "rep h' (H l) (F l)"
      using list_family_rep [OF fam l(1)] disj by (intro frame) auto
  qed
  with h' show ?thesis by blast
qed

lemma family_empty: "list_family rep K H F h \<Longrightarrow> k \<in> K \<Longrightarrow> is_empty (H k) h = Ok (F k = [])"
  by (simp add: list_family_def is_empty_law)

lemma family_first:
  "list_family rep K H F h \<Longrightarrow> k \<in> K \<Longrightarrow> F k = x # xs \<Longrightarrow> first (H k) h = Ok x"
  unfolding list_family_def by (metis first_law)

lemma family_disjoint:
  "list_family rep K H F h \<Longrightarrow> k \<in> K \<Longrightarrow> l \<in> K \<Longrightarrow> x \<in> set (F k) \<Longrightarrow> x \<in> set (F l) \<Longrightarrow> k = l"
  by (auto simp: list_family_def)

lemma family_distinct: "list_family rep K H F h \<Longrightarrow> k \<in> K \<Longrightarrow> distinct (F k)"
  using rep_distinct by (fastforce simp: list_family_def)

end

lemma ring_same_nodes:
  "ring h l ys \<Longrightarrow> same_nodes h h' W \<Longrightarrow> insert l (set ys) \<inter> W = {} \<Longrightarrow> ring h' l ys"
  by (rule ring_cong [of h]) (auto simp: same_nodes_def)

interpretation dll: intrusive_list ring dom dll_add_after dll_delete dll_empty read_next
proof
  fix h :: "'a ll_heap" and l xs
  assume "ring h l xs"
  then show "distinct (l # xs)" by (simp add: ring_def)
next
  fix h :: "'a ll_heap" and l xs
  assume "ring h l xs"
  then show "insert l (set xs) \<subseteq> dom h" using ring_in_dom [of h l xs] by auto
next
  fix h :: "'a ll_heap" and l xs x
  assume "ring h l xs" "x \<notin> insert l (set xs)" "x \<in> dom h"
  then obtain h' where h': "dll_add_after l x h = Ok h'" "ring h' l (x # xs)"
    and frame: "same_nodes h h' (insert x (insert l (set xs)))"
    using dll_add_after_ring [of h l xs x] by blast
  then show "\<exists>h'. dll_add_after l x h = Ok h' \<and> ring h' l (x # xs) \<and> dom h' = dom h \<and>
    (\<forall>l' ys. ring h l' ys \<and> insert l' (set ys) \<inter> insert x (insert l (set xs)) = {} \<longrightarrow> ring h' l' ys)"
    using ring_same_nodes [OF _ frame] frame unfolding same_nodes_def by blast
next
  fix h :: "'a ll_heap" and l xs x
  assume ring: "ring h l xs" and "x \<in> set xs"
  then obtain ys zs where xs: "xs = ys @ x # zs" "x \<notin> set ys"
    by (meson split_list_first)
  then have rem: "remove1 x xs = ys @ zs" by (simp add: remove1_append)
  obtain h' where h': "dll_delete x h = Ok h'" "ring h' l (ys @ zs)"
    and frame: "same_nodes h h' (insert l (set (ys @ zs)))"
    using dll_delete_ring [of h l ys x zs] ring xs by blast
  have "ring h' l' vs" if "ring h l' vs" "insert l' (set vs) \<inter> insert l (set xs) = {}" for l' vs
    using that xs by (intro ring_same_nodes [OF that(1) frame]) auto
  then show "\<exists>h'. dll_delete x h = Ok h' \<and> ring h' l (remove1 x xs) \<and> dom h' = dom h \<and>
    (\<forall>l' ys. ring h l' ys \<and> insert l' (set ys) \<inter> insert l (set xs) = {} \<longrightarrow> ring h' l' ys)"
    using h' frame rem by (auto simp: same_nodes_def)
next
  fix h :: "'a ll_heap" and l xs
  assume "ring h l xs"
  then show "dll_empty l h = Ok (xs = [])" by (rule dll_empty_ring)
next
  fix h :: "'a ll_heap" and l x xs
  assume "ring h l (x # xs)"
  then show "read_next l h = Ok x" using ring_first [of h l "x # xs"] by simp
qed

end
