(* ===== verification/Spinlock.thy ===== *)
theory Spinlock
  imports Prelude
begin

text \<open>
  The interrupt-safe ticket lock of \<open>kernel/src/scheduling/lock.c\<close>. The first part
  translates the two operations as one processor runs them: a lock that another
  context holds makes \<open>spinlock_irq_acquire\<close> wait in its loop, which is the outcome
  \<open>Spin\<close>. The second part interleaves the atomic steps of the same code on any number
  of processors and relates every reachable state to a queue of contenders.
\<close>

section \<open>The lock and its two operations\<close>

record spinlock_irq =
  ticket :: u64
  turn :: u64

definition SPINLOCK_IRQ_INIT :: spinlock_irq where
  "SPINLOCK_IRQ_INIT = \<lparr>ticket = 0, turn = 0\<rparr>"

text \<open>Bit 9 of RFLAGS is the interrupt enable flag, which \<open>cli\<close> clears.\<close>

definition RFLAGS_IF :: u64 where
  "RFLAGS_IF = 0x200"

definition interrupts_save_and_disable :: "u64 \<Rightarrow> u64 \<times> u64" where
  "interrupts_save_and_disable rflags = (rflags, rflags AND NOT RFLAGS_IF)"

definition interrupts_restore :: "u64 \<Rightarrow> u64" where
  "interrupts_restore flags = flags"

definition interrupts_enabled :: "u64 \<Rightarrow> bool" where
  "interrupts_enabled rflags \<longleftrightarrow> rflags AND RFLAGS_IF \<noteq> 0"

text \<open>
  The processor's RFLAGS is passed in and returned. \<open>lock_acquire\<close> is the body behind
  the null check: it returns the lock, the saved flags and the new RFLAGS.
\<close>

definition lock_acquire :: "spinlock_irq \<Rightarrow> u64 \<Rightarrow> (spinlock_irq \<times> u64 \<times> u64) outcome" where
  "lock_acquire lock rflags =
     (let (flags, rflags) = interrupts_save_and_disable rflags;
          myticket = ticket lock;
          lock = lock\<lparr>ticket := ticket lock + 1\<rparr>
      in if turn lock \<noteq> myticket then Spin else Ok (lock, flags, rflags))"

definition lock_release :: "spinlock_irq \<Rightarrow> u64 \<Rightarrow> spinlock_irq \<times> u64" where
  "lock_release lock flags = (lock\<lparr>turn := turn lock + 1\<rparr>, interrupts_restore flags)"

text \<open>
  The exported operations take pointers, \<open>None\<close> being \<open>NULL\<close>; what they point to is
  returned updated.
\<close>

definition spinlock_irq_acquire ::
  "spinlock_irq option \<Rightarrow> u64 option \<Rightarrow> u64 \<Rightarrow> (spinlock_irq option \<times> u64 option \<times> u64) outcome" where
  "spinlock_irq_acquire lock flags rflags =
     (case (lock, flags) of
        (Some l, Some f) \<Rightarrow>
          obind (lock_acquire l rflags) (\<lambda>(l, f, rflags). Ok (Some l, Some f, rflags))
      | _ \<Rightarrow> Ok (lock, flags, rflags))"

definition spinlock_irq_release ::
  "spinlock_irq option \<Rightarrow> u64 option \<Rightarrow> u64 \<Rightarrow> spinlock_irq option \<times> u64 option \<times> u64" where
  "spinlock_irq_release lock flags rflags =
     (case (lock, flags) of
        (Some l, Some f) \<Rightarrow> (let (l, rflags) = lock_release l f in (Some l, Some f, rflags))
      | _ \<Rightarrow> (lock, flags, rflags))"

definition lock_free :: "spinlock_irq \<Rightarrow> bool" where
  "lock_free l \<longleftrightarrow> ticket l = turn l"

definition lock_advance :: "spinlock_irq \<Rightarrow> spinlock_irq" where
  "lock_advance l = \<lparr>ticket = ticket l + 1, turn = turn l + 1\<rparr>"

lemma lock_acquire_free:
  "lock_free l \<Longrightarrow> lock_acquire l rf = Ok (l\<lparr>ticket := ticket l + 1\<rparr>, rf, rf AND NOT RFLAGS_IF)"
  by (simp add: lock_free_def lock_acquire_def interrupts_save_and_disable_def)

lemma lock_acquire_taken: "\<not> lock_free l \<Longrightarrow> lock_acquire l rf = Spin"
  by (auto simp: lock_free_def lock_acquire_def interrupts_save_and_disable_def)

lemma lock_free_advance [simp]: "lock_free (lock_advance l) = lock_free l"
  by (simp add: lock_free_def lock_advance_def)

lemma lock_free_init [simp]: "lock_free SPINLOCK_IRQ_INIT"
  by (simp add: lock_free_def SPINLOCK_IRQ_INIT_def)

lemma lock_release_acquired:
  "lock_release (l\<lparr>ticket := ticket l + 1\<rparr>) rf = (lock_advance l, rf)"
  by (simp add: lock_release_def lock_advance_def interrupts_restore_def)

lemma interrupts_disabled: "\<not> interrupts_enabled (rf AND NOT RFLAGS_IF)"
  by (simp add: interrupts_enabled_def and.assoc)

section \<open>Contention: interleaved steps of several processors\<close>

text \<open>
  Where a processor stands in the code between \<open>spinlock_irq_acquire\<close> and the end of
  \<open>spinlock_irq_release\<close>: \<open>Disabled f\<close> after \<open>cli\<close>, \<open>Spinning f t\<close> after the
  fetch-and-add that drew ticket \<open>t\<close>, \<open>Holding f\<close> after the loop, \<open>Released f\<close> after
  the fetch-and-add on \<open>turn\<close> and before \<open>popfq\<close>. \<open>f\<close> is the saved RFLAGS.
\<close>

datatype lock_pc = Outside | Disabled u64 | Spinning u64 u64 | Holding u64 | Released u64

record lock_system =
  sys_lock :: spinlock_irq
  sys_pc :: "nat \<Rightarrow> lock_pc"
  sys_rflags :: "nat \<Rightarrow> u64"

inductive lock_step :: "nat \<Rightarrow> lock_system \<Rightarrow> lock_system \<Rightarrow> bool" for n :: nat where
  save: "i < n \<Longrightarrow> sys_pc s i = Outside \<Longrightarrow>
    interrupts_save_and_disable (sys_rflags s i) = (f, rf) \<Longrightarrow>
    lock_step n s (s\<lparr>sys_pc := (sys_pc s)(i := Disabled f), sys_rflags := (sys_rflags s)(i := rf)\<rparr>)"
| draw: "i < n \<Longrightarrow> sys_pc s i = Disabled f \<Longrightarrow>
    lock_step n s (s\<lparr>sys_pc := (sys_pc s)(i := Spinning f (ticket (sys_lock s))),
                    sys_lock := (sys_lock s)\<lparr>ticket := ticket (sys_lock s) + 1\<rparr>\<rparr>)"
| pause: "i < n \<Longrightarrow> sys_pc s i = Spinning f t \<Longrightarrow> turn (sys_lock s) \<noteq> t \<Longrightarrow> lock_step n s s"
| enter: "i < n \<Longrightarrow> sys_pc s i = Spinning f t \<Longrightarrow> turn (sys_lock s) = t \<Longrightarrow>
    lock_step n s (s\<lparr>sys_pc := (sys_pc s)(i := Holding f)\<rparr>)"
| pass: "i < n \<Longrightarrow> sys_pc s i = Holding f \<Longrightarrow>
    lock_step n s (s\<lparr>sys_pc := (sys_pc s)(i := Released f),
                    sys_lock := (sys_lock s)\<lparr>turn := turn (sys_lock s) + 1\<rparr>\<rparr>)"
| restore: "i < n \<Longrightarrow> sys_pc s i = Released f \<Longrightarrow>
    lock_step n s (s\<lparr>sys_pc := (sys_pc s)(i := Outside),
                    sys_rflags := (sys_rflags s)(i := interrupts_restore f)\<rparr>)"

definition lock_start :: "(nat \<Rightarrow> u64) \<Rightarrow> lock_system" where
  "lock_start rfs = \<lparr>sys_lock = SPINLOCK_IRQ_INIT, sys_pc = (\<lambda>_. Outside), sys_rflags = rfs\<rparr>"

inductive lock_reachable :: "nat \<Rightarrow> (nat \<Rightarrow> u64) \<Rightarrow> lock_system \<Rightarrow> bool" for n rfs where
  start: "lock_reachable n rfs (lock_start rfs)"
| step: "lock_reachable n rfs s \<Longrightarrow> lock_step n s s' \<Longrightarrow> lock_reachable n rfs s'"

text \<open>The abstract lock is a queue: contenders join at the end and leave at the front.\<close>

inductive queue_step :: "nat list \<Rightarrow> nat list \<Rightarrow> bool" where
  stay: "queue_step q q"
| join: "i \<notin> set q \<Longrightarrow> queue_step q (q @ [i])"
| leave: "queue_step (i # q) q"

fun contends :: "lock_pc \<Rightarrow> bool" where
  "contends (Spinning f t) = True"
| "contends (Holding f) = True"
| "contends _ = False"

definition lock_queue :: "nat \<Rightarrow> lock_system \<Rightarrow> nat list \<Rightarrow> bool" where
  "lock_queue n s q \<longleftrightarrow>
     distinct q \<and> set q \<subseteq> {..<n} \<and> (\<forall>i. i \<in> set q \<longleftrightarrow> contends (sys_pc s i)) \<and>
     ticket (sys_lock s) = turn (sys_lock s) + of_nat (length q) \<and>
     (\<forall>j<length q. \<forall>f t. sys_pc s (q ! j) = Spinning f t \<longrightarrow> t = turn (sys_lock s) + of_nat j) \<and>
     (\<forall>j<length q. \<forall>f. sys_pc s (q ! j) = Holding f \<longrightarrow> j = 0)"

lemma lock_queue_length: "lock_queue n s q \<Longrightarrow> length q \<le> n"
  using card_mono [of "{..<n}" "set q"] by (auto simp: lock_queue_def distinct_card)

lemma of_nat_u64_zero: "j < 2 ^ 64 \<Longrightarrow> (of_nat j :: u64) = 0 \<longleftrightarrow> j = 0"
  by (simp add: word_of_nat_eq_0_iff dvd_def) (use nat_dvd_not_less in force)

lemma lock_queue_other:
  assumes q: "lock_queue n s q" and "i \<notin> set q" and "\<not> contends c"
  shows "lock_queue n (s\<lparr>sys_pc := (sys_pc s)(i := c), sys_rflags := rfs\<rparr>) q"
  using assms by (auto simp: lock_queue_def)

lemma lock_queue_draw:
  assumes q: "lock_queue n s q" and i: "i < n" "i \<notin> set q"
  shows "lock_queue n (s\<lparr>sys_pc := (sys_pc s)(i := Spinning f (ticket (sys_lock s))),
    sys_lock := (sys_lock s)\<lparr>ticket := ticket (sys_lock s) + 1\<rparr>\<rparr>) (q @ [i])"
proof -
  have "(q @ [i]) ! j = i \<longleftrightarrow> j = length q" if "j < length (q @ [i])" for j
    using that i(2) by (auto simp: nth_append)
  then show ?thesis
    using assms by (auto simp: lock_queue_def nth_append)
qed

lemma lock_queue_enter:
  assumes q: "lock_queue n s q" and n: "n < 2 ^ 64"
    and pc: "sys_pc s i = Spinning f (turn (sys_lock s))"
  shows "lock_queue n (s\<lparr>sys_pc := (sys_pc s)(i := Holding f)\<rparr>) q"
proof -
  have "i \<in> set q" using q pc by (simp add: lock_queue_def)
  then obtain j where j: "j < length q" "q ! j = i" by (auto simp: in_set_conv_nth)
  then have "turn (sys_lock s) = turn (sys_lock s) + of_nat j"
    using q pc unfolding lock_queue_def by blast
  then have "j = 0" using of_nat_u64_zero [of j] j lock_queue_length [OF q] n by simp
  then have "q ! k = i \<longrightarrow> k = 0" if "k < length q" for k
    using that j q nth_eq_iff_index_eq [of q k j] by (auto simp: lock_queue_def)
  then show ?thesis using q \<open>i \<in> set q\<close> by (auto simp: lock_queue_def)
qed

lemma lock_queue_pass:
  assumes q: "lock_queue n s q" and pc: "sys_pc s i = Holding f"
  shows "\<exists>q'. q = i # q' \<and> lock_queue n (s\<lparr>sys_pc := (sys_pc s)(i := Released f),
    sys_lock := (sys_lock s)\<lparr>turn := turn (sys_lock s) + 1\<rparr>\<rparr>) q'"
proof -
  have "i \<in> set q" using q pc by (simp add: lock_queue_def)
  then obtain j where j: "j < length q" "q ! j = i" by (auto simp: in_set_conv_nth)
  then have "j = 0" using q pc unfolding lock_queue_def by blast
  with j obtain q' where q': "q = i # q'" by (cases q) auto
  have spin: "t = turn (sys_lock s) + 1 + of_nat j" if "j < length q'" "sys_pc s (q' ! j) = Spinning g t" for j g t
    using q that unfolding lock_queue_def q' by (metis Suc_less_eq add.assoc length_Cons nth_Cons_Suc of_nat_Suc)
  have hold: "\<not> (\<exists>g. sys_pc s (q' ! j) = Holding g)" if "j < length q'" for j
    using q that unfolding lock_queue_def q' by (metis Suc_less_eq length_Cons nat.distinct(1) nth_Cons_Suc)
  have "i \<notin> set q'" using q by (simp add: lock_queue_def q')
  then have "q' ! j \<noteq> i" if "j < length q'" for j using that by (metis nth_mem)
  then have "lock_queue n (s\<lparr>sys_pc := (sys_pc s)(i := Released f),
    sys_lock := (sys_lock s)\<lparr>turn := turn (sys_lock s) + 1\<rparr>\<rparr>) q'"
    using q spin hold \<open>i \<notin> set q'\<close> by (auto simp: lock_queue_def q' algebra_simps)
  with q' show ?thesis by blast
qed

lemma lock_step_simulates_queue:
  assumes step: "lock_step n s s'" and q: "lock_queue n s q" and n: "n < 2 ^ 64"
  shows "\<exists>q'. queue_step q q' \<and> lock_queue n s' q'"
  using step
proof cases
  case (save i f rf)
  then have "i \<notin> set q" using q by (simp add: lock_queue_def)
  then have "lock_queue n s' q" using save(1) lock_queue_other [OF q, of i "Disabled f"] by simp
  then show ?thesis using queue_step.stay by blast
next
  case (draw i f)
  then have "i \<notin> set q" using q by (simp add: lock_queue_def)
  moreover from this have "lock_queue n s' (q @ [i])" unfolding draw(1) by (rule lock_queue_draw [OF q draw(2)])
  ultimately show ?thesis using queue_step.join by blast
next
  case (pause i f t)
  then show ?thesis using q queue_step.stay by blast
next
  case (enter i f t)
  then have "sys_pc s i = Spinning f (turn (sys_lock s))" by simp
  then have "lock_queue n s' q" unfolding enter(1) by (rule lock_queue_enter [OF q n])
  then show ?thesis using queue_step.stay by blast
next
  case (pass i f)
  from lock_queue_pass [OF q pass(3)] obtain q' where "q = i # q'" and "lock_queue n s' q'"
    using pass(1) by blast
  then show ?thesis using queue_step.leave by blast
next
  case (restore i f)
  then have "i \<notin> set q" using q by (simp add: lock_queue_def)
  then have "lock_queue n s' q" using restore(1) lock_queue_other [OF q, of i Outside] by simp
  then show ?thesis using queue_step.stay by blast
qed

lemma lock_queue_start: "lock_queue n (lock_start rfs) []"
  by (simp add: lock_queue_def lock_start_def SPINLOCK_IRQ_INIT_def)

lemma lock_reachable_queue:
  assumes "lock_reachable n rfs s" and "n < 2 ^ 64"
  shows "\<exists>q. lock_queue n s q"
  using assms
proof (induction rule: lock_reachable.induct)
  case start
  then show ?case using lock_queue_start by blast
next
  case (step s s')
  then show ?case using lock_step_simulates_queue by blast
qed

lemma lock_queue_holder:
  assumes "lock_queue n s q" and "sys_pc s i = Holding f"
  shows "q \<noteq> [] \<and> i = hd q"
  using lock_queue_pass [OF assms] by auto

lemma lock_queue_progress:
  assumes q: "lock_queue n s (i # q)"
  shows "(\<exists>f. sys_pc s i = Holding f) \<or> (\<exists>f. sys_pc s i = Spinning f (turn (sys_lock s)))"
proof -
  have "contends (sys_pc s i)" using q by (auto simp: lock_queue_def)
  moreover have "t = turn (sys_lock s)" if pc: "sys_pc s i = Spinning f t" for f t
  proof -
    have "\<forall>j<length (i # q). \<forall>f t. sys_pc s ((i # q) ! j) = Spinning f t \<longrightarrow>
        t = turn (sys_lock s) + of_nat j"
      using q by (simp add: lock_queue_def)
    from this [rule_format, of 0 f t] show ?thesis using pc by simp
  qed
  ultimately show ?thesis by (cases "sys_pc s i") auto
qed

lemma lock_reachable_masked:
  assumes "lock_reachable n rfs s" and "sys_pc s i \<noteq> Outside"
  shows "\<not> interrupts_enabled (sys_rflags s i)"
  using assms
proof (induction arbitrary: i rule: lock_reachable.induct)
  case start
  then show ?case by (simp add: lock_start_def)
next
  case (step s s')
  from step.hyps(2) show ?case
  proof cases
    case (save j f rf)
    then have "rf = sys_rflags s j AND NOT RFLAGS_IF" by (auto simp: interrupts_save_and_disable_def)
    then have "\<not> interrupts_enabled rf" by (simp add: interrupts_disabled)
    then show ?thesis using save(1) step.IH [of i] step.prems by (auto split: if_splits)
  next
    case (draw j f)
    then show ?thesis using step.IH [of i] step.prems by (auto split: if_splits)
  next
    case (pause j f t)
    then show ?thesis using step.IH [of i] step.prems by simp
  next
    case (enter j f t)
    then show ?thesis using step.IH [of i] step.prems by (auto split: if_splits)
  next
    case (pass j f)
    then show ?thesis using step.IH [of i] step.prems by (auto split: if_splits)
  next
    case (restore j f)
    then show ?thesis using step.IH [of i] step.prems by (auto split: if_splits)
  qed
qed

section \<open>Guarantees of the lock\<close>

text \<open>Two processors of a machine: the first holds the lock, the second waits with ticket 1.\<close>

definition lock_demo :: lock_system where
  "lock_demo = \<lparr>sys_lock = \<lparr>ticket = 2, turn = 0\<rparr>,
     sys_pc = (\<lambda>_. Outside)(0 := Holding 0x202, 1 := Spinning 0x202 1),
     sys_rflags = (\<lambda>_. 0x202)(0 := 2, 1 := 2)\<rparr>"

lemma lock_demo_reachable: "lock_reachable 2 (\<lambda>_. 0x202) lock_demo"
proof -
  let ?s0 = "lock_start (\<lambda>_. 0x202)"
  let ?s1 = "?s0\<lparr>sys_pc := (sys_pc ?s0)(0 := Disabled 0x202), sys_rflags := (sys_rflags ?s0)(0 := 2)\<rparr>"
  let ?s2 = "?s1\<lparr>sys_pc := (sys_pc ?s1)(0 := Spinning 0x202 (ticket (sys_lock ?s1))),
    sys_lock := (sys_lock ?s1)\<lparr>ticket := ticket (sys_lock ?s1) + 1\<rparr>\<rparr>"
  let ?s3 = "?s2\<lparr>sys_pc := (sys_pc ?s2)(0 := Holding 0x202)\<rparr>"
  let ?s4 = "?s3\<lparr>sys_pc := (sys_pc ?s3)(1 := Disabled 0x202), sys_rflags := (sys_rflags ?s3)(1 := 2)\<rparr>"
  let ?s5 = "?s4\<lparr>sys_pc := (sys_pc ?s4)(1 := Spinning 0x202 (ticket (sys_lock ?s4))),
    sys_lock := (sys_lock ?s4)\<lparr>ticket := ticket (sys_lock ?s4) + 1\<rparr>\<rparr>"
  have sd: "interrupts_save_and_disable 0x202 = (0x202, 2)"
    by (simp add: interrupts_save_and_disable_def RFLAGS_IF_def)
  have "lock_reachable 2 (\<lambda>_. 0x202) ?s0" by (rule lock_reachable.start)
  moreover have "lock_step 2 ?s0 ?s1" using sd by (intro lock_step.save) (simp_all add: lock_start_def)
  moreover have "lock_step 2 ?s1 ?s2" by (intro lock_step.draw) (simp_all add: lock_start_def)
  moreover have "lock_step 2 ?s2 ?s3"
    by (rule lock_step.enter) (simp_all add: lock_start_def SPINLOCK_IRQ_INIT_def)
  moreover have "lock_step 2 ?s3 ?s4" using sd by (intro lock_step.save) (simp_all add: lock_start_def)
  moreover have "lock_step 2 ?s4 ?s5" by (intro lock_step.draw) (simp_all add: lock_start_def)
  ultimately have "lock_reachable 2 (\<lambda>_. 0x202) ?s5" by (meson lock_reachable.step)
  also have "?s5 = lock_demo"
    by (simp add: lock_demo_def lock_start_def SPINLOCK_IRQ_INIT_def fun_eq_iff)
  finally show ?thesis .
qed

text \<open>
  C5: mutual exclusion. In every interleaving of the steps of fewer than \<open>2 ^ 64\<close> processors at
  most one of them is between the end of \<open>spinlock_irq_acquire\<close> and the increment of \<open>turn\<close> in
  \<open>spinlock_irq_release\<close>, although the 64-bit tickets may wrap around.
\<close>

theorem spinlock_mutual_exclusion:
  assumes "lock_reachable n rfs s" and "n < 2 ^ 64"
    and "sys_pc s i = Holding f" and "sys_pc s j = Holding g"
  shows "i = j"
  using lock_reachable_queue [OF assms(1,2)] lock_queue_holder assms(3,4) by metis

theorem spinlock_mutual_exclusion_witness: "sys_pc lock_demo 1 \<noteq> Holding 0x202"
  using spinlock_mutual_exclusion [OF lock_demo_reachable, of 0 "0x202" 1 "0x202"] by (auto simp: lock_demo_def)

text \<open>
  C15: the lock is first come, first served. Every step of the lock from a reachable state is a
  step of a queue (join at the end, leave at the front, or no change) under the relation
  \<open>lock_queue\<close>, which puts the processor that holds the lock at the front and gives the
  contenders consecutive tickets.
\<close>

theorem spinlock_refines_queue:
  assumes "lock_reachable n rfs s" and "n < 2 ^ 64" and "lock_step n s s'"
  shows "\<exists>q q'. lock_queue n s q \<and> queue_step q q' \<and> lock_queue n s' q' \<and>
    (\<forall>i f. sys_pc s i = Holding f \<longrightarrow> q \<noteq> [] \<and> i = hd q)"
  using lock_reachable_queue [OF assms(1,2)] lock_step_simulates_queue [OF assms(3) _ assms(2)]
    lock_queue_holder by blast

theorem spinlock_refines_queue_witness:
  "\<exists>q q'. lock_queue 2 lock_demo q \<and> queue_step q q' \<and> lock_queue 2 lock_demo q' \<and> q \<noteq> [] \<and> 0 = hd q"
proof -
  have st: "lock_step 2 lock_demo lock_demo"
    by (rule lock_step.pause [of 1 2 lock_demo "0x202" 1]) (simp_all add: lock_demo_def)
  have pc: "sys_pc lock_demo 0 = Holding 0x202" by (simp add: lock_demo_def)
  have "(2::nat) < 2 ^ 64" by simp
  from spinlock_refines_queue [OF lock_demo_reachable this st] pc show ?thesis by metis
qed

text \<open>
  C30: the lock is never stuck. Whenever some processor contends for it, one processor either
  holds it or waits with the ticket whose turn it is, so its next look at \<open>turn\<close> ends the loop.
\<close>

theorem spinlock_progress:
  assumes "lock_reachable n rfs s" and "n < 2 ^ 64" and "contends (sys_pc s i)"
  shows "\<exists>j<n. \<exists>f. sys_pc s j = Holding f \<or>
    (sys_pc s j = Spinning f (turn (sys_lock s)) \<and> lock_step n s (s\<lparr>sys_pc := (sys_pc s)(j := Holding f)\<rparr>))"
proof -
  obtain q where q: "lock_queue n s q" using lock_reachable_queue [OF assms(1,2)] by blast
  with assms(3) have "q \<noteq> []" by (auto simp: lock_queue_def)
  then obtain j q' where jq: "q = j # q'" by (cases q) auto
  then have j: "j < n" using q by (auto simp: lock_queue_def)
  from lock_queue_progress [OF q [unfolded jq]] show ?thesis
    using j lock_step.enter [of j n s] by blast
qed

theorem spinlock_progress_witness:
  "\<exists>j<2. \<exists>f. sys_pc lock_demo j = Holding f \<or>
    (sys_pc lock_demo j = Spinning f (turn (sys_lock lock_demo)) \<and>
     lock_step 2 lock_demo (lock_demo\<lparr>sys_pc := (sys_pc lock_demo)(j := Holding f)\<rparr>))"
  by (rule spinlock_progress [OF lock_demo_reachable, of 1]) (simp_all add: lock_demo_def)

text \<open>
  Interrupts are masked on a processor from before it draws its ticket until after it has
  passed the lock on, so an interrupt handler that takes the same lock cannot deadlock
  against the code it interrupted.
\<close>

theorem spinlock_masks_interrupts:
  assumes "lock_reachable n rfs s" and "sys_pc s i \<noteq> Outside"
  shows "\<not> interrupts_enabled (sys_rflags s i)"
  using assms by (rule lock_reachable_masked)

theorem spinlock_masks_interrupts_witness: "\<not> interrupts_enabled (sys_rflags lock_demo 1)"
  by (rule spinlock_masks_interrupts [OF lock_demo_reachable]) (simp add: lock_demo_def)

end
