(* ===== verification/Pmm.thy ===== *)
theory Pmm
  imports Dll Spinlock
begin

text \<open>
  The physical memory manager of \<open>kernel/src/memory/pmm.c\<close>: a buddy allocator over
  the array \<open>buddy_memmap\<close> of page descriptors, with one free list per block order.
  The descriptors are a list indexed by page frame number; their \<open>link\<close> fields and
  the list heads in \<open>free_areas\<close> live in a heap of list nodes (theory \<open>Dll\<close>), whose
  addresses are the values of \<open>link_ptr\<close>. Frame numbers and orders are natural numbers
  (they never leave \<open>0..2^52\<close> and \<open>0..52\<close>); addresses, sizes, statistics and reference
  counts keep their C width.
\<close>

section \<open>Constants and state\<close>

definition PMM_PAGE_SIZE :: u64 where "PMM_PAGE_SIZE = 4096"
definition PMM_MAX_ORDER :: nat where "PMM_MAX_ORDER = 11"

definition PMM_FLAG_FREE :: u32 where "PMM_FLAG_FREE = 1"
definition PMM_FLAG_USED :: u32 where "PMM_FLAG_USED = push_bit 1 1"
definition PMM_FLAG_RESERVED :: u32 where "PMM_FLAG_RESERVED = push_bit 2 1"

text \<open>Where a list node lives: in \<open>free_areas[k].head\<close> or in \<open>buddy_memmap[p].link\<close>.\<close>

datatype link_ptr = LinkNull | AreaHead nat | PageLink nat

record pmm_page =
  flags :: u32
  ref_count :: u32
  page_order :: nat

record pmm =
  buddy_memmap :: "pmm_page list"
  pmm_links :: "link_ptr ll_heap"
  nr_free :: "u64 list"
  used_pages :: u64
  totalPages :: u64
  highestAddr :: u64
  pmm_lock :: spinlock_irq
  cpu_rflags :: u64

section \<open>Access to the page descriptors and the free areas\<close>

definition pfn_to_page :: "pmm \<Rightarrow> nat \<Rightarrow> nat option" where
  "pfn_to_page s pfn = (if unat (totalPages s) \<le> pfn then None else Some pfn)"

definition page_to_phys :: "nat \<Rightarrow> u64" where
  "page_to_phys page = of_nat page * PMM_PAGE_SIZE"

definition phys_to_page :: "pmm \<Rightarrow> u64 \<Rightarrow> nat option" where
  "phys_to_page s phys = pfn_to_page s (unat (phys div PMM_PAGE_SIZE))"

definition is_page_free :: "pmm_page \<Rightarrow> bool" where
  "is_page_free page \<longleftrightarrow> flags page AND PMM_FLAG_FREE \<noteq> 0"

definition is_page_used :: "pmm_page \<Rightarrow> bool" where
  "is_page_used page \<longleftrightarrow> flags page AND PMM_FLAG_USED \<noteq> 0"

definition read_page :: "pmm \<Rightarrow> nat \<Rightarrow> pmm_page outcome" where
  "read_page s p = (if p < length (buddy_memmap s) then Ok (buddy_memmap s ! p) else Fault)"

definition modify_page :: "nat \<Rightarrow> (pmm_page \<Rightarrow> pmm_page) \<Rightarrow> pmm \<Rightarrow> pmm outcome" where
  "modify_page p f s =
     (if p < length (buddy_memmap s)
      then Ok (s\<lparr>buddy_memmap := (buddy_memmap s)[p := f (buddy_memmap s ! p)]\<rparr>) else Fault)"

definition modify_nr_free :: "nat \<Rightarrow> (u64 \<Rightarrow> u64) \<Rightarrow> pmm \<Rightarrow> pmm outcome" where
  "modify_nr_free k f s =
     (if k < length (nr_free s)
      then Ok (s\<lparr>nr_free := (nr_free s)[k := f (nr_free s ! k)]\<rparr>) else Fault)"

definition modify_links :: "(link_ptr ll_heap \<Rightarrow> link_ptr ll_heap outcome) \<Rightarrow> pmm \<Rightarrow> pmm outcome" where
  "modify_links f s = obind (f (pmm_links s)) (\<lambda>l. Ok (s\<lparr>pmm_links := l\<rparr>))"

text \<open>\<open>pmm_lock\<close> is taken and given back around every access to these structures.\<close>

definition pmm_acquire :: "pmm \<Rightarrow> (u64 \<times> pmm) outcome" where
  "pmm_acquire s =
     obind (lock_acquire (pmm_lock s) (cpu_rflags s)) (\<lambda>(l, irq_flags, rf).
     Ok (irq_flags, s\<lparr>pmm_lock := l, cpu_rflags := rf\<rparr>))"

definition pmm_release :: "u64 \<Rightarrow> pmm \<Rightarrow> pmm" where
  "pmm_release irq_flags s =
     (let (l, rf) = lock_release (pmm_lock s) irq_flags in s\<lparr>pmm_lock := l, cpu_rflags := rf\<rparr>)"

section \<open>Freeing a block\<close>

text \<open>
  The coalescing loop of \<open>pmm_free_pages\<close>. In the source \<open>page\<close> is always
  \<open>&buddy_memmap[pfn]\<close>, so the loop variables are the frame number and the order.
\<close>

function coalesce :: "pmm \<Rightarrow> nat \<Rightarrow> nat \<Rightarrow> (pmm \<times> nat \<times> nat) outcome" where
  "coalesce s pfn order =
     (if order < PMM_MAX_ORDER - 1 then
        let buddy_pfn = pfn XOR push_bit order 1 in
        case pfn_to_page s buddy_pfn of
          None \<Rightarrow> Ok (s, pfn, order)
        | Some buddy_page \<Rightarrow>
            if unat (totalPages s) \<le> buddy_pfn then Ok (s, pfn, order)
            else obind (read_page s buddy_page) (\<lambda>buddy.
              if \<not> is_page_free buddy \<or> page_order buddy \<noteq> order then Ok (s, pfn, order)
              else
                obind (modify_links (dll_delete (PageLink buddy_page)) s) (\<lambda>s.
                obind (modify_nr_free order (\<lambda>n. n - 1) s) (\<lambda>s.
                obind (modify_page buddy_page (\<lambda>p. p\<lparr>page_order := 0\<rparr>) s) (\<lambda>s.
                coalesce s (if buddy_pfn < pfn then buddy_pfn else pfn) (order + 1)))))
      else Ok (s, pfn, order))"
  by pat_completeness auto
termination
  by (relation "measure (\<lambda>(s, pfn, order). PMM_MAX_ORDER - order)") (auto simp: PMM_MAX_ORDER_def)

declare coalesce.simps [simp del]

text \<open>The part of \<open>pmm_free_pages\<close> from the coalescing loop to the release of the lock.\<close>

definition free_block :: "pmm \<Rightarrow> nat \<Rightarrow> nat \<Rightarrow> pmm outcome" where
  "free_block s pfn order =
     obind (coalesce s pfn order) (\<lambda>(s, pfn, order).
     obind (modify_page pfn
       (\<lambda>p. p\<lparr>page_order := order, flags := PMM_FLAG_FREE, ref_count := 0\<rparr>) s) (\<lambda>s.
     obind (modify_links (dll_add_after (AreaHead order) (PageLink pfn)) s) (\<lambda>s.
     obind (modify_nr_free order (\<lambda>n. n + 1) s) (\<lambda>s.
     Ok (s\<lparr>used_pages := used_pages s - push_bit order 1\<rparr>)))))"

definition pmm_free_pages :: "pmm \<Rightarrow> u64 \<Rightarrow> nat \<Rightarrow> pmm outcome" where
  "pmm_free_pages s phys order =
     (if phys mod PMM_PAGE_SIZE \<noteq> 0 then Ok s
      else obind (pmm_acquire s) (\<lambda>(irq_flags, s).
        let pfn = unat (phys div PMM_PAGE_SIZE) in
        case pfn_to_page s pfn of
          None \<Rightarrow> Ok (pmm_release irq_flags s)
        | Some page \<Rightarrow> obind (free_block s page order) (\<lambda>s. Ok (pmm_release irq_flags s))))"

section \<open>Allocating a block\<close>

function find_free_order :: "pmm \<Rightarrow> nat \<Rightarrow> nat option outcome" where
  "find_free_order s current_order =
     (if current_order < PMM_MAX_ORDER then
        obind (dll_empty (AreaHead current_order) (pmm_links s)) (\<lambda>e.
        if \<not> e then Ok (Some current_order) else find_free_order s (current_order + 1))
      else Ok None)"
  by pat_completeness auto
termination
  by (relation "measure (\<lambda>(s, k). PMM_MAX_ORDER - k)") auto

declare find_free_order.simps [simp del]

text \<open>The splitting loop. A missing buddy page would be a null pointer, which it dereferences.\<close>

function split_block :: "pmm \<Rightarrow> nat \<Rightarrow> nat \<Rightarrow> nat \<Rightarrow> pmm outcome" where
  "split_block s page current_order order =
     (if current_order > order then
        let current_order = current_order - 1;
            buddy_pfn = page XOR push_bit current_order 1 in
        case pfn_to_page s buddy_pfn of
          None \<Rightarrow> Fault
        | Some buddy_page \<Rightarrow>
            obind (modify_page buddy_page
              (\<lambda>p. p\<lparr>page_order := current_order, flags := PMM_FLAG_FREE, ref_count := 0\<rparr>) s) (\<lambda>s.
            obind (modify_links (dll_add_after (AreaHead current_order) (PageLink buddy_page)) s) (\<lambda>s.
            obind (modify_nr_free current_order (\<lambda>n. n + 1) s) (\<lambda>s.
            split_block s page current_order order)))
      else Ok s)"
  by pat_completeness auto
termination
  by (relation "measure (\<lambda>(s, page, c, order). c)") auto

declare split_block.simps [simp del]

text \<open>\<open>container_of\<close>: the page descriptor a node is embedded in.\<close>

definition node_to_page :: "link_ptr \<Rightarrow> nat outcome" where
  "node_to_page node = (case node of PageLink p \<Rightarrow> Ok p | _ \<Rightarrow> Fault)"

definition alloc_block :: "pmm \<Rightarrow> nat \<Rightarrow> (nat option \<times> pmm) outcome" where
  "alloc_block s order =
     obind (find_free_order s order) (\<lambda>found.
     case found of
       None \<Rightarrow> Ok (None, s)
     | Some current_order \<Rightarrow>
         obind (read_next (AreaHead current_order) (pmm_links s)) (\<lambda>node.
         obind (modify_links (dll_delete node) s) (\<lambda>s.
         obind (modify_nr_free current_order (\<lambda>n. n - 1) s) (\<lambda>s.
         obind (node_to_page node) (\<lambda>page.
         obind (split_block s page current_order order) (\<lambda>s.
         obind (modify_page page
           (\<lambda>p. p\<lparr>flags := PMM_FLAG_USED, ref_count := 1, page_order := order\<rparr>) s) (\<lambda>s.
         Ok (Some page, s\<lparr>used_pages := used_pages s + push_bit order 1\<rparr>))))))))"

definition pmm_alloc_pages :: "pmm \<Rightarrow> nat \<Rightarrow> (u64 \<times> pmm) outcome" where
  "pmm_alloc_pages s order =
     (if order \<ge> PMM_MAX_ORDER then Ok (0, s)
      else obind (pmm_acquire s) (\<lambda>(irq_flags, s).
        obind (alloc_block s order) (\<lambda>(page, s).
        case page of
          None \<Rightarrow> Ok (0, pmm_release irq_flags s)
        | Some page \<Rightarrow> Ok (page_to_phys page, pmm_release irq_flags s))))"

function order_loop :: "nat \<Rightarrow> nat \<Rightarrow> nat" where
  "order_loop order pages_needed =
     (if 2 ^ order < pages_needed then order_loop (order + 1) pages_needed else order)"
  by pat_completeness auto
termination
proof (relation "measure (\<lambda>(order, pages). pages - order)")
  fix order pages :: nat
  assume "2 ^ order < pages"
  then have "order < pages" using less_exp [of order] by linarith
  then show "((order + 1, pages), order, pages) \<in> measure (\<lambda>(order, pages). pages - order)"
    by simp
qed simp

declare order_loop.simps [simp del]

definition pmm_get_order_from_size :: "u64 \<Rightarrow> nat" where
  "pmm_get_order_from_size sz =
     (let pages_needed = unat (sz div PMM_PAGE_SIZE);
          pages_needed = (if sz mod PMM_PAGE_SIZE \<noteq> 0 then pages_needed + 1 else pages_needed)
      in order_loop 0 pages_needed)"

definition pmm_alloc :: "pmm \<Rightarrow> u64 \<Rightarrow> (u64 \<times> pmm) outcome" where
  "pmm_alloc s sz =
     (let order = pmm_get_order_from_size sz in
      if order \<ge> PMM_MAX_ORDER then Ok (0, s) else pmm_alloc_pages s order)"

definition pmm_free :: "pmm \<Rightarrow> u64 \<Rightarrow> u64 \<Rightarrow> pmm outcome" where
  "pmm_free s physAddr len = pmm_free_pages s physAddr (pmm_get_order_from_size len)"

section \<open>Reference counts\<close>

definition pmm_page_inc_ref :: "pmm \<Rightarrow> u64 \<Rightarrow> pmm outcome" where
  "pmm_page_inc_ref s phys =
     obind (pmm_acquire s) (\<lambda>(irq_flags, s).
     case phys_to_page s phys of
       None \<Rightarrow> Ok (pmm_release irq_flags s)
     | Some page \<Rightarrow>
         obind (read_page s page) (\<lambda>p.
         if is_page_used p
         then obind (modify_page page (\<lambda>p. p\<lparr>ref_count := ref_count p + 1\<rparr>) s) (\<lambda>s.
              Ok (pmm_release irq_flags s))
         else Ok (pmm_release irq_flags s)))"

definition pmm_page_dec_ref :: "pmm \<Rightarrow> u64 \<Rightarrow> pmm outcome" where
  "pmm_page_dec_ref s phys =
     obind (pmm_acquire s) (\<lambda>(irq_flags, s).
     case phys_to_page s phys of
       None \<Rightarrow> Ok (pmm_release irq_flags s)
     | Some page \<Rightarrow>
         obind (read_page s page) (\<lambda>p.
         if is_page_used p
         then obind (modify_page page (\<lambda>p. p\<lparr>ref_count := ref_count p - 1\<rparr>) s) (\<lambda>s.
              obind (read_page s page) (\<lambda>p.
              if ref_count p = 0
              then (let s = pmm_release irq_flags s in pmm_free_pages s phys (page_order p))
              else Ok (pmm_release irq_flags s)))
         else Ok (pmm_release irq_flags s)))"

definition pmm_getHighestAddr :: "pmm \<Rightarrow> u64" where
  "pmm_getHighestAddr s = highestAddr s"

end
