(* ===== verification/Buddy.thy ===== *)
theory Buddy
  imports Prelude
begin

text \<open>
  Arithmetic of buddy blocks, independent of any state. A block of order \<open>k\<close> at frame
  \<open>b\<close> covers \<open>2^k\<close> frames and starts at a multiple of \<open>2^k\<close>; its buddy is found by
  flipping bit \<open>k\<close> of \<open>b\<close>.
\<close>

definition block :: "nat \<Rightarrow> nat \<Rightarrow> nat set" where
  "block b k = {b..<b + 2 ^ k}"

definition aligned :: "nat \<Rightarrow> nat \<Rightarrow> bool" where
  "aligned b k \<longleftrightarrow> 2 ^ k dvd b"

definition buddy_of :: "nat \<Rightarrow> nat \<Rightarrow> nat" where
  "buddy_of b k = b XOR push_bit k 1"

lemma mem_block [simp]: "x \<in> block b k \<longleftrightarrow> b \<le> x \<and> x < b + 2 ^ k"
  by (auto simp: block_def)

lemma finite_block [simp]: "finite (block b k)"
  by (simp add: block_def)

lemma card_block [simp]: "card (block b k) = 2 ^ k"
  by (simp add: block_def)

lemma aligned_mono: "aligned b k \<Longrightarrow> j \<le> k \<Longrightarrow> aligned b j"
  unfolding aligned_def by (meson dvd_trans le_imp_power_dvd)

lemma aligned_le: "aligned b k \<Longrightarrow> \<not> aligned b (Suc k) \<Longrightarrow> 2 ^ k \<le> b"
  by (cases "b = 0") (auto simp: aligned_def dvd_imp_le)

lemma aligned_odd:
  assumes "aligned b k" and "\<not> aligned b (Suc k)"
  shows "aligned (b - 2 ^ k) (Suc k)"
proof -
  obtain m where m: "b = 2 ^ k * m" using assms(1) by (auto simp: aligned_def dvd_def)
  have "odd m" using assms(2) m by (auto simp: aligned_def)
  then obtain n where "m = 2 * n + 1" by (elim oddE)
  then have "b - 2 ^ k = 2 ^ Suc k * n" using m by (simp add: algebra_simps)
  then show ?thesis by (simp add: aligned_def)
qed

lemma aligned_xor_add:
  assumes "aligned c (Suc k)"
  shows "c XOR push_bit k 1 = c + 2 ^ k"
proof -
  have "\<not> bit c k"
    using assms by (auto simp: aligned_def bit_iff_odd dvd_div_iff_mult dvd_def)
  then have "flip_bit k c = c + 2 ^ k"
    by (simp add: flip_bit_eq_if set_bit_eq)
  then show ?thesis by (simp only: flip_bit_eq_xor)
qed

lemma buddy_of_eq:
  assumes "aligned b k"
  shows "buddy_of b k = (if aligned b (Suc k) then b + 2 ^ k else b - 2 ^ k)"
proof (cases "aligned b (Suc k)")
  case True
  then show ?thesis using aligned_xor_add [of b k] by (simp add: buddy_of_def)
next
  case False
  let ?c = "b - 2 ^ k"
  have "?c XOR push_bit k 1 = b"
    using aligned_xor_add [OF aligned_odd [OF assms False]] aligned_le [OF assms False] by simp
  then have "b XOR push_bit k 1 = (?c XOR push_bit k 1) XOR push_bit k 1" by simp
  then have "b XOR push_bit k 1 = ?c" by (simp only: xor.assoc xor_self_eq xor.right_neutral)
  then show ?thesis using False by (simp add: buddy_of_def)
qed

lemma aligned_buddy: "aligned b k \<Longrightarrow> aligned (buddy_of b k) k"
  unfolding buddy_of_eq by (simp add: aligned_def dvd_diff_nat)

text \<open>A block and its buddy are disjoint and make up the block of the next order.\<close>

lemma minus_pow_less: "2 ^ k \<le> (b::nat) \<Longrightarrow> b - 2 ^ k < b"
  by (metis diff_less less_le_trans zero_less_numeral zero_less_power)

lemma buddy_min_aligned:
  "aligned b k \<Longrightarrow> aligned (if buddy_of b k < b then buddy_of b k else b) (Suc k)"
  using aligned_odd [of b k] aligned_le [of b k] by (simp add: buddy_of_eq minus_pow_less)

lemma buddy_union:
  "aligned b k \<Longrightarrow>
   block b k \<union> block (buddy_of b k) k = block (if buddy_of b k < b then buddy_of b k else b) (Suc k)"
  using aligned_le [of b k] by (auto simp: buddy_of_eq)

lemma buddy_disjoint: "aligned b k \<Longrightarrow> block b k \<inter> block (buddy_of b k) k = {}"
  using aligned_le [of b k] by (auto simp: buddy_of_eq)

lemma buddy_neq: "aligned b k \<Longrightarrow> buddy_of b k \<noteq> b"
  using aligned_le [of b k] minus_pow_less [of k b] by (auto simp: buddy_of_eq)

lemma buddy_buddy: "buddy_of (buddy_of b k) k = b"
  by (simp add: buddy_of_def xor.assoc)

text \<open>Two aligned blocks are nested or disjoint.\<close>

lemma aligned_nested:
  assumes "aligned b j" and "aligned c k" and "j \<le> k" and "block b j \<inter> block c k \<noteq> {}"
  shows "block b j \<subseteq> block c k"
proof -
  obtain x where x: "b \<le> x" "x < b + 2 ^ j" "c \<le> x" "x < c + 2 ^ k" using assms(4) by auto
  obtain m n where b: "b = 2 ^ j * m" and c: "c = 2 ^ k * n"
    using assms(1,2) by (auto simp: aligned_def dvd_def)
  obtain d where k: "(2::nat) ^ k = 2 ^ j * 2 ^ d" using assms(3) by (metis le_add_diff_inverse power_add)
  have "x div 2 ^ j = m" using x b by (simp add: div_nat_eqI)
  moreover have "2 ^ d * n \<le> x div 2 ^ j" using x(3) c k by (simp add: less_eq_div_iff_mult_less_eq mult.commute mult.left_commute)
  moreover have "x div 2 ^ j < 2 ^ d * n + 2 ^ d"
    using x(4) c k by (simp add: less_mult_imp_div_less algebra_simps)
  ultimately have "2 ^ d * n \<le> m" "Suc m \<le> 2 ^ d * n + 2 ^ d" by auto
  then have "2 ^ j * (2 ^ d * n) \<le> 2 ^ j * m" "2 ^ j * Suc m \<le> 2 ^ j * (2 ^ d * n + 2 ^ d)"
    by (simp_all only: mult_le_mono2)
  then have "c \<le> b" "b + 2 ^ j \<le> c + 2 ^ k" using b c k by (simp_all add: algebra_simps)
  then show ?thesis by auto
qed

text \<open>The buddy of a block is never strictly inside a block that leaves the block itself out.\<close>

lemma buddy_not_interior:
  assumes "aligned p k" and "aligned b j" and "b < buddy_of p k" and "buddy_of p k < b + 2 ^ j"
  shows "p \<in> block b j"
proof (cases "j \<le> k")
  case True
  have "aligned (buddy_of p k) j" using aligned_mono [OF aligned_buddy [OF assms(1)] True] .
  moreover have "aligned b j" by fact
  ultimately have "2 ^ j dvd buddy_of p k - b" by (simp add: aligned_def dvd_diff_nat)
  moreover have "0 < buddy_of p k - b" "buddy_of p k - b < 2 ^ j" using assms(3,4) by auto
  ultimately show ?thesis using nat_dvd_not_less by blast
next
  case False
  let ?m = "if buddy_of p k < p then buddy_of p k else p"
  have sub: "block ?m (Suc k) \<subseteq> block b j"
  proof (rule aligned_nested [OF buddy_min_aligned [OF assms(1)] assms(2)])
    show "Suc k \<le> j" using False by simp
    have "buddy_of p k \<in> block (buddy_of p k) k" by simp
    then have "buddy_of p k \<in> block ?m (Suc k)" using buddy_union [OF assms(1)] by blast
    moreover have "buddy_of p k \<in> block b j" using assms(3,4) by simp
    ultimately show "block ?m (Suc k) \<inter> block b j \<noteq> {}" by blast
  qed
  have "p \<in> block p k" by simp
  then have "p \<in> block ?m (Suc k)"
    using buddy_union [OF assms(1)] by blast
  with sub show ?thesis by blast
qed

section \<open>Sets of disjoint blocks\<close>

text \<open>
  A set of pairs \<open>(b, k)\<close> describes the blocks in play below frame \<open>N\<close>. Two different
  pairs denote disjoint blocks.
\<close>

definition blocks_ok :: "nat \<Rightarrow> nat \<Rightarrow> (nat \<times> nat) set \<Rightarrow> bool" where
  "blocks_ok M N B \<longleftrightarrow>
     (\<forall>b k. (b, k) \<in> B \<longrightarrow> k < M \<and> aligned b k \<and> b + 2 ^ k \<le> N) \<and>
     (\<forall>b k c j. (b, k) \<in> B \<longrightarrow> (c, j) \<in> B \<longrightarrow> (b, k) \<noteq> (c, j) \<longrightarrow> block b k \<inter> block c j = {})"

definition frames :: "(nat \<times> nat) set \<Rightarrow> nat set" where
  "frames B = (\<Union>(b, k)\<in>B. block b k)"

definition interior :: "(nat \<times> nat) set \<Rightarrow> nat \<Rightarrow> bool" where
  "interior B r \<longleftrightarrow> (\<exists>b k. (b, k) \<in> B \<and> b < r \<and> r < b + 2 ^ k)"

lemma blocks_okD:
  "blocks_ok M N B \<Longrightarrow> (b, k) \<in> B \<Longrightarrow> k < M \<and> aligned b k \<and> b + 2 ^ k \<le> N"
  unfolding blocks_ok_def by blast

lemma blocks_ok_disjoint:
  "blocks_ok M N B \<Longrightarrow> (b, k) \<in> B \<Longrightarrow> (c, j) \<in> B \<Longrightarrow> (b, k) \<noteq> (c, j) \<Longrightarrow>
   block b k \<inter> block c j = {}"
  unfolding blocks_ok_def by blast

lemma blocks_ok_head:
  assumes "blocks_ok M N B" and "(b, k) \<in> B" and "(b, j) \<in> B"
  shows "j = k"
  using blocks_ok_disjoint [OF assms] by (auto simp: block_def)

lemma blocks_ok_bound: "blocks_ok M N B \<Longrightarrow> (b, k) \<in> B \<Longrightarrow> b < N"
proof -
  assume "blocks_ok M N B" "(b, k) \<in> B"
  then have "b + 2 ^ k \<le> N" using blocks_okD by blast
  moreover have "(0::nat) < 2 ^ k" by simp
  ultimately show "b < N" by linarith
qed

lemma blocks_ok_subset: "blocks_ok M N B \<Longrightarrow> C \<subseteq> B \<Longrightarrow> blocks_ok M N C"
  unfolding blocks_ok_def by blast

lemma blocks_ok_insert:
  "blocks_ok M N (insert (p, k) B) \<longleftrightarrow>
     (k < M \<and> aligned p k \<and> p + 2 ^ k \<le> N) \<and> blocks_ok M N B \<and>
     (\<forall>c j. (c, j) \<in> B \<longrightarrow> (c, j) \<noteq> (p, k) \<longrightarrow> block p k \<inter> block c j = {})"
proof
  assume ok: "blocks_ok M N (insert (p, k) B)"
  then show "(k < M \<and> aligned p k \<and> p + 2 ^ k \<le> N) \<and> blocks_ok M N B \<and>
     (\<forall>c j. (c, j) \<in> B \<longrightarrow> (c, j) \<noteq> (p, k) \<longrightarrow> block p k \<inter> block c j = {})"
    using blocks_okD [OF ok, of p k] blocks_ok_subset [OF ok, of B] blocks_ok_disjoint [OF ok, of p k]
    by (simp add: subset_insertI) blast
next
  assume "(k < M \<and> aligned p k \<and> p + 2 ^ k \<le> N) \<and> blocks_ok M N B \<and>
     (\<forall>c j. (c, j) \<in> B \<longrightarrow> (c, j) \<noteq> (p, k) \<longrightarrow> block p k \<inter> block c j = {})"
  then show "blocks_ok M N (insert (p, k) B)"
    unfolding blocks_ok_def by (metis Int_commute Pair_inject insert_iff)
qed

lemma frames_insert: "frames (insert (p, k) B) = block p k \<union> frames B"
  by (simp add: frames_def)

lemma frames_Un: "frames (B \<union> C) = frames B \<union> frames C"
  by (simp add: frames_def)

lemma interior_mono: "interior B r \<Longrightarrow> B \<subseteq> C \<Longrightarrow> interior C r"
  unfolding interior_def by blast

lemma interior_insert:
  "interior (insert (p, k) B) r \<longleftrightarrow> p < r \<and> r < p + 2 ^ k \<or> interior B r"
  unfolding interior_def by blast

text \<open>Merging a block with its buddy, and splitting a block into two.\<close>

lemma blocks_ok_merge:
  assumes ok: "blocks_ok M N (insert (p, k) (insert (q, k) B))" and q: "q = buddy_of p k"
    and fresh: "(p, k) \<notin> B" "(q, k) \<notin> B" and M: "Suc k < M"
    and m: "m = (if q < p then q else p)"
  shows "blocks_ok M N (insert (m, Suc k) B)" and "(m, Suc k) \<notin> B"
    and "block m (Suc k) = block p k \<union> block q k"
proof -
  have al: "aligned p k" using blocks_okD [OF ok] by blast
  show un: "block m (Suc k) = block p k \<union> block q k" using buddy_union [OF al] q m by simp
  have disj: "block m (Suc k) \<inter> block c j = {}" if "(c, j) \<in> B" for c j
  proof -
    have "block p k \<inter> block c j = {}" using blocks_ok_disjoint [OF ok, of p k c j] that fresh by auto
    moreover have "block q k \<inter> block c j = {}" using blocks_ok_disjoint [OF ok, of q k c j] that fresh by auto
    ultimately show ?thesis using un by blast
  qed
  have "m \<in> block m (Suc k)" by simp
  then show fresh': "(m, Suc k) \<notin> B" using disj by blast
  have le: "p + 2 ^ k \<le> N" "q + 2 ^ k \<le> N" using blocks_okD [OF ok] by blast+
  have "m + 2 ^ Suc k \<le> N"
    using buddy_of_eq [OF al] aligned_le [OF al] q m le by (auto split: if_splits)
  moreover have "aligned m (Suc k)" using buddy_min_aligned [OF al] unfolding m q .
  moreover have "blocks_ok M N B" by (rule blocks_ok_subset [OF ok]) auto
  ultimately show "blocks_ok M N (insert (m, Suc k) B)"
    using disj M by (simp add: blocks_ok_insert)
qed

lemma blocks_ok_split:
  assumes ok: "blocks_ok M N (insert (p, Suc k) B)" and fresh: "(p, Suc k) \<notin> B"
  shows "blocks_ok M N (insert (p, k) (insert (buddy_of p k, k) B))"
    and "buddy_of p k = p + 2 ^ k" and "(p, k) \<notin> B" and "(buddy_of p k, k) \<notin> B"
    and "block p (Suc k) = block p k \<union> block (buddy_of p k) k"
proof -
  have al: "aligned p (Suc k)" and le: "p + 2 ^ Suc k \<le> N" and M: "Suc k < M"
    using blocks_okD [OF ok, of p "Suc k"] by auto
  have al': "aligned p k" using aligned_mono [OF al] by simp
  show q: "buddy_of p k = p + 2 ^ k" using buddy_of_eq [OF al'] al by simp
  show un: "block p (Suc k) = block p k \<union> block (buddy_of p k) k" using q by auto
  have disj: "block p (Suc k) \<inter> block c j = {}" if "(c, j) \<in> B" for c j
    using blocks_ok_disjoint [OF ok, of p "Suc k" c j] that fresh by auto
  have "p \<in> block p (Suc k) \<inter> block p k" "p + 2 ^ k \<in> block p (Suc k) \<inter> block (p + 2 ^ k) k"
    by simp_all
  then show "(p, k) \<notin> B" "(buddy_of p k, k) \<notin> B"
    unfolding q using disj by blast+
  have "blocks_ok M N B" by (rule blocks_ok_subset [OF ok]) auto
  moreover have "aligned (buddy_of p k) k" using aligned_buddy [OF al'] .
  moreover have "block p k \<inter> block (buddy_of p k) k = {}" using buddy_disjoint [OF al'] .
  moreover have "block p k \<inter> block c j = {}" "block (buddy_of p k) k \<inter> block c j = {}"
    if "(c, j) \<in> B" for c j using disj [OF that] un by blast+
  moreover have "buddy_of p k + 2 ^ k \<le> N" "p + 2 ^ k \<le> N" "k < M" using q le M by simp_all
  ultimately show "blocks_ok M N (insert (p, k) (insert (buddy_of p k, k) B))"
    using al' by (simp add: blocks_ok_insert)
qed

text \<open>A free flag on the buddy's descriptor can only belong to a block headed there.\<close>

lemma buddy_interior:
  assumes ok: "blocks_ok M N (insert (p, k) B)" and fresh: "(p, k) \<notin> B"
  shows "\<not> interior (insert (p, k) B) (buddy_of p k)"
proof
  assume "interior (insert (p, k) B) (buddy_of p k)"
  moreover have al: "aligned p k" using blocks_okD [OF ok] by blast
  moreover have "\<not> (p < buddy_of p k \<and> buddy_of p k < p + 2 ^ k)"
    using buddy_of_eq [OF al] by auto
  ultimately obtain b j where bj: "(b, j) \<in> B" "b < buddy_of p k" "buddy_of p k < b + 2 ^ j"
    by (auto simp: interior_insert interior_def)
  have "aligned b j" using blocks_okD [OF ok, of b j] bj by blast
  then have "p \<in> block b j" using buddy_not_interior [OF al] bj by blast
  moreover have "block p k \<inter> block b j = {}"
    using blocks_ok_disjoint [OF ok, of p k b j] bj(1) fresh by auto
  moreover have "p \<in> block p k" by simp
  ultimately show False by blast
qed

lemma frames_mono: "B \<subseteq> C \<Longrightarrow> frames B \<subseteq> frames C"
  by (auto simp: frames_def)

lemma block_subset_frames: "(b, k) \<in> B \<Longrightarrow> block b k \<subseteq> frames B"
  by (auto simp: frames_def)

section \<open>Complete merging determines the blocks\<close>

text \<open>
  When no two buddies are both in the set, the set is determined by the frames it covers:
  its members are the largest aligned blocks inside them.
\<close>

definition fully_merged :: "nat \<Rightarrow> (nat \<times> nat) set \<Rightarrow> bool" where
  "fully_merged M B \<longleftrightarrow> (\<forall>b k. Suc k < M \<longrightarrow> (b, k) \<in> B \<longrightarrow> (buddy_of b k, k) \<notin> B)"

lemma block_subset_cases:
  assumes sub: "block c j \<subseteq> block b k"
  shows "(b, k) = (c, j) \<or> Suc j \<le> k"
proof -
  have "card (block c j) \<le> card (block b k)" using sub by (intro card_mono) auto
  then have "j \<le> k" by simp
  moreover have "b = c" if "j = k"
  proof -
    have "block c j = block b k" using sub that by (intro card_subset_eq) auto
    moreover have "c \<in> block c j" "b \<in> block b k" by simp_all
    ultimately have "b \<le> c" "c \<le> b" by (metis mem_block)+
    then show ?thesis by simp
  qed
  ultimately show ?thesis by auto
qed

lemma covered_by_block:
  assumes ok: "blocks_ok M N B" and mg: "fully_merged M B"
  shows "aligned c j \<Longrightarrow> j < M \<Longrightarrow> block c j \<subseteq> frames B \<Longrightarrow> \<exists>b k. (b, k) \<in> B \<and> block c j \<subseteq> block b k"
proof (induction j arbitrary: c)
  case 0
  have "c \<in> frames B" using 0(3) by auto
  then obtain b k where "(b, k) \<in> B" "c \<in> block b k" by (auto simp: frames_def)
  then show ?case by (intro exI [of _ b] exI [of _ k]) auto
next
  case (Suc j)
  let ?d = "buddy_of c j"
  have al: "aligned c j" using aligned_mono [OF Suc.prems(1)] by simp
  have d: "?d = c + 2 ^ j" using buddy_of_eq [OF al] Suc.prems(1) by simp
  have un: "block c (Suc j) = block c j \<union> block ?d j" using d by auto
  obtain b1 k1 where 1: "(b1, k1) \<in> B" "block c j \<subseteq> block b1 k1"
    using Suc.IH [OF al] Suc.prems un by auto
  obtain b2 k2 where 2: "(b2, k2) \<in> B" "block ?d j \<subseteq> block b2 k2"
    using Suc.IH [OF aligned_buddy [OF al]] Suc.prems un by auto
  have whole: "block c (Suc j) \<subseteq> block b k"
    if "(b, k) \<in> B" "Suc j \<le> k" "x \<in> block c (Suc j)" "x \<in> block b k" for b k x
    using aligned_nested [OF Suc.prems(1) _ that(2)] blocks_okD [OF ok that(1)] that(3,4) by blast
  have "c \<in> block c j" "?d \<in> block ?d j" by simp_all
  then have mem: "c \<in> block c (Suc j)" "c \<in> block b1 k1" "?d \<in> block c (Suc j)" "?d \<in> block b2 k2"
    using un 1(2) 2(2) by blast+
  have "Suc j \<le> k1 \<or> Suc j \<le> k2"
    using block_subset_cases [OF 1(2)] block_subset_cases [OF 2(2)] mg 1(1) 2(1) Suc.prems(2)
    by (auto simp: fully_merged_def)
  then show ?case using whole [OF 1(1) _ mem(1,2)] whole [OF 2(1) _ mem(3,4)] 1(1) 2(1) by blast
qed

lemma merged_subset:
  assumes B: "blocks_ok M N B" "fully_merged M B" and C: "blocks_ok M N' C" "fully_merged M C"
    and eq: "frames B = frames C" and bk: "(b, k) \<in> B"
  shows "(b, k) \<in> C"
proof -
  have al: "aligned b k" "k < M" using blocks_okD [OF B(1) bk] by auto
  obtain b' k' where 1: "(b', k') \<in> C" "block b k \<subseteq> block b' k'"
    using covered_by_block [OF C al] block_subset_frames [OF bk] eq by blast
  have al': "aligned b' k'" "k' < M" using blocks_okD [OF C(1) 1(1)] by auto
  obtain b'' k'' where 2: "(b'', k'') \<in> B" "block b' k' \<subseteq> block b'' k''"
    using covered_by_block [OF B al'] block_subset_frames [OF 1(1)] eq by blast
  have "b \<in> block b k" by simp
  then have "(b'', k'') = (b, k)"
    using blocks_ok_disjoint [OF B(1) bk 2(1)] 1(2) 2(2) by blast
  then have "(b', k') = (b, k)"
    using block_subset_cases [OF 1(2)] block_subset_cases [OF 2(2)] by auto
  then show ?thesis using 1(1) by simp
qed

lemma merged_unique:
  assumes "blocks_ok M N B" "fully_merged M B" "blocks_ok M N' C" "fully_merged M C" "frames B = frames C"
  shows "B = C"
  using merged_subset [of M N B N' C] merged_subset [of M N' C N B] assms by auto

end
