(* ===== verification/Pmm_Inv.thy ===== *)
theory Pmm_Inv
  imports Pmm Buddy
begin

text \<open>
  The invariant of the buddy allocator and the proof that freeing and allocating a
  block keep it. The ghost arguments are \<open>F\<close>, the frame numbers on the free list of each
  order, and \<open>B\<close>, the blocks that are handed out (or, inside an operation, in hand).
\<close>

section \<open>The invariant\<close>

definition fblocks :: "(nat \<Rightarrow> nat list) \<Rightarrow> (nat \<times> nat) set" where
  "fblocks F = {(b, k). k < PMM_MAX_ORDER \<and> b \<in> set (F k)}"

text \<open>The linked lists and counters represent \<open>F\<close>.\<close>

definition pmm_rep :: "pmm \<Rightarrow> (nat \<Rightarrow> nat list) \<Rightarrow> bool" where
  "pmm_rep s F \<longleftrightarrow>
     list_family ring {..<PMM_MAX_ORDER} AreaHead (\<lambda>k. map PageLink (F k)) (pmm_links s) \<and>
     (\<forall>p < length (buddy_memmap s). PageLink p \<in> dom (pmm_links s)) \<and>
     length (nr_free s) = PMM_MAX_ORDER \<and>
     (\<forall>k < PMM_MAX_ORDER. nr_free s ! k = of_nat (length (F k))) \<and>
     length (buddy_memmap s) = unat (totalPages s) \<and> unat (totalPages s) \<le> 2 ^ 52"

text \<open>
  The descriptors agree with the blocks. A descriptor with the free flag heads a free
  block, or lies strictly inside some block (coalescing leaves the flags of absorbed
  descriptors behind), or is one of the exempted heads \<open>X\<close>.
\<close>

definition pmm_flags :: "pmm \<Rightarrow> (nat \<Rightarrow> nat list) \<Rightarrow> (nat \<times> nat) set \<Rightarrow> nat set \<Rightarrow> bool" where
  "pmm_flags s F B X \<longleftrightarrow>
     (\<forall>b k. (b, k) \<in> fblocks F \<longrightarrow>
        is_page_free (buddy_memmap s ! b) \<and> page_order (buddy_memmap s ! b) = k) \<and>
     (\<forall>r < length (buddy_memmap s). is_page_free (buddy_memmap s ! r) \<longrightarrow>
        (r, page_order (buddy_memmap s ! r)) \<in> fblocks F \<or> interior (fblocks F \<union> B) r \<or> r \<in> X)"

definition pmm_inv :: "pmm \<Rightarrow> (nat \<Rightarrow> nat list) \<Rightarrow> (nat \<times> nat) set \<Rightarrow> nat set \<Rightarrow> bool" where
  "pmm_inv s F B X \<longleftrightarrow> pmm_rep s F \<and> pmm_flags s F B X \<and>
     blocks_ok PMM_MAX_ORDER (length (buddy_memmap s)) (fblocks F \<union> B) \<and> fblocks F \<inter> B = {}"

text \<open>No two buddies are both free below the largest order: merging is complete.\<close>

definition merged :: "(nat \<Rightarrow> nat list) \<Rightarrow> bool" where
  "merged F \<longleftrightarrow> (\<forall>k < PMM_MAX_ORDER - 1. \<forall>b \<in> set (F k). buddy_of b k \<notin> set (F k))"

definition pmm_frame :: "pmm \<Rightarrow> pmm \<Rightarrow> bool" where
  "pmm_frame s s' \<longleftrightarrow> used_pages s' = used_pages s \<and> totalPages s' = totalPages s \<and>
     highestAddr s' = highestAddr s \<and> pmm_lock s' = pmm_lock s \<and> cpu_rflags s' = cpu_rflags s \<and>
     length (buddy_memmap s') = length (buddy_memmap s)"

lemma pmm_frame_refl [simp]: "pmm_frame s s"
  by (simp add: pmm_frame_def)

lemma pmm_frame_trans: "pmm_frame s s' \<Longrightarrow> pmm_frame s' s'' \<Longrightarrow> pmm_frame s s''"
  by (simp add: pmm_frame_def)

lemma mem_fblocks: "(b, k) \<in> fblocks F \<longleftrightarrow> k < PMM_MAX_ORDER \<and> b \<in> set (F k)"
  by (simp add: fblocks_def)

section \<open>Primitive steps\<close>

lemma map_PageLink_remove1: "map PageLink (remove1 q xs) = remove1 (PageLink q) (map PageLink xs)"
  by (induction xs) auto

lemma rep_distinct: "pmm_rep s F \<Longrightarrow> k < PMM_MAX_ORDER \<Longrightarrow> distinct (F k)"
  using dll.family_distinct [of "{..<PMM_MAX_ORDER}" AreaHead "\<lambda>k. map PageLink (F k)" "pmm_links s" k]
  by (simp add: pmm_rep_def distinct_map)

lemma rep_unlink:
  assumes rep: "pmm_rep s F" and k: "k < PMM_MAX_ORDER" and q: "q \<in> set (F k)"
  shows "\<exists>s1 s2. modify_links (dll_delete (PageLink q)) s = Ok s1 \<and>
    modify_nr_free k (\<lambda>n. n - 1) s1 = Ok s2 \<and> pmm_rep s2 (F(k := remove1 q (F k))) \<and>
    buddy_memmap s2 = buddy_memmap s \<and> pmm_frame s s2"
proof -
  let ?F = "\<lambda>k. map PageLink (F k)"
  have fam: "list_family ring {..<PMM_MAX_ORDER} AreaHead ?F (pmm_links s)"
    using rep by (simp add: pmm_rep_def)
  have "PageLink q \<in> set (?F k)" using q by simp
  then obtain h where h: "dll_delete (PageLink q) (pmm_links s) = Ok h"
    "list_family ring {..<PMM_MAX_ORDER} AreaHead (?F(k := remove1 (PageLink q) (?F k))) h"
    "dom h = dom (pmm_links s)"
    using dll.family_del [OF fam, of k "PageLink q"] k by auto
  have F': "?F(k := remove1 (PageLink q) (?F k)) = (\<lambda>j. map PageLink ((F(k := remove1 q (F k))) j))"
    by (auto simp: fun_eq_iff map_PageLink_remove1)
  have len: "0 < length (F k)" using q by auto
  then have "of_nat (length (F k)) - 1 = (of_nat (length (F k) - 1) :: u64)"
    by (cases "length (F k)") auto
  then show ?thesis
    using rep k q h(1,3) h(2) [unfolded F']
    by (auto simp: modify_links_def modify_nr_free_def pmm_rep_def pmm_frame_def nth_list_update
        length_remove1)
qed

lemma rep_link:
  assumes rep: "pmm_rep s F" and k: "k < PMM_MAX_ORDER" and q: "q < length (buddy_memmap s)"
    and fresh: "\<And>l. l < PMM_MAX_ORDER \<Longrightarrow> q \<notin> set (F l)"
  shows "\<exists>s1 s2. modify_links (dll_add_after (AreaHead k) (PageLink q)) s = Ok s1 \<and>
    modify_nr_free k (\<lambda>n. n + 1) s1 = Ok s2 \<and> pmm_rep s2 (F(k := q # F k)) \<and>
    buddy_memmap s2 = buddy_memmap s \<and> pmm_frame s s2"
proof -
  let ?F = "\<lambda>k. map PageLink (F k)"
  have fam: "list_family ring {..<PMM_MAX_ORDER} AreaHead ?F (pmm_links s)"
    using rep by (simp add: pmm_rep_def)
  have "PageLink q \<in> dom (pmm_links s)" using rep q by (simp add: pmm_rep_def)
  moreover have "PageLink q \<notin> insert (AreaHead l) (set (?F l))" if "l \<in> {..<PMM_MAX_ORDER}" for l
    using fresh [of l] that by auto
  ultimately obtain h where h: "dll_add_after (AreaHead k) (PageLink q) (pmm_links s) = Ok h"
    "list_family ring {..<PMM_MAX_ORDER} AreaHead (?F(k := PageLink q # ?F k)) h"
    "dom h = dom (pmm_links s)"
    using dll.family_add [OF fam, of k "PageLink q"] k by blast
  have F': "?F(k := PageLink q # ?F k) = (\<lambda>j. map PageLink ((F(k := q # F k)) j))"
    by (auto simp: fun_eq_iff)
  show ?thesis
    using rep k h(1,3) h(2) [unfolded F']
    by (auto simp: modify_links_def modify_nr_free_def pmm_rep_def pmm_frame_def nth_list_update)
qed

lemma rep_modify_page:
  assumes "pmm_rep s F" and "p < length (buddy_memmap s)"
  shows "\<exists>s1. modify_page p f s = Ok s1 \<and> pmm_rep s1 F \<and>
    buddy_memmap s1 = (buddy_memmap s)[p := f (buddy_memmap s ! p)] \<and> pmm_frame s s1 \<and>
    pmm_links s1 = pmm_links s"
  using assms by (simp add: modify_page_def pmm_rep_def pmm_frame_def)

lemma fblocks_remove:
  assumes "pmm_rep s F" and "k < PMM_MAX_ORDER" and "q \<in> set (F k)"
  shows "fblocks (F(k := remove1 q (F k))) = fblocks F - {(q, k)}"
  using assms rep_distinct [OF assms(1,2)] by (auto simp: fblocks_def split: if_splits)

lemma fblocks_add: "k < PMM_MAX_ORDER \<Longrightarrow> fblocks (F(k := q # F k)) = insert (q, k) (fblocks F)"
  by (auto simp: fblocks_def split: if_splits)

lemma fblocks_fresh:
  assumes ok: "blocks_ok M N (fblocks F \<union> insert (p, k) B)" and "fblocks F \<inter> insert (p, k) B = {}"
    and l: "l < PMM_MAX_ORDER"
  shows "p \<notin> set (F l)"
proof
  assume "p \<in> set (F l)"
  then have "(p, l) \<in> fblocks F" using l by (simp add: fblocks_def)
  moreover have "l = k" using blocks_ok_head [OF ok, of p k l] \<open>(p, l) \<in> fblocks F\<close> by auto
  ultimately show False using assms(2) by auto
qed

section \<open>Freeing\<close>

text \<open>One round of the coalescing loop absorbs a free buddy into the block in hand.\<close>

lemma merge_step_inv:
  assumes inv: "pmm_inv s F (insert (p, k) A) {p}" and fresh: "(p, k) \<notin> A"
    and k: "k < PMM_MAX_ORDER - 1" and q: "q = buddy_of p k" "q \<in> set (F k)"
    and rep': "pmm_rep s' (F(k := remove1 q (F k)))"
    and mem': "buddy_memmap s' = (buddy_memmap s)[q := (buddy_memmap s ! q)\<lparr>page_order := 0\<rparr>]"
    and m: "m = (if q < p then q else p)"
  shows "pmm_inv s' (F(k := remove1 q (F k))) (insert (m, Suc k) A) {m}"
    and "(m, Suc k) \<notin> A" and "block m (Suc k) = block p k \<union> block q k"
proof -
  let ?F = "F(k := remove1 q (F k))" and ?N = "length (buddy_memmap s)"
  have kM: "k < PMM_MAX_ORDER" "Suc k < PMM_MAX_ORDER" using k by auto
  have rep: "pmm_rep s F" and fl: "pmm_flags s F (insert (p, k) A) {p}"
    and ok: "blocks_ok PMM_MAX_ORDER ?N (fblocks F \<union> insert (p, k) A)"
    and disj: "fblocks F \<inter> insert (p, k) A = {}" using inv by (auto simp: pmm_inv_def)
  have qF: "(q, k) \<in> fblocks F" using q kM by (simp add: fblocks_def)
  have F': "fblocks ?F = fblocks F - {(q, k)}" using fblocks_remove [OF rep kM(1) q(2)] .
  let ?B = "(fblocks F - {(q, k)}) \<union> A"
  have eq: "fblocks F \<union> insert (p, k) A = insert (p, k) (insert (q, k) ?B)" using qF by auto
  have fresh': "(p, k) \<notin> ?B" "(q, k) \<notin> ?B" using disj qF fresh by auto
  note merge = blocks_ok_merge [OF ok [unfolded eq] q(1) fresh' kM(2) m]
  show "(m, Suc k) \<notin> A" using merge(2) by blast
  show un: "block m (Suc k) = block p k \<union> block q k" by (rule merge(3))
  have ok': "blocks_ok PMM_MAX_ORDER (length (buddy_memmap s')) (fblocks ?F \<union> insert (m, Suc k) A)"
    using merge(1) mem' F' by (simp add: Un_insert_right)
  have int: "interior (insert (m, Suc k) ?B) r" if "interior (fblocks F \<union> insert (p, k) A) r" for r
  proof -
    have "p < r \<and> r < p + 2 ^ k \<or> q < r \<and> r < q + 2 ^ k \<or> interior ?B r"
      using that unfolding eq by (auto simp: interior_insert)
    moreover have "m < r \<and> r < m + 2 ^ Suc k" if "p < r \<and> r < p + 2 ^ k \<or> q < r \<and> r < q + 2 ^ k"
    proof -
      have "r \<in> block m (Suc k)" using that unfolding un by auto
      moreover have "m \<noteq> r" using that m by auto
      ultimately show ?thesis by auto
    qed
    ultimately show ?thesis by (auto simp: interior_insert)
  qed
  have heads: "r = m \<or> interior (insert (m, Suc k) ?B) r" if "r = p \<or> r = q" for r
  proof -
    have "r \<in> block m (Suc k)" using that unfolding un by auto
    then show ?thesis by (cases "r = m") (auto simp: interior_insert)
  qed
  have q_lt: "q < ?N" using blocks_ok_bound [OF ok] qF by blast
  have "pmm_flags s' ?F (insert (m, Suc k) A) {m}"
    unfolding pmm_flags_def F'
  proof (intro conjI allI impI)
    fix b j assume bj: "(b, j) \<in> fblocks F - {(q, k)}"
    have "b \<noteq> q" using blocks_ok_head [OF ok, of q k j] bj qF by auto
    then show "is_page_free (buddy_memmap s' ! b)" "page_order (buddy_memmap s' ! b) = j"
      using fl bj by (auto simp: pmm_flags_def mem')
  next
    fix r assume r: "r < length (buddy_memmap s')" "is_page_free (buddy_memmap s' ! r)"
    have free: "is_page_free (buddy_memmap s ! r)"
      using r q_lt by (cases "r = q") (auto simp: mem' is_page_free_def)
    then consider "(r, page_order (buddy_memmap s ! r)) \<in> fblocks F" |
        "interior (fblocks F \<union> insert (p, k) A) r" | "r = p"
      using fl r(1) by (auto simp: pmm_flags_def mem')
    then show "(r, page_order (buddy_memmap s' ! r)) \<in> fblocks F - {(q, k)} \<or>
        interior (fblocks F - {(q, k)} \<union> insert (m, Suc k) A) r \<or> r \<in> {m}"
    proof cases
      case 1
      then show ?thesis using heads [of r] by (cases "r = q") (auto simp: mem')
    next
      case 2
      then show ?thesis using int [OF 2] by (simp add: Un_insert_right)
    next
      case 3
      then show ?thesis using heads [of r] by auto
    qed
  qed
  moreover have "fblocks ?F \<inter> insert (m, Suc k) A = {}"
    using F' disj merge(2) by auto
  ultimately show "pmm_inv s' ?F (insert (m, Suc k) A) {m}"
    using rep' ok' by (simp add: pmm_inv_def)
qed

lemma merged_remove: "merged F \<Longrightarrow> merged (F(k := remove1 q (F k)))"
  using set_remove1_subset [of q "F k"] by (auto simp: merged_def subset_iff)

lemma buddy_free_iff:
  assumes inv: "pmm_inv s F (insert (p, k) A) {p}" and fresh: "(p, k) \<notin> A"
    and k: "k < PMM_MAX_ORDER" and q: "q = buddy_of p k" "q < length (buddy_memmap s)"
  shows "is_page_free (buddy_memmap s ! q) \<and> page_order (buddy_memmap s ! q) = k \<longleftrightarrow> q \<in> set (F k)"
proof
  have ok: "blocks_ok PMM_MAX_ORDER (length (buddy_memmap s)) (insert (p, k) (fblocks F \<union> A))"
    and fl: "pmm_flags s F (insert (p, k) A) {p}" and disj: "fblocks F \<inter> insert (p, k) A = {}"
    using inv by (simp_all add: pmm_inv_def)
  assume free: "is_page_free (buddy_memmap s ! q) \<and> page_order (buddy_memmap s ! q) = k"
  have "\<not> interior (insert (p, k) (fblocks F \<union> A)) q"
    using buddy_interior [OF ok] fresh disj q(1) by auto
  moreover have "q \<noteq> p" using buddy_neq [of p k] blocks_okD [OF ok, of p k] q(1) by simp
  ultimately have "(q, k) \<in> fblocks F" using fl q(2) free by (auto simp: pmm_flags_def)
  then show "q \<in> set (F k)" by (simp add: fblocks_def)
next
  assume "q \<in> set (F k)"
  then have "(q, k) \<in> fblocks F" using k by (simp add: fblocks_def)
  then show "is_page_free (buddy_memmap s ! q) \<and> page_order (buddy_memmap s ! q) = k"
    using inv by (simp add: pmm_inv_def pmm_flags_def)
qed

lemma coalesce_correct:
  assumes "pmm_inv s F (insert (p, k) A) {p}" and "(p, k) \<notin> A" and "k < PMM_MAX_ORDER"
  shows "\<exists>s' F' p' k'. coalesce s p k = Ok (s', p', k') \<and>
    pmm_inv s' F' (insert (p', k') A) {p'} \<and> (p', k') \<notin> A \<and> k \<le> k' \<and> k' < PMM_MAX_ORDER \<and>
    frames (fblocks F') \<union> block p' k' = frames (fblocks F) \<union> block p k \<and>
    (k' < PMM_MAX_ORDER - 1 \<longrightarrow> buddy_of p' k' \<notin> set (F' k')) \<and> (merged F \<longrightarrow> merged F') \<and>
    pmm_frame s s' \<and> (\<forall>b j. (b, j) \<in> A \<longrightarrow> buddy_memmap s' ! b = buddy_memmap s ! b) \<and> block p k \<subseteq> block p' k'"
  using assms
proof (induction "PMM_MAX_ORDER - k" arbitrary: s p k F rule: less_induct)
  case less
  note 1 = less(1) less(2) less(3) less(4)
  let ?q = "buddy_of p k" and ?N = "length (buddy_memmap s)"
  have inv: "pmm_inv s F (insert (p, k) A) {p}" by fact
  then have rep: "pmm_rep s F" and N: "?N = unat (totalPages s)"
    and ok: "blocks_ok PMM_MAX_ORDER ?N (fblocks F \<union> insert (p, k) A)"
    and disj: "fblocks F \<inter> insert (p, k) A = {}"
    by (auto simp: pmm_inv_def pmm_rep_def)
  have stop: ?case if "coalesce s p k = Ok (s, p, k)"
    and "k < PMM_MAX_ORDER - 1 \<Longrightarrow> ?q \<notin> set (F k)"
    using that 1(2-4) by (intro exI [of _ s] exI [of _ F] exI [of _ p] exI [of _ k]) auto
  show ?case
  proof (cases "k < PMM_MAX_ORDER - 1 \<and> ?q \<in> set (F k)")
    case False
    have "coalesce s p k = Ok (s, p, k)"
      using False buddy_free_iff [OF inv 1(3,4) refl] N
      by (subst coalesce.simps)
        (auto simp: Let_def pfn_to_page_def read_page_def buddy_of_def)
    then show ?thesis using False by (intro stop) auto
  next
    case True
    then have k: "k < PMM_MAX_ORDER - 1" and q: "?q \<in> set (F k)" by auto
    let ?F = "F(k := remove1 ?q (F k))"
    have qF: "(?q, k) \<in> fblocks F" using q 1(4) by (simp add: fblocks_def)
    then have qN: "?q < ?N" using blocks_ok_bound [OF ok] by blast
    obtain s1 s2 where s12: "modify_links (dll_delete (PageLink ?q)) s = Ok s1"
      "modify_nr_free k (\<lambda>n. n - 1) s1 = Ok s2" "pmm_rep s2 ?F"
      "buddy_memmap s2 = buddy_memmap s" "pmm_frame s s2"
      using rep_unlink [OF rep 1(4) q] by blast
    obtain s3 where s3: "modify_page ?q (\<lambda>p. p\<lparr>page_order := 0\<rparr>) s2 = Ok s3" "pmm_rep s3 ?F"
      "buddy_memmap s3 = (buddy_memmap s)[?q := (buddy_memmap s ! ?q)\<lparr>page_order := 0\<rparr>]"
      "pmm_frame s2 s3"
      using rep_modify_page [OF s12(3), of ?q] qN s12(4) by auto
    let ?m = "if ?q < p then ?q else p"
    note step = merge_step_inv [OF inv 1(3) k refl q s3(2,3) refl]
    have unfold: "coalesce s p k = coalesce s3 ?m (k + 1)"
      using k q qN N s12(1,2) s3(1) buddy_free_iff [OF inv 1(3,4) refl qN]
      by (subst coalesce.simps) (simp add: Let_def pfn_to_page_def read_page_def buddy_of_def)
    have IH: "\<exists>s' F' p' k'. coalesce s3 ?m (k + 1) = Ok (s', p', k') \<and>
      pmm_inv s' F' (insert (p', k') A) {p'} \<and> (p', k') \<notin> A \<and> k + 1 \<le> k' \<and> k' < PMM_MAX_ORDER \<and>
      frames (fblocks F') \<union> block p' k' = frames (fblocks ?F) \<union> block ?m (k + 1) \<and>
      (k' < PMM_MAX_ORDER - 1 \<longrightarrow> buddy_of p' k' \<notin> set (F' k')) \<and> (merged ?F \<longrightarrow> merged F') \<and>
      pmm_frame s3 s' \<and> (\<forall>b j. (b, j) \<in> A \<longrightarrow> buddy_memmap s' ! b = buddy_memmap s3 ! b) \<and> block ?m (k + 1) \<subseteq> block p' k'"
      using k step(1,2) by (intro less(1)) (auto simp: Suc_eq_plus1 [symmetric])
    have "frames (fblocks F) = frames (fblocks ?F) \<union> block ?q k"
      using fblocks_remove [OF rep 1(4) q] qF by (metis Un_commute frames_insert insert_Diff)
    then have fr: "frames (fblocks ?F) \<union> block ?m (k + 1) = frames (fblocks F) \<union> block p k"
      using step(3) by auto
    have same: "buddy_memmap s3 ! b = buddy_memmap s ! b" if "(b, j) \<in> A" for b j
    proof -
      have "b \<noteq> ?q" using blocks_ok_head [OF ok, of ?q k j] that qF disj by auto
      then show ?thesis using s3(3) by simp
    qed
    have frame: "pmm_frame s s3" using pmm_frame_trans s12(5) s3(4) by blast
    from IH obtain s' F' p' k' where r: "coalesce s3 ?m (k + 1) = Ok (s', p', k')"
      "pmm_inv s' F' (insert (p', k') A) {p'}" "(p', k') \<notin> A" "k + 1 \<le> k'" "k' < PMM_MAX_ORDER"
      "frames (fblocks F') \<union> block p' k' = frames (fblocks ?F) \<union> block ?m (k + 1)"
      "k' < PMM_MAX_ORDER - 1 \<longrightarrow> buddy_of p' k' \<notin> set (F' k')" "merged ?F \<longrightarrow> merged F'"
      "pmm_frame s3 s'" "\<forall>b j. (b, j) \<in> A \<longrightarrow> buddy_memmap s' ! b = buddy_memmap s3 ! b" "block ?m (k + 1) \<subseteq> block p' k'"
      by blast
    have "block p k \<subseteq> block p' k'" using step(3) r(11) by simp
    then show ?thesis
      using r(1-7) r(8) same r(10) merged_remove [of F k ?q] pmm_frame_trans [OF frame r(9)]
      unfolding unfold fr
      by (intro exI [of _ s'] exI [of _ F'] exI [of _ p'] exI [of _ k']) auto
  qed
qed

text \<open>Putting the block in hand on a free list.\<close>

lemma insert_free_inv:
  assumes inv: "pmm_inv s F (insert (p, k) B) X" and fresh: "(p, k) \<notin> B" and k: "k < PMM_MAX_ORDER"
    and rep': "pmm_rep s' (F(k := p # F k))"
    and mem': "buddy_memmap s' =
      (buddy_memmap s)[p := (buddy_memmap s ! p)\<lparr>page_order := k, flags := PMM_FLAG_FREE, ref_count := 0\<rparr>]"
  shows "pmm_inv s' (F(k := p # F k)) B (X - {p})"
proof -
  let ?N = "length (buddy_memmap s)"
  have fl: "pmm_flags s F (insert (p, k) B) X"
    and ok: "blocks_ok PMM_MAX_ORDER ?N (fblocks F \<union> insert (p, k) B)"
    and disj: "fblocks F \<inter> insert (p, k) B = {}" using inv by (auto simp: pmm_inv_def)
  have F': "fblocks (F(k := p # F k)) = insert (p, k) (fblocks F)" using fblocks_add [OF k] .
  have pN: "p < ?N" using blocks_ok_bound [OF ok] by blast
  have new: "is_page_free (buddy_memmap s' ! p)" "page_order (buddy_memmap s' ! p) = k"
    using pN by (simp_all add: mem' is_page_free_def PMM_FLAG_FREE_def)
  have eq: "insert (p, k) (fblocks F) \<union> B = fblocks F \<union> insert (p, k) B" by auto
  have "pmm_flags s' (F(k := p # F k)) B (X - {p})"
    unfolding pmm_flags_def F' eq
  proof (intro conjI allI impI)
    fix b j assume bj: "(b, j) \<in> insert (p, k) (fblocks F)"
    then have "j = k" if "b = p" using blocks_ok_head [OF ok, of p k j] that by auto
    then show "is_page_free (buddy_memmap s' ! b)" "page_order (buddy_memmap s' ! b) = j"
      using new fl bj by (cases "b = p"; auto simp: pmm_flags_def mem')+
  next
    fix r assume r: "r < length (buddy_memmap s')" "is_page_free (buddy_memmap s' ! r)"
    show "(r, page_order (buddy_memmap s' ! r)) \<in> insert (p, k) (fblocks F) \<or>
        interior (fblocks F \<union> insert (p, k) B) r \<or> r \<in> X - {p}"
    proof (cases "r = p")
      case False
      then show ?thesis using fl r by (auto simp: pmm_flags_def mem')
    qed (use new in simp)
  qed
  moreover have "insert (p, k) (fblocks F) \<inter> B = {}" using disj fresh by auto
  ultimately show ?thesis using rep' ok mem' eq by (simp add: pmm_inv_def F')
qed

lemma merged_insert:
  assumes "merged F" and "k < PMM_MAX_ORDER - 1 \<longrightarrow> buddy_of p k \<notin> set (F k)"
    and "aligned p k"
  shows "merged (F(k := p # F k))"
  using assms buddy_neq [OF assms(3)] buddy_buddy [of _ k] unfolding merged_def
  by auto

text \<open>The release of a block subtracts the size of the free block that it has become a part of.\<close>

definition counted_free :: "nat \<Rightarrow> nat \<Rightarrow> pmm \<Rightarrow> (nat \<Rightarrow> nat list) \<Rightarrow> pmm \<Rightarrow> bool" where
  "counted_free p k s F' s' \<longleftrightarrow>
     (\<exists>p' k'. (p', k') \<in> fblocks F' \<and> block p k \<subseteq> block p' k' \<and> used_pages s' = used_pages s - push_bit k' 1)"

lemma free_block_correct:
  assumes inv: "pmm_inv s F (insert (p, k) A) {p}" and "(p, k) \<notin> A" and "k < PMM_MAX_ORDER"
  shows "\<exists>s' F'. free_block s p k = Ok s' \<and> pmm_inv s' F' A {} \<and>
    frames (fblocks F') = frames (fblocks F) \<union> block p k \<and> (merged F \<longrightarrow> merged F') \<and>
    (\<forall>b j. (b, j) \<in> A \<longrightarrow> buddy_memmap s' ! b = buddy_memmap s ! b) \<and>
    pmm_frame s (s'\<lparr>used_pages := used_pages s\<rparr>) \<and> counted_free p k s F' s'"
proof -
  obtain s1 F1 p' k' where c: "coalesce s p k = Ok (s1, p', k')"
    and inv1: "pmm_inv s1 F1 (insert (p', k') A) {p'}" "(p', k') \<notin> A" "k' < PMM_MAX_ORDER"
    and fr: "frames (fblocks F1) \<union> block p' k' = frames (fblocks F) \<union> block p k"
    and bud: "k' < PMM_MAX_ORDER - 1 \<longrightarrow> buddy_of p' k' \<notin> set (F1 k')" and mg: "merged F \<longrightarrow> merged F1"
    and frame: "pmm_frame s s1"
    and same: "\<And>b j. (b, j) \<in> A \<Longrightarrow> buddy_memmap s1 ! b = buddy_memmap s ! b" and sub: "block p k \<subseteq> block p' k'"
    using coalesce_correct [OF assms] by blast
  have rep1: "pmm_rep s1 F1" and ok: "blocks_ok PMM_MAX_ORDER (length (buddy_memmap s1)) (fblocks F1 \<union> insert (p', k') A)"
    and disj: "fblocks F1 \<inter> insert (p', k') A = {}"
    using inv1 by (auto simp: pmm_inv_def)
  have pN: "p' < length (buddy_memmap s1)" using blocks_ok_bound [OF ok] by blast
  let ?f = "\<lambda>p. p\<lparr>page_order := k', flags := PMM_FLAG_FREE, ref_count := 0\<rparr>"
  obtain s2 where s2: "modify_page p' ?f s1 = Ok s2" "pmm_rep s2 F1"
    "buddy_memmap s2 = (buddy_memmap s1)[p' := ?f (buddy_memmap s1 ! p')]" "pmm_frame s1 s2"
    using rep_modify_page [OF rep1 pN, of ?f] by blast
  obtain s3 s4 where s34: "modify_links (dll_add_after (AreaHead k') (PageLink p')) s2 = Ok s3"
    "modify_nr_free k' (\<lambda>n. n + 1) s3 = Ok s4" "pmm_rep s4 (F1(k' := p' # F1 k'))"
    "buddy_memmap s4 = buddy_memmap s2" "pmm_frame s2 s4"
    using rep_link [OF s2(2) inv1(3), of p'] fblocks_fresh [OF ok disj] pN s2(3) by auto
  let ?s = "s4\<lparr>used_pages := used_pages s4 - push_bit k' 1\<rparr>" and ?F = "F1(k' := p' # F1 k')"
  have run: "free_block s p k = Ok ?s" using c s2(1) s34(1,2) by (simp add: free_block_def)
  have "pmm_rep ?s ?F" using s34(3) by (simp add: pmm_rep_def)
  then have inv': "pmm_inv ?s ?F A {}"
    using insert_free_inv [OF inv1, of ?s] s34(4) s2(3) by simp
  have "frames (fblocks ?F) = frames (fblocks F) \<union> block p k"
    using fr fblocks_add [OF inv1(3)] by (auto simp: frames_insert)
  moreover have "aligned p' k'" using blocks_okD [OF ok, of p' k'] by simp
  then have "merged F \<longrightarrow> merged ?F" using mg merged_insert bud by blast
  moreover have "buddy_memmap ?s ! b = buddy_memmap s ! b" if "(b, j) \<in> A" for b j
  proof -
    have "b \<noteq> p'" using blocks_ok_head [OF ok, of p' k' j] that inv1(2) by auto
    then show ?thesis using same [OF that] s34(4) s2(3) by simp
  qed
  moreover have "pmm_frame s (?s\<lparr>used_pages := used_pages s\<rparr>)"
    using frame s2(4) s34(5) by (simp add: pmm_frame_def)
  moreover have "used_pages ?s = used_pages s - push_bit k' 1" using frame s2(4) s34(5) by (simp add: pmm_frame_def)
  then have "counted_free p k s ?F ?s" using sub fblocks_add [OF inv1(3), of F1 p'] unfolding counted_free_def by blast
  ultimately show ?thesis using run inv' by blast
qed

section \<open>Allocating\<close>

text \<open>One round of the splitting loop puts the upper half on the free list of its order.\<close>

lemma split_inv:
  assumes inv: "pmm_inv s F (insert (p, Suc c) A) {p}" and fresh: "(p, Suc c) \<notin> A"
    and c: "Suc c < PMM_MAX_ORDER" and q: "q = buddy_of p c"
  shows "pmm_inv s F (insert (q, c) (insert (p, c) A)) {p, q}" and "(q, c) \<notin> insert (p, c) A"
    and "(p, c) \<notin> A" and "block p (Suc c) = block p c \<union> block q c"
    and "p \<notin> set (F c)" and "q < length (buddy_memmap s)" and "aligned q c"
proof -
  let ?N = "length (buddy_memmap s)"
  have rep: "pmm_rep s F" and fl: "pmm_flags s F (insert (p, Suc c) A) {p}"
    and ok: "blocks_ok PMM_MAX_ORDER ?N (insert (p, Suc c) (fblocks F \<union> A))"
    and disj: "fblocks F \<inter> insert (p, Suc c) A = {}" using inv by (simp_all add: pmm_inv_def)
  have fresh': "(p, Suc c) \<notin> fblocks F \<union> A" using disj fresh by auto
  note sp = blocks_ok_split [OF ok fresh']
  show un: "block p (Suc c) = block p c \<union> block q c" using sp(5) q by simp
  show A: "(p, c) \<notin> A" using sp(3) by blast
  have "p \<noteq> q" using sp(2) q by simp
  then show A': "(q, c) \<notin> insert (p, c) A" using sp(4) q by auto
  show "p \<notin> set (F c)" using sp(3) c by (auto simp: fblocks_def)
  show "q < ?N" using blocks_ok_bound [OF sp(1)] q by blast
  show "aligned q c" using blocks_okD [OF sp(1)] q by blast
  have ok': "blocks_ok PMM_MAX_ORDER ?N (fblocks F \<union> insert (q, c) (insert (p, c) A))"
    using sp(1) q by (simp add: insert_commute)
  have int: "r = q \<or> interior (fblocks F \<union> insert (q, c) (insert (p, c) A)) r"
    if "interior (insert (p, Suc c) (fblocks F \<union> A)) r" for r
    using that sp(2) q by (auto simp: interior_insert)
  have "pmm_flags s F (insert (q, c) (insert (p, c) A)) {p, q}"
    using fl int unfolding pmm_flags_def by auto
  then show "pmm_inv s F (insert (q, c) (insert (p, c) A)) {p, q}"
    using rep ok' sp(3,4) disj q by (auto simp: pmm_inv_def)
qed

lemma split_block_correct:
  assumes "pmm_inv s F (insert (p, c) A) {p}" and "(p, c) \<notin> A" and "k \<le> c" and "c < PMM_MAX_ORDER"
  shows "\<exists>s' F'. split_block s p c k = Ok s' \<and> pmm_inv s' F' (insert (p, k) A) {p} \<and> (p, k) \<notin> A \<and>
    frames (fblocks F') \<union> block p k = frames (fblocks F) \<union> block p c \<and> (merged F \<longrightarrow> merged F') \<and>
    (\<forall>b j. (b, j) \<in> A \<longrightarrow> buddy_memmap s' ! b = buddy_memmap s ! b) \<and> pmm_frame s s'"
  using assms
proof (induction c arbitrary: s F)
  case 0
  then show ?case
    by (intro exI [of _ s] exI [of _ F]) (simp add: split_block.simps)
next
  case (Suc c)
  show ?case
  proof (cases "k = Suc c")
    case True
    then show ?thesis using Suc.prems
      by (intro exI [of _ s] exI [of _ F]) (simp add: split_block.simps)
  next
    case False
    let ?q = "buddy_of p c"
    note sp = split_inv [OF Suc.prems(1,2,4) refl]
    have rep: "pmm_rep s F" and N: "length (buddy_memmap s) = unat (totalPages s)"
      and ok: "blocks_ok PMM_MAX_ORDER (length (buddy_memmap s)) (fblocks F \<union> insert (?q, c) (insert (p, c) A))"
      and disj: "fblocks F \<inter> insert (?q, c) (insert (p, c) A) = {}"
      using sp(1) by (auto simp: pmm_inv_def pmm_rep_def)
    let ?f = "\<lambda>p. p\<lparr>page_order := c, flags := PMM_FLAG_FREE, ref_count := 0\<rparr>"
    have c: "c < PMM_MAX_ORDER" using Suc.prems(4) by simp
    obtain s1 where s1: "modify_page ?q ?f s = Ok s1" "pmm_rep s1 F"
      "buddy_memmap s1 = (buddy_memmap s)[?q := ?f (buddy_memmap s ! ?q)]" "pmm_frame s s1"
      using rep_modify_page [OF rep sp(6), of ?f] by blast
    obtain s2 s3 where s23: "modify_links (dll_add_after (AreaHead c) (PageLink ?q)) s1 = Ok s2"
      "modify_nr_free c (\<lambda>n. n + 1) s2 = Ok s3" "pmm_rep s3 (F(c := ?q # F c))"
      "buddy_memmap s3 = buddy_memmap s1" "pmm_frame s1 s3"
      using rep_link [OF s1(2) c, of ?q] fblocks_fresh [OF ok disj] sp(6) s1(3) by auto
    let ?F = "F(c := ?q # F c)"
    have qp: "?q \<noteq> p" using sp(2) by auto
    have "pmm_inv s3 ?F (insert (p, c) A) ({p, ?q} - {?q})"
      using insert_free_inv [OF sp(1,2) c s23(3)] s23(4) s1(3) by simp
    moreover have "{p, ?q} - {?q} = {p}" using qp by auto
    ultimately have inv3: "pmm_inv s3 ?F (insert (p, c) A) {p}" by simp
    have kc: "k \<le> c" using False Suc.prems(3) by simp
    obtain s' F' where IH: "split_block s3 p c k = Ok s'" "pmm_inv s' F' (insert (p, k) A) {p}" "(p, k) \<notin> A"
      "frames (fblocks F') \<union> block p k = frames (fblocks ?F) \<union> block p c" "merged ?F \<longrightarrow> merged F'"
      "\<And>b j. (b, j) \<in> A \<Longrightarrow> buddy_memmap s' ! b = buddy_memmap s3 ! b" "pmm_frame s3 s'"
      using Suc.IH [OF inv3 sp(3) kc c] by blast
    have "split_block s p (Suc c) k = split_block s3 p c k"
      using kc sp(6) N s1(1) s23(1,2)
      by (subst split_block.simps) (simp add: Let_def pfn_to_page_def buddy_of_def)
    then have "split_block s p (Suc c) k = Ok s'" using IH(1) by simp
    moreover have "frames (fblocks F') \<union> block p k = frames (fblocks F) \<union> block p (Suc c)"
      using IH(4) sp(4) fblocks_add [OF c] by (auto simp: frames_insert)
    moreover have "merged F \<longrightarrow> merged F'"
      using IH(5) merged_insert [of F c ?q] sp(5,7) buddy_buddy by auto
    moreover have "buddy_memmap s' ! b = buddy_memmap s ! b" if "(b, j) \<in> A" for b j
    proof -
      have "b \<noteq> ?q" using blocks_ok_head [OF ok, of ?q c j] that sp(2) by auto
      then show ?thesis using IH(6) [OF that] s23(4) s1(3) by simp
    qed
    moreover have "pmm_frame s s'" using s1(4) s23(5) IH(7) pmm_frame_trans by blast
    ultimately show ?thesis using IH(2,3) by blast
  qed
qed

lemma find_free_order_correct:
  assumes "pmm_rep s F"
  shows "find_free_order s k = Ok (find (\<lambda>j. F j \<noteq> []) [k..<PMM_MAX_ORDER])"
proof (induction "PMM_MAX_ORDER - k" arbitrary: k rule: less_induct)
  case less
  show ?case
  proof (cases "k < PMM_MAX_ORDER")
    case False
    then show ?thesis by (subst find_free_order.simps) auto
  next
    case True
    then have "dll_empty (AreaHead k) (pmm_links s) = Ok (F k = [])"
      using dll.family_empty [of "{..<PMM_MAX_ORDER}" AreaHead "\<lambda>k. map PageLink (F k)" "pmm_links s" k]
        assms by (simp add: pmm_rep_def)
    then show ?thesis using True less [of "k + 1"]
      by (subst find_free_order.simps) (simp add: upt_conv_Cons)
  qed
qed

lemma take_free_inv:
  assumes inv: "pmm_inv s F A {}" and c: "c < PMM_MAX_ORDER" and F: "F c = p # ps"
    and rep': "pmm_rep s' (F(c := ps))" and mem': "buddy_memmap s' = buddy_memmap s"
  shows "pmm_inv s' (F(c := ps)) (insert (p, c) A) {p}" and "(p, c) \<notin> A"
    and "frames (fblocks (F(c := ps))) \<union> block p c = frames (fblocks F)"
proof -
  have rep: "pmm_rep s F" and fl: "pmm_flags s F A {}"
    and ok: "blocks_ok PMM_MAX_ORDER (length (buddy_memmap s)) (fblocks F \<union> A)"
    and disj: "fblocks F \<inter> A = {}" using inv by (auto simp: pmm_inv_def)
  have pF: "(p, c) \<in> fblocks F" using c F by (simp add: fblocks_def)
  have F': "fblocks (F(c := ps)) = fblocks F - {(p, c)}"
    using fblocks_remove [OF rep c, of p] F by simp
  show A: "(p, c) \<notin> A" using pF disj by blast
  have ins: "fblocks F = insert (p, c) (fblocks F - {(p, c)})" using pF by blast
  show "frames (fblocks (F(c := ps))) \<union> block p c = frames (fblocks F)"
    by (metis F' Un_commute frames_insert ins)
  have eq: "fblocks F - {(p, c)} \<union> insert (p, c) A = fblocks F \<union> A" using pF by blast
  have "pmm_flags s' (F(c := ps)) (insert (p, c) A) {p}"
    using fl unfolding pmm_flags_def F' eq mem' by auto
  then show "pmm_inv s' (F(c := ps)) (insert (p, c) A) {p}"
    using rep' ok disj A eq by (auto simp: pmm_inv_def F' mem')
qed

lemma mark_used_inv:
  assumes inv: "pmm_inv s F B {p}" and rep': "pmm_rep s' F" and p: "(p, k) \<in> B"
    and mem': "buddy_memmap s' =
      (buddy_memmap s)[p := (buddy_memmap s ! p)\<lparr>flags := PMM_FLAG_USED, ref_count := 1, page_order := k\<rparr>]"
  shows "pmm_inv s' F B {}"
proof -
  have fl: "pmm_flags s F B {p}"
    and ok: "blocks_ok PMM_MAX_ORDER (length (buddy_memmap s)) (fblocks F \<union> B)"
    and disj: "fblocks F \<inter> B = {}" using inv by (auto simp: pmm_inv_def)
  have "p < length (buddy_memmap s)" using blocks_ok_bound [OF ok] p by blast
  then have used: "\<not> is_page_free (buddy_memmap s' ! p)"
    by (simp add: mem' is_page_free_def PMM_FLAG_FREE_def PMM_FLAG_USED_def)
  have "b \<noteq> p" if "(b, j) \<in> fblocks F" for b j
    using blocks_ok_head [OF ok, of p k j] that p disj by auto
  moreover have "buddy_memmap s' ! b = buddy_memmap s ! b" if "b \<noteq> p" for b
    using that mem' by simp
  ultimately have "pmm_flags s' F B {}"
    using fl used unfolding pmm_flags_def by (metis empty_iff insert_iff length_list_update mem')
  then show ?thesis using rep' ok disj mem' by (simp add: pmm_inv_def)
qed

lemma alloc_block_correct:
  assumes inv: "pmm_inv s F A {}" and k: "k < PMM_MAX_ORDER"
    and found: "find (\<lambda>j. F j \<noteq> []) [k..<PMM_MAX_ORDER] = Some c"
  shows "\<exists>s' F' p. alloc_block s k = Ok (Some p, s') \<and> pmm_inv s' F' (insert (p, k) A) {} \<and>
    (p, k) \<notin> A \<and> frames (fblocks F) = frames (fblocks F') \<union> block p k \<and> (merged F \<longrightarrow> merged F') \<and>
    buddy_memmap s' ! p = \<lparr>flags = PMM_FLAG_USED, ref_count = 1, page_order = k\<rparr> \<and>
    (\<forall>b j. (b, j) \<in> A \<longrightarrow> buddy_memmap s' ! b = buddy_memmap s ! b) \<and>
    used_pages s' = used_pages s + push_bit k 1 \<and> pmm_frame s (s'\<lparr>used_pages := used_pages s\<rparr>) \<and> (p, c) \<in> fblocks F"
proof -
  have rep: "pmm_rep s F" using inv by (simp add: pmm_inv_def)
  from found have c: "c < PMM_MAX_ORDER" "k \<le> c" and "F c \<noteq> []"
    by (auto simp: find_Some_iff)
  then obtain p ps where F: "F c = p # ps" by (cases "F c") auto
  have first: "read_next (AreaHead c) (pmm_links s) = Ok (PageLink p)"
    using dll.family_first [of "{..<PMM_MAX_ORDER}" AreaHead "\<lambda>k. map PageLink (F k)" "pmm_links s" c]
      rep c(1) F by (simp add: pmm_rep_def)
  obtain s1 s2 where s12: "modify_links (dll_delete (PageLink p)) s = Ok s1"
    "modify_nr_free c (\<lambda>n. n - 1) s1 = Ok s2" "pmm_rep s2 (F(c := ps))"
    "buddy_memmap s2 = buddy_memmap s" "pmm_frame s s2"
    using rep_unlink [OF rep c(1), of p] F by auto
  note tk = take_free_inv [OF inv c(1) F s12(3,4)]
  obtain s3 F' where s3: "split_block s2 p c k = Ok s3" "pmm_inv s3 F' (insert (p, k) A) {p}" "(p, k) \<notin> A"
    "frames (fblocks F') \<union> block p k = frames (fblocks (F(c := ps))) \<union> block p c"
    "merged (F(c := ps)) \<longrightarrow> merged F'"
    "\<And>b j. (b, j) \<in> A \<Longrightarrow> buddy_memmap s3 ! b = buddy_memmap s2 ! b" "pmm_frame s2 s3"
    using split_block_correct [OF tk(1,2) c(2,1)] by blast
  have ok: "blocks_ok PMM_MAX_ORDER (length (buddy_memmap s3)) (fblocks F' \<union> insert (p, k) A)"
    and rep3: "pmm_rep s3 F'" using s3(2) by (auto simp: pmm_inv_def)
  then have pN: "p < length (buddy_memmap s3)" using blocks_ok_bound by blast
  let ?f = "\<lambda>p. p\<lparr>flags := PMM_FLAG_USED, ref_count := 1, page_order := k\<rparr>"
  obtain s4 where s4: "modify_page p ?f s3 = Ok s4" "pmm_rep s4 F'"
    "buddy_memmap s4 = (buddy_memmap s3)[p := ?f (buddy_memmap s3 ! p)]" "pmm_frame s3 s4"
    using rep_modify_page [OF rep3 pN, of ?f] by blast
  let ?s = "s4\<lparr>used_pages := used_pages s4 + push_bit k 1\<rparr>"
  have "alloc_block s k = Ok (Some p, ?s)"
    using find_free_order_correct [OF rep, of k] found first s12(1,2) s3(1) s4(1)
    by (simp add: alloc_block_def node_to_page_def)
  moreover have "pmm_rep ?s F'" using s4(2) by (simp add: pmm_rep_def)
  then have "pmm_inv ?s F' (insert (p, k) A) {}"
    using mark_used_inv [OF s3(2), of ?s k] s4(3) by simp
  moreover have "buddy_memmap ?s ! p = \<lparr>flags = PMM_FLAG_USED, ref_count = 1, page_order = k\<rparr>"
    using s4(3) pN by simp
  moreover have "frames (fblocks F) = frames (fblocks F') \<union> block p k" using s3(4) tk(3) by simp
  moreover have "merged F \<longrightarrow> merged F'" using s3(5) merged_remove [of F c p] F by simp
  moreover have "buddy_memmap ?s ! b = buddy_memmap s ! b" if "(b, j) \<in> A" for b j
  proof -
    have "b \<noteq> p" using blocks_ok_head [OF ok, of p k j] that s3(3) by auto
    then show ?thesis using s3(6) [OF that] s4(3) s12(4) by simp
  qed
  moreover have "used_pages ?s = used_pages s + push_bit k 1" "pmm_frame s (?s\<lparr>used_pages := used_pages s\<rparr>)"
    using s12(5) s3(7) s4(4) by (simp_all add: pmm_frame_def)
  moreover have "(p, c) \<in> fblocks F" using c(1) F by (simp add: mem_fblocks)
  ultimately show ?thesis using s3(3) by blast
qed

lemma alloc_block_none:
  assumes "pmm_inv s F A {}" and "find (\<lambda>j. F j \<noteq> []) [k..<PMM_MAX_ORDER] = None"
  shows "alloc_block s k = Ok (None, s)"
  using assms find_free_order_correct [of s F k] by (simp add: alloc_block_def pmm_inv_def)

end
