(* ===== verification/Pmm_Props.thy ===== *)
theory Pmm_Props
  imports Pmm_Inv
begin

text \<open>
  The contract of the physical memory manager at its exported functions: what an
  allocation hands out, what freeing gives back, that the two undo each other, how
  sizes are rounded to orders and how reference counts drive the release of a block.
\<close>

section \<open>Valid states\<close>

text \<open>
  \<open>A\<close> is the set of blocks handed out. Besides the invariant: merging is complete, the
  descriptors of allocated blocks say so, frame 0 is set aside as a reserved block that is
  never handed out (its address marks a failed allocation), and nobody holds the lock.
\<close>

definition pmm_valid :: "pmm \<Rightarrow> (nat \<Rightarrow> nat list) \<Rightarrow> (nat \<times> nat) set \<Rightarrow> bool" where
  "pmm_valid s F A \<longleftrightarrow> pmm_inv s F (insert (0, 0) A) {} \<and> (0, 0) \<notin> A \<and> merged F \<and>
     (\<forall>b k. (b, k) \<in> A \<longrightarrow> flags (buddy_memmap s ! b) = PMM_FLAG_USED \<and>
        page_order (buddy_memmap s ! b) = k) \<and>
     flags (buddy_memmap s ! 0) = PMM_FLAG_RESERVED \<and> lock_free (pmm_lock s)"

lemma pmm_rep_lock [simp]: "pmm_rep (s\<lparr>pmm_lock := l, cpu_rflags := rf\<rparr>) F = pmm_rep s F"
  by (simp add: pmm_rep_def)

lemma pmm_inv_lock [simp]: "pmm_inv (s\<lparr>pmm_lock := l, cpu_rflags := rf\<rparr>) F B X = pmm_inv s F B X"
  by (simp add: pmm_inv_def pmm_flags_def)

definition pmm_held :: "pmm \<Rightarrow> pmm" where
  "pmm_held s = s\<lparr>pmm_lock := (pmm_lock s)\<lparr>ticket := ticket (pmm_lock s) + 1\<rparr>,
     cpu_rflags := cpu_rflags s AND NOT RFLAGS_IF\<rparr>"

lemma pmm_held_fields [simp]:
  "buddy_memmap (pmm_held s) = buddy_memmap s" "used_pages (pmm_held s) = used_pages s"
  "totalPages (pmm_held s) = totalPages s" "highestAddr (pmm_held s) = highestAddr s"
  "pmm_lock (pmm_held s) = (pmm_lock s)\<lparr>ticket := ticket (pmm_lock s) + 1\<rparr>"
  "pmm_rep (pmm_held s) F = pmm_rep s F" "pmm_inv (pmm_held s) F B X = pmm_inv s F B X"
  by (simp_all add: pmm_held_def)

lemma pmm_acquire_free:
  "lock_free (pmm_lock s) \<Longrightarrow> pmm_acquire s = Ok (cpu_rflags s, pmm_held s)"
  by (simp add: pmm_acquire_def lock_acquire_free pmm_held_def)

lemma pmm_release_held:
  "pmm_lock s' = (pmm_lock s)\<lparr>ticket := ticket (pmm_lock s) + 1\<rparr> \<Longrightarrow>
   pmm_release rf s' = s'\<lparr>pmm_lock := lock_advance (pmm_lock s), cpu_rflags := rf\<rparr>"
  by (simp add: pmm_release_def lock_release_acquired)

lemma pmm_acquire_taken: "\<not> lock_free (pmm_lock s) \<Longrightarrow> pmm_acquire s = Spin"
  by (simp add: pmm_acquire_def lock_acquire_taken)

section \<open>Addresses\<close>

lemma unat_page_to_phys: "p < 2 ^ 52 \<Longrightarrow> unat (page_to_phys p) = p * 4096"
  by (simp add: page_to_phys_def PMM_PAGE_SIZE_def unat_mult_u64 unat_of_nat_u64)

lemma page_to_phys_div: "p < 2 ^ 52 \<Longrightarrow> unat (page_to_phys p div PMM_PAGE_SIZE) = p"
  using unat_page_to_phys [of p] by (simp add: unat_div PMM_PAGE_SIZE_def)

lemma page_to_phys_mod: "p < 2 ^ 52 \<Longrightarrow> page_to_phys p mod PMM_PAGE_SIZE = 0"
  using unat_page_to_phys [of p] by (simp add: unat_mod PMM_PAGE_SIZE_def flip: unat_eq_zero)

lemma page_to_phys_zero: "p < 2 ^ 52 \<Longrightarrow> page_to_phys p = 0 \<longleftrightarrow> p = 0"
  using unat_page_to_phys [of p] by (simp flip: unat_eq_zero)

lemma page_to_phys_inj: "p < 2 ^ 52 \<Longrightarrow> q < 2 ^ 52 \<Longrightarrow> page_to_phys p = page_to_phys q \<longleftrightarrow> p = q"
  using unat_page_to_phys [of p] unat_page_to_phys [of q] by (simp add: word_unat_eq_iff)

lemma inv_bound:
  assumes "pmm_inv s F B X" and "(b, k) \<in> fblocks F \<union> B"
  shows "b < unat (totalPages s)" and "b < 2 ^ 52" and "k < PMM_MAX_ORDER" and "aligned b k"
proof -
  have ok: "blocks_ok PMM_MAX_ORDER (length (buddy_memmap s)) (fblocks F \<union> B)"
    and N: "length (buddy_memmap s) = unat (totalPages s)" "unat (totalPages s) \<le> 2 ^ 52"
    using assms(1) by (auto simp: pmm_inv_def pmm_rep_def)
  show b: "b < unat (totalPages s)" using blocks_ok_bound [OF ok assms(2)] N by simp
  show "b < 2 ^ 52" using b N by simp
  show "k < PMM_MAX_ORDER" "aligned b k" using blocks_okD [OF ok assms(2)] by auto
qed

lemma frames_disjoint:
  assumes ok: "blocks_ok M N (B \<union> insert (p, k) A)" and "(p, k) \<notin> B"
  shows "frames B \<inter> block p k = {}"
proof -
  have "block b j \<inter> block p k = {}" if "(b, j) \<in> B" for b j
    using blocks_ok_disjoint [OF ok, of b j p k] that assms(2) by auto
  then show ?thesis by (auto simp: frames_def)
qed

lemma valid_disjoint:
  assumes "pmm_inv s F (insert (p, k) A) X"
  shows "frames (fblocks F) \<inter> block p k = {}"
  using assms by (intro frames_disjoint) (auto simp: pmm_inv_def)

lemma valid_inv: "pmm_valid s F A \<Longrightarrow> pmm_inv s F A {}"
  unfolding pmm_valid_def pmm_inv_def pmm_flags_def
  by (auto simp: interior_insert intro: blocks_ok_subset)

lemma valid_zero:
  assumes "pmm_valid s F A" shows "0 \<notin> frames (fblocks F \<union> A)"
proof -
  have inv: "pmm_inv s F (insert (0, 0) A) {}" and A: "(0, 0) \<notin> A" using assms by (simp_all add: pmm_valid_def)
  then have "(0, 0) \<notin> fblocks F \<union> A" by (auto simp: pmm_inv_def)
  moreover have "blocks_ok PMM_MAX_ORDER (length (buddy_memmap s)) (fblocks F \<union> A \<union> insert (0, 0) {})"
    using inv by (simp add: pmm_inv_def)
  ultimately have "frames (fblocks F \<union> A) \<inter> block 0 0 = {}" by (rule frames_disjoint [rotated])
  then show ?thesis by auto
qed

section \<open>Allocation and release at the exported functions\<close>

lemma alloc_pages_some:
  assumes valid: "pmm_valid s F A" and k: "k < PMM_MAX_ORDER"
    and found: "find (\<lambda>j. F j \<noteq> []) [k..<PMM_MAX_ORDER] = Some c"
  shows "\<exists>s' F' p. pmm_alloc_pages s k = Ok (page_to_phys p, s') \<and> pmm_valid s' F' (insert (p, k) A) \<and>
    (p, k) \<notin> A \<and> p \<noteq> 0 \<and> p < 2 ^ 52 \<and> block p k \<subseteq> frames (fblocks F) \<and>
    frames (fblocks F') = frames (fblocks F) - block p k \<and>
    ref_count (buddy_memmap s' ! p) = 1 \<and>
    (\<forall>b j. (b, j) \<in> A \<longrightarrow> buddy_memmap s' ! b = buddy_memmap s ! b) \<and>
    used_pages s' = used_pages s + push_bit k 1 \<and> totalPages s' = totalPages s \<and>
    highestAddr s' = highestAddr s \<and> pmm_lock s' = lock_advance (pmm_lock s) \<and> cpu_rflags s' = cpu_rflags s \<and> (p, c) \<in> fblocks F"
proof -
  let ?A = "insert (0, 0) A"
  have inv: "pmm_inv s F ?A {}" and mg: "merged F" and z: "(0, 0) \<notin> A"
    and res: "flags (buddy_memmap s ! 0) = PMM_FLAG_RESERVED" and lf: "lock_free (pmm_lock s)"
    and usedA: "\<And>b j. (b, j) \<in> A \<Longrightarrow>
      flags (buddy_memmap s ! b) = PMM_FLAG_USED \<and> page_order (buddy_memmap s ! b) = j"
    using valid by (auto simp: pmm_valid_def)
  let ?h = "pmm_held s"
  have "pmm_inv ?h F ?A {}" using inv by simp
  from alloc_block_correct [OF this k found] obtain s1 F' p where
    al: "alloc_block ?h k = Ok (Some p, s1)" and inv1: "pmm_inv s1 F' (insert (p, k) ?A) {}"
    and fresh: "(p, k) \<notin> ?A" and fr: "frames (fblocks F) = frames (fblocks F') \<union> block p k"
    and mg': "merged F \<longrightarrow> merged F'"
    and pg: "buddy_memmap s1 ! p = \<lparr>flags = PMM_FLAG_USED, ref_count = 1, page_order = k\<rparr>"
    and same: "\<And>b j. (b, j) \<in> ?A \<Longrightarrow> buddy_memmap s1 ! b = buddy_memmap ?h ! b"
    and up: "used_pages s1 = used_pages ?h + push_bit k 1"
    and frame: "pmm_frame ?h (s1\<lparr>used_pages := used_pages ?h\<rparr>)" and pc: "(p, c) \<in> fblocks F"
    by blast
  have lk: "pmm_lock s1 = (pmm_lock s)\<lparr>ticket := ticket (pmm_lock s) + 1\<rparr>"
    and frs: "totalPages s1 = totalPages s" "highestAddr s1 = highestAddr s"
    using frame by (auto simp: pmm_frame_def)
  let ?s = "s1\<lparr>pmm_lock := lock_advance (pmm_lock s), cpu_rflags := cpu_rflags s\<rparr>"
  have run: "pmm_alloc_pages s k = Ok (page_to_phys p, ?s)"
    using k al pmm_acquire_free [OF lf] pmm_release_held [OF lk] by (simp add: pmm_alloc_pages_def)
  have inv2: "pmm_inv s1 F' (insert (0, 0) (insert (p, k) A)) {}" using inv1 by (simp add: insert_commute)
  have sameA: "\<And>b j. (b, j) \<in> A \<Longrightarrow> buddy_memmap s1 ! b = buddy_memmap s ! b"
    and same0: "buddy_memmap s1 ! 0 = buddy_memmap s ! 0"
    using same by auto
  have "pmm_valid ?s F' (insert (p, k) A)"
    using inv2 mg mg' pg sameA same0 usedA z fresh res lf by (auto simp: pmm_valid_def)
  moreover from this have "p \<noteq> 0"
    using valid_zero [of ?s F' "insert (p, k) A"] by (auto simp: frames_Un frames_insert)
  moreover have "frames (fblocks F') = frames (fblocks F) - block p k"
    using fr valid_disjoint [OF inv1] by auto
  moreover have "p < 2 ^ 52" using inv_bound(2) [OF inv1] by blast
  moreover have "block p k \<subseteq> frames (fblocks F)" using fr by blast
  moreover have "ref_count (buddy_memmap ?s ! p) = 1" using pg by simp
  moreover have "\<forall>b j. (b, j) \<in> A \<longrightarrow> buddy_memmap ?s ! b = buddy_memmap s ! b" using sameA by simp
  moreover have "used_pages ?s = used_pages s + push_bit k 1" using up by simp
  moreover have "totalPages ?s = totalPages s" "highestAddr ?s = highestAddr s"
    "pmm_lock ?s = lock_advance (pmm_lock s)" "cpu_rflags ?s = cpu_rflags s" using frs by simp_all
  ultimately show ?thesis using run fresh pc by blast
qed

lemma alloc_pages_none:
  assumes valid: "pmm_valid s F A" and k: "k < PMM_MAX_ORDER"
    and none: "find (\<lambda>j. F j \<noteq> []) [k..<PMM_MAX_ORDER] = None"
  shows "pmm_alloc_pages s k = Ok (0, s\<lparr>pmm_lock := lock_advance (pmm_lock s)\<rparr>)"
proof -
  have inv: "pmm_inv s F A {}" and lf: "lock_free (pmm_lock s)"
    using valid valid_inv by (auto simp: pmm_valid_def)
  let ?h = "pmm_held s"
  have "alloc_block ?h k = Ok (None, ?h)" using inv none by (intro alloc_block_none) simp_all
  then show ?thesis
    using k pmm_acquire_free [OF lf] by (simp add: pmm_alloc_pages_def pmm_release_held)
      (simp add: pmm_held_def)
qed

lemma free_pages_run:
  assumes inv: "pmm_inv s F (insert (p, k) (insert (0, 0) A)) {p}" and pk: "(p, k) \<notin> insert (0, 0) A"
    and z: "(0, 0) \<notin> A" and res: "flags (buddy_memmap s ! 0) = PMM_FLAG_RESERVED"
    and mg: "merged F" and lf: "lock_free (pmm_lock s)"
    and usedA: "\<And>b j. (b, j) \<in> A \<Longrightarrow>
      flags (buddy_memmap s ! b) = PMM_FLAG_USED \<and> page_order (buddy_memmap s ! b) = j"
  shows "\<exists>s' F'. pmm_free_pages s (page_to_phys p) k = Ok s' \<and> pmm_valid s' F' A \<and>
    frames (fblocks F') = frames (fblocks F) \<union> block p k \<and>
    (\<forall>b j. (b, j) \<in> A \<longrightarrow> buddy_memmap s' ! b = buddy_memmap s ! b) \<and>
    totalPages s' = totalPages s \<and> highestAddr s' = highestAddr s \<and>
    pmm_lock s' = lock_advance (pmm_lock s) \<and> cpu_rflags s' = cpu_rflags s \<and> counted_free p k s F' s'"
proof -
  let ?h = "pmm_held s" and ?A = "insert (0, 0) A"
  have pb: "p < unat (totalPages s)" "p < 2 ^ 52" "k < PMM_MAX_ORDER"
    using inv_bound [OF inv, of p k] by auto
  have "pmm_inv ?h F (insert (p, k) ?A) {p}" using inv by simp
  from free_block_correct [OF this pk pb(3)] obtain s1 F' where
    fb: "free_block ?h p k = Ok s1" and inv1: "pmm_inv s1 F' ?A {}"
    and fr: "frames (fblocks F') = frames (fblocks F) \<union> block p k" and mg': "merged F \<longrightarrow> merged F'"
    and same: "\<And>b j. (b, j) \<in> ?A \<Longrightarrow> buddy_memmap s1 ! b = buddy_memmap ?h ! b"
    and frame: "pmm_frame ?h (s1\<lparr>used_pages := used_pages ?h\<rparr>)" and cf: "counted_free p k ?h F' s1"
    by blast
  have lk: "pmm_lock s1 = (pmm_lock s)\<lparr>ticket := ticket (pmm_lock s) + 1\<rparr>"
    and frs: "totalPages s1 = totalPages s" "highestAddr s1 = highestAddr s"
    using frame by (auto simp: pmm_frame_def)
  let ?s = "s1\<lparr>pmm_lock := lock_advance (pmm_lock s), cpu_rflags := cpu_rflags s\<rparr>"
  have run: "pmm_free_pages s (page_to_phys p) k = Ok ?s"
    using fb pb pmm_acquire_free [OF lf] pmm_release_held [OF lk]
    by (simp add: pmm_free_pages_def page_to_phys_mod page_to_phys_div pfn_to_page_def Let_def)
  have sameA: "\<And>b j. (b, j) \<in> A \<Longrightarrow> buddy_memmap s1 ! b = buddy_memmap s ! b"
    and same0: "buddy_memmap s1 ! 0 = buddy_memmap s ! 0"
    using same by auto
  have "pmm_valid ?s F' A"
    using inv1 mg mg' sameA same0 usedA z res lf by (auto simp: pmm_valid_def)
  moreover have "counted_free p k s F' ?s" using cf by (simp add: counted_free_def)
  ultimately show ?thesis using run fr sameA frs by auto
qed

lemma free_pages_valid:
  assumes valid: "pmm_valid s F A" and pk: "(p, k) \<in> A"
  shows "\<exists>s' F'. pmm_free_pages s (page_to_phys p) k = Ok s' \<and> pmm_valid s' F' (A - {(p, k)}) \<and>
    frames (fblocks F') = frames (fblocks F) \<union> block p k \<and>
    (\<forall>b j. (b, j) \<in> A - {(p, k)} \<longrightarrow> buddy_memmap s' ! b = buddy_memmap s ! b) \<and>
    totalPages s' = totalPages s \<and> highestAddr s' = highestAddr s \<and>
    pmm_lock s' = lock_advance (pmm_lock s) \<and> cpu_rflags s' = cpu_rflags s \<and> counted_free p k s F' s'"
proof (rule free_pages_run)
  have A: "insert (p, k) (insert (0, 0) (A - {(p, k)})) = insert (0, 0) A" using pk by auto
  show "pmm_inv s F (insert (p, k) (insert (0, 0) (A - {(p, k)}))) {p}"
    using valid unfolding A pmm_valid_def by (auto simp: pmm_inv_def pmm_flags_def)
  have "(p, k) \<noteq> (0, 0)" using valid pk unfolding pmm_valid_def by metis
  then show "(p, k) \<notin> insert (0, 0) (A - {(p, k)})" by simp
qed (use valid in \<open>auto simp: pmm_valid_def\<close>)

lemma valid_blocks_ok:
  assumes "pmm_valid s F A"
  shows "blocks_ok PMM_MAX_ORDER (unat (totalPages s)) (fblocks F)"
    and "blocks_ok PMM_MAX_ORDER (unat (totalPages s)) (fblocks F \<union> A)"
proof -
  show 1: "blocks_ok PMM_MAX_ORDER (unat (totalPages s)) (fblocks F \<union> A)"
    using valid_inv [OF assms] by (auto simp: pmm_inv_def pmm_rep_def)
  show "blocks_ok PMM_MAX_ORDER (unat (totalPages s)) (fblocks F)"
    using blocks_ok_subset [OF 1] by blast
qed

lemma valid_fully_merged: "pmm_valid s F A \<Longrightarrow> fully_merged PMM_MAX_ORDER (fblocks F)"
  by (auto simp: pmm_valid_def merged_def fully_merged_def fblocks_def)

text \<open>
  Complete merging makes the free blocks a function of the free frames, so two valid
  states with the same free frames have the same free blocks.
\<close>

lemma valid_same_blocks:
  assumes "pmm_valid s F A" and "pmm_valid s' F' A'" and "frames (fblocks F') = frames (fblocks F)"
  shows "fblocks F' = fblocks F"
  using assms by (intro merged_unique) (auto intro: valid_blocks_ok valid_fully_merged)

lemma valid_free_allocated_disjoint:
  assumes "pmm_valid s F A" shows "frames (fblocks F) \<inter> frames A = {}"
proof -
  have ok: "blocks_ok PMM_MAX_ORDER (unat (totalPages s)) (fblocks F \<union> A)"
    by (rule valid_blocks_ok) fact
  have "fblocks F \<inter> A = {}" using valid_inv [OF assms] by (simp add: pmm_inv_def)
  then have "block b j \<inter> block c i = {}" if "(b, j) \<in> fblocks F" "(c, i) \<in> A" for b j c i
    using blocks_ok_disjoint [OF ok, of b j c i] that by auto
  then show ?thesis by (fastforce simp: frames_def)
qed

section \<open>Rounding sizes to orders\<close>

lemma order_loop_least:
  "n \<le> 2 ^ order_loop i n \<and> i \<le> order_loop i n \<and> (\<forall>j. i \<le> j \<longrightarrow> n \<le> 2 ^ j \<longrightarrow> order_loop i n \<le> j)"
proof (induction i n rule: order_loop.induct)
  case (1 i n)
  show ?case
  proof (cases "2 ^ i < n")
    case True
    have "Suc i \<le> j" if "i \<le> j" "n \<le> 2 ^ j" for j
      using that True by (cases "i = j") auto
    then show ?thesis using 1 [OF True] True by (subst (1 2 3) order_loop.simps) auto
  next
    case False
    then show ?thesis by (subst (1 2 3) order_loop.simps) simp
  qed
qed

lemma pages_needed:
  "(let n = unat (sz div PMM_PAGE_SIZE) in if sz mod PMM_PAGE_SIZE \<noteq> 0 then n + 1 else n) \<le> m \<longleftrightarrow>
   unat sz \<le> m * 4096"
proof -
  have "unat (sz div PMM_PAGE_SIZE) = unat sz div 4096"
    by (simp add: unat_div PMM_PAGE_SIZE_def)
  moreover have "sz mod PMM_PAGE_SIZE = 0 \<longleftrightarrow> unat sz mod 4096 = 0"
    by (simp add: unat_mod PMM_PAGE_SIZE_def flip: unat_eq_zero)
  moreover obtain q r where "unat sz div 4096 = q" "unat sz mod 4096 = r" by blast
  moreover from this have "unat sz = q * 4096 + r" "r < 4096"
    using div_mult_mod_eq [of "unat sz" 4096] by auto
  moreover have "(if r \<noteq> 0 then q + 1 else q) \<le> m \<longleftrightarrow> q * 4096 + r \<le> m * 4096" if "r < 4096" for r
    using that by (cases "r = 0") auto
  ultimately show ?thesis by (simp add: Let_def)
qed

lemma order_from_size_le: "pmm_get_order_from_size sz \<le> k \<longleftrightarrow> unat sz \<le> 2 ^ k * 4096"
proof -
  let ?n = "let n = unat (sz div PMM_PAGE_SIZE) in if sz mod PMM_PAGE_SIZE \<noteq> 0 then n + 1 else n"
  have eq: "pmm_get_order_from_size sz = order_loop 0 ?n"
    by (simp add: pmm_get_order_from_size_def Let_def)
  have "order_loop 0 ?n \<le> k \<longleftrightarrow> ?n \<le> 2 ^ k"
  proof
    assume "order_loop 0 ?n \<le> k"
    then have "(2::nat) ^ order_loop 0 ?n \<le> 2 ^ k" by (intro power_increasing) auto
    then show "?n \<le> 2 ^ k" using order_loop_least [of ?n 0] by linarith
  next
    assume "?n \<le> 2 ^ k"
    then show "order_loop 0 ?n \<le> k" using order_loop_least [of ?n 0] by blast
  qed
  then show ?thesis unfolding eq pages_needed [of sz "2 ^ k", symmetric] .
qed

section \<open>Reference counts\<close>

definition set_ref :: "pmm \<Rightarrow> nat \<Rightarrow> u32 \<Rightarrow> pmm" where
  "set_ref s p n = s\<lparr>buddy_memmap := (buddy_memmap s)[p := (buddy_memmap s ! p)\<lparr>ref_count := n\<rparr>]\<rparr>"

lemma set_ref_page:
  "is_page_free (buddy_memmap (set_ref s p n) ! r) = is_page_free (buddy_memmap s ! r)"
  "flags (buddy_memmap (set_ref s p n) ! r) = flags (buddy_memmap s ! r)"
  "page_order (buddy_memmap (set_ref s p n) ! r) = page_order (buddy_memmap s ! r)"
proof -
  have "buddy_memmap (set_ref s p n) ! r = buddy_memmap s ! r \<or>
      buddy_memmap (set_ref s p n) ! r = (buddy_memmap s ! r)\<lparr>ref_count := n\<rparr>"
    by (cases "p < length (buddy_memmap s)"; cases "r = p") (auto simp: set_ref_def list_update_beyond)
  then show "is_page_free (buddy_memmap (set_ref s p n) ! r) = is_page_free (buddy_memmap s ! r)"
    "flags (buddy_memmap (set_ref s p n) ! r) = flags (buddy_memmap s ! r)"
    "page_order (buddy_memmap (set_ref s p n) ! r) = page_order (buddy_memmap s ! r)"
    by (auto simp: is_page_free_def)
qed

lemma set_ref_fields [simp]:
  "length (buddy_memmap (set_ref s p n)) = length (buddy_memmap s)"
  "pmm_lock (set_ref s p n) = pmm_lock s" "cpu_rflags (set_ref s p n) = cpu_rflags s"
  "totalPages (set_ref s p n) = totalPages s" "highestAddr (set_ref s p n) = highestAddr s"
  "pmm_rep (set_ref s p n) F = pmm_rep s F"
  by (simp_all add: set_ref_def pmm_rep_def)

lemma set_ref_valid:
  assumes "pmm_valid s F A" and "lock_free l"
  shows "pmm_valid ((set_ref s p n)\<lparr>pmm_lock := l, cpu_rflags := rf\<rparr>) F A"
  using assms by (simp add: pmm_valid_def pmm_inv_def pmm_flags_def set_ref_page)

lemma modify_ref:
  "p < length (buddy_memmap s) \<Longrightarrow>
   modify_page p (\<lambda>q. q\<lparr>ref_count := f (ref_count q)\<rparr>) s = Ok (set_ref s p (f (ref_count (buddy_memmap s ! p))))"
  by (simp add: modify_page_def set_ref_def)

lemma allocated_page:
  assumes valid: "pmm_valid s F A" and pk: "(p, k) \<in> A"
  shows "p < length (buddy_memmap s)" "p < unat (totalPages s)" "p < 2 ^ 52"
    "is_page_used (buddy_memmap s ! p)" "page_order (buddy_memmap s ! p) = k"
    "phys_to_page s (page_to_phys p) = Some p" "lock_free (pmm_lock s)"
proof -
  have inv: "pmm_inv s F A {}" using valid by (rule valid_inv)
  show b: "p < unat (totalPages s)" "p < 2 ^ 52" using inv_bound [OF inv, of p k] pk by auto
  then show "p < length (buddy_memmap s)" using inv by (simp add: pmm_inv_def pmm_rep_def)
  show "is_page_used (buddy_memmap s ! p)" "page_order (buddy_memmap s ! p) = k" "lock_free (pmm_lock s)"
    using valid pk by (auto simp: pmm_valid_def is_page_used_def PMM_FLAG_USED_def)
  show "phys_to_page s (page_to_phys p) = Some p"
    using b by (simp add: phys_to_page_def page_to_phys_div pfn_to_page_def)
qed

lemma set_ref_held: "set_ref (pmm_held s) p n = pmm_held (set_ref s p n)"
  by (simp add: set_ref_def pmm_held_def)

lemma inc_ref_allocated:
  assumes "pmm_valid s F A" and "(p, k) \<in> A"
  shows "pmm_page_inc_ref s (page_to_phys p) =
    Ok ((set_ref s p (ref_count (buddy_memmap s ! p) + 1))\<lparr>pmm_lock := lock_advance (pmm_lock s)\<rparr>)"
proof -
  note pg = allocated_page [OF assms]
  have "phys_to_page (pmm_held s) (page_to_phys p) = Some p"
    using pg(6) by (simp add: phys_to_page_def pfn_to_page_def)
  then show ?thesis
    using pg by (simp add: pmm_page_inc_ref_def pmm_acquire_free read_page_def modify_ref
        [where f = "\<lambda>n. n + 1"] pmm_release_held) (simp add: set_ref_def pmm_held_def)
qed

lemma dec_ref_allocated:
  assumes "pmm_valid s F A" and "(p, k) \<in> A"
  shows "pmm_page_dec_ref s (page_to_phys p) =
    (let s' = (set_ref s p (ref_count (buddy_memmap s ! p) - 1))\<lparr>pmm_lock := lock_advance (pmm_lock s)\<rparr>
     in if ref_count (buddy_memmap s ! p) = 1 then pmm_free_pages s' (page_to_phys p) k else Ok s')"
proof -
  note pg = allocated_page [OF assms]
  have "phys_to_page (pmm_held s) (page_to_phys p) = Some p"
    using pg(6) by (simp add: phys_to_page_def pfn_to_page_def)
  moreover have "ref_count (buddy_memmap (set_ref s p n) ! p) = n" for n
    using pg(1) by (simp add: set_ref_def)
  moreover have "(pmm_held (set_ref s p n))\<lparr>pmm_lock := l, cpu_rflags := cpu_rflags s\<rparr> =
      (set_ref s p n)\<lparr>pmm_lock := l\<rparr>" for n l
    by (simp add: set_ref_def pmm_held_def)
  ultimately show ?thesis
    using pg by (simp add: pmm_page_dec_ref_def pmm_acquire_free read_page_def modify_ref
        [where f = "\<lambda>n. n - 1"] pmm_release_held set_ref_held set_ref_page Let_def)
qed

lemma set_ref_advance_valid:
  assumes valid: "pmm_valid s F A"
  shows "pmm_valid ((set_ref s p n)\<lparr>pmm_lock := lock_advance (pmm_lock s)\<rparr>) F A"
proof -
  have "lock_free (lock_advance (pmm_lock s))" using valid by (simp add: pmm_valid_def)
  then have "pmm_valid ((set_ref s p n)\<lparr>pmm_lock := lock_advance (pmm_lock s), cpu_rflags := cpu_rflags s\<rparr>) F A"
    by (rule set_ref_valid [OF valid])
  moreover have "(set_ref s p n)\<lparr>pmm_lock := l, cpu_rflags := cpu_rflags s\<rparr> = (set_ref s p n)\<lparr>pmm_lock := l\<rparr>" for l
    by (simp add: set_ref_def)
  ultimately show ?thesis by simp
qed

lemma set_ref_other: "q \<noteq> p \<Longrightarrow> buddy_memmap (set_ref s p n) ! q = buddy_memmap s ! q"
  by (simp add: set_ref_def)

lemma dec_ref_last:
  assumes valid: "pmm_valid s F A" and pk: "(p, k) \<in> A" and one: "ref_count (buddy_memmap s ! p) = 1"
  shows "\<exists>s' F'. pmm_page_dec_ref s (page_to_phys p) = Ok s' \<and> pmm_valid s' F' (A - {(p, k)}) \<and>
    frames (fblocks F') = frames (fblocks F) \<union> block p k \<and> totalPages s' = totalPages s \<and>
    (\<forall>b j. (b, j) \<in> A - {(p, k)} \<longrightarrow> buddy_memmap s' ! b = buddy_memmap s ! b)"
proof -
  let ?s = "(set_ref s p 0)\<lparr>pmm_lock := lock_advance (pmm_lock s)\<rparr>"
  from free_pages_valid [OF set_ref_advance_valid [OF valid, of p 0] pk] obtain s' F' where
    run: "pmm_free_pages ?s (page_to_phys p) k = Ok s'" and v': "pmm_valid s' F' (A - {(p, k)})"
    and fr: "frames (fblocks F') = frames (fblocks F) \<union> block p k" "totalPages s' = totalPages ?s"
    and same: "\<forall>b j. (b, j) \<in> A - {(p, k)} \<longrightarrow> buddy_memmap s' ! b = buddy_memmap ?s ! b"
    by blast
  have "pmm_page_dec_ref s (page_to_phys p) = Ok s'"
    unfolding dec_ref_allocated [OF valid pk] Let_def using one run by simp
  moreover have "\<forall>b j. (b, j) \<in> A - {(p, k)} \<longrightarrow> buddy_memmap s' ! b = buddy_memmap s ! b"
  proof (intro allI impI)
    fix b j
    assume b: "(b, j) \<in> A - {(p, k)}"
    have "b \<noteq> p"
      using b pk blocks_ok_head [OF valid_blocks_ok(2) [OF valid], of p k j] by auto
    then show "buddy_memmap s' ! b = buddy_memmap s ! b" using same b set_ref_other [of b p s 0] by fastforce
  qed
  moreover have "totalPages s' = totalPages s" using fr(2) by simp
  ultimately show ?thesis using v' fr(1) by blast
qed

section \<open>A small concrete state\<close>

text \<open>
  Eight frames: frame 0 is reserved, frame 1 is allocated as a block of order 0, frames 2 and 3
  are a free block of order 1, and frames 4 to 7 one of order 2. It serves to evaluate
  the operations on.
\<close>

definition demo_free :: "nat \<Rightarrow> nat list" where
  "demo_free k = (if k = 1 then [2] else if k = 2 then [4] else [])"

definition demo_links :: "link_ptr ll_heap" where
  "demo_links x =
     (case x of
        LinkNull \<Rightarrow> None
      | AreaHead k \<Rightarrow>
          (if k = 1 \<or> k = 2 then Some \<lparr>ll_prev = PageLink (2 ^ k), ll_next = PageLink (2 ^ k)\<rparr>
           else if k < 11 then Some \<lparr>ll_prev = AreaHead k, ll_next = AreaHead k\<rparr> else None)
      | PageLink p \<Rightarrow>
          (if p = 2 then Some \<lparr>ll_prev = AreaHead 1, ll_next = AreaHead 1\<rparr>
           else if p = 4 then Some \<lparr>ll_prev = AreaHead 2, ll_next = AreaHead 2\<rparr>
           else if p < 8 then Some \<lparr>ll_prev = LinkNull, ll_next = LinkNull\<rparr> else None))"

definition demo_page :: "u32 \<Rightarrow> nat \<Rightarrow> pmm_page" where
  "demo_page f k = \<lparr>flags = f, ref_count = (if f = PMM_FLAG_FREE then 0 else 1), page_order = k\<rparr>"

definition pmm_demo :: pmm where
  "pmm_demo = \<lparr>
     buddy_memmap = [demo_page PMM_FLAG_RESERVED 0, demo_page PMM_FLAG_USED 0, demo_page PMM_FLAG_FREE 1,
       demo_page PMM_FLAG_RESERVED 0, demo_page PMM_FLAG_FREE 2, demo_page PMM_FLAG_RESERVED 0,
       demo_page PMM_FLAG_RESERVED 0, demo_page PMM_FLAG_RESERVED 0],
     pmm_links = demo_links, nr_free = [0, 1, 1, 0, 0, 0, 0, 0, 0, 0, 0],
     used_pages = 2, totalPages = 8, highestAddr = 0x8000,
     pmm_lock = SPINLOCK_IRQ_INIT, cpu_rflags = 0x202\<rparr>"

lemma demo_fblocks: "fblocks demo_free = {(2, 1), (4, 2)}"
  by (auto simp: fblocks_def demo_free_def PMM_MAX_ORDER_def split: if_splits)

lemma demo_rep: "pmm_rep pmm_demo demo_free"
proof -
  have lt11: "k < PMM_MAX_ORDER \<longleftrightarrow> k = 0 \<or> k = 1 \<or> k = 2 \<or> k = 3 \<or> k = 4 \<or> k = 5 \<or> k = 6 \<or>
      k = 7 \<or> k = 8 \<or> k = 9 \<or> k = 10" for k :: nat
    unfolding PMM_MAX_ORDER_def by presburger
  have "ring demo_links (AreaHead k) (map PageLink (demo_free k))" if "k < PMM_MAX_ORDER" for k
    using that by (auto simp: lt11 ring_def demo_links_def demo_free_def)
  then have "list_family ring {..<PMM_MAX_ORDER} AreaHead (\<lambda>k. map PageLink (demo_free k)) demo_links"
    by (auto simp: list_family_def demo_free_def)
  moreover have "PageLink p \<in> dom demo_links" if "p < 8" for p
    using that by (auto simp: demo_links_def)
  moreover have "[0, 1, 1, 0, 0, 0, 0, 0, 0, 0, 0] ! k = (of_nat (length (demo_free k)) :: u64)"
    if "k < PMM_MAX_ORDER" for k
    using that by (auto simp: lt11 demo_free_def)
  ultimately show ?thesis
    by (simp add: pmm_rep_def pmm_demo_def) (simp add: PMM_MAX_ORDER_def)
qed

lemma demo_valid: "pmm_valid pmm_demo demo_free {(1, 0)}"
proof -
  have len: "length (buddy_memmap pmm_demo) = 8" by (simp add: pmm_demo_def)
  have ok: "blocks_ok PMM_MAX_ORDER 8 (fblocks demo_free \<union> {(0, 0), (1, 0)})"
    unfolding demo_fblocks blocks_ok_def PMM_MAX_ORDER_def by (auto simp: aligned_def block_def)
  have lt8: "r < 8 \<longleftrightarrow> r = 0 \<or> r = 1 \<or> r = 2 \<or> r = 3 \<or> r = 4 \<or> r = 5 \<or> r = 6 \<or> r = 7" for r :: nat
    by auto
  have "pmm_flags pmm_demo demo_free {(0, 0), (1, 0)} {}"
    unfolding pmm_flags_def len demo_fblocks
    by (auto simp: lt8 pmm_demo_def demo_page_def is_page_free_def PMM_FLAG_FREE_def
        PMM_FLAG_USED_def PMM_FLAG_RESERVED_def)
  then have "pmm_inv pmm_demo demo_free {(0, 0), (1, 0)} {}"
    using demo_rep ok len by (simp add: pmm_inv_def demo_fblocks)
  moreover have "merged demo_free"
    by (auto simp: merged_def demo_free_def buddy_of_def split: if_splits)
  ultimately show ?thesis by (simp add: pmm_valid_def pmm_demo_def demo_page_def)
qed

section \<open>The contract\<close>

lemma dll_add_after_total: "dll_add_after x y h = Fault \<or> (\<exists>h'. dll_add_after x y h = Ok h')"
  by (auto simp: dll_add_after_def dll_add_def read_next_def write_next_def write_prev_def split: option.splits)

lemma find_free_iff:
  "find (\<lambda>j. F j \<noteq> []) [k..<PMM_MAX_ORDER] = None \<longleftrightarrow> \<not> (\<exists>j. k \<le> j \<and> j < PMM_MAX_ORDER \<and> F j \<noteq> [])"
  by (auto simp: find_None_iff)

text \<open>
  C1: \<open>pmm_alloc\<close> of \<open>sz\<close> bytes, when some free block is large enough, succeeds: it returns the
  address of a non-null block whose \<open>2 ^ order\<close> frames hold \<open>sz\<close> bytes, is aligned to its
  size, lies wholly in the free frames and so overlaps no block handed out before. The block is
  recorded as allocated with one reference, exactly its frames leave the free frames, the
  other allocated descriptors are untouched, and the state is valid again.
\<close>

theorem pmm_alloc_grants_block:
  assumes valid: "pmm_valid s F A"
    and k: "pmm_get_order_from_size sz = k" "k < PMM_MAX_ORDER"
    and some: "\<exists>j. k \<le> j \<and> j < PMM_MAX_ORDER \<and> F j \<noteq> []"
  shows "\<exists>s' F' p. pmm_alloc s sz = Ok (page_to_phys p, s') \<and> page_to_phys p \<noteq> 0 \<and>
    pmm_valid s' F' (insert (p, k) A) \<and> aligned p k \<and> unat sz \<le> 2 ^ k * 4096 \<and>
    block p k \<subseteq> frames (fblocks F) \<and> block p k \<inter> frames A = {} \<and>
    frames (fblocks F') = frames (fblocks F) - block p k \<and>
    ref_count (buddy_memmap s' ! p) = 1 \<and>
    (\<forall>b j. (b, j) \<in> A \<longrightarrow> buddy_memmap s' ! b = buddy_memmap s ! b) \<and> cpu_rflags s' = cpu_rflags s"
proof -
  obtain c where "find (\<lambda>j. F j \<noteq> []) [k..<PMM_MAX_ORDER] = Some c"
    using some find_free_iff [of F k] by fastforce
  from alloc_pages_some [OF valid k(2) this] obtain s' F' p where
    run: "pmm_alloc_pages s k = Ok (page_to_phys p, s')" and v': "pmm_valid s' F' (insert (p, k) A)"
    and p: "p \<noteq> 0" "p < 2 ^ 52" "block p k \<subseteq> frames (fblocks F)"
    and rest: "frames (fblocks F') = frames (fblocks F) - block p k" "ref_count (buddy_memmap s' ! p) = 1"
      "\<forall>b j. (b, j) \<in> A \<longrightarrow> buddy_memmap s' ! b = buddy_memmap s ! b" "cpu_rflags s' = cpu_rflags s"
    by blast
  have "pmm_alloc s sz = Ok (page_to_phys p, s')" using run k by (simp add: pmm_alloc_def)
  moreover have "page_to_phys p \<noteq> 0" using p page_to_phys_zero by blast
  moreover have "aligned p k" using blocks_okD [OF valid_blocks_ok(2) [OF v']] by blast
  moreover have "unat sz \<le> 2 ^ k * 4096" using k(1) order_from_size_le [of sz k] by simp
  moreover have "block p k \<inter> frames A = {}" using valid_free_allocated_disjoint [OF valid] p(3) by blast
  ultimately show ?thesis using v' p(3) rest by blast
qed

theorem pmm_alloc_grants_block_witness:
  "\<exists>s' F' p. pmm_alloc pmm_demo 4096 = Ok (page_to_phys p, s') \<and> page_to_phys p \<noteq> 0 \<and>
    pmm_valid s' F' {(p, 0), (1, 0)} \<and> p \<notin> block 1 0"
proof -
  have "pmm_get_order_from_size 4096 = 0" using order_from_size_le [of 4096 0] by simp
  moreover have "\<exists>j. 0 \<le> j \<and> j < PMM_MAX_ORDER \<and> demo_free j \<noteq> []"
    by (rule exI [of _ 1]) (simp add: demo_free_def PMM_MAX_ORDER_def)
  ultimately show ?thesis
    using pmm_alloc_grants_block [OF demo_valid, of 4096 0] by (fastforce simp: PMM_MAX_ORDER_def frames_def)
qed

text \<open>
  C33: \<open>pmm_alloc\<close> of a size for which no free block is large enough (or which exceeds the
  largest order) returns address 0 and leaves everything but the counters of the lock as it
  was.
\<close>

theorem pmm_alloc_fails_cleanly:
  assumes valid: "pmm_valid s F A" and k: "pmm_get_order_from_size sz = k"
    and none: "\<not> (\<exists>j. k \<le> j \<and> j < PMM_MAX_ORDER \<and> F j \<noteq> [])"
  shows "\<exists>l. pmm_alloc s sz = Ok (0, s\<lparr>pmm_lock := l\<rparr>) \<and> lock_free l"
proof (cases "k < PMM_MAX_ORDER")
  case True
  then show ?thesis
    using alloc_pages_none [OF valid True] none k valid
    by (auto simp: find_free_iff pmm_alloc_def pmm_valid_def)
next
  case False
  then show ?thesis using k valid
    by (intro exI [of _ "pmm_lock s"]) (simp add: pmm_alloc_def pmm_valid_def)
qed

theorem pmm_alloc_fails_cleanly_witness:
  "\<exists>l. pmm_alloc pmm_demo 0x8000 = Ok (0, pmm_demo\<lparr>pmm_lock := l\<rparr>) \<and> lock_free l"
proof -
  have "pmm_get_order_from_size 0x8000 = 3"
    using order_from_size_le [of "0x8000" 3] order_from_size_le [of "0x8000" 2] by simp
  then show ?thesis
    using pmm_alloc_fails_cleanly [OF demo_valid, of "0x8000" 3]
    by (auto simp: demo_free_def split: if_splits)
qed

text \<open>
  C2: freeing an allocated block puts exactly its frames back into the free frames, forgets
  the block, keeps every other allocated descriptor and re-establishes validity, in
  particular complete merging of free buddies.
\<close>

theorem pmm_free_returns_block:
  assumes "pmm_valid s F A" and "(p, k) \<in> A" and "pmm_get_order_from_size len = k"
  shows "\<exists>s' F'. pmm_free s (page_to_phys p) len = Ok s' \<and> pmm_valid s' F' (A - {(p, k)}) \<and>
    frames (fblocks F') = frames (fblocks F) \<union> block p k \<and>
    (\<forall>b j. (b, j) \<in> A - {(p, k)} \<longrightarrow> buddy_memmap s' ! b = buddy_memmap s ! b) \<and>
    cpu_rflags s' = cpu_rflags s"
  using free_pages_valid [OF assms(1,2)] assms(3) by (auto simp: pmm_free_def)

theorem pmm_free_returns_block_witness:
  "\<exists>s' F'. pmm_free pmm_demo 0x1000 0x1000 = Ok s' \<and> pmm_valid s' F' {} \<and>
    frames (fblocks F') = {1..<8}"
proof -
  have "pmm_get_order_from_size 0x1000 = 0" using order_from_size_le [of "0x1000" 0] by simp
  moreover have "page_to_phys 1 = 0x1000" by (simp add: page_to_phys_def PMM_PAGE_SIZE_def)
  moreover have "frames (fblocks demo_free) \<union> block 1 0 = {1..<8}"
    by (auto simp: demo_fblocks frames_def)
  ultimately show ?thesis
    using pmm_free_returns_block [OF demo_valid, of 1 0 "0x1000"] by auto
qed

text \<open>
  C3: allocating and then freeing the same block gives back the state of the free lists: the
  same free blocks, at the same orders, and the same allocated blocks. The splitting done by
  the allocation is undone completely by the coalescing of the release.
\<close>

theorem pmm_alloc_free_roundtrip:
  assumes valid: "pmm_valid s F A"
    and k: "pmm_get_order_from_size sz = k" "k < PMM_MAX_ORDER"
    and some: "\<exists>j. k \<le> j \<and> j < PMM_MAX_ORDER \<and> F j \<noteq> []"
  shows "\<exists>a s' s'' F''. pmm_alloc s sz = Ok (a, s') \<and> a \<noteq> 0 \<and> pmm_free s' a sz = Ok s'' \<and>
    pmm_valid s'' F'' A \<and> fblocks F'' = fblocks F"
proof -
  obtain c where "find (\<lambda>j. F j \<noteq> []) [k..<PMM_MAX_ORDER] = Some c"
    using some find_free_iff [of F k] by fastforce
  from alloc_pages_some [OF valid k(2) this] obtain s' F' p where
    run: "pmm_alloc_pages s k = Ok (page_to_phys p, s')" and v': "pmm_valid s' F' (insert (p, k) A)"
    and p: "(p, k) \<notin> A" "p \<noteq> 0" "p < 2 ^ 52" "block p k \<subseteq> frames (fblocks F)"
      "frames (fblocks F') = frames (fblocks F) - block p k"
    by blast
  from free_pages_valid [OF v'] obtain s'' F'' where
    run': "pmm_free_pages s' (page_to_phys p) k = Ok s''"
    and v'': "pmm_valid s'' F'' (insert (p, k) A - {(p, k)})"
    and fr: "frames (fblocks F'') = frames (fblocks F') \<union> block p k"
    by blast
  have A: "insert (p, k) A - {(p, k)} = A" using p(1) by auto
  have "frames (fblocks F'') = frames (fblocks F)" using fr p(4,5) by blast
  then have "fblocks F'' = fblocks F" by (rule valid_same_blocks [OF valid v''])
  moreover have "page_to_phys p \<noteq> 0" using p page_to_phys_zero by blast
  moreover have "pmm_alloc s sz = Ok (page_to_phys p, s')" "pmm_free s' (page_to_phys p) sz = Ok s''"
    using run run' k by (simp_all add: pmm_alloc_def pmm_free_def)
  ultimately show ?thesis using v'' unfolding A by blast
qed

theorem pmm_alloc_free_roundtrip_witness:
  "\<exists>a s' s'' F''. pmm_alloc pmm_demo 1 = Ok (a, s') \<and> a \<noteq> 0 \<and> pmm_free s' a 1 = Ok s'' \<and>
    pmm_valid s'' F'' {(1, 0)} \<and> fblocks F'' = {(2, 1), (4, 2)}"
proof -
  have "pmm_get_order_from_size 1 = 0" using order_from_size_le [of 1 0] by simp
  moreover have "\<exists>j. 0 \<le> j \<and> j < PMM_MAX_ORDER \<and> demo_free j \<noteq> []"
    by (rule exI [of _ 1]) (simp add: demo_free_def PMM_MAX_ORDER_def)
  ultimately show ?thesis
    using pmm_alloc_free_roundtrip [OF demo_valid, of 1 0] by (simp add: PMM_MAX_ORDER_def demo_fblocks)
qed

text \<open>
  The order computed for a size is the least one whose block holds the size: an order
  \<open>k\<close> is large enough exactly when it is at least \<open>pmm_get_order_from_size sz\<close>.
\<close>

theorem pmm_order_is_least: "pmm_get_order_from_size sz \<le> k \<longleftrightarrow> unat sz \<le> 2 ^ k * 4096"
  by (rule order_from_size_le)

text \<open>
  Dropping a reference of an allocated block decrements its count and nothing else while
  other references remain; dropping the last one frees the whole block.
\<close>

theorem pmm_dec_ref_frees_at_zero:
  assumes valid: "pmm_valid s F A" and pk: "(p, k) \<in> A"
  shows "(ref_count (buddy_memmap s ! p) \<noteq> 1 \<longrightarrow>
      pmm_page_dec_ref s (page_to_phys p) =
        Ok ((set_ref s p (ref_count (buddy_memmap s ! p) - 1))\<lparr>pmm_lock := lock_advance (pmm_lock s)\<rparr>)) \<and>
    (ref_count (buddy_memmap s ! p) = 1 \<longrightarrow>
      (\<exists>s' F'. pmm_page_dec_ref s (page_to_phys p) = Ok s' \<and> pmm_valid s' F' (A - {(p, k)}) \<and>
        frames (fblocks F') = frames (fblocks F) \<union> block p k))"
proof (cases "ref_count (buddy_memmap s ! p) = 1")
  case True
  then show ?thesis using dec_ref_last [OF assms True] by blast
next
  case False
  then show ?thesis unfolding dec_ref_allocated [OF assms] Let_def by simp
qed

theorem pmm_dec_ref_frees_at_zero_witness:
  "\<exists>s' F'. pmm_page_dec_ref pmm_demo 0x1000 = Ok s' \<and> pmm_valid s' F' {} \<and>
    frames (fblocks F') = {1..<8}"
proof -
  have "page_to_phys 1 = 0x1000" by (simp add: page_to_phys_def PMM_PAGE_SIZE_def)
  moreover have "ref_count (buddy_memmap pmm_demo ! 1) = 1"
    by (simp add: pmm_demo_def demo_page_def PMM_FLAG_USED_def PMM_FLAG_FREE_def)
  moreover have "frames (fblocks demo_free) \<union> block 1 0 = {1..<8}"
    by (auto simp: demo_fblocks frames_def)
  ultimately show ?thesis
    using pmm_dec_ref_frees_at_zero [OF demo_valid, of 1 0] by auto
qed

text \<open>
  A reference taken with \<open>pmm_page_inc_ref\<close> is given back by \<open>pmm_page_dec_ref\<close>: the pair
  restores the count, frees nothing and changes nothing but the counters of the lock, unless
  the 32-bit count wraps to 0.
\<close>

theorem pmm_inc_dec_ref_roundtrip:
  assumes valid: "pmm_valid s F A" and pk: "(p, k) \<in> A" and nz: "ref_count (buddy_memmap s ! p) \<noteq> 0"
  shows "\<exists>s' l. pmm_page_inc_ref s (page_to_phys p) = Ok s' \<and>
    pmm_page_dec_ref s' (page_to_phys p) = Ok (s\<lparr>pmm_lock := l\<rparr>) \<and> lock_free l"
proof -
  let ?n = "ref_count (buddy_memmap s ! p)"
  let ?s = "(set_ref s p (?n + 1))\<lparr>pmm_lock := lock_advance (pmm_lock s)\<rparr>"
  note pg = allocated_page [OF valid pk]
  have lf: "lock_free (lock_advance (pmm_lock s))" using pg(7) by simp
  have "pmm_valid ((set_ref s p (?n + 1))\<lparr>pmm_lock := lock_advance (pmm_lock s), cpu_rflags := cpu_rflags s\<rparr>) F A"
    by (rule set_ref_valid [OF valid lf])
  moreover have "(set_ref s p (?n + 1))\<lparr>pmm_lock := lock_advance (pmm_lock s), cpu_rflags := cpu_rflags s\<rparr> = ?s"
    by (simp add: set_ref_def)
  ultimately have v: "pmm_valid ?s F A" by simp
  have rc: "ref_count (buddy_memmap ?s ! p) = ?n + 1" using pg(1) by (simp add: set_ref_def)
  have "(set_ref ?s p ?n)\<lparr>pmm_lock := l\<rparr> = s\<lparr>pmm_lock := l\<rparr>" for l
    using pg(1) by (simp add: set_ref_def)
  then have "pmm_page_dec_ref ?s (page_to_phys p) = Ok (s\<lparr>pmm_lock := lock_advance (pmm_lock ?s)\<rparr>)"
    unfolding dec_ref_allocated [OF v pk] Let_def rc using nz by simp
  moreover have "lock_free (lock_advance (pmm_lock ?s))" using lf by simp
  ultimately show ?thesis using inc_ref_allocated [OF valid pk] by blast
qed

theorem pmm_inc_dec_ref_roundtrip_witness:
  "\<exists>s' l. pmm_page_inc_ref pmm_demo 0x1000 = Ok s' \<and>
    pmm_page_dec_ref s' 0x1000 = Ok (pmm_demo\<lparr>pmm_lock := l\<rparr>) \<and> lock_free l"
proof -
  have "page_to_phys 1 = 0x1000" by (simp add: page_to_phys_def PMM_PAGE_SIZE_def)
  moreover have "ref_count (buddy_memmap pmm_demo ! 1) \<noteq> 0"
    by (simp add: pmm_demo_def demo_page_def PMM_FLAG_USED_def PMM_FLAG_FREE_def)
  ultimately show ?thesis using pmm_inc_dec_ref_roundtrip [OF demo_valid, of 1 0] by auto
qed

lemma same_block:
  assumes "blocks_ok M N B" "(p, k) \<in> B" "(q, j) \<in> B" "x \<in> block p k" "x \<in> block q j"
  shows "k = j"
  using blocks_ok_disjoint [OF assms(1-3)] assms(4,5) by blast

text \<open>
  C40: the statistic \<open>used_pages\<close> drifts. In every valid state, allocating a block of order \<open>k\<close>
  and freeing it again restores the free blocks, but not the counter: when the smallest free block
  that is large enough has order \<open>c\<close>, the allocation adds \<open>2 ^ k\<close> and the release subtracts \<open>2 ^ c\<close>,
  the size of the block that coalescing restores and not the size of the block freed.
\<close>

theorem pmm_used_pages_drifts:
  assumes "pmm_valid s F A" and "k < PMM_MAX_ORDER" and "find (\<lambda>j. F j \<noteq> []) [k..<PMM_MAX_ORDER] = Some c"
  shows "\<exists>a s' s'' F''. pmm_alloc_pages s k = Ok (a, s') \<and> pmm_free_pages s' a k = Ok s'' \<and>
    pmm_valid s'' F'' A \<and> fblocks F'' = fblocks F \<and>
    used_pages s' = used_pages s + 2 ^ k \<and> used_pages s'' = used_pages s + 2 ^ k - 2 ^ c"
proof -
  from alloc_pages_some [OF assms] obtain s' F' p where
    al: "pmm_alloc_pages s k = Ok (page_to_phys p, s')" "pmm_valid s' F' (insert (p, k) A)" "(p, k) \<notin> A"
    and fr: "block p k \<subseteq> frames (fblocks F)" "frames (fblocks F') = frames (fblocks F) - block p k"
    and up: "used_pages s' = used_pages s + push_bit k 1" and pc: "(p, c) \<in> fblocks F"
    by blast
  from free_pages_valid [OF al(2), of p k] obtain s'' F'' where
    free: "pmm_free_pages s' (page_to_phys p) k = Ok s''" "pmm_valid s'' F'' (insert (p, k) A - {(p, k)})"
    and fr': "frames (fblocks F'') = frames (fblocks F') \<union> block p k" and cf: "counted_free p k s' F'' s''"
    by blast
  have v: "pmm_valid s'' F'' A" using free(2) al(3) by simp
  have "frames (fblocks F'') = frames (fblocks F)" using fr fr' by blast
  then have eq: "fblocks F'' = fblocks F" by (rule valid_same_blocks [OF assms(1) v])
  from cf obtain p' k' where k': "(p', k') \<in> fblocks F" "block p k \<subseteq> block p' k'" "used_pages s'' = used_pages s' - push_bit k' 1"
    unfolding counted_free_def eq by blast
  have "p \<in> block p k" "p \<in> block p c" by (simp_all add: block_def)
  then have "k' = c" using same_block [OF valid_blocks_ok(1) [OF assms(1)] k'(1) pc, of p] k'(2) by blast
  then have "used_pages s'' = used_pages s + 2 ^ k - 2 ^ c" using up k'(3) by (simp add: push_bit_eq_mult)
  moreover have "used_pages s' = used_pages s + 2 ^ k" using up by (simp add: push_bit_eq_mult)
  ultimately show ?thesis using al(1) free(1) v eq by blast
qed

theorem pmm_used_pages_drifts_witness:
  "\<exists>a s' s''. pmm_alloc_pages pmm_demo 0 = Ok (a, s') \<and> pmm_free_pages s' a 0 = Ok s'' \<and>
    used_pages pmm_demo = 2 \<and> used_pages s' = 3 \<and> used_pages s'' = 1"
proof -
  have "find (\<lambda>j. demo_free j \<noteq> []) [0..<PMM_MAX_ORDER] = Some 1" by code_simp
  from pmm_used_pages_drifts [OF demo_valid _ this] show ?thesis by (fastforce simp: PMM_MAX_ORDER_def pmm_demo_def)
qed

text \<open>
  \<open>pmm_free\<close> of an address inside memory with a length beyond the largest block indexes
  \<open>free_areas\<close> past its end; unlike \<open>pmm_alloc\<close> it does not reject such an order.
\<close>

theorem pmm_free_large_faults:
  assumes valid: "pmm_valid s F A" and p: "p < unat (totalPages s)"
    and big: "2 ^ 22 < unat len"
  shows "pmm_free s (page_to_phys p) len = Fault"
proof -
  let ?k = "pmm_get_order_from_size len"
  have inv: "pmm_inv s F A {}" and lf: "lock_free (pmm_lock s)"
    using valid valid_inv by (auto simp: pmm_valid_def)
  have p': "p < 2 ^ 52" using p inv by (simp add: pmm_inv_def pmm_rep_def)
  have k: "PMM_MAX_ORDER \<le> ?k"
    using order_from_size_le [of len 10] big by (simp add: PMM_MAX_ORDER_def)
  have nf: "\<not> ?k < length (nr_free (pmm_held s))"
    using k inv by (simp add: pmm_inv_def pmm_rep_def pmm_held_def)
  have "coalesce (pmm_held s) p ?k = Ok (pmm_held s, p, ?k)"
    using k by (subst coalesce.simps) (simp add: PMM_MAX_ORDER_def)
  then have "free_block (pmm_held s) p ?k = Fault"
    using nf dll_add_after_total [of "AreaHead ?k" "PageLink p" "pmm_links (pmm_held s)"]
    by (auto simp: free_block_def modify_page_def modify_links_def modify_nr_free_def)
  then show ?thesis
    using p p' pmm_acquire_free [OF lf]
    by (simp add: pmm_free_def pmm_free_pages_def page_to_phys_mod page_to_phys_div pfn_to_page_def Let_def)
qed

theorem pmm_free_large_faults_witness: "pmm_free pmm_demo 0x1000 0x400001 = Fault"
proof -
  have "page_to_phys 1 = 0x1000" by (simp add: page_to_phys_def PMM_PAGE_SIZE_def)
  then show ?thesis using pmm_free_large_faults [OF demo_valid, of 1 "0x400001"] by (simp add: pmm_demo_def)
qed

end
