(* ===== verification/Hhdm.thy ===== *)
theory Hhdm
  imports Prelude
begin

text \<open>
  The higher half direct map of \<open>kernel/src/memory/hhdm.c\<close>: all of physical memory appears in
  the virtual address space at a fixed offset, which the boot loader chooses. The offset
  is a parameter of every definition that converts an address.
\<close>

definition hhdm_physToVirt :: "u64 \<Rightarrow> u64 \<Rightarrow> u64" where
  "hhdm_physToVirt offset physical_addr = physical_addr + offset"

definition hhdm_virtToPhys :: "u64 \<Rightarrow> u64 \<Rightarrow> u64" where
  "hhdm_virtToPhys offset virtual_addr = virtual_addr - offset"

lemma hhdm_roundtrip [simp]:
  "hhdm_virtToPhys offset (hhdm_physToVirt offset a) = a"
  "hhdm_physToVirt offset (hhdm_virtToPhys offset a) = a"
  by (simp_all add: hhdm_virtToPhys_def hhdm_physToVirt_def)

lemma hhdm_physToVirt_inj [simp]:
  "hhdm_physToVirt offset a = hhdm_physToVirt offset b \<longleftrightarrow> a = b"
  by (simp add: hhdm_physToVirt_def)

end
