(* ===== verification/Pmm_Init.thy ===== *)
theory Pmm_Init
  imports Pmm_Props Hhdm
begin

text \<open>
  The initialisation of the physical memory manager from the boot loader's memory map:
  \<open>pmm_init\<close> of \<open>kernel/src/memory/pmm.c\<close>, and that it establishes a valid state whose free
  frames are exactly those of the usable regions, less frame 0 and the frames taken by the
  page descriptors themselves.
\<close>

section \<open>The memory map\<close>

text \<open>
  The kinds of region the code distinguishes; \<open>MEMMAP_OTHER\<close> stands for every further
  value of the \<open>type\<close> field.
\<close>

datatype memmap_type =
    LIMINE_MEMMAP_USABLE | LIMINE_MEMMAP_BOOTLOADER_RECLAIMABLE
  | LIMINE_MEMMAP_EXECUTABLE_AND_MODULES | LIMINE_MEMMAP_FRAMEBUFFER | LIMINE_MEMMAP_ACPI_TABLES
  | LIMINE_MEMMAP_ACPI_RECLAIMABLE | LIMINE_MEMMAP_ACPI_NVS | MEMMAP_OTHER u64

record memmap_entry =
  me_base :: u64
  me_length :: u64
  me_type :: memmap_type

fun counts_as_ram :: "memmap_type \<Rightarrow> bool" where
  "counts_as_ram (MEMMAP_OTHER t) = False"
| "counts_as_ram _ = True"

fun highest_addr :: "memmap_entry list \<Rightarrow> u64 \<Rightarrow> u64" where
  "highest_addr [] high = high"
| "highest_addr (entry # entries) high =
     highest_addr entries
       (if counts_as_ram (me_type entry) then me_base entry + me_length entry else high)"

definition total_pages :: "u64 \<Rightarrow> u64" where
  "total_pages high =
     (let total = high div PMM_PAGE_SIZE in if high mod PMM_PAGE_SIZE \<noteq> 0 then total + 1 else total)"

text \<open>\<open>sizeof(struct pmm_page)\<close>: three 32-bit fields, padding, and a node of two pointers.\<close>

definition sizeof_pmm_page :: u64 where
  "sizeof_pmm_page = 32"

text \<open>
  The first usable region that is large enough gives up its beginning to the descriptors.
  The result is the changed memory map and the virtual address of the descriptors, 0 when
  no region is large enough.
\<close>

fun place_memmap :: "u64 \<Rightarrow> u64 \<Rightarrow> memmap_entry list \<Rightarrow> memmap_entry list \<times> u64" where
  "place_memmap offset size_needed [] = ([], 0)"
| "place_memmap offset size_needed (entry # entries) =
     (if me_type entry = LIMINE_MEMMAP_USABLE \<and> size_needed \<le> me_length entry
      then (entry\<lparr>me_base := me_base entry + size_needed, me_length := me_length entry - size_needed\<rparr> # entries,
            hhdm_physToVirt offset (me_base entry))
      else (let (entries, memmap) = place_memmap offset size_needed entries in (entry # entries, memmap)))"

section \<open>The initial structures\<close>

text \<open>The nodes in the zeroed descriptors and in the zero-initialised \<open>free_areas\<close>.\<close>

definition zeroed_links :: "nat \<Rightarrow> link_ptr ll_heap" where
  "zeroed_links n x =
     (let null = Some \<lparr>ll_prev = LinkNull, ll_next = LinkNull\<rparr> in
      case x of LinkNull \<Rightarrow> None
      | AreaHead k \<Rightarrow> if k < PMM_MAX_ORDER then null else None
      | PageLink p \<Rightarrow> if p < n then null else None)"

primrec init_areas :: "nat \<Rightarrow> link_ptr ll_heap \<Rightarrow> link_ptr ll_heap outcome" where
  "init_areas 0 h = Ok h"
| "init_areas (Suc i) h = obind (init_areas i h) (dll_init (AreaHead i))"

definition zeroed_page :: pmm_page where
  "zeroed_page = \<lparr>flags = 0, ref_count = 0, page_order = 0\<rparr>"

definition reserve_page :: "pmm_page \<Rightarrow> pmm_page" where
  "reserve_page p = p\<lparr>flags := flags p OR PMM_FLAG_RESERVED, ref_count := 1\<rparr>"

definition init_structs :: "u64 \<Rightarrow> u64 \<Rightarrow> pmm outcome" where
  "init_structs high rflags =
     (let total = total_pages high; n = unat total in
      obind (init_areas PMM_MAX_ORDER (zeroed_links n)) (\<lambda>links.
      Ok \<lparr>buddy_memmap = map reserve_page (replicate n zeroed_page), pmm_links = links,
          nr_free = replicate PMM_MAX_ORDER 0, used_pages = total, totalPages = total,
          highestAddr = high, pmm_lock = SPINLOCK_IRQ_INIT, cpu_rflags = rflags\<rparr>))"

section \<open>Handing the usable regions to the allocator\<close>

text \<open>The largest order whose block is aligned at the address and ends before \<open>fin\<close>.\<close>

primrec find_order :: "u64 \<Rightarrow> u64 \<Rightarrow> nat \<Rightarrow> nat" where
  "find_order current_phys fin 0 = 0"
| "find_order current_phys fin (Suc k) =
     (let sz = PMM_PAGE_SIZE * push_bit (Suc k) 1 in
      if current_phys AND (sz - 1) = 0 \<and> current_phys + sz \<le> fin then Suc k
      else find_order current_phys fin k)"

text \<open>
  The loop over one region. It advances by at least one page, so it runs at most
  \<open>unat fin div 4096\<close> times unless the address wraps around; a region that ends at the top
  of the address space makes it start over without end, the outcome \<open>Spin\<close>.
\<close>

primrec free_range :: "nat \<Rightarrow> u64 \<Rightarrow> u64 \<Rightarrow> pmm \<Rightarrow> pmm outcome" where
  "free_range 0 current_phys fin s = (if current_phys < fin then Spin else Ok s)"
| "free_range (Suc fuel) current_phys fin s =
     (if current_phys < fin then
        let order = find_order current_phys fin (PMM_MAX_ORDER - 1) in
        obind (pmm_free_pages s current_phys order) (\<lambda>s.
        free_range fuel (current_phys + PMM_PAGE_SIZE * push_bit order 1) fin s)
      else Ok s)"

definition round_up :: "u64 \<Rightarrow> u64" where
  "round_up a = (if a mod PMM_PAGE_SIZE \<noteq> 0 then a + (PMM_PAGE_SIZE - a mod PMM_PAGE_SIZE) else a)"

definition round_down :: "u64 \<Rightarrow> u64" where
  "round_down a = (if a mod PMM_PAGE_SIZE \<noteq> 0 then a - a mod PMM_PAGE_SIZE else a)"

definition free_region :: "memmap_entry \<Rightarrow> pmm \<Rightarrow> pmm outcome" where
  "free_region entry s =
     (let start = round_up (me_base entry);
          fin = round_down (me_base entry + me_length entry);
          start = (if start = 0 then start + PMM_PAGE_SIZE else start)
      in free_range (unat (fin div PMM_PAGE_SIZE)) start fin s)"

fun free_regions :: "memmap_entry list \<Rightarrow> pmm \<Rightarrow> pmm outcome" where
  "free_regions [] s = Ok s"
| "free_regions (entry # entries) s =
     (if me_type entry = LIMINE_MEMMAP_USABLE
      then obind (free_region entry s) (free_regions entries) else free_regions entries s)"

text \<open>The whole initialisation; it also returns the memory map, which it changes.\<close>

definition pmm_init :: "u64 \<Rightarrow> memmap_entry list \<Rightarrow> u64 \<Rightarrow> (memmap_entry list \<times> pmm) outcome" where
  "pmm_init offset memmap rflags =
     (let high = highest_addr memmap 0;
          buddy_memmap_size = total_pages high * sizeof_pmm_page;
          (memmap, virt) = place_memmap offset buddy_memmap_size memmap
      in if virt = 0 then Halt
         else obind (init_structs high rflags) (\<lambda>s.
              obind (free_regions memmap s) (\<lambda>s. Ok (memmap, s))))"

section \<open>The initial state is valid\<close>

lemma init_areas_rings:
  "(\<And>k. k < n \<Longrightarrow> h (AreaHead k) \<noteq> None) \<Longrightarrow>
   \<exists>h'. init_areas n h = Ok h' \<and> (\<forall>k<n. ring h' (AreaHead k) []) \<and>
     (\<forall>z. (\<forall>k<n. z \<noteq> AreaHead k) \<longrightarrow> h' z = h z)"
proof (induction n)
  case 0
  then show ?case by simp
next
  case (Suc n)
  then obtain h1 where h1: "init_areas n h = Ok h1" "\<forall>k<n. ring h1 (AreaHead k) []"
    "\<forall>z. (\<forall>k<n. z \<noteq> AreaHead k) \<longrightarrow> h1 z = h z"
    using less_Suc_eq by blast
  then have "h1 (AreaHead n) \<noteq> None" using Suc.prems [of n] by simp
  from dll_init_ring [of h1 "AreaHead n", OF this] obtain h2 where
    h2: "dll_init (AreaHead n) h1 = Ok h2" "ring h2 (AreaHead n) []" "\<forall>z. z \<noteq> AreaHead n \<longrightarrow> h2 z = h1 z"
    by blast
  have "ring h2 (AreaHead k) []" if "k < Suc n" for k
    using that h1(2) h2(2,3) ring_cong [of h1 "AreaHead k" "[]" h2] by (cases "k = n") auto
  then show ?case using h1 h2 by auto
qed

lemma unat_total_pages: "unat (total_pages high) = (unat high + 4095) div 4096"
proof -
  have d: "unat (high div PMM_PAGE_SIZE) = unat high div 4096"
    and m: "high mod PMM_PAGE_SIZE = 0 \<longleftrightarrow> unat high mod 4096 = 0"
    by (simp_all add: unat_div unat_mod PMM_PAGE_SIZE_def flip: unat_eq_zero)
  have lt: "unat high div 4096 < 2 ^ 52"
    using unat_u64_bound [of high] by (simp add: div_less_iff_less_mult)
  have "unat (high div PMM_PAGE_SIZE + 1) = unat high div 4096 + 1"
    using d lt by (subst unat_add_u64) simp_all
  then show ?thesis using m d by (simp add: total_pages_def Let_def div_round_up)
qed

lemma init_structs_valid:
  assumes "high \<noteq> 0"
  shows "\<exists>s. init_structs high rf = Ok s \<and> pmm_valid s (\<lambda>_. []) {} \<and> totalPages s = total_pages high \<and>
     highestAddr s = high \<and> cpu_rflags s = rf \<and> used_pages s = total_pages high"
proof -
  let ?n = "unat (total_pages high)"
  have "zeroed_links ?n (AreaHead k) \<noteq> None" if "k < PMM_MAX_ORDER" for k
    using that by (simp add: zeroed_links_def Let_def)
  from init_areas_rings [of PMM_MAX_ORDER "zeroed_links ?n", OF this] obtain h where
    h: "init_areas PMM_MAX_ORDER (zeroed_links ?n) = Ok h" "\<forall>k<PMM_MAX_ORDER. ring h (AreaHead k) []"
    "\<forall>z. (\<forall>k<PMM_MAX_ORDER. z \<noteq> AreaHead k) \<longrightarrow> h z = zeroed_links ?n z"
    by blast
  let ?s = "\<lparr>buddy_memmap = map reserve_page (replicate ?n zeroed_page), pmm_links = h,
    nr_free = replicate PMM_MAX_ORDER 0, used_pages = total_pages high, totalPages = total_pages high,
    highestAddr = high, pmm_lock = SPINLOCK_IRQ_INIT, cpu_rflags = rf\<rparr>"
  have "PageLink p \<in> dom h" if "p < ?n" for p
    using that h(3) by (auto simp: zeroed_links_def Let_def)
  moreover have "?n \<le> 2 ^ 52"
  proof -
    have "(unat high + 4095) div 4096 \<le> (18446744073709551616 + 4094) div 4096"
      using unat_u64_bound [of high] by (intro div_le_mono) linarith
    then show ?thesis by (simp add: unat_total_pages)
  qed
  ultimately have rep: "pmm_rep ?s (\<lambda>_. [])"
    using h(2) by (simp add: pmm_rep_def list_family_def)
  have "\<not> is_page_free (reserve_page zeroed_page)"
    by (simp add: reserve_page_def zeroed_page_def is_page_free_def PMM_FLAG_RESERVED_def PMM_FLAG_FREE_def)
  moreover have "0 < ?n"
    using assms unat_gt_0 [of high] by (simp add: unat_total_pages div_greater_zero_iff word_neq_0_conv)
  moreover have "flags (reserve_page zeroed_page) = PMM_FLAG_RESERVED"
    by (simp add: reserve_page_def zeroed_page_def)
  ultimately have "pmm_valid ?s (\<lambda>_. []) {}"
    using rep by (simp add: pmm_valid_def pmm_inv_def pmm_flags_def fblocks_def blocks_ok_def merged_def
        aligned_def PMM_MAX_ORDER_def Suc_le_eq)
  then show ?thesis using h(1) by (simp add: init_structs_def Let_def)
qed

section \<open>Freeing a range of frames\<close>

lemma free_new_block:
  assumes valid: "pmm_valid s F {}" and k: "aligned p k" "k < PMM_MAX_ORDER" "p \<noteq> 0"
    and fit: "p + 2 ^ k \<le> unat (totalPages s)" and dis: "block p k \<inter> frames (fblocks F) = {}"
  shows "\<exists>s' F'. pmm_free_pages s (page_to_phys p) k = Ok s' \<and> pmm_valid s' F' {} \<and>
    frames (fblocks F') = frames (fblocks F) \<union> block p k \<and>
    totalPages s' = totalPages s \<and> highestAddr s' = highestAddr s \<and> cpu_rflags s' = cpu_rflags s"
proof -
  let ?Z = "insert (0, 0) {}"
  have inv: "pmm_inv s F ?Z {}" and n: "length (buddy_memmap s) = unat (totalPages s)"
    using valid by (auto simp: pmm_valid_def pmm_inv_def pmm_rep_def)
  have ok: "blocks_ok PMM_MAX_ORDER (unat (totalPages s)) (fblocks F \<union> ?Z)"
    using inv n by (simp add: pmm_inv_def)
  have "p \<in> block p k" by simp
  then have new: "(p, k) \<notin> fblocks F" using dis block_subset_frames [of p k "fblocks F"] by blast
  have apart: "block p k \<inter> block c j = {}" if "(c, j) \<in> fblocks F \<union> ?Z" for c j
    using that dis k(3) block_subset_frames [of c j "fblocks F"] by fastforce
  have "blocks_ok PMM_MAX_ORDER (unat (totalPages s)) (insert (p, k) (fblocks F \<union> ?Z))"
    unfolding blocks_ok_insert using ok k fit apart by blast
  then have "pmm_inv s F (insert (p, k) ?Z) {p}"
    using inv n new by (auto simp: pmm_inv_def pmm_flags_def interior_insert)
  then show ?thesis
    using free_pages_run [of s F p k "{}"] valid k(3) by (fastforce simp: pmm_valid_def)
qed

text \<open>The order search, on frame numbers.\<close>

lemma order_bytes: "PMM_PAGE_SIZE * push_bit k 1 = (2 ^ (12 + k) :: u64)"
  by (simp add: PMM_PAGE_SIZE_def power_add)

lemma aligned_mask:
  assumes "p < 2 ^ 52" and "k \<le> 40"
  shows "page_to_phys p AND (2 ^ (12 + k) - 1) = 0 \<longleftrightarrow> aligned p k"
proof -
  have "page_to_phys p AND (2 ^ (12 + k) - 1) = take_bit (12 + k) (page_to_phys p)"
    by (simp add: take_bit_eq_mask mask_eq_exp_minus_1)
  moreover have "unat (take_bit (12 + k) (page_to_phys p)) = p * 4096 mod 2 ^ (12 + k)"
    by (simp only: unsigned_take_bit_eq unat_page_to_phys [OF assms(1)]) (simp add: take_bit_eq_mod)
  moreover have "p * 4096 mod 2 ^ (12 + k) = 0 \<longleftrightarrow> 2 ^ k dvd p"
    by (simp add: power_add dvd_eq_mod_eq_0 [symmetric] mult.commute [of p])
  ultimately show ?thesis by (simp add: aligned_def flip: unat_eq_zero)
qed

lemma block_end_le:
  assumes "p < 2 ^ 40" "q \<le> 2 ^ 40" "k \<le> 10"
  shows "page_to_phys p + 2 ^ (12 + k) \<le> page_to_phys q \<longleftrightarrow> p + 2 ^ k \<le> q"
proof -
  have "(2::nat) ^ k \<le> 2 ^ 10" using assms(3) by (intro power_increasing) auto
  then have pk: "p + 2 ^ k < 2 ^ 52" using assms(1) by simp
  have "page_to_phys p + 2 ^ (12 + k) = page_to_phys (p + 2 ^ k)"
    by (simp add: page_to_phys_def PMM_PAGE_SIZE_def power_add distrib_right)
  moreover have "unat (page_to_phys q) = q * 4096" using assms(2) by (intro unat_page_to_phys) simp
  ultimately show ?thesis
    using unat_page_to_phys [OF pk] by (simp only: word_le_nat_alt mult_le_cancel2) simp
qed

lemma find_order_spec:
  assumes "p < q" "q \<le> 2 ^ 40" "k \<le> 10"
  shows "find_order (page_to_phys p) (page_to_phys q) k \<le> k \<and>
    aligned p (find_order (page_to_phys p) (page_to_phys q) k) \<and>
    p + 2 ^ find_order (page_to_phys p) (page_to_phys q) k \<le> q"
  using assms(3)
proof (induction k)
  case 0
  then show ?case using assms(1) by (simp add: aligned_def)
next
  case (Suc k)
  have p: "p < 2 ^ 40" "p < 2 ^ 52" using assms by auto
  have c: "page_to_phys p AND (PMM_PAGE_SIZE * push_bit (Suc k) 1 - 1) = 0 \<longleftrightarrow> aligned p (Suc k)"
    unfolding order_bytes using Suc.prems by (intro aligned_mask p) simp
  have d: "page_to_phys p + PMM_PAGE_SIZE * push_bit (Suc k) 1 \<le> page_to_phys q \<longleftrightarrow> p + 2 ^ Suc k \<le> q"
    unfolding order_bytes using Suc.prems assms(2) p by (intro block_end_le) simp_all
  show ?case using Suc.IH Suc.prems c d by (simp del: push_bit_of_1 power_Suc add: Let_def)
qed

lemma page_to_phys_less: "p < 2 ^ 52 \<Longrightarrow> q < 2 ^ 52 \<Longrightarrow> page_to_phys p < page_to_phys q \<longleftrightarrow> p < q"
  using unat_page_to_phys [of p] unat_page_to_phys [of q] by (simp add: word_less_nat_alt)

lemma free_range_correct:
  assumes "pmm_valid s F {}" "p \<noteq> 0" "p \<le> 2 ^ 40" "q \<le> 2 ^ 40" "q \<le> unat (totalPages s)" "q - p \<le> fuel"
    "{p..<q} \<inter> frames (fblocks F) = {}"
  shows "\<exists>s' F'. free_range fuel (page_to_phys p) (page_to_phys q) s = Ok s' \<and> pmm_valid s' F' {} \<and>
    frames (fblocks F') = frames (fblocks F) \<union> {p..<q} \<and>
    totalPages s' = totalPages s \<and> highestAddr s' = highestAddr s \<and> cpu_rflags s' = cpu_rflags s"
  using assms
proof (induction fuel arbitrary: p s F)
  case 0
  then have "\<not> page_to_phys p < page_to_phys q" by (subst page_to_phys_less) auto
  then show ?case using 0 by auto
next
  case (Suc fuel)
  have lt: "page_to_phys p < page_to_phys q \<longleftrightarrow> p < q" using Suc.prems by (intro page_to_phys_less) auto
  show ?case
  proof (cases "p < q")
    case False
    then show ?thesis using Suc.prems lt by auto
  next
    case True
    define k where "k = find_order (page_to_phys p) (page_to_phys q) (PMM_MAX_ORDER - 1)"
    have k: "k < PMM_MAX_ORDER" "aligned p k" "p + 2 ^ k \<le> q"
      using find_order_spec [OF True Suc.prems(4), of 10] by (auto simp: k_def PMM_MAX_ORDER_def)
    have dis: "block p k \<inter> frames (fblocks F) = {}" using Suc.prems(7) k(3) by fastforce
    have fit: "p + 2 ^ k \<le> unat (totalPages s)" using k(3) Suc.prems(5) by simp
    from free_new_block [OF Suc.prems(1) k(2,1) Suc.prems(2) fit dis] obtain s1 F1 where
      s1: "pmm_free_pages s (page_to_phys p) k = Ok s1" "pmm_valid s1 F1 {}"
        "frames (fblocks F1) = frames (fblocks F) \<union> block p k"
        "totalPages s1 = totalPages s" "highestAddr s1 = highestAddr s" "cpu_rflags s1 = cpu_rflags s"
      by blast
    have adv: "page_to_phys p + PMM_PAGE_SIZE * push_bit k 1 = page_to_phys (p + 2 ^ k)"
      by (simp add: page_to_phys_def PMM_PAGE_SIZE_def power_add distrib_right)
    have "{p + 2 ^ k..<q} \<inter> frames (fblocks F1) = {}" using Suc.prems(7) s1(3) by (auto simp: disjoint_iff)
    moreover have "q - (p + 2 ^ k) \<le> fuel"
    proof -
      have "(1::nat) \<le> 2 ^ k" by simp
      then show ?thesis using Suc.prems(6) True by linarith
    qed
    ultimately obtain s' F' where
      "free_range fuel (page_to_phys (p + 2 ^ k)) (page_to_phys q) s1 = Ok s'" "pmm_valid s' F' {}"
      "frames (fblocks F') = frames (fblocks F1) \<union> {p + 2 ^ k..<q}"
      "totalPages s' = totalPages s1" "highestAddr s' = highestAddr s1" "cpu_rflags s' = cpu_rflags s1"
      using Suc.IH [OF s1(2), of "p + 2 ^ k"] Suc.prems k(3) s1(4) by auto
    moreover have "block p k \<union> {p + 2 ^ k..<q} = {p..<q}" using k(3) by auto
    ultimately show ?thesis
      using True lt s1 adv unfolding free_range.simps k_def [symmetric] Let_def by auto
  qed
qed

section \<open>Freeing the usable regions\<close>

text \<open>
  What the boot loader promises of its memory map: regions lie below the 52-bit limit of
  physical addresses, are sorted by base address, and a usable region overlaps no other.
\<close>

definition me_end :: "memmap_entry \<Rightarrow> nat" where
  "me_end e = unat (me_base e) + unat (me_length e)"

definition me_usable :: "memmap_entry \<Rightarrow> bool" where
  "me_usable e \<longleftrightarrow> me_type e = LIMINE_MEMMAP_USABLE"

definition memmap_ok :: "memmap_entry list \<Rightarrow> bool" where
  "memmap_ok es \<longleftrightarrow> (\<forall>e\<in>set es. me_end e \<le> 2 ^ 52) \<and>
     sorted_wrt (\<lambda>a b. me_base a \<le> me_base b \<and> (me_usable a \<or> me_usable b \<longrightarrow> me_end a \<le> unat (me_base b))) es"

text \<open>The frames that lie wholly inside a region; frame 0 is never used.\<close>

definition region_frames :: "memmap_entry \<Rightarrow> nat set" where
  "region_frames e = {p. p \<noteq> 0 \<and> unat (me_base e) \<le> p * 4096 \<and> p * 4096 + 4096 \<le> me_end e}"

definition usable_frames :: "memmap_entry list \<Rightarrow> nat set" where
  "usable_frames es = (\<Union>e\<in>{e \<in> set es. me_usable e}. region_frames e)"

lemma usable_frames_Cons:
  "usable_frames (e # es) = (if me_usable e then region_frames e \<union> usable_frames es else usable_frames es)"
  by (auto simp: usable_frames_def)

lemma page_parts:
  "a = of_nat (unat a div 4096) * PMM_PAGE_SIZE + a mod PMM_PAGE_SIZE"
  "a mod PMM_PAGE_SIZE = 0 \<longleftrightarrow> unat a mod 4096 = 0"
proof -
  have "a mod PMM_PAGE_SIZE = of_nat (unat a mod 4096)"
    by (rule u64_of_unat) (simp add: PMM_PAGE_SIZE_def unat_mod)
  moreover have "a = of_nat (unat a div 4096 * 4096 + unat a mod 4096)"
    by (rule u64_of_unat) simp
  ultimately show "a = of_nat (unat a div 4096) * PMM_PAGE_SIZE + a mod PMM_PAGE_SIZE"
    by (simp only: of_nat_add of_nat_mult of_nat_numeral PMM_PAGE_SIZE_def)
  show "a mod PMM_PAGE_SIZE = 0 \<longleftrightarrow> unat a mod 4096 = 0"
    by (simp add: unat_mod PMM_PAGE_SIZE_def flip: unat_eq_zero)
qed

lemma round_up_page: "round_up a = page_to_phys ((unat a + 4095) div 4096)"
proof (cases "unat a mod 4096 = 0")
  case True
  then show ?thesis
    using page_parts [of a] by (simp add: round_up_def div_round_up page_to_phys_def)
next
  case False
  define m where "m = a mod PMM_PAGE_SIZE"
  define q where "q = unat a div 4096"
  have "a + (PMM_PAGE_SIZE - m) = (of_nat q * PMM_PAGE_SIZE + m) + (PMM_PAGE_SIZE - m)"
    using page_parts(1) [of a] by (simp flip: m_def q_def)
  also have "\<dots> = page_to_phys (Suc q)" by (simp add: page_to_phys_def algebra_simps)
  finally show ?thesis
    using False page_parts(2) [of a] by (simp add: round_up_def div_round_up flip: m_def q_def)
qed

lemma round_down_page: "round_down a = page_to_phys (unat a div 4096)"
proof -
  define m where "m = a mod PMM_PAGE_SIZE"
  define q where "q = unat a div 4096"
  have "a - m = (of_nat q * PMM_PAGE_SIZE + m) - m"
    using page_parts(1) [of a] by (simp flip: m_def q_def)
  then show ?thesis by (auto simp: round_down_def page_to_phys_def simp flip: m_def q_def)
qed

lemma region_frames_range:
  "region_frames e = {max 1 ((unat (me_base e) + 4095) div 4096)..<me_end e div 4096}"
proof -
  have "unat (me_base e) \<le> p * 4096 \<longleftrightarrow> (unat (me_base e) + 4095) div 4096 \<le> p" for p
    using div_less_iff_less_mult [of 4096 "unat (me_base e) + 4095" "Suc p"] by auto
  moreover have "p * 4096 + 4096 \<le> me_end e \<longleftrightarrow> p < me_end e div 4096" for p
    using less_eq_div_iff_mult_less_eq [of 4096 "Suc p" "me_end e"] by (simp add: Suc_le_eq add.commute)
  ultimately show ?thesis unfolding region_frames_def by auto
qed

lemma free_region_correct:
  assumes valid: "pmm_valid s F {}" and le: "me_end e \<le> 2 ^ 52" "me_end e \<le> unat (totalPages s) * 4096"
    and dis: "region_frames e \<inter> frames (fblocks F) = {}"
  shows "\<exists>s' F'. free_region e s = Ok s' \<and> pmm_valid s' F' {} \<and>
    frames (fblocks F') = frames (fblocks F) \<union> region_frames e \<and>
    totalPages s' = totalPages s \<and> highestAddr s' = highestAddr s \<and> cpu_rflags s' = cpu_rflags s"
proof -
  define a where "a = (unat (me_base e) + 4095) div 4096"
  define q where "q = me_end e div 4096"
  have fin: "unat (me_base e + me_length e) = me_end e"
    using le(1) unfolding me_end_def by (intro unat_add_u64) simp
  have b: "unat (me_base e) \<le> 2 ^ 52" using le(1) by (simp add: me_end_def)
  then have a40: "a \<le> 2 ^ 40" unfolding a_def by simp
  have q40: "q \<le> 2 ^ 40" using div_le_mono [OF le(1), of 4096] by (simp add: q_def)
  have qt: "q \<le> unat (totalPages s)" using div_le_mono [OF le(2), of 4096] by (simp add: q_def)
  have start: "(if round_up (me_base e) = 0 then round_up (me_base e) + PMM_PAGE_SIZE else round_up (me_base e))
      = page_to_phys (max 1 a)"
    using a40 page_to_phys_zero [of a] by (auto simp: round_up_page max_def simp flip: a_def)
      (simp_all add: page_to_phys_def)
  have stop: "round_down (me_base e + me_length e) = page_to_phys q"
    by (simp add: round_down_page fin q_def)
  have fuel: "unat (page_to_phys q div PMM_PAGE_SIZE) = q" using q40 by (intro page_to_phys_div) simp
  have reg: "region_frames e = {max 1 a..<q}" by (simp add: region_frames_range a_def q_def)
  have "\<exists>s' F'. free_range q (page_to_phys (max 1 a)) (page_to_phys q) s = Ok s' \<and> pmm_valid s' F' {} \<and>
    frames (fblocks F') = frames (fblocks F) \<union> {max 1 a..<q} \<and>
    totalPages s' = totalPages s \<and> highestAddr s' = highestAddr s \<and> cpu_rflags s' = cpu_rflags s"
    using valid a40 q40 qt dis by (intro free_range_correct) (auto simp: reg)
  then show ?thesis by (simp add: free_region_def Let_def start stop fuel reg)
qed

lemma region_frames_separate:
  "me_end a \<le> unat (me_base b) \<Longrightarrow> region_frames a \<inter> region_frames b = {}"
  by (auto simp: region_frames_def)

lemma free_regions_correct:
  assumes "pmm_valid s F {}" "memmap_ok es"
    "\<And>e. e \<in> set es \<Longrightarrow> me_usable e \<Longrightarrow> me_end e \<le> unat (totalPages s) * 4096"
    "usable_frames es \<inter> frames (fblocks F) = {}"
  shows "\<exists>s' F'. free_regions es s = Ok s' \<and> pmm_valid s' F' {} \<and>
    frames (fblocks F') = frames (fblocks F) \<union> usable_frames es \<and>
    totalPages s' = totalPages s \<and> highestAddr s' = highestAddr s \<and> cpu_rflags s' = cpu_rflags s"
  using assms
proof (induction es arbitrary: s F)
  case Nil
  then show ?case by (auto simp: usable_frames_def)
next
  case (Cons e es)
  have ok: "memmap_ok es" using Cons.prems(2) by (simp add: memmap_ok_def)
  show ?case
  proof (cases "me_usable e")
    case False
    then show ?thesis
      using Cons.IH [OF Cons.prems(1) ok] Cons.prems(3,4) by (simp add: usable_frames_Cons me_usable_def)
  next
    case True
    have "region_frames e \<inter> frames (fblocks F) = {}" "me_end e \<le> 2 ^ 52" "me_end e \<le> unat (totalPages s) * 4096"
      using Cons.prems True by (auto simp: usable_frames_Cons memmap_ok_def)
    from free_region_correct [OF Cons.prems(1) this(2,3,1)] obtain s1 F1 where
      s1: "free_region e s = Ok s1" "pmm_valid s1 F1 {}"
        "frames (fblocks F1) = frames (fblocks F) \<union> region_frames e"
        "totalPages s1 = totalPages s" "highestAddr s1 = highestAddr s" "cpu_rflags s1 = cpu_rflags s"
      by blast
    have "region_frames e \<inter> region_frames b = {}" if "b \<in> set es" "me_usable b" for b
      using that Cons.prems(2) True by (intro region_frames_separate) (auto simp: memmap_ok_def)
    then have "usable_frames es \<inter> frames (fblocks F1) = {}"
      using s1(3) Cons.prems(4) True by (auto simp: usable_frames_def)
    then obtain s' F' where "free_regions es s1 = Ok s'" "pmm_valid s' F' {}"
      "frames (fblocks F') = frames (fblocks F1) \<union> usable_frames es"
      "totalPages s' = totalPages s1" "highestAddr s' = highestAddr s1" "cpu_rflags s' = cpu_rflags s1"
      using Cons.IH [OF s1(2) ok] Cons.prems(3) s1(4) by auto
    then show ?thesis using s1 True by (auto simp: usable_frames_Cons me_usable_def)
  qed
qed

section \<open>The whole initialisation\<close>

lemma highest_addr_ge:
  "(\<And>b. b \<in> set es \<Longrightarrow> m \<le> me_end b \<and> me_end b \<le> 2 ^ 52) \<Longrightarrow> m \<le> unat h \<Longrightarrow>
   m \<le> unat (highest_addr es h)"
proof (induction es arbitrary: h)
  case Nil
  then show ?case by simp
next
  case (Cons e es)
  have "unat (me_base e + me_length e) = me_end e"
    using Cons.prems(1) [of e] unfolding me_end_def by (intro unat_add_u64) simp
  then show ?case using Cons.IH Cons.prems by simp
qed

lemma highest_addr_bound:
  assumes "memmap_ok es" "e \<in> set es" "me_usable e"
  shows "me_end e \<le> unat (highest_addr es h)"
  using assms
proof (induction es arbitrary: h)
  case Nil
  then show ?case by simp
next
  case (Cons a es)
  have ok: "memmap_ok es" using Cons.prems(1) by (simp add: memmap_ok_def)
  show ?case
  proof (cases "e \<in> set es")
    case True
    then show ?thesis using Cons.IH [OF ok True Cons.prems(3)] by simp
  next
    case False
    then have e: "e = a" using Cons.prems(2) by simp
    have "me_end e \<le> 2 ^ 52" using Cons.prems(1) e by (simp add: memmap_ok_def)
    then have "unat (me_base e + me_length e) = me_end e"
      unfolding me_end_def by (intro unat_add_u64) simp
    moreover have "me_end e \<le> me_end b \<and> me_end b \<le> 2 ^ 52" if "b \<in> set es" for b
      using that Cons.prems(1,3) e by (auto simp: memmap_ok_def me_end_def [of b] intro: trans_le_add1)
    ultimately show ?thesis
      using e Cons.prems(3) by (auto simp: me_usable_def intro!: highest_addr_ge)
  qed
qed

lemma shrink_entry:
  assumes "n \<le> me_length e" "me_end e \<le> 2 ^ 52"
    and e': "e' = e\<lparr>me_base := me_base e + n, me_length := me_length e - n\<rparr>"
  shows "unat (me_base e') = unat (me_base e) + unat n" "me_end e' = me_end e" "me_type e' = me_type e"
proof -
  have n: "unat n \<le> unat (me_length e)" using assms(1) by (simp add: word_le_nat_alt)
  then have "unat (me_base e) + unat n < 2 ^ 64" using assms(2) by (simp add: me_end_def)
  then show b: "unat (me_base e') = unat (me_base e) + unat n" by (simp add: e' unat_add_u64)
  have "unat (me_length e - n) = unat (me_length e) - unat n" using n by (simp add: unat_sub word_le_nat_alt)
  then show "me_end e' = me_end e" using n b by (simp add: me_end_def e')
qed (simp add: e')

lemma place_memmap_ok:
  assumes "memmap_ok es" "place_memmap off n es = (es', virt)" "virt \<noteq> 0"
  shows "memmap_ok es' \<and>
    (\<forall>e'\<in>set es'. \<exists>e\<in>set es. me_type e' = me_type e \<and> me_end e' = me_end e \<and> me_base e \<le> me_base e') \<and>
    (\<exists>e\<in>set es. me_usable e \<and> n \<le> me_length e \<and> virt = hhdm_physToVirt off (me_base e) \<and>
      (\<forall>e'\<in>set es'. me_usable e' \<longrightarrow>
         me_end e' \<le> unat (me_base e) \<or> unat (me_base e) + unat n \<le> unat (me_base e')))"
  using assms
proof (induction es arbitrary: es')
  case Nil
  then show ?case by simp
next
  case (Cons a es)
  have ok: "memmap_ok es" and a52: "me_end a \<le> 2 ^ 52"
    and sep: "\<And>b. b \<in> set es \<Longrightarrow> me_base a \<le> me_base b \<and> (me_usable a \<or> me_usable b \<longrightarrow> me_end a \<le> unat (me_base b))"
    using Cons.prems(1) by (simp_all add: memmap_ok_def)
  show ?case
  proof (cases "me_usable a \<and> n \<le> me_length a")
    case True
    define a' where "a' = a\<lparr>me_base := me_base a + n, me_length := me_length a - n\<rparr>"
    note sh = shrink_entry [OF conjunct2 [OF True] a52 a'_def]
    have es': "es' = a' # es" "virt = hhdm_physToVirt off (me_base a)"
      using Cons.prems(2) True by (auto simp: me_usable_def a'_def)
    have n: "unat (me_base a) + unat n \<le> me_end a"
      using True by (simp add: me_end_def word_le_nat_alt)
    have sep': "unat (me_base a) + unat n \<le> unat (me_base b) \<and> me_end a \<le> unat (me_base b)" if "b \<in> set es" for b
      using sep [OF that] True n by linarith
    have "memmap_ok es'"
      using ok a52 sh sep' unfolding memmap_ok_def es' by (simp add: word_le_nat_alt)
    moreover have "me_base a \<le> me_base a'" using sh(1) by (simp add: word_le_nat_alt)
    ultimately show ?thesis using True sh sep' unfolding es' by auto
  next
    case False
    then obtain es1 where es1: "place_memmap off n es = (es1, virt)" "es' = a # es1"
      using Cons.prems(2) by (auto simp: me_usable_def split: prod.splits if_splits)
    note IH = Cons.IH [OF ok es1(1) Cons.prems(3)]
    have "me_base a \<le> me_base b \<and> (me_usable a \<or> me_usable b \<longrightarrow> me_end a \<le> unat (me_base b))"
      if b: "b \<in> set es1" for b
    proof -
      from IH b obtain c where "c \<in> set es" "me_type b = me_type c" "me_base c \<le> me_base b" by blast
      then show ?thesis using sep [of c] by (auto simp: me_usable_def word_le_nat_alt)
    qed
    then have "memmap_ok es'" using IH a52 by (simp add: es1(2) memmap_ok_def)
    then show ?thesis using IH sep unfolding es1(2) by auto
  qed
qed

text \<open>
  C4: \<open>pmm_init\<close> on a memory map as the boot loader gives it, with room for the page
  descriptors, establishes a valid allocator in which nothing is allocated and the free
  frames are exactly the frames of the usable regions other than frame 0. The regions are
  those of the changed map: no free frame overlaps the page descriptors.
\<close>

theorem pmm_init_establishes_valid:
  assumes ok: "memmap_ok es"
    and some: "highest_addr es 0 \<noteq> 0"
    and place: "place_memmap off (total_pages (highest_addr es 0) * sizeof_pmm_page) es = (es', virt)" "virt \<noteq> 0"
  shows "\<exists>s F. pmm_init off es rf = Ok (es', s) \<and> pmm_valid s F {} \<and>
    frames (fblocks F) = usable_frames es' \<and> totalPages s = total_pages (highest_addr es 0) \<and>
    cpu_rflags s = rf \<and>
    (\<forall>p\<in>usable_frames es'. p * 4096 + 4096 \<le> unat (hhdm_virtToPhys off virt) \<or>
       unat (hhdm_virtToPhys off virt) + unat (total_pages (highest_addr es 0) * sizeof_pmm_page) \<le> p * 4096)"
proof -
  let ?h = "highest_addr es 0"
  have ok': "memmap_ok es'"
    and from_es: "\<forall>e'\<in>set es'. \<exists>e\<in>set es. me_type e' = me_type e \<and> me_end e' = me_end e"
    using place_memmap_ok [OF ok place] by blast+
  obtain e0 :: memmap_entry where virt: "virt = hhdm_physToVirt off (me_base e0)"
    and apart: "\<forall>e'\<in>set es'. me_usable e' \<longrightarrow> me_end e' \<le> unat (me_base e0) \<or>
      unat (me_base e0) + unat (total_pages ?h * sizeof_pmm_page) \<le> unat (me_base e')"
    using place_memmap_ok [OF ok place] by blast
  obtain s0 where s0: "init_structs ?h rf = Ok s0" "pmm_valid s0 (\<lambda>_. []) {}" "totalPages s0 = total_pages ?h"
    "cpu_rflags s0 = rf"
    using init_structs_valid [OF some, of rf] by blast
  have "unat ?h \<le> unat (total_pages ?h) * 4096"
    unfolding unat_total_pages by (rule le_round_up)
  then have fits: "me_end e \<le> unat (totalPages s0) * 4096" if "e \<in> set es'" "me_usable e" for e
    using bspec [OF from_es that(1)] that(2) highest_addr_bound [OF ok, of _ 0] s0(3)
    unfolding me_usable_def by (metis order_trans)
  have nil: "frames (fblocks (\<lambda>_. [])) = {}" by (simp add: frames_def fblocks_def)
  from free_regions_correct [OF s0(2) ok' fits] obtain s F where
    s: "free_regions es' s0 = Ok s" "pmm_valid s F {}" "frames (fblocks F) = usable_frames es'"
      "totalPages s = totalPages s0" "cpu_rflags s = cpu_rflags s0"
    unfolding nil by auto
  have "p * 4096 + 4096 \<le> unat (me_base e0) \<or>
      unat (me_base e0) + unat (total_pages ?h * sizeof_pmm_page) \<le> p * 4096" if p: "p \<in> usable_frames es'" for p
  proof -
    from p obtain e where "e \<in> set es'" "me_usable e" "unat (me_base e) \<le> p * 4096" "p * 4096 + 4096 \<le> me_end e"
      by (auto simp: usable_frames_def region_frames_def)
    then show ?thesis using bspec [OF apart, of e] by linarith
  qed
  moreover have "pmm_init off es rf = Ok (es', s)" using s(1) s0(1) place by (simp add: pmm_init_def Let_def)
  ultimately show ?thesis using s s0(3,4) virt by auto
qed

theorem pmm_init_establishes_valid_witness:
  "\<exists>s F. pmm_init 0xFFFF800000000000 [\<lparr>me_base = 0x1000, me_length = 0x7000, me_type = LIMINE_MEMMAP_USABLE\<rparr>] 0x202 =
      Ok ([\<lparr>me_base = 0x1100, me_length = 0x6F00, me_type = LIMINE_MEMMAP_USABLE\<rparr>], s) \<and>
    pmm_valid s F {} \<and> frames (fblocks F) = {2..<8}"
proof -
  let ?e = "\<lparr>me_base = 0x1000, me_length = 0x7000, me_type = LIMINE_MEMMAP_USABLE\<rparr> :: memmap_entry"
  let ?e' = "\<lparr>me_base = 0x1100, me_length = 0x6F00, me_type = LIMINE_MEMMAP_USABLE\<rparr> :: memmap_entry"
  have "memmap_ok [?e]" by (simp add: memmap_ok_def me_end_def)
  moreover have "place_memmap 0xFFFF800000000000 (total_pages (highest_addr [?e] 0) * sizeof_pmm_page) [?e] =
      ([?e'], 0xFFFF800000001000)"
    by (simp add: total_pages_def sizeof_pmm_page_def PMM_PAGE_SIZE_def Let_def hhdm_physToVirt_def)
  moreover have "highest_addr [?e] 0 \<noteq> 0" by simp
  moreover have "usable_frames [?e'] = {2..<8}"
    by (simp add: usable_frames_Cons me_usable_def region_frames_range me_end_def) (auto simp: usable_frames_def)
  ultimately show ?thesis
    using pmm_init_establishes_valid [of "[?e]" "0xFFFF800000000000" "[?e']" "0xFFFF800000001000" "0x202"] by auto
qed

end
