(* ===== verification/Frame_Alloc.thy ===== *)
theory Frame_Alloc
  imports Pmm_Init
begin

text \<open>
  The interface between the physical memory manager and its clients (page tables, heap,
  address spaces): single frames are taken with \<open>pmm_alloc\<close> and given back by dropping a
  reference. The laws speak of the set of free frames, the set of allocated blocks and the
  reference counts, and hide the free lists.
\<close>

lemma block_single: "block p 0 = {p}"
  by (auto simp: block_def)

locale frame_allocator =
  fixes avail :: "'s \<Rightarrow> nat set \<Rightarrow> (nat \<times> nat) set \<Rightarrow> bool"
    and refs :: "'s \<Rightarrow> nat \<Rightarrow> u32"
    and take_frame :: "'s \<Rightarrow> u64 \<Rightarrow> (u64 \<times> 's) outcome"
    and drop_ref :: "'s \<Rightarrow> u64 \<Rightarrow> 's outcome"
  assumes avail_apart: "avail s R A \<Longrightarrow> R \<inter> frames A = {}"
    and avail_bound: "avail s R A \<Longrightarrow> p \<in> R \<Longrightarrow> p < 2 ^ 40 \<and> p \<noteq> 0"
    and alloc_bound: "avail s R A \<Longrightarrow> (p, k) \<in> A \<Longrightarrow> p < 2 ^ 40 \<and> p \<noteq> 0"
    and take_some: "avail s R A \<Longrightarrow> R \<noteq> {} \<Longrightarrow>
      \<exists>p s'. take_frame s 4096 = Ok (page_to_phys p, s') \<and> p \<in> R \<and> avail s' (R - {p}) (insert (p, 0) A) \<and>
        refs s' p = 1 \<and> (\<forall>q k. (q, k) \<in> A \<longrightarrow> refs s' q = refs s q)"
    and take_none: "avail s {} A \<Longrightarrow> \<exists>s'. take_frame s 4096 = Ok (0, s') \<and> avail s' {} A \<and> refs s' = refs s"
    and drop_last: "avail s R A \<Longrightarrow> (p, k) \<in> A \<Longrightarrow> refs s p = 1 \<Longrightarrow>
      \<exists>s'. drop_ref s (page_to_phys p) = Ok s' \<and> avail s' (R \<union> block p k) (A - {(p, k)}) \<and>
        (\<forall>q j. (q, j) \<in> A - {(p, k)} \<longrightarrow> refs s' q = refs s q)"
    and drop_shared: "avail s R A \<Longrightarrow> (p, k) \<in> A \<Longrightarrow> refs s p \<noteq> 1 \<Longrightarrow>
      \<exists>s'. drop_ref s (page_to_phys p) = Ok s' \<and> avail s' R A \<and> refs s' p = refs s p - 1 \<and>
        (\<forall>q. q \<noteq> p \<longrightarrow> refs s' q = refs s q)"
    and drop_null: "avail s R A \<Longrightarrow> \<exists>s'. drop_ref s 0 = Ok s' \<and> avail s' R A \<and> refs s' = refs s"
begin

lemma take_cases:
  assumes "avail s R A"
  shows "(\<exists>s'. R = {} \<and> take_frame s 4096 = Ok (0, s') \<and> avail s' {} A \<and> refs s' = refs s) \<or>
    (\<exists>p s'. take_frame s 4096 = Ok (page_to_phys p, s') \<and> page_to_phys p \<noteq> 0 \<and> p < 2 ^ 40 \<and> p \<in> R \<and>
       avail s' (R - {p}) (insert (p, 0) A) \<and> p \<notin> frames A \<and>
       refs s' p = 1 \<and> (\<forall>q k. (q, k) \<in> A \<longrightarrow> refs s' q = refs s q))"
proof (cases "R = {}")
  case True
  then show ?thesis using take_none assms by blast
next
  case False
  from take_some [OF assms this] obtain p s' where p: "take_frame s 4096 = Ok (page_to_phys p, s')" "p \<in> R"
    "avail s' (R - {p}) (insert (p, 0) A)" "refs s' p = 1" "\<forall>q k. (q, k) \<in> A \<longrightarrow> refs s' q = refs s q"
    by blast
  have b: "p < 2 ^ 40" "p \<noteq> 0" using avail_bound [OF assms p(2)] by auto
  then have "page_to_phys p \<noteq> 0" using page_to_phys_zero [of p] by simp
  moreover have "p \<notin> frames A" using avail_apart [OF assms] p(2) by blast
  ultimately show ?thesis using p b by blast
qed

text \<open>A frame taken and given back is available again, and the other counts are as before.\<close>

lemma take_drop:
  assumes "avail s R A" and "R \<noteq> {}"
  shows "\<exists>p s' s''. take_frame s 4096 = Ok (page_to_phys p, s') \<and> drop_ref s' (page_to_phys p) = Ok s'' \<and>
    avail s'' R A \<and> (\<forall>q k. (q, k) \<in> A \<longrightarrow> refs s'' q = refs s q)"
proof -
  from take_some [OF assms] obtain p s' where p: "take_frame s 4096 = Ok (page_to_phys p, s')" "p \<in> R"
    "avail s' (R - {p}) (insert (p, 0) A)" "refs s' p = 1" "\<forall>q k. (q, k) \<in> A \<longrightarrow> refs s' q = refs s q"
    by blast
  have "p \<in> block p 0" by simp
  then have "(p, 0) \<notin> A" using avail_apart [OF assms(1)] p(2) block_subset_frames [of p 0 A] by blast
  then have A: "insert (p, 0) A - {(p, 0)} = A" by simp
  have R: "R - {p} \<union> block p 0 = R" using p(2) by (auto simp: block_single)
  from drop_last [OF p(3) _ p(4), of 0] obtain s'' where "drop_ref s' (page_to_phys p) = Ok s''"
    "avail s'' R A" "\<forall>q j. (q, j) \<in> A \<longrightarrow> refs s'' q = refs s' q"
    unfolding A R by blast
  then show ?thesis using p(1,5) by metis
qed

end

text \<open>The manager provides the interface as long as memory stays below the 52-bit limit.\<close>

definition pmm_avail :: "pmm \<Rightarrow> nat set \<Rightarrow> (nat \<times> nat) set \<Rightarrow> bool" where
  "pmm_avail s R A \<longleftrightarrow> (\<exists>F. pmm_valid s F A \<and> R = frames (fblocks F)) \<and> unat (totalPages s) \<le> 2 ^ 40"

definition pmm_refs :: "pmm \<Rightarrow> nat \<Rightarrow> u32" where
  "pmm_refs s p = ref_count (buddy_memmap s ! p)"

lemma free_frame_bound:
  assumes valid: "pmm_valid s F A" and "p \<in> frames (fblocks F)"
  shows "p < unat (totalPages s)" and "p \<noteq> 0"
proof -
  obtain b k where "(b, k) \<in> fblocks F" "p \<in> block b k" using assms(2) by (auto simp: frames_def)
  then show "p < unat (totalPages s)" using blocks_okD [OF valid_blocks_ok(1) [OF valid]] by fastforce
  have "0 \<notin> frames (fblocks F \<union> A)" using valid by (rule valid_zero)
  then show "p \<noteq> 0" using assms(2) by (metis UnI1 frames_Un)
qed

lemma some_free_iff: "frames (fblocks F) \<noteq> {} \<longleftrightarrow> (\<exists>j. 0 \<le> j \<and> j < PMM_MAX_ORDER \<and> F j \<noteq> [])"
proof
  assume "frames (fblocks F) \<noteq> {}"
  then obtain b k where "(b, k) \<in> fblocks F" by (auto simp: frames_def)
  then show "\<exists>j. 0 \<le> j \<and> j < PMM_MAX_ORDER \<and> F j \<noteq> []" by (auto simp: fblocks_def)
next
  assume "\<exists>j. 0 \<le> j \<and> j < PMM_MAX_ORDER \<and> F j \<noteq> []"
  then obtain j where j: "j < PMM_MAX_ORDER" "F j \<noteq> []" by blast
  then have "(hd (F j), j) \<in> fblocks F" by (simp add: fblocks_def)
  from block_subset_frames [OF this] show "frames (fblocks F) \<noteq> {}" by (auto simp: block_def)
qed

lemma order_of_page: "pmm_get_order_from_size 4096 = 0"
  using order_from_size_le [of 4096 0] by simp

lemma advance_valid:
  assumes "pmm_valid s F A" shows "pmm_valid (s\<lparr>pmm_lock := lock_advance (pmm_lock s)\<rparr>) F A"
proof -
  have "pmm_valid (s\<lparr>pmm_lock := lock_advance (pmm_lock s), cpu_rflags := cpu_rflags s\<rparr>) F A"
    using assms unfolding pmm_valid_def pmm_inv_lock by simp
  then show ?thesis by simp
qed

lemma pmm_take_some:
  assumes av: "pmm_avail s R A" and "R \<noteq> {}"
  shows "\<exists>p s'. pmm_alloc s 4096 = Ok (page_to_phys p, s') \<and> p \<in> R \<and> pmm_avail s' (R - {p}) (insert (p, 0) A) \<and>
    pmm_refs s' p = 1 \<and> (\<forall>q k. (q, k) \<in> A \<longrightarrow> pmm_refs s' q = pmm_refs s q)"
proof -
  obtain F where valid: "pmm_valid s F A" and R: "R = frames (fblocks F)" and tot: "unat (totalPages s) \<le> 2 ^ 40"
    using av by (auto simp: pmm_avail_def)
  have k: "0 < PMM_MAX_ORDER" by (simp add: PMM_MAX_ORDER_def)
  have "find (\<lambda>j. F j \<noteq> []) [0..<PMM_MAX_ORDER] \<noteq> None"
    using assms(2) find_free_iff [of F 0] some_free_iff [of F] unfolding R by simp
  then obtain c where "find (\<lambda>j. F j \<noteq> []) [0..<PMM_MAX_ORDER] = Some c" by blast
  from alloc_pages_some [OF valid k this] obtain s' F' p where
    run: "pmm_alloc_pages s 0 = Ok (page_to_phys p, s')" and v': "pmm_valid s' F' (insert (p, 0) A)"
    and fr: "block p 0 \<subseteq> frames (fblocks F)" "frames (fblocks F') = frames (fblocks F) - block p 0"
    and rc: "ref_count (buddy_memmap s' ! p) = 1"
    and same: "\<forall>b j. (b, j) \<in> A \<longrightarrow> buddy_memmap s' ! b = buddy_memmap s ! b"
    and tp: "totalPages s' = totalPages s"
    by blast
  have "pmm_alloc s 4096 = Ok (page_to_phys p, s')"
    using run k by (simp add: pmm_alloc_def order_of_page)
  moreover have "pmm_avail s' (R - {p}) (insert (p, 0) A)"
    using v' fr(2) tp tot unfolding pmm_avail_def R block_single by metis
  moreover have "p \<in> R" using fr(1) unfolding R block_single by simp
  ultimately show ?thesis using rc same unfolding pmm_refs_def by metis
qed

lemma pmm_take_none:
  assumes av: "pmm_avail s {} A"
  shows "\<exists>s'. pmm_alloc s 4096 = Ok (0, s') \<and> pmm_avail s' {} A \<and> pmm_refs s' = pmm_refs s"
proof -
  obtain F where valid: "pmm_valid s F A" and R: "{} = frames (fblocks F)" and tot: "unat (totalPages s) \<le> 2 ^ 40"
    using av by (auto simp: pmm_avail_def)
  have k: "0 < PMM_MAX_ORDER" by (simp add: PMM_MAX_ORDER_def)
  have none: "find (\<lambda>j. F j \<noteq> []) [0..<PMM_MAX_ORDER] = None"
    using find_free_iff [of F 0] some_free_iff [of F] R by simp
  let ?s = "s\<lparr>pmm_lock := lock_advance (pmm_lock s)\<rparr>"
  have "pmm_alloc s 4096 = Ok (0, ?s)"
    using alloc_pages_none [OF valid k none] k by (simp add: pmm_alloc_def order_of_page)
  moreover have "pmm_valid ?s F A" by (rule advance_valid [OF valid])
  then have "pmm_avail ?s {} A" using R tot unfolding pmm_avail_def by auto
  moreover have "pmm_refs ?s = pmm_refs s" by (simp add: pmm_refs_def fun_eq_iff)
  ultimately show ?thesis by blast
qed

lemma pmm_drop_last:
  assumes av: "pmm_avail s R A" and "(p, k) \<in> A" and "pmm_refs s p = 1"
  shows "\<exists>s'. pmm_page_dec_ref s (page_to_phys p) = Ok s' \<and> pmm_avail s' (R \<union> block p k) (A - {(p, k)}) \<and>
    (\<forall>q j. (q, j) \<in> A - {(p, k)} \<longrightarrow> pmm_refs s' q = pmm_refs s q)"
proof -
  obtain F where valid: "pmm_valid s F A" and R: "R = frames (fblocks F)" and tot: "unat (totalPages s) \<le> 2 ^ 40"
    using av by (auto simp: pmm_avail_def)
  from dec_ref_last [OF valid assms(2)] obtain s' F' where
    "pmm_page_dec_ref s (page_to_phys p) = Ok s'" "pmm_valid s' F' (A - {(p, k)})"
    "frames (fblocks F') = frames (fblocks F) \<union> block p k" "totalPages s' = totalPages s"
    "\<forall>b j. (b, j) \<in> A - {(p, k)} \<longrightarrow> buddy_memmap s' ! b = buddy_memmap s ! b"
    using assms(3) unfolding pmm_refs_def by blast
  then show ?thesis using R tot unfolding pmm_avail_def pmm_refs_def by metis
qed

lemma pmm_drop_shared:
  assumes av: "pmm_avail s R A" and pk: "(p, k) \<in> A" and ne: "pmm_refs s p \<noteq> 1"
  shows "\<exists>s'. pmm_page_dec_ref s (page_to_phys p) = Ok s' \<and> pmm_avail s' R A \<and> pmm_refs s' p = pmm_refs s p - 1 \<and>
    (\<forall>q. q \<noteq> p \<longrightarrow> pmm_refs s' q = pmm_refs s q)"
proof -
  obtain F where valid: "pmm_valid s F A" and R: "R = frames (fblocks F)" and tot: "unat (totalPages s) \<le> 2 ^ 40"
    using av by (auto simp: pmm_avail_def)
  let ?s = "(set_ref s p (ref_count (buddy_memmap s ! p) - 1))\<lparr>pmm_lock := lock_advance (pmm_lock s)\<rparr>"
  have "pmm_page_dec_ref s (page_to_phys p) = Ok ?s"
    using ne unfolding dec_ref_allocated [OF valid pk] Let_def pmm_refs_def by simp
  moreover have "pmm_avail ?s R A"
    using set_ref_advance_valid [OF valid] R tot unfolding pmm_avail_def by auto
  moreover have "pmm_refs ?s p = pmm_refs s p - 1"
    using allocated_page(1) [OF valid pk] by (simp add: pmm_refs_def set_ref_def)
  moreover have "\<forall>q. q \<noteq> p \<longrightarrow> pmm_refs ?s q = pmm_refs s q" by (simp add: pmm_refs_def set_ref_other)
  ultimately show ?thesis by blast
qed

text \<open>Frame 0 is reserved, so dropping a reference to address 0 changes nothing.\<close>

lemma pmm_drop_null:
  assumes av: "pmm_avail s R A"
  shows "\<exists>s'. pmm_page_dec_ref s 0 = Ok s' \<and> pmm_avail s' R A \<and> pmm_refs s' = pmm_refs s"
proof -
  obtain F where valid: "pmm_valid s F A" and R: "R = frames (fblocks F)" and tot: "unat (totalPages s) \<le> 2 ^ 40"
    using av by (auto simp: pmm_avail_def)
  have lf: "lock_free (pmm_lock s)" and inv: "pmm_inv s F (insert (0, 0) A) {}"
    and res: "flags (buddy_memmap s ! 0) = PMM_FLAG_RESERVED"
    using valid by (simp_all add: pmm_valid_def)
  have n: "0 < unat (totalPages s)" "length (buddy_memmap s) = unat (totalPages s)"
    using inv_bound(1) [OF inv, of 0 0] inv by (simp_all add: pmm_inv_def pmm_rep_def)
  have "phys_to_page (pmm_held s) 0 = Some 0" using n(1) by (simp add: phys_to_page_def pfn_to_page_def)
  moreover have "\<not> is_page_used (buddy_memmap s ! 0)"
    using res by (simp add: is_page_used_def PMM_FLAG_RESERVED_def PMM_FLAG_USED_def)
  ultimately have "pmm_page_dec_ref s 0 = Ok (s\<lparr>pmm_lock := lock_advance (pmm_lock s)\<rparr>)"
    using n by (simp add: pmm_page_dec_ref_def pmm_acquire_free [OF lf] read_page_def pmm_release_held)
      (simp add: pmm_held_def)
  moreover have "pmm_avail (s\<lparr>pmm_lock := lock_advance (pmm_lock s)\<rparr>) R A"
    using advance_valid [OF valid] R tot unfolding pmm_avail_def by auto
  ultimately show ?thesis by (auto simp: pmm_refs_def fun_eq_iff)
qed

interpretation pmm_frames: frame_allocator pmm_avail pmm_refs pmm_alloc pmm_page_dec_ref
proof
  fix s R A p
  assume av: "pmm_avail s R A"
  then obtain F where valid: "pmm_valid s F A" and R: "R = frames (fblocks F)" and tot: "unat (totalPages s) \<le> 2 ^ 40"
    by (auto simp: pmm_avail_def)
  show "R \<inter> frames A = {}" unfolding R by (rule valid_free_allocated_disjoint) fact
  show "p < 2 ^ 40 \<and> p \<noteq> 0" if "p \<in> R"
    using free_frame_bound [OF valid, of p] that tot R by auto
  show "p < 2 ^ 40 \<and> p \<noteq> 0" if "(p, k) \<in> A" for k
  proof -
    have "p \<in> block p k" by simp
    then have "p \<in> frames (fblocks F \<union> A)" using block_subset_frames [OF that] unfolding frames_Un by blast
    then have "p \<noteq> 0" using valid_zero [OF valid] by metis
    then show ?thesis using allocated_page(2) [OF valid that] tot by auto
  qed
qed (rule pmm_take_some pmm_take_none pmm_drop_last pmm_drop_shared pmm_drop_null; assumption)+

end
