(* ===== verification/Libk_String.thy ===== *)
theory Libk_String
  imports Prelude
begin

text \<open>
  The memory and string functions of \<open>kernel/src/libk/string.c\<close> on a byte-addressed memory.
  Addresses are 64-bit words and pointer arithmetic wraps around. Loops that run until a
  terminating zero byte may never end on a memory without one; they are partial
  functions whose value is then \<open>None\<close>.
\<close>

section \<open>Memory blocks\<close>

type_synonym memory = "u64 \<Rightarrow> u8"

text \<open>The loop of \<open>memcpy\<close>: bytes 0 to \<open>n - 1\<close> in this order.\<close>

primrec copy_up :: "memory \<Rightarrow> u64 \<Rightarrow> u64 \<Rightarrow> nat \<Rightarrow> memory" where
  "copy_up m pdest psrc 0 = m"
| "copy_up m pdest psrc (Suc i) =
     (let m = copy_up m pdest psrc i in m(pdest + of_nat i := m (psrc + of_nat i)))"

primrec copy_down :: "memory \<Rightarrow> u64 \<Rightarrow> u64 \<Rightarrow> nat \<Rightarrow> memory" where
  "copy_down m pdest psrc 0 = m"
| "copy_down m pdest psrc (Suc i) =
     copy_down (m(pdest + of_nat i := m (psrc + of_nat i))) pdest psrc i"

definition memcpy :: "memory \<Rightarrow> u64 \<Rightarrow> u64 \<Rightarrow> u64 \<Rightarrow> memory" where
  "memcpy m dest src n = copy_up m dest src (unat n)"

definition memmove :: "memory \<Rightarrow> u64 \<Rightarrow> u64 \<Rightarrow> u64 \<Rightarrow> memory" where
  "memmove m dest src n =
     (if src > dest then copy_up m dest src (unat n)
      else if src < dest then copy_down m dest src (unat n) else m)"

text \<open>\<open>while (n--) *p++ = c\<close>\<close>

primrec fill_bytes :: "memory \<Rightarrow> u64 \<Rightarrow> u8 \<Rightarrow> nat \<Rightarrow> memory" where
  "fill_bytes m p c 0 = m"
| "fill_bytes m p c (Suc n) = fill_bytes (m(p := c)) (p + 1) c n"

lemma unat_and_7: "unat (p AND 7 :: u64) = unat p mod 8"
proof -
  have "p AND 7 = take_bit 3 p" by (simp add: take_bit_eq_mask mask_eq_exp_minus_1)
  moreover have "unat (take_bit 3 p) = unat p mod 8"
    by (simp only: unsigned_take_bit_eq) (simp add: take_bit_eq_mod)
  ultimately show ?thesis by simp
qed

lemma unat_Suc_mod_8: "unat (p + 1 :: u64) mod 8 = (unat p + 1) mod 8"
  by (simp add: unat_word_ariths mod_mod_cancel)

lemma countdown_8: "r \<noteq> 0 \<Longrightarrow> r < 8 \<Longrightarrow> (8 - (r + 1) mod 8) mod 8 < (8 - r) mod 8" for r :: nat
  by (cases "r = 7") auto

text \<open>Single bytes until the address is divisible by 8; \<open>n\<close> counts down as in the source.\<close>

function fill_to_aligned :: "memory \<Rightarrow> u64 \<Rightarrow> u8 \<Rightarrow> nat \<Rightarrow> memory \<times> u64 \<times> nat" where
  "fill_to_aligned m p c n =
     (if p AND 7 \<noteq> 0 then fill_to_aligned (m(p := c)) (p + 1) c (n - 1) else (m, p, n))"
  by pat_completeness auto
termination
proof (relation "measure (\<lambda>(m, p, c, n). (8 - unat p mod 8) mod 8)")
  fix m :: memory and p :: u64 and c :: u8 and n :: nat
  assume "p AND 7 \<noteq> 0"
  then have "unat p mod 8 \<noteq> 0" using unat_and_7 [of p] by (metis unat_eq_zero)
  moreover have "unat (p + 1) mod 8 = (unat p mod 8 + 1) mod 8"
    unfolding unat_Suc_mod_8 by (simp add: mod_simps)
  ultimately show "((m(p := c), p + 1, c, n - 1), m, p, c, n) \<in> measure (\<lambda>(m, p, c, n). (8 - unat p mod 8) mod 8)"
    using countdown_8 [of "unat p mod 8"] by simp
qed simp

declare fill_to_aligned.simps [simp del]

text \<open>A 64-bit store, least significant byte first.\<close>

definition store64 :: "memory \<Rightarrow> u64 \<Rightarrow> u64 \<Rightarrow> memory" where
  "store64 m p v = (\<lambda>a. if unat (a - p) < 8 then ucast (drop_bit (8 * unat (a - p)) v) else m a)"

function fill_words :: "memory \<Rightarrow> u64 \<Rightarrow> u64 \<Rightarrow> nat \<Rightarrow> memory \<times> u64 \<times> nat" where
  "fill_words m p64 val64 n =
     (if n \<ge> 8 then fill_words (store64 m p64 val64) (p64 + 8) val64 (n - 8) else (m, p64, n))"
  by pat_completeness auto
termination
  by (relation "measure (\<lambda>(m, p64, val64, n). n)") auto

declare fill_words.simps [simp del]

definition spread_byte :: "u8 \<Rightarrow> u64" where
  "spread_byte c =
     (let val64 = ucast c;
          val64 = val64 OR push_bit 8 val64;
          val64 = val64 OR push_bit 16 val64
      in val64 OR push_bit 32 val64)"

definition memset :: "memory \<Rightarrow> u64 \<Rightarrow> u32 \<Rightarrow> u64 \<Rightarrow> memory" where
  "memset m s c n =
     (let n = unat n in
      if n < 8 then fill_bytes m s (ucast c) n
      else
        let (m, p, n) = fill_to_aligned m s (ucast c) n;
            (m, p, n) = fill_words m p (spread_byte (ucast c)) n
        in fill_bytes m p (ucast c) n)"

text \<open>The first differing byte decides.\<close>

primrec memcmp_from :: "memory \<Rightarrow> u64 \<Rightarrow> u64 \<Rightarrow> nat \<Rightarrow> nat \<Rightarrow> int" where
  "memcmp_from m p1 p2 i 0 = 0"
| "memcmp_from m p1 p2 i (Suc k) =
     (if m (p1 + of_nat i) \<noteq> m (p2 + of_nat i)
      then (if m (p1 + of_nat i) < m (p2 + of_nat i) then -1 else 1)
      else memcmp_from m p1 p2 (Suc i) k)"

definition memcmp :: "memory \<Rightarrow> u64 \<Rightarrow> u64 \<Rightarrow> u64 \<Rightarrow> int" where
  "memcmp m s1 s2 n = memcmp_from m s1 s2 0 (unat n)"

section \<open>Zero-terminated strings\<close>

partial_function (option) strlen_from :: "memory \<Rightarrow> u64 \<Rightarrow> u64 \<Rightarrow> u64 option" where
  [code]: "strlen_from m s len = (if m (s + len) \<noteq> 0 then strlen_from m s (len + 1) else Some len)"

definition strlen :: "memory \<Rightarrow> u64 \<Rightarrow> u64 option" where
  "strlen m s = (if s = 0 then Some 0 else strlen_from m s 0)"

partial_function (option) strcmp :: "memory \<Rightarrow> u64 \<Rightarrow> u64 \<Rightarrow> int option" where
  [code]: "strcmp m s1 s2 =
     (if m s1 = 0 then Some (uint (m s1) - uint (m s2))
      else if m s1 = m s2 then strcmp m (s1 + 1) (s2 + 1)
      else Some (uint (m s1) - uint (m s2)))"

primrec strncmp_loop :: "memory \<Rightarrow> u64 \<Rightarrow> u64 \<Rightarrow> nat \<Rightarrow> int" where
  "strncmp_loop m s1 s2 0 = 0"
| "strncmp_loop m s1 s2 (Suc n) =
     (if m s1 \<noteq> m s2 then uint (m s1) - uint (m s2)
      else if m s1 = 0 then 0 else strncmp_loop m (s1 + 1) (s2 + 1) n)"

definition strncmp :: "memory \<Rightarrow> u64 \<Rightarrow> u64 \<Rightarrow> u64 \<Rightarrow> int" where
  "strncmp m s1 s2 n = strncmp_loop m s1 s2 (unat n)"

definition strcpy :: "memory \<Rightarrow> u64 \<Rightarrow> u64 \<Rightarrow> memory option" where
  "strcpy m dest src = map_option (\<lambda>len. memcpy m dest src (len + 1)) (strlen m src)"

section \<open>Blocks: what the loops compute\<close>

lemma fill_bytes_spec:
  "fill_bytes m p c n = (\<lambda>a. if unat (a - p) < n then c else m a)"
proof (induction n arbitrary: m p)
  case 0
  then show ?case by simp
next
  case (Suc n)
  have "unat (a - (p + 1)) < n \<or> a = p \<longleftrightarrow> unat (a - p) < Suc n" for a
  proof (cases "a = p")
    case True
    then show ?thesis by simp
  next
    case False
    then have "a - p \<noteq> 0" by simp
    then have "unat (a - p - 1) = unat (a - p) - 1" by (simp add: unat_minus_one)
    moreover have "0 < unat (a - p)" using \<open>a - p \<noteq> 0\<close> by (simp add: unat_gt_0)
    ultimately show ?thesis using False by (simp add: diff_diff_eq) linarith
  qed
  then show ?case using Suc by (auto simp: fun_eq_iff)
qed

lemma fill_bytes_append:
  "fill_bytes (fill_bytes m p c i) (p + of_nat i) c j = fill_bytes m p c (i + j)"
proof (induction i arbitrary: m p)
  case 0
  then show ?case by simp
next
  case (Suc i)
  have "p + of_nat (Suc i) = p + 1 + of_nat i" by simp
  then show ?case using Suc.IH [of "m(p := c)" "p + 1"] by (simp only: fill_bytes.simps add_Suc)
qed

lemma byte_of_spread: "j < 8 \<Longrightarrow> ucast (drop_bit (8 * j) (spread_byte c)) = c"
proof -
  assume j: "j < 8"
  have "bit (spread_byte c) (8 * j + i) = bit c i" if i: "i < 8" for i
  proof -
    have jj: "j = 0 \<or> j = 1 \<or> j = 2 \<or> j = 3 \<or> j = 4 \<or> j = 5 \<or> j = 6 \<or> j = 7" using j by linarith
    have c: "\<not> bit c k" if "8 \<le> k" for k using that by (simp add: bit_imp_le_length impossible_bit)
    show ?thesis using jj i
      by (elim disjE) (auto simp: spread_byte_def Let_def bit_simps c)
  qed
  then show "ucast (drop_bit (8 * j) (spread_byte c)) = c"
    by (intro bit_word_eqI) (simp add: bit_simps add.commute)
qed

lemma store64_spread: "store64 m p (spread_byte c) = fill_bytes m p c 8"
  unfolding fill_bytes_spec store64_def by (auto simp: fun_eq_iff byte_of_spread)

lemma fill_to_aligned_spec:
  "fill_to_aligned m p c n =
     (let k = (8 - unat p mod 8) mod 8 in (fill_bytes m p c k, p + of_nat k, n - k))"
proof (induction m p c n rule: fill_to_aligned.induct)
  case (1 m p c n)
  show ?case
  proof (cases "p AND 7 = 0")
    case True
    then have "unat p mod 8 = 0" using unat_and_7 [of p] by simp
    then show ?thesis using True by (simp add: fill_to_aligned.simps)
  next
    case False
    define r where "r = unat p mod 8"
    have r: "r \<noteq> 0" "r < 8" using unat_and_7 [of p] False unat_eq_zero [of "p AND 7"] by (auto simp: r_def)
    have r': "unat (p + 1) mod 8 = (r + 1) mod 8" unfolding unat_Suc_mod_8 r_def by (simp add: mod_simps)
    have k: "(8 - r) mod 8 = Suc ((8 - (r + 1) mod 8) mod 8)" using r by (cases "r = 7") auto
    show ?thesis
      using 1 [OF False] False unfolding fill_to_aligned.simps [of m p c n] Let_def r' r_def [symmetric] k
      by (simp add: algebra_simps fun_upd_def)
  qed
qed

lemma fill_words_spec:
  "fill_words m p (spread_byte c) n = (fill_bytes m p c (n - n mod 8), p + of_nat (n - n mod 8), n mod 8)"
proof (induction n arbitrary: m p rule: less_induct)
  case (less n)
  show ?case
  proof (cases "n \<ge> 8")
    case True
    have e: "n - 8 - (n - 8) mod 8 + 8 = n - n mod 8" "(n - 8) mod 8 = n mod 8"
      using True by (simp_all add: le_mod_geq)
    have "fill_words m p (spread_byte c) n = fill_words (fill_bytes m p c 8) (p + 8) (spread_byte c) (n - 8)"
      using True by (subst fill_words.simps) (simp add: store64_spread)
    also have "\<dots> = (fill_bytes m p c (n - n mod 8), p + of_nat (n - n mod 8), n mod 8)"
      using less [of "n - 8" "fill_bytes m p c 8" "p + 8"] True
        fill_bytes_append [of m p c 8 "n - 8 - (n - 8) mod 8"] e
      by (simp add: add.commute [of 8] add.assoc)
    finally show ?thesis .
  next
    case False
    then show ?thesis by (simp add: fill_words.simps)
  qed
qed

lemma memset_fill_bytes: "memset m s c n = fill_bytes m s (ucast c) (unat n)"
proof (cases "unat n < 8")
  case True
  then show ?thesis by (simp add: memset_def)
next
  case False
  define k where "k = (8 - unat s mod 8) mod 8"
  have k: "k \<le> 7" "k \<le> unat n" using False by (simp_all add: k_def)
  define l where "l = unat n - k"
  define i where "i = l - l mod 8"
  have n: "k + i + l mod 8 = unat n" using k by (simp add: l_def i_def)
  have "s + of_nat k + of_nat i = s + of_nat (k + i)" by simp
  then have "fill_bytes (fill_bytes (fill_bytes m s (ucast c) k) (s + of_nat k) (ucast c) i)
      (s + of_nat k + of_nat i) (ucast c) (l mod 8) = fill_bytes m s (ucast c) (unat n)"
    by (simp only: fill_bytes_append n)
  then show ?thesis
    using False by (simp add: memset_def fill_to_aligned_spec fill_words_spec Let_def del: of_nat_diff flip: k_def l_def i_def)
qed

lemma in_block: "unat (a - p) < Suc n \<longleftrightarrow> a = p + of_nat n \<or> unat (a - p) < n" if "n < 2 ^ 64" for a p :: u64
proof -
  have "unat (a - p) = n \<longleftrightarrow> a = p + of_nat n"
    using that u64_of_unat [of "a - p" n] unat_of_nat_u64 [of n] by (auto simp: algebra_simps)
  then show ?thesis by auto
qed

text \<open>Copying upwards is right when no byte is overwritten before it is read.\<close>

lemma copy_up_spec:
  assumes "\<And>i j. i < j \<Longrightarrow> j < n \<Longrightarrow> psrc + of_nat j \<noteq> pdest + of_nat i" and "n \<le> 2 ^ 64"
  shows "copy_up m pdest psrc n = (\<lambda>a. if unat (a - pdest) < n then m (psrc + (a - pdest)) else m a)"
  using assms
proof (induction n)
  case 0
  then show ?case by simp
next
  case (Suc n)
  have n: "n < 2 ^ 64" using Suc.prems(2) by simp
  have "unat (psrc + of_nat n - pdest) \<ge> n"
  proof (rule ccontr)
    assume "\<not> n \<le> unat (psrc + of_nat n - pdest)"
    moreover have "psrc + of_nat n = pdest + of_nat (unat (psrc + of_nat n - pdest))"
      using u64_of_unat [of "psrc + of_nat n - pdest"] by (metis add.commute diff_add_cancel)
    ultimately show False using Suc.prems(1) [of "unat (psrc + of_nat n - pdest)" n] by simp
  qed
  then have "copy_up m pdest psrc n (psrc + of_nat n) = m (psrc + of_nat n)"
    using Suc.IH Suc.prems by simp
  then show ?case using Suc.IH Suc.prems n by (auto simp: fun_eq_iff in_block Let_def)
qed

lemma copy_down_spec:
  assumes "\<And>i j. j < i \<Longrightarrow> i < n \<Longrightarrow> psrc + of_nat j \<noteq> pdest + of_nat i" and "n \<le> 2 ^ 64"
  shows "copy_down m pdest psrc n = (\<lambda>a. if unat (a - pdest) < n then m (psrc + (a - pdest)) else m a)"
  using assms
proof (induction n arbitrary: m)
  case 0
  then show ?case by simp
next
  case (Suc n)
  have n: "n < 2 ^ 64" using Suc.prems(2) by simp
  define m' where "m' = m(pdest + of_nat n := m (psrc + of_nat n))"
  have m': "m' (pdest + of_nat n) = m (psrc + of_nat n)" "\<And>b. b \<noteq> pdest + of_nat n \<Longrightarrow> m' b = m b"
    by (simp_all add: m'_def)
  have "m' (psrc + (a - pdest)) = m (psrc + (a - pdest))" if a: "unat (a - pdest) < n" for a
  proof -
    define u where "u = unat (a - pdest)"
    have "a - pdest = of_nat u" by (rule u64_of_unat) (simp add: u_def)
    moreover have "psrc + of_nat u \<noteq> pdest + of_nat n" using Suc.prems(1) [of u n] a by (simp add: u_def)
    ultimately show ?thesis using m'(2) by simp
  qed
  moreover have "copy_down m' pdest psrc n = (\<lambda>a. if unat (a - pdest) < n then m' (psrc + (a - pdest)) else m' a)"
    using Suc.prems by (intro Suc.IH) auto
  ultimately have eq: "copy_down m' pdest psrc n a = (if unat (a - pdest) < n then m (psrc + (a - pdest)) else m' a)" for a
    by simp
  have "m' a = (if a = pdest + of_nat n then m (psrc + (a - pdest)) else m a)" for a
    using m' by simp
  then show ?case
    using in_block [OF n, of _ pdest] eq by (auto simp: fun_eq_iff simp flip: m'_def)
qed

lemma no_wrap_eq:
  fixes p q :: u64
  assumes "unat p + i < 2 ^ 64" "unat q + j < 2 ^ 64"
  shows "p + of_nat i = q + of_nat j \<longleftrightarrow> unat p + i = unat q + j"
proof -
  have "unat (p + of_nat i) = unat p + i" "unat (q + of_nat j) = unat q + j"
    using assms by (simp_all add: unat_add_u64 unat_of_nat_u64)
  then show ?thesis by (simp add: word_unat_eq_iff)
qed

text \<open>The bytes from offset \<open>i\<close> to \<open>i + k\<close>, as a list.\<close>

definition bytes_at :: "memory \<Rightarrow> u64 \<Rightarrow> nat \<Rightarrow> nat \<Rightarrow> u8 list" where
  "bytes_at m p i k = map (\<lambda>j. m (p + of_nat j)) [i..<i + k]"

lemma bytes_at_simps [simp]:
  "bytes_at m p i 0 = []"
  "bytes_at m p i (Suc k) = m (p + of_nat i) # bytes_at m p (Suc i) k"
proof -
  have "[i..<i + Suc k] = i # [Suc i..<Suc i + k]" by (subst upt_conv_Cons) simp_all
  then show "bytes_at m p i (Suc k) = m (p + of_nat i) # bytes_at m p (Suc i) k"
    by (simp only: bytes_at_def list.map)
qed (simp add: bytes_at_def)

lemma length_bytes_at [simp]: "length (bytes_at m p i k) = k"
  by (simp add: bytes_at_def)

lemma memcmp_from_spec:
  "(memcmp_from m p1 p2 i k = 0 \<longleftrightarrow> bytes_at m p1 i k = bytes_at m p2 i k) \<and>
   (memcmp_from m p1 p2 i k < 0 \<longleftrightarrow> (bytes_at m p1 i k, bytes_at m p2 i k) \<in> lexord {(x, y). x < y})"
  by (induction k arbitrary: i) auto

section \<open>Strings: what the loops compute\<close>

text \<open>The zero-terminated string at an address.\<close>

fun c_string :: "memory \<Rightarrow> u64 \<Rightarrow> u8 list \<Rightarrow> bool" where
  "c_string m p [] \<longleftrightarrow> m p = 0"
| "c_string m p (c # cs) \<longleftrightarrow> m p = c \<and> c \<noteq> 0 \<and> c_string m (p + 1) cs"

lemma strlen_from_spec:
  "c_string m (s + k) cs \<Longrightarrow> strlen_from m s k = Some (k + of_nat (length cs))"
proof (induction cs arbitrary: k)
  case Nil
  then show ?case by (subst strlen_from.simps) simp
next
  case (Cons c cs)
  then show ?case using Cons.IH [of "k + 1"] by (subst strlen_from.simps) (simp add: algebra_simps)
qed

lemma byte_order: "uint c < uint d \<longleftrightarrow> c < d" "uint c = uint d \<longleftrightarrow> c = d" "0 < uint c \<longleftrightarrow> c \<noteq> 0"
  "uint c = 0 \<longleftrightarrow> c = 0" for c d :: u8
proof -
  show "uint c < uint d \<longleftrightarrow> c < d" by (rule word_less_def [symmetric])
  show "uint c = uint d \<longleftrightarrow> c = d" by (rule word_uint_eq_iff [symmetric])
  show z: "uint c = 0 \<longleftrightarrow> c = 0" by (rule uint_0_iff)
  show "0 < uint c \<longleftrightarrow> c \<noteq> 0" using z uint_nonnegative [of c] by linarith
qed

lemma byte_pos: "0 < c \<longleftrightarrow> c \<noteq> 0" "\<not> c < 0" for c :: u8
  by (simp_all add: word_neq_0_conv)

lemma strcmp_spec:
  "c_string m p a \<Longrightarrow> c_string m q b \<Longrightarrow>
   \<exists>r. strcmp m p q = Some r \<and> (r = 0 \<longleftrightarrow> a = b) \<and> (r < 0 \<longleftrightarrow> (a, b) \<in> lexord {(x, y). x < y})"
proof (induction a arbitrary: b p q)
  case Nil
  then show ?case by (subst strcmp.simps) (cases b; simp add: byte_order byte_pos)
next
  case (Cons c cs)
  show ?case
  proof (cases b)
    case Nil
    then show ?thesis using Cons.prems by (subst strcmp.simps) (simp add: byte_order)
  next
    case (Cons d ds)
    show ?thesis
    proof (cases "c = d")
      case True
      then show ?thesis
        using Cons Cons.prems Cons.IH [of "p + 1" "q + 1" ds] by (subst strcmp.simps) simp
    next
      case False
      then show ?thesis using Cons Cons.prems by (subst strcmp.simps) (simp add: byte_order)
    qed
  qed
qed

lemma strncmp_loop_spec:
  "c_string m p a \<Longrightarrow> c_string m q b \<Longrightarrow>
   (strncmp_loop m p q n = 0 \<longleftrightarrow> take n a = take n b) \<and>
   (strncmp_loop m p q n < 0 \<longleftrightarrow> (take n a, take n b) \<in> lexord {(x, y). x < y})"
proof (induction n arbitrary: a b p q)
  case 0
  then show ?case by simp
next
  case (Suc n)
  then show ?case
    using Suc.IH [of "p + 1" "tl a" "q + 1" "tl b"]
    by (cases a; cases b) (simp_all add: byte_order byte_pos)
qed

lemma c_string_iff:
  "c_string m p cs \<longleftrightarrow>
   (\<forall>i<length cs. m (p + of_nat i) = cs ! i \<and> cs ! i \<noteq> 0) \<and> m (p + of_nat (length cs)) = 0"
proof (induction cs arbitrary: p)
  case Nil
  then show ?case by simp
next
  case (Cons c cs)
  have "c_string m (p + 1) cs \<longleftrightarrow>
     (\<forall>i<length cs. m (p + of_nat (Suc i)) = cs ! i \<and> cs ! i \<noteq> 0) \<and> m (p + of_nat (Suc (length cs))) = 0"
    using Cons [of "p + 1"] by (simp add: add.assoc)
  then show ?case by (auto simp: All_less_Suc2 simp del: of_nat_Suc)
qed

section \<open>The contracts\<close>

text \<open>
  \<open>memset\<close>, which aligns its pointer and then writes eight bytes at a time, has exactly the
  effect of writing the low byte of \<open>c\<close> to each of the \<open>n\<close> addresses from \<open>s\<close> on, for every
  alignment and length.
\<close>

theorem memset_sets_block: "memset m s c n = (\<lambda>a. if unat (a - s) < unat n then ucast c else m a)"
  by (simp add: memset_fill_bytes fill_bytes_spec)

lemma copy_up_disjoint_or_above:
  assumes "unat dest + n \<le> 2 ^ 64" "unat src + n \<le> 2 ^ 64"
    and "dest < src \<or> unat src + n \<le> unat dest \<or> n \<le> 1"
  shows "copy_up m dest src n = (\<lambda>a. if unat (a - dest) < n then m (src + (a - dest)) else m a)"
proof (rule copy_up_spec)
  show "src + of_nat j \<noteq> dest + of_nat i" if "i < j" "j < n" for i j
    using that assms no_wrap_eq [of src j dest i] by (auto simp: word_less_nat_alt)
  show "n \<le> 2 ^ 64" using assms(1) by simp
qed

text \<open>
  C38: \<open>memmove\<close> copies the \<open>n\<close> bytes at \<open>src\<close> to \<open>dest\<close> as they were before the call, also when
  the two blocks overlap in either direction, and changes nothing else. The blocks must not
  run past the end of the address space.
\<close>

theorem memmove_copies_block:
  assumes "unat dest + unat n \<le> 2 ^ 64" and "unat src + unat n \<le> 2 ^ 64"
  shows "memmove m dest src n = (\<lambda>a. if unat (a - dest) < unat n then m (src + (a - dest)) else m a)"
proof -
  consider "dest < src" | "src < dest" | "src = dest" by fastforce
  then show ?thesis
  proof cases
    case 1
    then show ?thesis
      using copy_up_disjoint_or_above [of dest "unat n" src m] assms by (simp add: memmove_def)
  next
    case 2
    have "copy_down m dest src (unat n) =
        (\<lambda>a. if unat (a - dest) < unat n then m (src + (a - dest)) else m a)"
    proof (rule copy_down_spec)
      show "src + of_nat j \<noteq> dest + of_nat i" if "j < i" "i < unat n" for i j
        using that assms 2 no_wrap_eq [of src j dest i] by (auto simp: word_less_nat_alt)
      show "unat n \<le> 2 ^ 64" using assms(1) by simp
    qed
    then show ?thesis using 2 by (auto simp: memmove_def dest: less_asym)
  next
    case 3
    then show ?thesis by (simp add: memmove_def fun_eq_iff)
  qed
qed

theorem memmove_copies_block_witness:
  "memmove (\<lambda>a. ucast a) 0x11 0x10 4 = (\<lambda>a. if unat (a - 0x11) < 4 then ucast (0x10 + (a - 0x11)) else ucast a)"
  using memmove_copies_block [of "0x11" 4 "0x10" "\<lambda>a. ucast a"] by simp

text \<open>
  \<open>memcmp\<close> compares two blocks as sequences of unsigned bytes: it is zero exactly when
  they are equal and negative exactly when the first is lexicographically smaller.
\<close>

theorem memcmp_lexicographic:
  "(memcmp m s1 s2 n = 0 \<longleftrightarrow> bytes_at m s1 0 (unat n) = bytes_at m s2 0 (unat n)) \<and>
   (memcmp m s1 s2 n < 0 \<longleftrightarrow> (bytes_at m s1 0 (unat n), bytes_at m s2 0 (unat n)) \<in> lexord {(x, y). x < y})"
  unfolding memcmp_def by (rule memcmp_from_spec)

text \<open>
  On two zero-terminated strings \<open>strcmp\<close> returns, and its result is zero exactly when the
  strings are equal and negative exactly when the first is lexicographically smaller;
  \<open>strncmp\<close> gives the same for the first \<open>n\<close> characters.
\<close>

theorem strcmp_lexicographic:
  assumes "c_string m p a" and "c_string m q b"
  shows "(\<exists>r. strcmp m p q = Some r \<and> (r = 0 \<longleftrightarrow> a = b) \<and> (r < 0 \<longleftrightarrow> (a, b) \<in> lexord {(x, y). x < y})) \<and>
    (strncmp m p q n = 0 \<longleftrightarrow> take (unat n) a = take (unat n) b) \<and>
    (strncmp m p q n < 0 \<longleftrightarrow> (take (unat n) a, take (unat n) b) \<in> lexord {(x, y). x < y})"
  using strcmp_spec [OF assms] strncmp_loop_spec [OF assms, of "unat n"] by (simp add: strncmp_def)

theorem strcmp_lexicographic_witness:
  "\<exists>r. strcmp (\<lambda>a. if a = 1 then 65 else if a = 4 then 66 else 0) 1 4 = Some r \<and> r < 0"
  using strcmp_lexicographic [of "\<lambda>a. if a = 1 then 65 else if a = 4 then 66 else 0" 1 "[65]" 4 "[66]"] by auto

text \<open>
  \<open>strcpy\<close> of a zero-terminated string into a block that does not overlap it returns, leaves
  the same string at the destination and changes nothing outside its bytes and terminator.
\<close>

theorem strcpy_copies_string:
  assumes str: "c_string m src cs" "src \<noteq> 0"
    and room: "unat dest + length cs + 1 \<le> 2 ^ 64" "unat src + length cs + 1 \<le> 2 ^ 64"
    and apart: "unat src + length cs + 1 \<le> unat dest \<or> unat dest + length cs + 1 \<le> unat src"
  shows "\<exists>m'. strcpy m dest src = Some m' \<and> c_string m' dest cs \<and>
    (\<forall>a. unat (a - dest) \<ge> length cs + 1 \<longrightarrow> m' a = m a)"
proof -
  let ?n = "length cs + 1"
  let ?m = "\<lambda>a. if unat (a - dest) < ?n then m (src + (a - dest)) else m a"
  have lt: "?n < 2 ^ 64" using room apart by auto
  have len: "strlen m src = Some (of_nat (length cs))"
    using strlen_from_spec [of m src 0 cs] str by (simp add: strlen_def)
  have n: "unat (of_nat (length cs) + 1 :: u64) = ?n"
    using unat_of_nat_u64 [OF lt] by (simp add: add.commute)
  have "dest < src \<or> unat src + ?n \<le> unat dest \<or> ?n \<le> 1" using apart by (auto simp: word_less_nat_alt)
  then have "copy_up m dest src ?n = ?m"
    using room by (intro copy_up_disjoint_or_above) auto
  then have run: "strcpy m dest src = Some ?m" using len n by (simp add: strcpy_def memcpy_def)
  have "c_string ?m dest cs"
    using str(1) lt unat_of_nat_u64 [of "length cs"] unat_of_nat_u64 by (simp add: c_string_iff)
  then show ?thesis using run by auto
qed

theorem strcpy_copies_string_witness:
  "\<exists>m'. strcpy (\<lambda>a. if a = 1 then 65 else 0) 8 1 = Some m' \<and> c_string m' 8 [65] \<and> m' 1 = 65"
proof -
  have "c_string (\<lambda>a. if a = 1 then 65 else 0) 1 [65]" by simp
  from strcpy_copies_string [OF this, of 8] show ?thesis by fastforce
qed

end
