(* ===== verification/Mem64.thy ===== *)
theory Mem64
  imports Libk_String
begin

text \<open>
  64-bit words in byte memory: a load puts eight bytes together, least significant first.
  Two words whose addresses differ by a multiple of eight are the same word or disjoint,
  which is the situation in page tables.
\<close>

definition load64 :: "memory \<Rightarrow> u64 \<Rightarrow> u64" where
  "load64 m p =
     ucast (m p) OR push_bit 8 (ucast (m (p + 1))) OR push_bit 16 (ucast (m (p + 2))) OR
     push_bit 24 (ucast (m (p + 3))) OR push_bit 32 (ucast (m (p + 4))) OR
     push_bit 40 (ucast (m (p + 5))) OR push_bit 48 (ucast (m (p + 6))) OR push_bit 56 (ucast (m (p + 7)))"

lemma bit_u8_high: "\<not> bit (c :: u8) k" if "8 \<le> k"
  using that by (simp add: impossible_bit)

lemma bit_load64:
  assumes "j < 8" "i < 8"
  shows "bit (load64 m p) (8 * j + i) = bit (m (p + of_nat j)) i"
proof -
  have "j = 0 \<or> j = 1 \<or> j = 2 \<or> j = 3 \<or> j = 4 \<or> j = 5 \<or> j = 6 \<or> j = 7" using assms(1) by linarith
  then show ?thesis
    using assms(2) by (elim disjE) (auto simp: load64_def bit_simps bit_u8_high)
qed

lemma load64_eqI: "(\<And>j. j < 8 \<Longrightarrow> m (p + of_nat j) = m' (p' + of_nat j)) \<Longrightarrow> load64 m p = load64 m' p'"
proof (rule bit_word_eqI)
  fix n
  assume eq: "\<And>j. j < 8 \<Longrightarrow> m (p + of_nat j) = m' (p' + of_nat j)" and n: "n < LENGTH(64)"
  have "n div 8 < 8" "n mod 8 < 8" using n by (simp_all add: div_less_iff_less_mult)
  moreover have "n = 8 * (n div 8) + n mod 8" by simp
  ultimately show "bit (load64 m p) n = bit (load64 m' p') n"
    using bit_load64 [of "n div 8" "n mod 8" m p] bit_load64 [of "n div 8" "n mod 8" m' p'] eq [of "n div 8"]
    by simp
qed

lemma load64_store64 [simp]: "load64 (store64 m p v) p = v"
proof (rule bit_word_eqI)
  fix n
  assume n: "n < LENGTH(64)"
  have lt: "n div 8 < 8" "n mod 8 < 8" using n by (simp_all add: div_less_iff_less_mult)
  have eq: "n = 8 * (n div 8) + n mod 8" by simp
  have "unat (of_nat (n div 8) :: u64) = n div 8" using lt(1) by (intro unat_of_nat_u64) simp
  then have "store64 m p v (p + of_nat (n div 8)) = ucast (drop_bit (8 * (n div 8)) v)"
    using lt(1) by (simp add: store64_def)
  then show "bit (load64 (store64 m p v) p) n = bit v n"
    using bit_load64 [OF lt, of "store64 m p v" p] lt eq by (simp add: bit_simps)
qed

text \<open>Words at distance a multiple of eight.\<close>

definition same_grid :: "u64 \<Rightarrow> u64 \<Rightarrow> bool" where
  "same_grid a b \<longleftrightarrow> unat (a - b) mod 8 = 0"

lemma unat_add_mod_8: "unat (a + b :: u64) mod 8 = (unat a + unat b) mod 8"
  by (simp add: unat_word_ariths mod_mod_cancel)

lemma grid_apart:
  assumes "same_grid a b" "a \<noteq> b" "j < 8"
  shows "unat (a + of_nat j - b) \<ge> 8"
proof -
  define d where "d = a - b"
  have d: "unat d mod 8 = 0" "d \<noteq> 0" using assms by (simp_all add: d_def same_grid_def)
  then have ge: "8 \<le> unat d" by (metis dvd_imp_le mod_eq_0_iff_dvd neq0_conv unat_eq_zero)
  have "unat d + 8 \<le> 2 ^ 64"
  proof -
    obtain k where "unat d = 8 * k" using d(1) by (auto simp: mod_eq_0_iff_dvd elim: dvdE)
    moreover have "unat d < 18446744073709551616" by simp
    ultimately show ?thesis by simp
  qed
  then have "unat (d + of_nat j) = unat d + j"
    using assms(3) by (subst unat_add_u64) (simp_all add: unat_of_nat_u64)
  moreover have "a + of_nat j - b = d + of_nat j" by (simp add: d_def)
  ultimately have "unat (a + of_nat j - b) = unat d + j" by metis
  then show ?thesis using ge by linarith
qed

lemma load64_store64_other:
  assumes "same_grid a b" "a \<noteq> b"
  shows "load64 (store64 m b v) a = load64 m a"
proof (rule load64_eqI)
  fix j :: nat
  assume "j < 8"
  then have "unat (a + of_nat j - b) \<ge> 8" by (rule grid_apart [OF assms])
  then show "store64 m b v (a + of_nat j) = m (a + of_nat j)" by (simp add: store64_def)
qed

lemma memset_apply: "memset m s c n a = (if unat (a - s) < unat n then ucast c else m a)"
  by (simp add: memset_fill_bytes fill_bytes_spec)

lemma load64_zeroed:
  assumes "unat (a - s) + 8 \<le> unat n"
  shows "load64 (memset m s 0 n) a = 0"
proof -
  have "memset m s 0 n (a + of_nat j) = 0" if j: "j < 8" for j
  proof -
    have "unat (a - s) + j < 18446744073709551616" using assms j unat_u64_bound [of n] by linarith
    then have "unat ((a - s) + of_nat j) = unat (a - s) + j"
      using j by (subst unat_add_u64) (simp_all add: unat_of_nat_u64)
    moreover have "a + of_nat j - s = (a - s) + of_nat j" by simp
    ultimately have "unat (a + of_nat j - s) = unat (a - s) + j" by metis
    then show ?thesis using assms j unfolding memset_apply by simp
  qed
  then have "load64 (memset m s 0 n) a = load64 (\<lambda>_. 0) a" by (intro load64_eqI) simp
  also have "\<dots> = 0" by (simp add: load64_def)
  finally show ?thesis .
qed

lemma load64_memset_other:
  assumes "\<And>j. j < 8 \<Longrightarrow> unat n \<le> unat (a + of_nat j - s)"
  shows "load64 (memset m s c n) a = load64 m a"
  using assms by (intro load64_eqI) (simp add: memset_apply not_less [symmetric])

end
