(* ===== verification/Paging.thy ===== *)
theory Paging
  imports Frame_Alloc Mem64
begin

text \<open>
  Four-level paging, \<open>kernel/src/memory/paging.c\<close>. Page tables live in physical frames that
  the code reads and writes through the higher half direct map, so their memory is a byte
  memory indexed by the virtual addresses of that window. The translation caches are not
  modelled: \<open>invlpg\<close> has no effect on the state.
\<close>

section \<open>Constants and state\<close>

definition PAGING_PAGE_SIZE :: u64 where "PAGING_PAGE_SIZE = 4096"
definition PAGING_HUGE_PAGE_SIZE :: u64 where "PAGING_HUGE_PAGE_SIZE = 0x200000"

definition PTE_FLAG_NO_EXEC :: u64 where "PTE_FLAG_NO_EXEC = push_bit 63 1"
definition PTE_FLAG_GLOBAL :: u64 where "PTE_FLAG_GLOBAL = push_bit 8 1"
definition PTE_FLAG_PS :: u64 where "PTE_FLAG_PS = push_bit 7 1"
definition PTE_FLAG_PCD :: u64 where "PTE_FLAG_PCD = push_bit 4 1"
definition PTE_FLAG_PWT :: u64 where "PTE_FLAG_PWT = push_bit 3 1"
definition PTE_FLAG_US :: u64 where "PTE_FLAG_US = push_bit 2 1"
definition PTE_FLAG_RW :: u64 where "PTE_FLAG_RW = push_bit 1 1"
definition PTE_FLAG_PRESENT :: u64 where "PTE_FLAG_PRESENT = 1"

definition PAGING_PTE_ADDR_MASK :: u64 where "PAGING_PTE_ADDR_MASK = 0x000FFFFFFFFFF000"

definition PAGING_GET_PML4INDEX :: "u64 \<Rightarrow> u64" where "PAGING_GET_PML4INDEX v = drop_bit 39 v AND 0x1FF"
definition PAGING_GET_PDPRINDEX :: "u64 \<Rightarrow> u64" where "PAGING_GET_PDPRINDEX v = drop_bit 30 v AND 0x1FF"
definition PAGING_GET_PDINDEX :: "u64 \<Rightarrow> u64" where "PAGING_GET_PDINDEX v = drop_bit 21 v AND 0x1FF"
definition PAGING_GET_PTINDEX :: "u64 \<Rightarrow> u64" where "PAGING_GET_PTINDEX v = drop_bit 12 v AND 0x1FF"

record paging =
  pg_pmm :: pmm
  ram :: memory
  hhdm_offset :: u64
  kernel_pml4_phys :: u64
  cr3 :: u64
  cr4 :: u64
  msr_pat :: u64

abbreviation to_virt :: "paging \<Rightarrow> u64 \<Rightarrow> u64" where
  "to_virt s \<equiv> hhdm_physToVirt (hhdm_offset s)"

text \<open>\<open>table[index]\<close> for a table at a virtual address.\<close>

definition read_entry :: "paging \<Rightarrow> u64 \<Rightarrow> u64 \<Rightarrow> u64" where
  "read_entry s tab index = load64 (ram s) (tab + 8 * index)"

definition write_entry :: "u64 \<Rightarrow> u64 \<Rightarrow> paging \<Rightarrow> paging" where
  "write_entry pte v s = s\<lparr>ram := store64 (ram s) pte v\<rparr>"

section \<open>Finding the entry of an address\<close>

text \<open>
  One level of \<open>vmm_get_pte\<close>, which repeats this code three times: the table an entry
  points to, allocated and zeroed when it is missing and \<open>allocate\<close> is set. \<open>None\<close> is the
  early \<open>return NULL\<close>.
\<close>

definition next_table :: "paging \<Rightarrow> u64 \<Rightarrow> u64 \<Rightarrow> bool \<Rightarrow> (u64 option \<times> paging) outcome" where
  "next_table s tab index allocate =
     (if read_entry s tab index AND PTE_FLAG_PRESENT = 0 then
        if \<not> allocate then Ok (None, s)
        else obind (pmm_alloc (pg_pmm s) PAGING_PAGE_SIZE) (\<lambda>(phys_new, pmm).
          let s = s\<lparr>pg_pmm := pmm\<rparr> in
          if phys_new = 0 then Ok (None, s)
          else
            let s = s\<lparr>ram := memset (ram s) (to_virt s phys_new) 0 PAGING_PAGE_SIZE\<rparr>;
                s = write_entry (tab + 8 * index)
                      (phys_new OR PTE_FLAG_US OR PTE_FLAG_PRESENT OR PTE_FLAG_RW) s
            in Ok (Some (to_virt s (read_entry s tab index AND PAGING_PTE_ADDR_MASK)), s))
      else Ok (Some (to_virt s (read_entry s tab index AND PAGING_PTE_ADDR_MASK)), s))"

definition vmm_get_pte :: "paging \<Rightarrow> u64 \<Rightarrow> u64 \<Rightarrow> bool \<Rightarrow> bool \<Rightarrow> (u64 option \<times> paging) outcome" where
  "vmm_get_pte s pml4_root virt_addr allocate is_huge =
     (let virt_addr = (if virt_addr mod PAGING_PAGE_SIZE \<noteq> 0
                       then virt_addr - virt_addr mod PAGING_PAGE_SIZE else virt_addr) in
      obind (next_table s pml4_root (PAGING_GET_PML4INDEX virt_addr) allocate) (\<lambda>(virtual_pdpr, s).
      case virtual_pdpr of None \<Rightarrow> Ok (None, s) | Some virtual_pdpr \<Rightarrow>
      obind (next_table s virtual_pdpr (PAGING_GET_PDPRINDEX virt_addr) allocate) (\<lambda>(virtual_pd, s).
      case virtual_pd of None \<Rightarrow> Ok (None, s) | Some virtual_pd \<Rightarrow>
      if is_huge then Ok (Some (virtual_pd + 8 * PAGING_GET_PDINDEX virt_addr), s)
      else
        obind (next_table s virtual_pd (PAGING_GET_PDINDEX virt_addr) allocate) (\<lambda>(virtual_pt, s).
        case virtual_pt of None \<Rightarrow> Ok (None, s) | Some virtual_pt \<Rightarrow>
        Ok (Some (virtual_pt + 8 * PAGING_GET_PTINDEX virt_addr), s)))))"

section \<open>Mapping and unmapping pages\<close>

definition align_phys :: "u64 \<Rightarrow> bool \<Rightarrow> u64" where
  "align_phys phys_addr isHugePage =
     (if isHugePage \<and> phys_addr mod PAGING_HUGE_PAGE_SIZE \<noteq> 0
      then phys_addr - phys_addr mod PAGING_HUGE_PAGE_SIZE
      else if phys_addr mod PAGING_PAGE_SIZE \<noteq> 0
      then phys_addr - phys_addr mod PAGING_PAGE_SIZE else phys_addr)"

definition paging_map_page :: "paging \<Rightarrow> u64 \<Rightarrow> u64 \<Rightarrow> u64 \<Rightarrow> u64 \<Rightarrow> bool \<Rightarrow> paging outcome" where
  "paging_map_page s pml4_root virt_addr phys_addr pflags isHugePage =
     (let phys_addr = align_phys phys_addr isHugePage in
      if pml4_root = 0 \<or> virt_addr = 0 then Halt
      else obind (vmm_get_pte s pml4_root virt_addr True isHugePage) (\<lambda>(pte, s).
        case pte of
          None \<Rightarrow> Halt
        | Some pte \<Rightarrow>
            Ok (write_entry pte (phys_addr OR pflags OR PTE_FLAG_PRESENT OR
                  (if isHugePage then PTE_FLAG_PS else 0)) s)))"

definition paging_unmap_page :: "paging \<Rightarrow> u64 \<Rightarrow> u64 \<Rightarrow> bool \<Rightarrow> bool \<Rightarrow> paging outcome" where
  "paging_unmap_page s pml4_root virt_addr isHugePage freePhysical =
     (if pml4_root = 0 \<or> virt_addr = 0 then Halt
      else obind (vmm_get_pte s pml4_root virt_addr False isHugePage) (\<lambda>(pte, s).
        case pte of
          None \<Rightarrow> Ok s
        | Some pte \<Rightarrow>
            let physAddr = load64 (ram s) pte AND PAGING_PTE_ADDR_MASK;
                s = write_entry pte 0 s
            in if freePhysical
               then obind (pmm_page_dec_ref (pg_pmm s) physAddr) (\<lambda>pmm. Ok (s\<lparr>pg_pmm := pmm\<rparr>))
               else Ok s))"

definition paging_change_page_flags :: "paging \<Rightarrow> u64 \<Rightarrow> u64 \<Rightarrow> u64 \<Rightarrow> bool \<Rightarrow> paging outcome" where
  "paging_change_page_flags s pml4_root virt_addr pflags isHugePage =
     (if pml4_root = 0 \<or> virt_addr = 0 then Halt
      else obind (vmm_get_pte s pml4_root virt_addr False isHugePage) (\<lambda>(pte, s).
        case pte of
          None \<Rightarrow> Ok s
        | Some pte \<Rightarrow>
            Ok (write_entry pte
                 ((load64 (ram s) pte AND PAGING_PTE_ADDR_MASK) OR PTE_FLAG_PRESENT OR pflags) s)))"

text \<open>
  The loops over regions compare the running address with \<open>virt_addr + size\<close>, both modulo
  \<open>2 ^ 64\<close>; a run that never ends has the value \<open>None\<close> here and the outcome \<open>Spin\<close> below.
\<close>

definition page_step :: "bool \<Rightarrow> u64" where
  "page_step isHugePage = (if isHugePage then PAGING_HUGE_PAGE_SIZE else PAGING_PAGE_SIZE)"

partial_function (option) map_loop ::
  "paging \<Rightarrow> u64 \<Rightarrow> u64 \<Rightarrow> u64 \<Rightarrow> u64 \<Rightarrow> u64 \<Rightarrow> bool \<Rightarrow> paging outcome option" where
  [code]: "map_loop s pml4_root virtual physical fin pflags isHugePage =
     (if virtual < fin then
        (case paging_map_page s pml4_root virtual physical pflags isHugePage of
           Ok s \<Rightarrow> map_loop s pml4_root (virtual + page_step isHugePage)
                     (physical + page_step isHugePage) fin pflags isHugePage
         | Halt \<Rightarrow> Some Halt | Spin \<Rightarrow> Some Spin | Block \<Rightarrow> Some Block | Fault \<Rightarrow> Some Fault)
      else Some (Ok s))"

partial_function (option) unmap_loop ::
  "paging \<Rightarrow> u64 \<Rightarrow> u64 \<Rightarrow> u64 \<Rightarrow> bool \<Rightarrow> bool \<Rightarrow> paging outcome option" where
  [code]: "unmap_loop s pml4_root virtual fin isHugePage freePhysical =
     (if virtual < fin then
        (case paging_unmap_page s pml4_root virtual isHugePage freePhysical of
           Ok s \<Rightarrow> unmap_loop s pml4_root (virtual + page_step isHugePage) fin isHugePage freePhysical
         | Halt \<Rightarrow> Some Halt | Spin \<Rightarrow> Some Spin | Block \<Rightarrow> Some Block | Fault \<Rightarrow> Some Fault)
      else Some (Ok s))"

definition loop_outcome :: "'a outcome option \<Rightarrow> 'a outcome" where
  "loop_outcome r = (case r of None \<Rightarrow> Spin | Some m \<Rightarrow> m)"

definition paging_map_region :: "paging \<Rightarrow> u64 \<Rightarrow> u64 \<Rightarrow> u64 \<Rightarrow> u64 \<Rightarrow> u64 \<Rightarrow> bool \<Rightarrow> paging outcome" where
  "paging_map_region s pml4_root virt_addr phys_addr sz pflags isHugePage =
     loop_outcome (map_loop s pml4_root virt_addr phys_addr (virt_addr + sz) pflags isHugePage)"

definition paging_unmap_region :: "paging \<Rightarrow> u64 \<Rightarrow> u64 \<Rightarrow> u64 \<Rightarrow> bool \<Rightarrow> bool \<Rightarrow> paging outcome" where
  "paging_unmap_region s pml4_root virt_addr sz isHugePage freePhysical =
     loop_outcome (unmap_loop s pml4_root virt_addr (virt_addr + sz) isHugePage freePhysical)"

section \<open>Initialisation\<close>

definition paging_switch_context :: "u64 \<Rightarrow> paging \<Rightarrow> paging" where
  "paging_switch_context pml4_phys s = s\<lparr>cr3 := pml4_phys\<rparr>"

definition paging_getKernelRoot :: "paging \<Rightarrow> u64" where
  "paging_getKernelRoot s = kernel_pml4_phys s"

text \<open>The symbols of the linker script that \<open>paging_init\<close> imports.\<close>

record kernel_image =
  KERNEL_START :: u64
  LIMINE_REQUESTS_START :: u64
  LIMINE_REQUESTS_END :: u64
  TEXT_START :: u64
  TEXT_END :: u64
  RODATA_START :: u64
  RODATA_END :: u64
  DATA_START :: u64
  DATA_END :: u64
  KERNEL_END :: u64

definition pat_val :: u64 where
  "pat_val =
     (let wb = 6; wc = 1; uc = 0 in
      push_bit 0 wb OR push_bit 8 wc OR push_bit 16 uc OR push_bit 24 uc OR
      push_bit 32 wb OR push_bit 40 wc OR push_bit 48 uc OR push_bit 56 uc)"

definition CR4_PGE_BIT :: u64 where
  "CR4_PGE_BIT = push_bit 7 1"

definition read_cr4 :: "paging \<Rightarrow> u64" where
  "read_cr4 s = cr4 s"

definition write_cr4 :: "u64 \<Rightarrow> paging \<Rightarrow> paging" where
  "write_cr4 val s = s\<lparr>cr4 := val\<rparr>"

text \<open>One segment of the kernel image, mapped at its link address.\<close>

definition map_segment :: "kernel_image \<Rightarrow> u64 \<Rightarrow> u64 \<Rightarrow> u64 \<Rightarrow> u64 \<Rightarrow> paging \<Rightarrow> paging outcome" where
  "map_segment img k_phys start fin pflags s =
     paging_map_region s (to_virt s (kernel_pml4_phys s)) start (k_phys + (start - KERNEL_START img))
       (fin - start) pflags False"

definition paging_init :: "kernel_image \<Rightarrow> u64 \<Rightarrow> paging \<Rightarrow> paging outcome" where
  "paging_init img k_phys s =
     (let s = s\<lparr>msr_pat := pat_val\<rparr> in
      obind (pmm_alloc (pg_pmm s) PAGING_PAGE_SIZE) (\<lambda>(root, pmm).
      let s = s\<lparr>pg_pmm := pmm, kernel_pml4_phys := root\<rparr> in
      if root = 0 then Halt
      else
        let s = s\<lparr>ram := memset (ram s) (to_virt s root) 0 PAGING_PAGE_SIZE\<rparr> in
        obind (map_segment img k_phys (LIMINE_REQUESTS_START img) (LIMINE_REQUESTS_END img)
                 (PTE_FLAG_RW OR PTE_FLAG_NO_EXEC OR PTE_FLAG_GLOBAL) s) (\<lambda>s.
        obind (map_segment img k_phys (TEXT_START img) (TEXT_END img) PTE_FLAG_GLOBAL s) (\<lambda>s.
        obind (map_segment img k_phys (RODATA_START img) (RODATA_END img)
                 (PTE_FLAG_NO_EXEC OR PTE_FLAG_GLOBAL) s) (\<lambda>s.
        obind (map_segment img k_phys (DATA_START img) (DATA_END img)
                 (PTE_FLAG_NO_EXEC OR PTE_FLAG_RW OR PTE_FLAG_GLOBAL) s) (\<lambda>s.
        obind (paging_map_region s (to_virt s (kernel_pml4_phys s)) (hhdm_offset s) 0
                 (pmm_getHighestAddr (pg_pmm s) - 1) (PTE_FLAG_RW OR PTE_FLAG_GLOBAL) True) (\<lambda>s.
        let s = (if read_cr4 s AND CR4_PGE_BIT = 0 then write_cr4 (read_cr4 s OR CR4_PGE_BIT) s else s)
        in Ok (paging_switch_context (kernel_pml4_phys s) s))))))))"

end
