(* ===== verification/Paging_Inv.thy ===== *)
theory Paging_Inv
  imports Paging "HOL-Library.Sublist"
begin

text \<open>
  The page tables of an address space as a tree. A table is reached from the root by a path
  of at most three indices; the invariant says that different paths lead to different
  frames, all of them allocated. Writing one entry then changes only the paths through it.
\<close>

section \<open>Cells of tables\<close>

text \<open>Entry \<open>i\<close> of the table in frame \<open>p\<close>.\<close>

definition cell_addr :: "paging \<Rightarrow> nat \<Rightarrow> nat \<Rightarrow> u64" where
  "cell_addr s p i = to_virt s (page_to_phys p) + 8 * of_nat i"

definition cell :: "paging \<Rightarrow> nat \<Rightarrow> nat \<Rightarrow> u64" where
  "cell s p i = load64 (ram s) (cell_addr s p i)"

lemma read_entry_cell: "read_entry s (to_virt s (page_to_phys p)) (of_nat i) = cell s p i"
  by (simp add: read_entry_def cell_def cell_addr_def)

lemma cell_addr_of_nat: "cell_addr s p i = hhdm_offset s + of_nat (p * 4096 + 8 * i)"
  by (simp add: cell_addr_def hhdm_physToVirt_def page_to_phys_def PMM_PAGE_SIZE_def algebra_simps)

lemma cell_addr_inj:
  assumes "p < 2 ^ 40" "q < 2 ^ 40" "i < 512" "j < 512"
  shows "cell_addr s p i = cell_addr s q j \<longleftrightarrow> p = q \<and> i = j"
proof
  assume "cell_addr s p i = cell_addr s q j"
  then have "(of_nat (p * 4096 + 8 * i) :: u64) = of_nat (q * 4096 + 8 * j)"
    by (simp only: cell_addr_of_nat add_left_cancel)
  moreover have "unat (of_nat (p * 4096 + 8 * i) :: u64) = p * 4096 + 8 * i"
    "unat (of_nat (q * 4096 + 8 * j) :: u64) = q * 4096 + 8 * j"
    using assms by (intro unat_of_nat_u64; simp)+
  ultimately have eq: "p * 4096 + 8 * i = q * 4096 + 8 * j" by metis
  have "(p * 4096 + 8 * i) div 4096 = p" "(q * 4096 + 8 * j) div 4096 = q" using assms(3,4) by simp_all
  then have "p = q" using eq by metis
  then show "p = q \<and> i = j" using eq by simp
qed simp

lemma cell_grid: "same_grid (cell_addr s p i) (cell_addr s q j)"
proof -
  have "cell_addr s p i - cell_addr s q j = 8 * (of_nat (p * 512 + i) - of_nat (q * 512 + j))"
    by (simp add: cell_addr_of_nat algebra_simps)
  moreover have "unat (8 * w :: u64) mod 8 = 0" for w
    by (simp add: unat_word_ariths mod_mod_cancel)
  ultimately show ?thesis unfolding same_grid_def by (simp only:)
qed

lemma cell_write:
  assumes "p < 2 ^ 40" "q < 2 ^ 40" "i < 512" "j < 512"
  shows "cell (write_entry (cell_addr s q j) v s) p i = (if p = q \<and> i = j then v else cell s p i)"
proof -
  have addr: "cell_addr (write_entry a w s) p i = cell_addr s p i" for a w
    by (simp add: cell_addr_def write_entry_def)
  show ?thesis
  proof (cases "p = q \<and> i = j")
    case True
    then show ?thesis unfolding cell_def addr by (simp add: write_entry_def)
  next
    case False
    then have "cell_addr s p i \<noteq> cell_addr s q j" using cell_addr_inj [OF assms] by simp
    from load64_store64_other [OF cell_grid this] show ?thesis
      using False unfolding cell_def addr by (auto simp: write_entry_def)
  qed
qed

lemma unat_diff_of_nat:
  assumes "a < 2 ^ 63" "b < 2 ^ 63"
  shows "unat (of_nat a - of_nat b :: u64) = (if b \<le> a then a - b else 2 ^ 64 - (b - a))"
proof (cases "b \<le> a")
  case True
  then have "(of_nat a - of_nat b :: u64) = of_nat (a - b)" by (simp add: of_nat_diff)
  then show ?thesis using True assms unat_of_nat_u64 [of "a - b"] by simp
next
  case False
  then have "(of_nat a - of_nat b :: u64) = of_nat (2 ^ 64 - (b - a))"
    using assms by (simp add: of_nat_diff)
  moreover have "unat (of_nat (2 ^ 64 - (b - a)) :: u64) = 2 ^ 64 - (b - a)"
    using False by (intro unat_of_nat_u64) simp
  ultimately have "unat (of_nat a - of_nat b :: u64) = 2 ^ 64 - (b - a)" by metis
  then show ?thesis using False by (simp only: if_False)
qed

definition zero_frame :: "nat \<Rightarrow> paging \<Rightarrow> paging" where
  "zero_frame q s = s\<lparr>ram := memset (ram s) (to_virt s (page_to_phys q)) 0 PAGING_PAGE_SIZE\<rparr>"

lemma cell_zero_frame:
  assumes p: "p < 2 ^ 40" "q < 2 ^ 40" "i < 512"
  shows "cell (zero_frame q s) p i = (if p = q then 0 else cell s p i)"
proof -
  have addr: "cell_addr (zero_frame q s) p i = cell_addr s p i"
    by (simp add: cell_addr_def zero_frame_def)
  have base: "to_virt s (page_to_phys q) = hhdm_offset s + of_nat (q * 4096)"
    by (simp add: hhdm_physToVirt_def page_to_phys_def PMM_PAGE_SIZE_def)
  have off: "unat (cell_addr s p i + of_nat j - to_virt s (page_to_phys q)) =
      (if q * 4096 \<le> p * 4096 + 8 * i + j then p * 4096 + 8 * i + j - q * 4096
       else 2 ^ 64 - (q * 4096 - (p * 4096 + 8 * i + j)))" if "j < 8" for j
  proof -
    have "cell_addr s p i + of_nat j - to_virt s (page_to_phys q) =
        of_nat (p * 4096 + 8 * i + j) - of_nat (q * 4096)"
      unfolding base cell_addr_of_nat by simp
    then show ?thesis using p that by (simp only:) (intro unat_diff_of_nat; simp)
  qed
  show ?thesis
  proof (cases "p = q")
    case True
    have "unat (cell_addr s p i - to_virt s (page_to_phys q)) = 8 * i" using off [of 0] True by simp
    then show ?thesis
      unfolding cell_def addr using True p(3)
      by (simp add: zero_frame_def load64_zeroed PAGING_PAGE_SIZE_def)
  next
    case False
    have "4096 \<le> unat (cell_addr s p i + of_nat j - to_virt s (page_to_phys q))" if j: "j < 8" for j
    proof (cases "q < p")
      case True
      then show ?thesis using off [OF j] by auto
    next
      case False
      then have "p < q" using \<open>p \<noteq> q\<close> by simp
      then show ?thesis using off [OF j] p j by auto
    qed
    then show ?thesis
      unfolding cell_def addr using False
      by (simp add: zero_frame_def load64_memset_other PAGING_PAGE_SIZE_def)
  qed
qed

section \<open>Entries\<close>

definition present :: "u64 \<Rightarrow> bool" where
  "present e \<longleftrightarrow> e AND PTE_FLAG_PRESENT \<noteq> 0"

definition is_huge_entry :: "u64 \<Rightarrow> bool" where
  "is_huge_entry e \<longleftrightarrow> e AND PTE_FLAG_PS \<noteq> 0"

lemma present_bit: "present e \<longleftrightarrow> bit e 0"
  by (simp add: present_def PTE_FLAG_PRESENT_def and_one_eq bit_0 odd_iff_mod_2_eq_one)

lemma is_huge_entry_bit: "is_huge_entry e \<longleftrightarrow> bit e 7"
proof -
  have ps: "PTE_FLAG_PS = 2 ^ 7" by (simp add: PTE_FLAG_PS_def)
  show ?thesis unfolding is_huge_entry_def ps and_exp_eq_0_iff_not_bit by simp
qed

lemma addr_mask_eq: "PAGING_PTE_ADDR_MASK = push_bit 12 (mask 40)"
  by (simp add: PAGING_PTE_ADDR_MASK_def mask_eq_exp_minus_1)

lemma page_to_phys_push: "page_to_phys p = push_bit 12 (of_nat p)"
  by (simp add: page_to_phys_def PMM_PAGE_SIZE_def push_bit_eq_mult mult.commute)

lemma page_to_phys_masked: "p < 2 ^ 40 \<Longrightarrow> page_to_phys p AND PAGING_PTE_ADDR_MASK = page_to_phys p"
proof -
  assume p: "p < 2 ^ 40"
  have "unat (take_bit 40 (of_nat p :: u64)) = p"
    using p by (simp only: unsigned_take_bit_eq unat_of_nat_u64) (simp add: take_bit_nat_eq_self unat_of_nat_u64)
  then have "take_bit 40 (of_nat p :: u64) = of_nat p" by (rule u64_of_unat)
  then show ?thesis
    unfolding addr_mask_eq page_to_phys_push push_bit_and [symmetric] take_bit_eq_mask [symmetric] by simp
qed

lemma bit_page_to_phys_low: "n < 12 \<Longrightarrow> \<not> bit (page_to_phys p) n"
  by (simp add: page_to_phys_push bit_simps)

text \<open>The entry that \<open>vmm_get_pte\<close> writes for a new table.\<close>

definition table_entry :: "nat \<Rightarrow> u64" where
  "table_entry p = page_to_phys p OR PTE_FLAG_US OR PTE_FLAG_PRESENT OR PTE_FLAG_RW"

lemma table_entry_facts:
  assumes "p < 2 ^ 40"
  shows "table_entry p AND PAGING_PTE_ADDR_MASK = page_to_phys p" "present (table_entry p)"
    "\<not> is_huge_entry (table_entry p)"
proof -
  have "(PTE_FLAG_US OR PTE_FLAG_PRESENT OR PTE_FLAG_RW) AND PAGING_PTE_ADDR_MASK = 0"
    by (simp add: PTE_FLAG_US_def PTE_FLAG_PRESENT_def PTE_FLAG_RW_def PAGING_PTE_ADDR_MASK_def)
  then show "table_entry p AND PAGING_PTE_ADDR_MASK = page_to_phys p"
    using page_to_phys_masked [OF assms] unfolding table_entry_def or.assoc bit.conj_disj_distrib2 by simp
  show "present (table_entry p)"
    by (simp add: present_bit table_entry_def bit_simps PTE_FLAG_PRESENT_def)
  show "\<not> is_huge_entry (table_entry p)"
    by (simp add: is_huge_entry_bit table_entry_def bit_simps bit_page_to_phys_low
        PTE_FLAG_US_def PTE_FLAG_PRESENT_def PTE_FLAG_RW_def)
qed

section \<open>Paths from the root\<close>

text \<open>
  \<open>follow s l t i\<close> is the frame of the table that entry \<open>i\<close> of the table at address \<open>t\<close> on level \<open>l\<close>
  points to; a huge page on level 2 is not a table.
\<close>

definition frame_of :: "u64 \<Rightarrow> nat" where
  "frame_of a = unat a div 4096"

definition follow :: "paging \<Rightarrow> nat \<Rightarrow> nat \<Rightarrow> nat \<Rightarrow> nat option" where
  "follow s l p i =
     (let e = cell s p i in
      if present e \<and> \<not> (l = 2 \<and> is_huge_entry e) then Some (frame_of (e AND PAGING_PTE_ADDR_MASK)) else None)"

fun walk :: "paging \<Rightarrow> nat \<Rightarrow> nat \<Rightarrow> nat list \<Rightarrow> nat option" where
  "walk s l p [] = Some p"
| "walk s l p (i # is) = (case follow s l p i of None \<Rightarrow> None | Some q \<Rightarrow> walk s (Suc l) q is)"

lemma frame_of_page: "p < 2 ^ 52 \<Longrightarrow> frame_of (page_to_phys p) = p"
  by (simp add: frame_of_def unat_page_to_phys)

lemma masked_is_page: "e AND PAGING_PTE_ADDR_MASK = page_to_phys (frame_of (e AND PAGING_PTE_ADDR_MASK))"
  (is "?a = _") and masked_bound: "frame_of (e AND PAGING_PTE_ADDR_MASK) < 2 ^ 40"
proof -
  have "?a = push_bit 12 (drop_bit 12 ?a)"
    by (rule bit_word_eqI) (auto simp: addr_mask_eq bit_simps)
  moreover have "drop_bit 12 ?a = of_nat (frame_of ?a)"
    by (rule u64_of_unat) (simp add: frame_of_def drop_bit_eq_div unat_div)
  ultimately show "?a = page_to_phys (frame_of ?a)" unfolding page_to_phys_push by metis
  have "?a \<le> PAGING_PTE_ADDR_MASK" by (simp add: word_and_le1)
  then have "unat ?a \<le> unat PAGING_PTE_ADDR_MASK" by (simp add: word_le_nat_alt)
  then show "frame_of ?a < 2 ^ 40"
    unfolding frame_of_def by (simp add: PAGING_PTE_ADDR_MASK_def div_less_iff_less_mult)
qed

lemma follow_bound: "follow s l p i = Some q \<Longrightarrow> q < 2 ^ 40"
  using masked_bound by (auto simp: follow_def Let_def split: if_splits)

lemma walk_snoc: "walk s l p (is @ [i]) = (case walk s l p is of None \<Rightarrow> None | Some q \<Rightarrow> follow s (l + length is) q i)"
  by (induction "is" arbitrary: l p) (auto split: option.splits)

definition paths :: "nat list set" where
  "paths = {is. length is \<le> 3 \<and> set is \<subseteq> {..<512}}"

lemma paths_snoc: "is @ [i] \<in> paths \<longleftrightarrow> is \<in> paths \<and> length is < 3 \<and> i < 512"
  by (auto simp: paths_def)

definition pt_tree :: "paging \<Rightarrow> nat \<Rightarrow> (nat \<times> nat) set \<Rightarrow> bool" where
  "pt_tree s root A \<longleftrightarrow>
     (\<forall>is\<in>paths. \<forall>p. walk s 0 root is = Some p \<longrightarrow> (p, 0) \<in> A \<and> p < 2 ^ 40) \<and>
     (\<forall>is\<in>paths. \<forall>js\<in>paths. walk s 0 root is \<noteq> None \<longrightarrow> walk s 0 root is = walk s 0 root js \<longrightarrow> is = js)"

definition table_at :: "paging \<Rightarrow> nat \<Rightarrow> nat \<Rightarrow> bool" where
  "table_at s root p \<longleftrightarrow> (\<exists>is\<in>paths. walk s 0 root is = Some p)"

lemma pt_treeD:
  assumes "pt_tree s root A" "is \<in> paths" "walk s 0 root is = Some p"
  shows "(p, 0) \<in> A" "p < 2 ^ 40" "js \<in> paths \<Longrightarrow> walk s 0 root js = Some p \<Longrightarrow> js = is"
  using assms unfolding pt_tree_def by fastforce+

text \<open>
  A change of the single entry \<open>i0\<close> of the table at path \<open>p0\<close>, as far as the tables of the tree
  are concerned, keeps every path that does not go through that entry.
\<close>

definition only_changes :: "paging \<Rightarrow> paging \<Rightarrow> nat \<Rightarrow> nat list \<Rightarrow> nat \<Rightarrow> bool" where
  "only_changes s s' root path0 i0 \<longleftrightarrow>
     (\<forall>is\<in>paths. \<forall>p i. walk s 0 root is = Some p \<longrightarrow> i < 512 \<longrightarrow> (is, i) \<noteq> (path0, i0) \<longrightarrow>
        cell s' p i = cell s p i)"

lemma follow_cong: "cell s' p i = cell s p i \<Longrightarrow> follow s' l p i = follow s l p i"
  by (simp add: follow_def)

lemma walk_frame:
  assumes ch: "only_changes s s' root path0 i0"
  shows "is \<in> paths \<Longrightarrow> \<not> prefix (path0 @ [i0]) is \<Longrightarrow> walk s' 0 root is = walk s 0 root is"
proof (induction "is" rule: rev_induct)
  case Nil
  then show ?case by simp
next
  case (snoc i "is")
  have "is": "is \<in> paths" "i < 512" using snoc.prems by (simp_all add: paths_snoc)
  have "\<not> prefix (path0 @ [i0]) is" using snoc.prems(2) by simp
  then have eq: "walk s' 0 root is = walk s 0 root is" using snoc.IH "is" by blast
  show ?case
  proof (cases "walk s 0 root is")
    case None
    then show ?thesis using eq by (simp add: walk_snoc)
  next
    case (Some p)
    have "(is, i) \<noteq> (path0, i0)" using snoc.prems(2) by auto
    then have "cell s' p i = cell s p i" using ch "is" Some by (simp add: only_changes_def)
    from follow_cong [OF this] show ?thesis using eq Some by (simp add: walk_snoc)
  qed
qed

section \<open>Translation\<close>

text \<open>What the hardware finds for the four indices of an address: the entry, and whether it is huge.\<close>

definition translate_at :: "paging \<Rightarrow> nat \<Rightarrow> nat \<Rightarrow> nat \<Rightarrow> nat \<Rightarrow> nat \<Rightarrow> (u64 \<times> bool) option" where
  "translate_at s root i j k l =
     (case walk s 0 root [i, j] of
        None \<Rightarrow> None
      | Some pd \<Rightarrow>
          let e = cell s pd k in
          if \<not> present e then None
          else if is_huge_entry e then Some (e, True)
          else let e' = cell s (frame_of (e AND PAGING_PTE_ADDR_MASK)) l in
               if present e' then Some (e', False) else None)"

lemma walk_PT:
  assumes "walk s 0 root [i, j] = Some pd" "present (cell s pd k)" "\<not> is_huge_entry (cell s pd k)"
  shows "walk s 0 root [i, j, k] = Some (frame_of (cell s pd k AND PAGING_PTE_ADDR_MASK))"
  using assms walk_snoc [of s 0 root "[i, j]" k] by (simp add: follow_def Let_def)

lemma walk_append:
  "walk s l p (xs @ ys) = (case walk s l p xs of None \<Rightarrow> None | Some q \<Rightarrow> walk s (l + length xs) q ys)"
  by (induction xs arbitrary: l p) (auto split: option.splits)

lemma not_present_0 [simp]: "\<not> present 0"
  by (simp add: present_def)

lemma path2: "i < 512 \<Longrightarrow> j < 512 \<Longrightarrow> [i, j] \<in> paths" and path3: "i < 512 \<Longrightarrow> j < 512 \<Longrightarrow> k < 512 \<Longrightarrow> [i, j, k] \<in> paths"
  by (simp_all add: paths_def)

definition same_translation :: "paging \<Rightarrow> paging \<Rightarrow> nat \<Rightarrow> (nat \<times> nat \<times> nat \<times> nat) set \<Rightarrow> bool" where
  "same_translation s s' root X \<longleftrightarrow>
     (\<forall>i<512. \<forall>j<512. \<forall>k<512. \<forall>l<512. (i, j, k, l) \<notin> X \<longrightarrow>
        translate_at s' root i j k l = translate_at s root i j k l)"

definition same_regs :: "paging \<Rightarrow> paging \<Rightarrow> bool" where
  "same_regs s s' \<longleftrightarrow> hhdm_offset s' = hhdm_offset s \<and> kernel_pml4_phys s' = kernel_pml4_phys s \<and>
     cr3 s' = cr3 s \<and> cr4 s' = cr4 s \<and> msr_pat s' = msr_pat s"

section \<open>Adding a table\<close>

definition link_table :: "nat \<Rightarrow> nat \<Rightarrow> nat \<Rightarrow> paging \<Rightarrow> paging" where
  "link_table p0 i0 p s = write_entry (cell_addr s p0 i0) (table_entry p) (zero_frame p s)"

lemma cell_link_table:
  assumes "p0 < 2 ^ 40" "i0 < 512" "p < 2 ^ 40" "p \<noteq> p0" "q < 2 ^ 40" "i < 512"
  shows "cell (link_table p0 i0 p s) q i =
    (if q = p0 \<and> i = i0 then table_entry p else if q = p then 0 else cell s q i)"
proof -
  have "cell_addr (zero_frame p s) p0 i0 = cell_addr s p0 i0" by (simp add: cell_addr_def zero_frame_def)
  then show ?thesis
    using cell_write [of q p0 i i0 "zero_frame p s"] cell_zero_frame [of q p i s] assms
    by (auto simp: link_table_def)
qed

lemma link_table_tree:
  assumes tree: "pt_tree s root A" and path0: "path0 \<in> paths" "length path0 \<le> 2" "walk s 0 root path0 = Some p0"
    and i0: "i0 < 512" and np: "\<not> present (cell s p0 i0)" and p: "p < 2 ^ 40" "(p, 0) \<notin> A"
  defines "s' \<equiv> link_table p0 i0 p s"
  shows "only_changes s s' root path0 i0" and "walk s' 0 root (path0 @ [i0]) = Some p"
    and "pt_tree s' root (insert (p, 0) A)"
    and "is \<in> paths \<Longrightarrow> walk s 0 root is \<noteq> None \<Longrightarrow> walk s' 0 root is = walk s 0 root is"
    and "prefix (path0 @ [i0]) is \<Longrightarrow> is \<noteq> path0 @ [i0] \<Longrightarrow> is \<in> paths \<Longrightarrow> walk s' 0 root is = None"
proof -
  have p0: "p0 < 2 ^ 40" "(p0, 0) \<in> A" using pt_treeD [OF tree path0(1,3)] by auto
  then have ne: "p \<noteq> p0" using p(2) by auto
  note cells = cell_link_table [OF p0(1) i0 p(1) ne, of _ _ s, folded s'_def]
  show ch: "only_changes s s' root path0 i0"
    unfolding only_changes_def
  proof (intro ballI allI impI)
    fix "is" q i
    assume q: "is \<in> paths" "walk s 0 root is = Some q" "i < 512" "(is, i) \<noteq> (path0, i0)"
    have "(q, 0) \<in> A" "q < 2 ^ 40" using pt_treeD [OF tree q(1,2)] by auto
    moreover have "\<not> (q = p0 \<and> i = i0)"
      using q pt_treeD(3) [OF tree path0(1,3) q(1)] by auto
    ultimately show "cell s' q i = cell s q i" using cells [of q i] q(3) p(2) by auto
  qed
  have w0: "walk s' 0 root path0 = Some p0"
    using walk_frame [OF ch path0(1)] path0(3) by (metis length_append_singleton not_less_eq_eq order_refl prefix_length_le)
  have e: "cell s' p0 i0 = table_entry p" using cells [of p0 i0] p0 i0 by simp
  show w1: "walk s' 0 root (path0 @ [i0]) = Some p"
    using w0 table_entry_facts [OF p(1)] p(1) by (simp add: walk_snoc follow_def e frame_of_page)
  show deep: "walk s' 0 root is = None" if "prefix (path0 @ [i0]) is" "is \<noteq> path0 @ [i0]" "is \<in> paths" for "is"
  proof -
    from that(1,2) obtain z zs where zs: "is = (path0 @ [i0]) @ z # zs" by (metis append.right_neutral neq_Nil_conv prefixE)
    have "z < 512" using that(3) zs by (simp add: paths_def)
    then have "cell s' p z = 0" using cells [of p z] ne p(1) by simp
    then show ?thesis unfolding zs walk_append [of _ _ _ "path0 @ [i0]"] using w1 by (simp add: follow_def)
  qed
  have none: "walk s 0 root is = None" if "prefix (path0 @ [i0]) is" for "is"
  proof -
    from that obtain zs where zs: "is = (path0 @ [i0]) @ zs" by (metis prefixE)
    have "walk s 0 root (path0 @ [i0]) = None" using path0(3) np by (simp add: walk_snoc follow_def)
    then show ?thesis unfolding zs walk_append [of _ _ _ "path0 @ [i0]"] by simp
  qed
  show keep: "walk s' 0 root is = walk s 0 root is" if "is \<in> paths" "walk s 0 root is \<noteq> None" for "is"
    using walk_frame [OF ch that(1)] none [of "is"] that(2) by blast
  have old: "is = path0 @ [i0] \<and> q = p \<or> walk s 0 root is = Some q \<and> (q, 0) \<in> A \<and> q < 2 ^ 40"
    if "is": "is \<in> paths" "walk s' 0 root is = Some q" for "is" q
  proof (cases "prefix (path0 @ [i0]) is")
    case True
    have "is = path0 @ [i0]" using deep [OF True _ "is"(1)] "is"(2) by fastforce
    then show ?thesis using "is"(2) w1 by simp
  next
    case False
    then have "walk s 0 root is = Some q" using walk_frame [OF ch "is"(1)] "is"(2) by simp
    then show ?thesis using pt_treeD(1,2) [OF tree "is"(1)] by blast
  qed
  show "pt_tree s' root (insert (p, 0) A)"
    unfolding pt_tree_def
  proof (intro conjI ballI allI impI)
    fix "is" q
    assume "is \<in> paths" "walk s' 0 root is = Some q"
    then show "(q, 0) \<in> insert (p, 0) A" "q < 2 ^ 40" using old p(1) by blast+
  next
    fix "is" js
    assume a: "is \<in> paths" "js \<in> paths" "walk s' 0 root is \<noteq> None" "walk s' 0 root is = walk s' 0 root js"
    then obtain q where q: "walk s' 0 root is = Some q" "walk s' 0 root js = Some q" by auto
    from old [OF a(1) q(1)] old [OF a(2) q(2)] show "is = js"
      using p(2) pt_treeD(3) [OF tree a(2) _ a(1)] by auto
  qed
qed

lemma translate_frame:
  assumes ch: "only_changes s s' root path0 i0" and ijk: "i < 512" "j < 512" "k < 512" "l < 512"
    and w: "walk s 0 root [i, j] = Some pd" "walk s' 0 root [i, j] = Some pd"
    and off: "([i, j], k) \<noteq> (path0, i0)" "([i, j, k], l) \<noteq> (path0, i0)"
  shows "translate_at s' root i j k l = translate_at s root i j k l"
proof -
  have e: "cell s' pd k = cell s pd k"
    using ch path2 [OF ijk(1,2)] w(1) ijk(3) off(1) unfolding only_changes_def by blast
  show ?thesis
  proof (cases "present (cell s pd k) \<and> \<not> is_huge_entry (cell s pd k)")
    case True
    let ?q = "frame_of (cell s pd k AND PAGING_PTE_ADDR_MASK)"
    have "walk s 0 root [i, j, k] = Some ?q" using walk_PT [OF w(1)] True by blast
    then have "cell s' ?q l = cell s ?q l"
      using ch path3 [OF ijk(1,2,3)] ijk(4) off(2) unfolding only_changes_def by blast
    then show ?thesis using w e by (simp add: translate_at_def Let_def)
  next
    case False
    then show ?thesis using w e by (auto simp: translate_at_def Let_def)
  qed
qed

lemma link_table_translation:
  assumes tree: "pt_tree s root A" and path0: "path0 \<in> paths" "length path0 \<le> 2" "walk s 0 root path0 = Some p0"
    and i0: "i0 < 512" and np: "\<not> present (cell s p0 i0)" and p: "p < 2 ^ 40" "(p, 0) \<notin> A"
  shows "same_translation s (link_table p0 i0 p s) root {}"
  unfolding same_translation_def
proof (intro allI impI)
  fix i j k l :: nat
  assume ijk: "i < 512" "j < 512" "k < 512" "l < 512"
  define s' where "s' = link_table p0 i0 p s"
  note lt = link_table_tree [OF tree path0 i0 np p, folded s'_def]
  have p0: "p0 < 2 ^ 40" "(p0, 0) \<in> A" using pt_treeD [OF tree path0(1,3)] by auto
  then have ne: "p \<noteq> p0" using p(2) by auto
  note cells = cell_link_table [OF p0(1) i0 p(1) ne, of _ _ s, folded s'_def]
  have "translate_at s' root i j k l = translate_at s root i j k l"
  proof (cases "walk s 0 root [i, j]")
    case (Some pd)
    then have w': "walk s' 0 root [i, j] = Some pd" using lt(4) [OF path2 [OF ijk(1,2)]] by simp
    show ?thesis
    proof (cases "([i, j], k) = (path0, i0)")
      case True
      then have pd: "pd = p0" using Some path0(3) by auto
      then have "cell s' pd k = table_entry p" "\<not> present (cell s pd k)"
        using cells [of p0 i0] p0(1) i0 np True by auto
      moreover have "cell s' p l = 0" using cells [of p l] ne p(1) ijk(4) by simp
      ultimately show ?thesis
        using Some w' table_entry_facts [OF p(1)] p(1) by (simp add: translate_at_def Let_def frame_of_page)
    next
      case False
      have "([i, j, k], l) \<noteq> (path0, i0)" using path0(2) by auto
      then show ?thesis using translate_frame [OF lt(1) ijk Some w' False] by blast
    qed
  next
    case None
    have "walk s' 0 root [i, j] = None \<or> walk s' 0 root [i, j] = Some p"
      using walk_frame [OF lt(1) path2 [OF ijk(1,2)]] lt(2) lt(5) [OF _ _ path2 [OF ijk(1,2)]] None by metis
    moreover have "cell s' p k = 0" using cells [of p k] ne p(1) ijk(3) by simp
    ultimately show ?thesis using None by (auto simp: translate_at_def Let_def)
  qed
  then show "translate_at (link_table p0 i0 p s) root i j k l = translate_at s root i j k l"
    by (simp add: s'_def)
qed

section \<open>One level of the walk in the code\<close>

lemma same_translation_refl [simp]: "same_translation s s root X"
  by (simp add: same_translation_def)

lemma same_translation_trans:
  "same_translation s s' root X \<Longrightarrow> same_translation s' s'' root X \<Longrightarrow> same_translation s s'' root X"
  by (simp add: same_translation_def)

lemma same_regs_refl [simp]: "same_regs s s"
  by (simp add: same_regs_def)

lemma same_regs_trans: "same_regs s s' \<Longrightarrow> same_regs s' s'' \<Longrightarrow> same_regs s s''"
  by (simp add: same_regs_def)

text \<open>
  An address space and the frames behind it: \<open>R\<close> the free frames, \<open>A\<close> the allocated blocks.
  \<open>grows\<close> says that page tables were added and nothing was mapped or unmapped.
\<close>

definition space_inv :: "paging \<Rightarrow> nat \<Rightarrow> nat set \<Rightarrow> (nat \<times> nat) set \<Rightarrow> bool" where
  "space_inv s root R A \<longleftrightarrow> pmm_avail (pg_pmm s) R A \<and> pt_tree s root A"

definition grows :: "paging \<Rightarrow> nat set \<Rightarrow> (nat \<times> nat) set \<Rightarrow> paging \<Rightarrow> nat set \<Rightarrow> (nat \<times> nat) set \<Rightarrow> nat \<Rightarrow> bool" where
  "grows s R A s' R' A' root \<longleftrightarrow> same_regs s s' \<and> same_translation s s' root {} \<and> R' \<subseteq> R \<and> A \<subseteq> A' \<and>
     (\<forall>q k. (q, k) \<in> A' - A \<longrightarrow> k = 0 \<and> q \<in> R) \<and>
     (\<forall>q k. (q, k) \<in> A \<longrightarrow> pmm_refs (pg_pmm s') q = pmm_refs (pg_pmm s) q) \<and>
     (\<forall>q. (q, 0) \<in> A \<longrightarrow> table_at s' root q \<longrightarrow> table_at s root q) \<and>
     (\<forall>q i. (q, 0) \<in> A \<longrightarrow> q < 2 ^ 40 \<longrightarrow> i < 512 \<longrightarrow> \<not> table_at s root q \<longrightarrow> cell s' q i = cell s q i) \<and>
     (\<forall>is\<in>paths. walk s 0 root is \<noteq> None \<longrightarrow> walk s' 0 root is = walk s 0 root is)"

lemma grows_refl: "grows s R A s R A root"
  by (simp add: grows_def)

lemma growsD:
  assumes "grows s R A s' R' A' root"
  shows "same_regs s s'" "same_translation s s' root {}" "R' \<subseteq> R" "A \<subseteq> A'"
    "(q, k) \<in> A' \<Longrightarrow> (q, k) \<notin> A \<Longrightarrow> k = 0 \<and> q \<in> R"
    "(q, k) \<in> A \<Longrightarrow> pmm_refs (pg_pmm s') q = pmm_refs (pg_pmm s) q"
    "is \<in> paths \<Longrightarrow> walk s 0 root is = Some p \<Longrightarrow> walk s' 0 root is = Some p"
    "(q, 0) \<in> A \<Longrightarrow> table_at s' root q \<Longrightarrow> table_at s root q"
    "(q, 0) \<in> A \<Longrightarrow> q < 2 ^ 40 \<Longrightarrow> i < 512 \<Longrightarrow> \<not> table_at s root q \<Longrightarrow> cell s' q i = cell s q i"
  using assms by (auto simp: grows_def)

lemma grows_trans:
  assumes 1: "grows s R A s1 R1 A1 root" and 2: "grows s1 R1 A1 s2 R2 A2 root"
  shows "grows s R A s2 R2 A2 root"
  unfolding grows_def
proof (intro conjI ballI allI impI)
  show "same_regs s s2" using growsD(1) [OF 1] growsD(1) [OF 2] by (rule same_regs_trans)
  show "same_translation s s2 root {}" using growsD(2) [OF 1] growsD(2) [OF 2] by (rule same_translation_trans)
  show "R2 \<subseteq> R" "A \<subseteq> A2" using growsD(3,4) [OF 1] growsD(3,4) [OF 2] by auto
  fix q k
  show "k = 0" "q \<in> R" if "(q, k) \<in> A2 - A"
    using that growsD(3) [OF 1] growsD(5) [OF 1, of q k] growsD(5) [OF 2, of q k] by auto
  show "pmm_refs (pg_pmm s2) q = pmm_refs (pg_pmm s) q" if "(q, k) \<in> A"
    using that growsD(4) [OF 1] growsD(6) [OF 1, of q k] growsD(6) [OF 2, of q k] by auto
  show "table_at s root q" if "(q, 0) \<in> A" "table_at s2 root q"
    using that growsD(4) [OF 1] growsD(8) [OF 1, of q] growsD(8) [OF 2, of q] by auto
  show "cell s2 q i = cell s q i" if "(q, 0) \<in> A" "q < 2 ^ 40" "i < 512" "\<not> table_at s root q" for i
    using that growsD(4) [OF 1] growsD(8) [OF 1, of q] growsD(9) [OF 1, of q i] growsD(9) [OF 2, of q i] by auto
next
  fix "is" assume "is": "is \<in> paths" "walk s 0 root is \<noteq> None"
  then obtain p where "walk s 0 root is = Some p" by auto
  then show "walk s2 0 root is = walk s 0 root is"
    using growsD(7) [OF 1 "is"(1)] growsD(7) [OF 2 "is"(1)] by simp
qed

text \<open>The tables do not depend on the state of the frame allocator.\<close>

lemma cell_pmm [simp]: "cell (s\<lparr>pg_pmm := m\<rparr>) = cell s"
  by (simp add: fun_eq_iff cell_def cell_addr_def)

lemma follow_pmm [simp]: "follow (s\<lparr>pg_pmm := m\<rparr>) = follow s"
  by (simp add: fun_eq_iff follow_def)

lemma walk_pmm [simp]: "walk (s\<lparr>pg_pmm := m\<rparr>) = walk s"
proof -
  have "walk (s\<lparr>pg_pmm := m\<rparr>) l p is = walk s l p is" for l p "is"
    by (induction "is" arbitrary: l p) (auto split: option.split)
  then show ?thesis by (simp add: fun_eq_iff)
qed

lemma tree_pmm [simp]:
  "pt_tree (s\<lparr>pg_pmm := m\<rparr>) = pt_tree s"
  "translate_at (s\<lparr>pg_pmm := m\<rparr>) = translate_at s"
  "same_translation s' (s\<lparr>pg_pmm := m\<rparr>) = same_translation s' s"
  unfolding fun_eq_iff pt_tree_def translate_at_def same_translation_def walk_pmm cell_pmm by (rule allI refl)+

lemma link_table_regs: "same_regs s ((link_table p0 i0 p s)\<lparr>pg_pmm := m\<rparr>)"
  by (simp add: same_regs_def link_table_def write_entry_def zero_frame_def)

lemma card_le_Suc_Diff: "card R \<le> Suc (card (R - {p}))"
proof (cases "finite R \<and> p \<in> R")
  case True
  then have "card R = Suc (card (R - {p}))" by (metis card_Suc_Diff1)
  then show ?thesis by simp
next
  case False
  then show ?thesis by (cases "finite R") simp_all
qed

lemma next_table_present:
  assumes "present (cell s p0 i0)"
  shows "next_table s (to_virt s (page_to_phys p0)) (of_nat i0) al =
    Ok (Some (to_virt s (cell s p0 i0 AND PAGING_PTE_ADDR_MASK)), s)"
  using assms by (simp add: next_table_def read_entry_cell present_def)

lemma next_table_alloc:
  assumes np: "\<not> present (cell s p0 i0)" and b: "p0 < 2 ^ 40" "i0 < 512" "p < 2 ^ 40" "p \<noteq> p0" "page_to_phys p \<noteq> 0"
    and al: "pmm_alloc (pg_pmm s) 4096 = Ok (page_to_phys p, m)"
  shows "next_table s (to_virt s (page_to_phys p0)) (of_nat i0) True =
    Ok (Some (to_virt s (page_to_phys p)), (link_table p0 i0 p s)\<lparr>pg_pmm := m\<rparr>)"
proof -
  let ?s = "(link_table p0 i0 p s)\<lparr>pg_pmm := m\<rparr>"
  have eq: "write_entry (to_virt s (page_to_phys p0) + 8 * of_nat i0)
      (page_to_phys p OR PTE_FLAG_US OR PTE_FLAG_PRESENT OR PTE_FLAG_RW)
      (s\<lparr>pg_pmm := m, ram := memset (ram s) (to_virt s (page_to_phys p)) 0 PAGING_PAGE_SIZE\<rparr>) = ?s"
    by (simp add: link_table_def write_entry_def zero_frame_def table_entry_def cell_addr_def)
  have off: "hhdm_offset ?s = hhdm_offset s" using link_table_regs by (simp add: same_regs_def)
  have "cell ?s p0 i0 = table_entry p" using cell_link_table [of p0 i0 p p0 i0 s] b by simp
  then have "read_entry ?s (to_virt s (page_to_phys p0)) (of_nat i0) AND PAGING_PTE_ADDR_MASK = page_to_phys p"
    using read_entry_cell [of ?s p0 i0] off table_entry_facts(1) [OF b(3)] by simp
  then show ?thesis
    using np al b(5) off unfolding next_table_def read_entry_cell
    by (simp add: present_def PAGING_PAGE_SIZE_def [symmetric] Let_def eq [unfolded PAGING_PAGE_SIZE_def [symmetric]])
qed

lemma next_table_step:
  assumes inv: "space_inv s root R A"
    and path0: "path0 \<in> paths" "length path0 \<le> 2" "walk s 0 root path0 = Some p0" and i0: "i0 < 512"
    and nohuge: "length path0 = 2 \<Longrightarrow> present (cell s p0 i0) \<Longrightarrow> \<not> is_huge_entry (cell s p0 i0)"
  shows "(R = {} \<and> (\<exists>s1. next_table s (to_virt s (page_to_phys p0)) (of_nat i0) True = Ok (None, s1))) \<or>
    (\<exists>p1 s1 R1 A1. next_table s (to_virt s (page_to_phys p0)) (of_nat i0) True = Ok (Some (to_virt s (page_to_phys p1)), s1) \<and>
       space_inv s1 root R1 A1 \<and> grows s R A s1 R1 A1 root \<and> walk s1 0 root (path0 @ [i0]) = Some p1 \<and>
       card R \<le> Suc (card R1))"
proof -
  have av: "pmm_avail (pg_pmm s) R A" and tree: "pt_tree s root A" using inv by (simp_all add: space_inv_def)
  have p0: "p0 < 2 ^ 40" "(p0, 0) \<in> A" using pt_treeD [OF tree path0(1,3)] by auto
  show ?thesis
  proof (cases "present (cell s p0 i0)")
    case True
    let ?a = "cell s p0 i0 AND PAGING_PTE_ADDR_MASK"
    have "walk s 0 root (path0 @ [i0]) = Some (frame_of ?a)"
      using path0(3) True nohuge by (auto simp: walk_snoc follow_def Let_def)
    moreover have "?a = page_to_phys (frame_of ?a)" by (rule masked_is_page)
    ultimately show ?thesis
      using next_table_present [OF True, of True] inv grows_refl [of s R A root]
      by (metis le_SucI order_refl)
  next
    case False
    from pmm_frames.take_cases [OF av] show ?thesis
    proof (elim disjE exE conjE)
      fix m assume R: "R = {}" and al: "pmm_alloc (pg_pmm s) 4096 = Ok (0, m)"
      have "next_table s (to_virt s (page_to_phys p0)) (of_nat i0) True = Ok (None, s\<lparr>pg_pmm := m\<rparr>)"
        using False al by (simp add: next_table_def read_entry_cell present_def PAGING_PAGE_SIZE_def)
      then show ?thesis using R by blast
    next
      fix p m
      assume al: "pmm_alloc (pg_pmm s) 4096 = Ok (page_to_phys p, m)" and p: "page_to_phys p \<noteq> 0" "p < 2 ^ 40" "p \<in> R"
        and av': "pmm_avail m (R - {p}) (insert (p, 0) A)" and fr: "p \<notin> frames A"
        and refs: "pmm_refs m p = 1" "\<forall>q k. (q, k) \<in> A \<longrightarrow> pmm_refs m q = pmm_refs (pg_pmm s) q"
      have new: "(p, 0) \<notin> A" using fr block_subset_frames [of p 0 A] by (auto simp: block_single)
      then have ne: "p \<noteq> p0" using p0 by auto
      let ?s = "(link_table p0 i0 p s)\<lparr>pg_pmm := m\<rparr>"
      note lt = link_table_tree [OF tree path0 i0 False p(2) new]
      have tabs: "table_at s root q" if t: "(q, 0) \<in> A" "table_at ?s root q" for q
      proof -
        obtain "is" where w: "is \<in> paths" "walk (link_table p0 i0 p s) 0 root is = Some q"
          using t(2) by (auto simp: table_at_def)
        have "\<not> prefix (path0 @ [i0]) is" using lt(2) lt(5) [OF _ _ w(1)] w(2) that(1) new by fastforce
        then show ?thesis using walk_frame [OF lt(1) w(1)] w by (auto simp: table_at_def)
      qed
      have "space_inv ?s root (R - {p}) (insert (p, 0) A)" using av' lt(3) by (simp add: space_inv_def)
      moreover have other: "cell ?s q i = cell s q i" if "(q, 0) \<in> A" "q < 2 ^ 40" "i < 512" "\<not> table_at s root q" for q i
        using cell_link_table [OF p0(1) i0 p(2) ne that(2,3), of s] that(1,4) path0(1,3) new by (auto simp: table_at_def)
      moreover have "grows s R A ?s (R - {p}) (insert (p, 0) A) root"
        unfolding grows_def using link_table_regs link_table_translation [OF tree path0 i0 False p(2) new]
          lt(4) refs(2) p(3) tabs other by auto
      ultimately show ?thesis
        using next_table_alloc [OF False p0(1) i0 p(2) ne p(1) al] lt(2) card_le_Suc_Diff [of R p] walk_pmm by metis
    qed
  qed
qed

end
