(* ===== verification/Paging_Props.thy ===== *)
theory Paging_Props
  imports Paging_Inv
begin

text \<open>
  What the operations on page tables do to the translation of addresses: mapping a page
  changes the translation of that page only, unmapping removes it and gives the frame back,
  and the region operations do this page by page.
\<close>

section \<open>The indices of an address\<close>

definition vm_index :: "u64 \<Rightarrow> nat \<times> nat \<times> nat \<times> nat" where
  "vm_index v = (unat (PAGING_GET_PML4INDEX v), unat (PAGING_GET_PDPRINDEX v),
     unat (PAGING_GET_PDINDEX v), unat (PAGING_GET_PTINDEX v))"

definition translate :: "paging \<Rightarrow> nat \<Rightarrow> u64 \<Rightarrow> (u64 \<times> bool) option" where
  "translate s root v = (case vm_index v of (i, j, k, l) \<Rightarrow> translate_at s root i j k l)"

lemma translate_pmm [simp]: "translate (s\<lparr>pg_pmm := m\<rparr>) = translate s" "table_at (s\<lparr>pg_pmm := m\<rparr>) = table_at s"
  by (simp_all add: fun_eq_iff translate_def table_at_def)

lemma index_digit: "unat (drop_bit n v AND 0x1FF :: u64) = unat v div 2 ^ n mod 512"
proof -
  have "(drop_bit n v AND 0x1FF :: u64) = take_bit 9 (drop_bit n v)"
    by (simp add: take_bit_eq_mask mask_eq_exp_minus_1)
  moreover have "unat (take_bit 9 (drop_bit n v)) = take_bit 9 (unat (drop_bit n v))"
    by (rule unsigned_take_bit_eq)
  moreover have "unat (drop_bit n v) = unat v div 2 ^ n"
    unfolding unat_drop_bit_eq by (rule drop_bit_eq_div)
  ultimately show ?thesis unfolding take_bit_eq_mod by simp
qed

lemma vm_index_digits:
  "vm_index v = (unat v div 2 ^ 39 mod 512, unat v div 2 ^ 30 mod 512, unat v div 2 ^ 21 mod 512, unat v div 2 ^ 12 mod 512)"
  unfolding vm_index_def PAGING_GET_PML4INDEX_def PAGING_GET_PDPRINDEX_def PAGING_GET_PDINDEX_def
    PAGING_GET_PTINDEX_def index_digit ..

lemma vm_index_page:
  "vm_index v = (let n = unat v div 4096 in (n div 2 ^ 27 mod 512, n div 2 ^ 18 mod 512, n div 2 ^ 9 mod 512, n mod 512))"
  by (simp add: vm_index_digits Let_def div_mult2_eq [symmetric])

lemma digits_join:
  "n mod 2 ^ 36 = (n div 2 ^ 27 mod 512) * 2 ^ 27 + (n div 2 ^ 18 mod 512) * 2 ^ 18 +
      (n div 2 ^ 9 mod 512) * 2 ^ 9 + n mod (512 :: nat)"
proof -
  have "n mod (2 ^ 9 * (2 ^ 9 * (2 ^ 9 * 2 ^ 9))) =
      2 ^ 9 * (2 ^ 9 * (2 ^ 9 * (n div 2 ^ 9 div 2 ^ 9 div 2 ^ 9 mod 2 ^ 9) + n div 2 ^ 9 div 2 ^ 9 mod 2 ^ 9) +
        n div 2 ^ 9 mod 2 ^ 9) + n mod 2 ^ 9"
    by (simp only: mod_mult2_eq)
  then show ?thesis by (simp add: div_mult2_eq [symmetric])
qed

lemma digit_of_mod: "k \<le> 27 \<Longrightarrow> n div 2 ^ k mod 512 = n mod 2 ^ 36 div 2 ^ k mod (512 :: nat)"
proof -
  assume "k \<le> 27"
  then have "take_bit 9 (drop_bit k n) = take_bit 9 (drop_bit k (take_bit 36 n))"
    by (intro bit_eqI) (auto simp: bit_simps)
  then show ?thesis by (simp add: take_bit_eq_mod drop_bit_eq_div)
qed

lemma vm_index_eq:
  "vm_index a = vm_index b \<longleftrightarrow> unat a div 4096 mod 2 ^ 36 = unat b div 4096 mod 2 ^ 36"
proof
  assume "vm_index a = vm_index b"
  then show "unat a div 4096 mod 2 ^ 36 = unat b div 4096 mod 2 ^ 36"
    unfolding digits_join vm_index_page Let_def prod.inject by (elim conjE) (simp only:)
next
  assume eq: "unat a div 4096 mod 2 ^ 36 = unat b div 4096 mod 2 ^ 36"
  have d: "unat a div 4096 div 2 ^ k mod 512 = unat b div 4096 div 2 ^ k mod 512" if "k \<le> 27" for k
    using digit_of_mod [OF that, of "unat a div 4096"] digit_of_mod [OF that, of "unat b div 4096"] eq by (simp only:)
  show "vm_index a = vm_index b"
    unfolding vm_index_page Let_def prod.inject
  proof (intro conjI)
    show "unat a div 4096 mod 512 = unat b div 4096 mod 512" using d [of 0] by simp
  qed (rule d, simp)+
qed

lemma unat_page_align: "unat (v - v mod 4096 :: u64) = unat v div 4096 * 4096"
proof -
  have m: "unat (v mod 4096) = unat v mod 4096" by (simp add: unat_mod)
  have "v mod 4096 \<le> v" unfolding word_le_nat_alt m by simp
  then have "unat (v - v mod 4096) = unat v - unat v mod 4096" using m by (simp add: unat_sub)
  then show ?thesis by (simp add: minus_mod_eq_div_mult)
qed

lemma vm_index_align: "vm_index (v - v mod 4096) = vm_index v"
  unfolding vm_index_page unat_page_align by simp

lemma vm_index_lt: "vm_index v = (i, j, k, l) \<Longrightarrow> i < 512 \<and> j < 512 \<and> k < 512 \<and> l < 512"
  by (auto simp: vm_index_digits)

section \<open>Finding an entry\<close>

lemma of_nat_index: "of_nat (unat w) = (w :: u64)"
  by simp

lemma vmm_get_pte_align:
  "(if v mod PAGING_PAGE_SIZE \<noteq> 0 then v - v mod PAGING_PAGE_SIZE else v) = v - v mod 4096"
  by (simp add: PAGING_PAGE_SIZE_def)

lemma indices_align:
  "PAGING_GET_PML4INDEX (v - v mod 4096) = PAGING_GET_PML4INDEX v"
  "PAGING_GET_PDPRINDEX (v - v mod 4096) = PAGING_GET_PDPRINDEX v"
  "PAGING_GET_PDINDEX (v - v mod 4096) = PAGING_GET_PDINDEX v"
  "PAGING_GET_PTINDEX (v - v mod 4096) = PAGING_GET_PTINDEX v"
  using vm_index_align [of v] unfolding vm_index_def prod.inject word_unat_eq_iff by blast+

lemma vmm_get_pte_indices:
  assumes "vm_index v = (i, j, k, l)"
  shows "vmm_get_pte s r v al False =
     obind (next_table s r (of_nat i) al) (\<lambda>(t, s).
      case t of None \<Rightarrow> Ok (None, s) | Some t \<Rightarrow>
      obind (next_table s t (of_nat j) al) (\<lambda>(t, s).
      case t of None \<Rightarrow> Ok (None, s) | Some t \<Rightarrow>
      obind (next_table s t (of_nat k) al) (\<lambda>(t, s).
      case t of None \<Rightarrow> Ok (None, s) | Some t \<Rightarrow> Ok (Some (t + 8 * of_nat l), s))))"
proof -
  have "i = unat (PAGING_GET_PML4INDEX v)" "j = unat (PAGING_GET_PDPRINDEX v)"
    "k = unat (PAGING_GET_PDINDEX v)" "l = unat (PAGING_GET_PTINDEX v)"
    using assms by (auto simp: vm_index_def)
  then show ?thesis
    unfolding vmm_get_pte_def vmm_get_pte_align Let_def indices_align by (simp only: of_nat_index if_False)
qed

lemma get_pte_alloc:
  assumes inv: "space_inv s root R A" and v: "vm_index v = (i, j, k, l)"
    and nohuge: "\<And>e. translate s root v \<noteq> Some (e, True)"
  shows "(card R < 3 \<and> (\<exists>s1. vmm_get_pte s (to_virt s (page_to_phys root)) v True False = Ok (None, s1))) \<or>
    (\<exists>pt s1 R1 A1. vmm_get_pte s (to_virt s (page_to_phys root)) v True False = Ok (Some (cell_addr s1 pt l), s1) \<and>
       space_inv s1 root R1 A1 \<and> grows s R A s1 R1 A1 root \<and> walk s1 0 root [i, j, k] = Some pt \<and> card R \<le> card R1 + 3)"
proof -
  note lt = vm_index_lt [OF v]
  let ?get = "vmm_get_pte s (to_virt s (page_to_phys root)) v True False"
  note get = vmm_get_pte_indices [OF v, of s "to_virt s (page_to_phys root)" True]
  have off: "hhdm_offset t = hhdm_offset s" if "grows s R A t R' A' root" for t R' A'
    using growsD(1) [OF that] by (simp add: same_regs_def)
  have p: "[] \<in> paths" "[i] \<in> paths" "[i, j] \<in> paths" using lt by (auto simp: paths_def)
  from next_table_step [OF inv p(1) _ _ conjunct1 [OF lt], of root] consider
      (none) s1 where "R = {}" "next_table s (to_virt s (page_to_phys root)) (of_nat i) True = Ok (None, s1)"
    | (some) p1 s1 R1 A1 where "next_table s (to_virt s (page_to_phys root)) (of_nat i) True = Ok (Some (to_virt s (page_to_phys p1)), s1)"
        "space_inv s1 root R1 A1" "grows s R A s1 R1 A1 root" "walk s1 0 root [i] = Some p1" "card R \<le> Suc (card R1)"
    by auto
  then show ?thesis
  proof cases
    case none
    then show ?thesis by (simp add: get)
  next
    case some
    note s1 = some
    have o1: "hhdm_offset s1 = hhdm_offset s" by (rule off [OF s1(3)])
    from next_table_step [OF s1(2) p(2) _ s1(4), of j] lt consider
        (none) s2 where "R1 = {}" "next_table s1 (to_virt s1 (page_to_phys p1)) (of_nat j) True = Ok (None, s2)"
      | (some) p2 s2 R2 A2 where "next_table s1 (to_virt s1 (page_to_phys p1)) (of_nat j) True = Ok (Some (to_virt s1 (page_to_phys p2)), s2)"
          "space_inv s2 root R2 A2" "grows s1 R1 A1 s2 R2 A2 root" "walk s2 0 root [i, j] = Some p2" "card R1 \<le> Suc (card R2)"
      by auto
    then show ?thesis
    proof cases
      case none
      then show ?thesis using s1(1,5) by (simp add: get o1)
    next
      case some
      note s2 = some
      have g2: "grows s R A s2 R2 A2 root" using s1(3) s2(3) by (rule grows_trans)
      have o2: "hhdm_offset s2 = hhdm_offset s" by (rule off [OF g2])
      have nh: "\<not> is_huge_entry (cell s2 p2 k)" if "present (cell s2 p2 k)"
      proof
        assume "is_huge_entry (cell s2 p2 k)"
        then have "translate_at s2 root i j k l = Some (cell s2 p2 k, True)"
          using s2(4) that by (simp add: translate_at_def)
        then have "translate_at s root i j k l = Some (cell s2 p2 k, True)"
          using growsD(2) [OF g2] lt by (simp add: same_translation_def)
        then show False using nohuge [of "cell s2 p2 k"] by (simp add: translate_def v)
      qed
      from next_table_step [OF s2(2) p(3) _ s2(4), of k] lt nh consider
          (none) s3 where "R2 = {}" "next_table s2 (to_virt s2 (page_to_phys p2)) (of_nat k) True = Ok (None, s3)"
        | (some) p3 s3 R3 A3 where "next_table s2 (to_virt s2 (page_to_phys p2)) (of_nat k) True = Ok (Some (to_virt s2 (page_to_phys p3)), s3)"
            "space_inv s3 root R3 A3" "grows s2 R2 A2 s3 R3 A3 root" "walk s3 0 root [i, j, k] = Some p3" "card R2 \<le> Suc (card R3)"
        by auto
      then show ?thesis
      proof cases
        case none
        then show ?thesis using s1(1,5) s2(1,5) by (simp add: get o1 o2)
      next
        case some
        note s3 = some
        have g3: "grows s R A s3 R3 A3 root" using g2 s3(3) by (rule grows_trans)
        have "?get = Ok (Some (cell_addr s3 p3 l), s3)"
          using s1(1) s2(1) s3(1) by (simp add: get o1 o2 off [OF g3] cell_addr_def)
        then show ?thesis using s3(2,4) g3 s1(5) s2(5) s3(5) by (intro disjI2 exI conjI) auto
      qed
    qed
  qed
qed

text \<open>Without allocation the walk of the code is the walk of the model.\<close>

lemma next_table_find:
  "next_table s (to_virt s (page_to_phys p)) (of_nat i) False =
     Ok (if present (cell s p i) then Some (to_virt s (page_to_phys (frame_of (cell s p i AND PAGING_PTE_ADDR_MASK)))) else None, s)"
  unfolding masked_is_page [symmetric] by (simp add: next_table_def read_entry_cell present_def)

lemma get_pte_find:
  assumes v: "vm_index v = (i, j, k, l)" and nohuge: "\<And>e. translate s root v \<noteq> Some (e, True)"
  shows "vmm_get_pte s (to_virt s (page_to_phys root)) v False False =
    Ok (map_option (\<lambda>pt. cell_addr s pt l) (walk s 0 root [i, j, k]), s)"
proof (cases "walk s 0 root [i, j]")
  case None
  then show ?thesis
    by (simp add: vmm_get_pte_indices [OF v] next_table_find follow_def Let_def split: if_splits)
next
  case (Some pd)
  have nh: "\<not> is_huge_entry (cell s pd k)" if "present (cell s pd k)"
    using nohuge [of "cell s pd k"] Some that by (auto simp: translate_def v translate_at_def)
  have "walk s 0 root [i, j, k] = follow s 2 pd k"
    using walk_snoc [of s 0 root "[i, j]" k] Some by (simp add: numeral_2_eq_2)
  then show ?thesis using Some nh
    by (auto simp: vmm_get_pte_indices [OF v] next_table_find follow_def Let_def cell_addr_def split: if_splits)
qed

section \<open>Changing a leaf\<close>

lemma translate_at_leaf:
  assumes "walk s 0 root [i, j, k] = Some pt"
  shows "translate_at s root i j k l = (if present (cell s pt l) then Some (cell s pt l, False) else None)"
proof -
  have "walk s 0 root ([i, j] @ [k]) = Some pt" using assms by simp
  then obtain pd where "walk s 0 root [i, j] = Some pd" "follow s 2 pd k = Some pt"
    unfolding walk_snoc by (auto simp: numeral_2_eq_2 split: option.splits)
  then show ?thesis by (auto simp: translate_at_def follow_def Let_def split: if_splits)
qed

lemma set_leaf:
  assumes inv: "space_inv s root R A" and w: "walk s 0 root [i, j, k] = Some pt"
    and lt: "i < 512" "j < 512" "k < 512" "l < 512"
    and s': "s' = write_entry (cell_addr s pt l) e s"
  shows "space_inv s' root R A" "same_translation s s' root {(i, j, k, l)}" "same_regs s s'"
    "translate_at s' root i j k l = (if present e then Some (e, False) else None)"
    "is \<in> paths \<Longrightarrow> walk s' 0 root is = walk s 0 root is" "pg_pmm s' = pg_pmm s"
proof -
  have tree: "pt_tree s root A" and av: "pmm_avail (pg_pmm s) R A" using inv by (simp_all add: space_inv_def)
  have path: "[i, j, k] \<in> paths" using lt by (simp add: path3)
  have pt: "pt < 2 ^ 40" using pt_treeD [OF tree path w] by blast
  have cells: "cell s' p n = (if p = pt \<and> n = l then e else cell s p n)" if "p < 2 ^ 40" "n < 512" for p n
    unfolding s' using that pt lt(4) by (intro cell_write) auto
  have ch: "only_changes s s' root [i, j, k] l"
    unfolding only_changes_def
  proof (intro ballI allI impI)
    fix "is" p n assume a: "is \<in> paths" "walk s 0 root is = Some p" "n < 512" "(is, n) \<noteq> ([i, j, k], l)"
    have "p < 2 ^ 40" "p = pt \<Longrightarrow> is = [i, j, k]"
      using pt_treeD(2) [OF tree a(1,2)] pt_treeD(3) [OF tree path w a(1)] a(2) by auto
    then show "cell s' p n = cell s p n" using cells [of p n] a(3,4) by auto
  qed
  have walks: "walk s' 0 root is = walk s 0 root is" if "is \<in> paths" for "is"
  proof (rule walk_frame [OF ch that])
    show "\<not> prefix ([i, j, k] @ [l]) is" using that prefix_length_le [of "[i, j, k] @ [l]" "is"] by (auto simp: paths_def)
  qed
  then show "is \<in> paths \<Longrightarrow> walk s' 0 root is = walk s 0 root is" .
  show pmm: "pg_pmm s' = pg_pmm s" by (simp add: s' write_entry_def)
  have "pt_tree s' root A" using tree unfolding pt_tree_def by (elim conjE, intro conjI) (simp_all add: walks)
  then show "space_inv s' root R A" using av pmm by (simp add: space_inv_def)
  show "same_regs s s'" by (simp add: s' write_entry_def same_regs_def)
  show "translate_at s' root i j k l = (if present e then Some (e, False) else None)"
    using translate_at_leaf [of s' root i j k pt l] walks [OF path] w cells [OF pt lt(4)] by simp
  show "same_translation s s' root {(i, j, k, l)}"
    unfolding same_translation_def
  proof (intro allI impI)
    fix a b c d assume abc: "a < 512" "b < 512" "c < 512" "d < 512" "(a, b, c, d) \<notin> {(i, j, k, l)}"
    note eq = walks [OF path2 [OF abc(1,2)]]
    show "translate_at s' root a b c d = translate_at s root a b c d"
    proof (cases "walk s 0 root [a, b]")
      case None
      then show ?thesis using eq by (simp add: translate_at_def)
    next
      case (Some pd)
      show ?thesis by (rule translate_frame [OF ch abc(1-4) Some]) (use eq Some abc(5) in auto)
    qed
  qed
qed

section \<open>Mapping a page\<close>

lemma translate_same:
  assumes "same_translation s s' root X" "vm_index v \<notin> X"
  shows "translate s' root v = translate s root v"
proof -
  obtain i j k l where v: "vm_index v = (i, j, k, l)" by (cases "vm_index v") auto
  show ?thesis using assms vm_index_lt [OF v] by (simp add: translate_def v same_translation_def)
qed

text \<open>
  \<open>maps\<close> relates the states around an operation that maps pages: only the translation of the
  addresses in \<open>X\<close> may change, page tables are taken from the free frames and nothing is freed.
\<close>

definition maps :: "paging \<Rightarrow> nat set \<Rightarrow> (nat \<times> nat) set \<Rightarrow> paging \<Rightarrow> nat set \<Rightarrow> (nat \<times> nat) set \<Rightarrow> nat \<Rightarrow>
    (nat \<times> nat \<times> nat \<times> nat) set \<Rightarrow> bool" where
  "maps s R A s' R' A' root X \<longleftrightarrow> same_regs s s' \<and> same_translation s s' root X \<and> R' \<subseteq> R \<and> A \<subseteq> A' \<and>
     (\<forall>(q, k)\<in>A. pmm_refs (pg_pmm s') q = pmm_refs (pg_pmm s) q) \<and>
     (\<forall>q. (q, 0) \<in> A \<longrightarrow> table_at s' root q \<longrightarrow> table_at s root q) \<and>
     (\<forall>v e. translate s' root v = Some (e, True) \<longrightarrow> translate s root v = Some (e, True)) \<and>
     (\<forall>q i. (q, 0) \<in> A \<longrightarrow> q < 2 ^ 40 \<longrightarrow> i < 512 \<longrightarrow> \<not> table_at s root q \<longrightarrow> cell s' q i = cell s q i)"

lemma maps_refl: "maps s R A s R A root X"
  by (simp add: maps_def)

lemma mapsD:
  assumes "maps s R A s' R' A' root X"
  shows "same_regs s s'" "same_translation s s' root X" "R' \<subseteq> R" "A \<subseteq> A'"
    "(q, k) \<in> A \<Longrightarrow> pmm_refs (pg_pmm s') q = pmm_refs (pg_pmm s) q" "hhdm_offset s' = hhdm_offset s"
    "(q, 0) \<in> A \<Longrightarrow> table_at s' root q \<Longrightarrow> table_at s root q"
    "translate s' root v = Some (e, True) \<Longrightarrow> translate s root v = Some (e, True)"
    "(q, 0) \<in> A \<Longrightarrow> q < 2 ^ 40 \<Longrightarrow> i < 512 \<Longrightarrow> \<not> table_at s root q \<Longrightarrow> cell s' q i = cell s q i"
  using assms by (auto simp: maps_def same_regs_def)

lemma same_translation_mono: "same_translation s s' root X \<Longrightarrow> X \<subseteq> Y \<Longrightarrow> same_translation s s' root Y"
  unfolding same_translation_def by blast

lemma maps_trans:
  assumes 1: "maps s R A s1 R1 A1 root X" and 2: "maps s1 R1 A1 s2 R2 A2 root Y"
  shows "maps s R A s2 R2 A2 root (X \<union> Y)"
  unfolding maps_def
proof (intro conjI ballI allI impI)
  show "same_regs s s2" using mapsD(1) [OF 1] mapsD(1) [OF 2] by (rule same_regs_trans)
  show "same_translation s s2 root (X \<union> Y)"
    using mapsD(2) [OF 1, THEN same_translation_mono, of "X \<union> Y"] mapsD(2) [OF 2, THEN same_translation_mono, of "X \<union> Y"]
    by (auto intro: same_translation_trans)
  show "R2 \<subseteq> R" "A \<subseteq> A2" using mapsD(3,4) [OF 1] mapsD(3,4) [OF 2] by auto
  show "table_at s root q" if "(q, 0) \<in> A" "table_at s2 root q" for q
    using that mapsD(4) [OF 1] mapsD(7) [OF 1, of q] mapsD(7) [OF 2, of q] by auto
  show "translate s root v = Some (e, True)" if "translate s2 root v = Some (e, True)" for v e
    using that mapsD(8) [OF 1, of v e] mapsD(8) [OF 2, of v e] by blast
  show "cell s2 q i = cell s q i" if "(q, 0) \<in> A" "q < 2 ^ 40" "i < 512" "\<not> table_at s root q" for q i
    using that mapsD(4) [OF 1] mapsD(7) [OF 1, of q] mapsD(9) [OF 1, of q i] mapsD(9) [OF 2, of q i] by auto
  fix x assume "x \<in> A"
  moreover obtain q k where x: "x = (q, k)" by (cases x)
  ultimately show "case x of (q, k) \<Rightarrow> pmm_refs (pg_pmm s2) q = pmm_refs (pg_pmm s) q"
    using mapsD(4) [OF 1] mapsD(5) [OF 1, of q k] mapsD(5) [OF 2, of q k] by auto
qed

lemma map_page_step:
  assumes inv: "space_inv s root R A" and v: "v \<noteq> 0" and root: "to_virt s (page_to_phys root) \<noteq> 0"
    and nohuge: "\<And>e. translate s root v \<noteq> Some (e, True)"
  shows "(card R < 3 \<and> paging_map_page s (to_virt s (page_to_phys root)) v phys fl False = Halt) \<or>
    (\<exists>s' R' A'. paging_map_page s (to_virt s (page_to_phys root)) v phys fl False = Ok s' \<and>
       space_inv s' root R' A' \<and> maps s R A s' R' A' root {vm_index v} \<and> card R \<le> card R' + 3 \<and>
       translate s' root v = Some (align_phys phys False OR fl OR PTE_FLAG_PRESENT, False))"
proof -
  obtain i j k l where vi: "vm_index v = (i, j, k, l)" by (cases "vm_index v") auto
  let ?e = "align_phys phys False OR fl OR PTE_FLAG_PRESENT"
  have pres: "present ?e" by (simp add: present_bit PTE_FLAG_PRESENT_def bit_simps)
  from get_pte_alloc [OF inv vi nohuge] consider
      (none) s1 where "card R < 3" "vmm_get_pte s (to_virt s (page_to_phys root)) v True False = Ok (None, s1)"
    | (some) pt s1 R1 A1 where "vmm_get_pte s (to_virt s (page_to_phys root)) v True False = Ok (Some (cell_addr s1 pt l), s1)"
       "space_inv s1 root R1 A1" "grows s R A s1 R1 A1 root" "walk s1 0 root [i, j, k] = Some pt" "card R \<le> card R1 + 3"
    by blast
  then show ?thesis
  proof cases
    case none
    then show ?thesis using v root by (simp add: paging_map_page_def)
  next
    case some
    define s' where "s' = write_entry (cell_addr s1 pt l) ?e s1"
    have lt: "i < 512" "j < 512" "k < 512" "l < 512" using vm_index_lt [OF vi] by auto
    note leaf = set_leaf [OF some(2,4) lt s'_def]
    have run: "paging_map_page s (to_virt s (page_to_phys root)) v phys fl False = Ok s'"
      using v root some(1) by (simp add: paging_map_page_def Let_def s'_def)
    have "maps s R A s1 R1 A1 root {}"
      using some(3) translate_same [OF growsD(2) [OF some(3)]] by (auto simp: maps_def grows_def)
    moreover have "translate s1 root w = Some (e, True)" if "translate s' root w = Some (e, True)" for w e
      using that leaf(4) pres translate_same [OF leaf(2), of w] by (cases "vm_index w = (i, j, k, l)") (auto simp: translate_def)
    moreover have "cell s' q n = cell s1 q n" if "q < 2 ^ 40" "n < 512" "\<not> table_at s1 root q" for q n
    proof -
      have tree: "pt_tree s1 root A1" using some(2) by (simp add: space_inv_def)
      have "pt < 2 ^ 40" by (rule pt_treeD(2) [OF tree path3 [OF lt(1-3)] some(4)])
      moreover have "table_at s1 root pt" unfolding table_at_def using path3 [OF lt(1-3)] some(4) by blast
      then have "q \<noteq> pt" using that(3) by blast
      ultimately show ?thesis unfolding s'_def using that lt(4) by (subst cell_write) auto
    qed
    ultimately have "maps s R A s1 R1 A1 root {}" "maps s1 R1 A1 s' R1 A1 root {vm_index v}"
      using leaf by (auto simp: maps_def vi table_at_def)
    then have "maps s R A s' R1 A1 root {vm_index v}" using maps_trans by fastforce
    then show ?thesis using run leaf(1,4) pres some(5) by (auto simp: translate_def vi)
  qed
qed

section \<open>Mapping a region\<close>

lemma unat_page_offset:
  assumes "unat v + 4096 * m < 2 ^ 64" shows "unat (v + of_nat (4096 * m) :: u64) = unat v + 4096 * m"
proof -
  have "unat (of_nat (4096 * m) :: u64) = 4096 * m" using assms by (intro unat_of_nat_u64) simp
  then show ?thesis using assms by (subst unat_plus_if') simp
qed

lemma page_index_apart:
  assumes "unat v + 4096 * m < 2 ^ 64" "0 < m" "m < 2 ^ 36"
  shows "vm_index (v + of_nat (4096 * m)) \<noteq> vm_index v"
proof
  assume "vm_index (v + of_nat (4096 * m)) = vm_index v"
  then have "(unat v div 4096 + m) mod 2 ^ 36 = unat v div 4096 mod 2 ^ 36"
    unfolding vm_index_eq unat_page_offset [OF assms(1)] by (simp add: add.commute)
  then have "2 ^ 36 dvd m" unfolding mod_eq_dvd_iff_nat [OF le_add1] by simp
  then show False using assms(2,3) by (auto dest: dvd_imp_le)
qed

definition page_indices :: "u64 \<Rightarrow> nat \<Rightarrow> (nat \<times> nat \<times> nat \<times> nat) set" where
  "page_indices v n = (\<lambda>m. vm_index (v + of_nat (4096 * m))) ` {..<n}"

lemma page_indices_Suc:
  "page_indices v (Suc n) = insert (vm_index v) (page_indices (v + 4096) n)"
proof -
  have "v + of_nat (4096 * Suc m) = v + 4096 + of_nat (4096 * m)" for m by (simp add: algebra_simps)
  then show ?thesis unfolding page_indices_def lessThan_Suc_eq_insert_0 by (simp add: image_image add.assoc)
qed

lemma map_loop_pages:
  assumes "space_inv s root R A" "3 * n \<le> card R" "unat v + 4096 * n < 2 ^ 64" "v \<noteq> 0" "n \<le> 2 ^ 36"
    and "to_virt s (page_to_phys root) \<noteq> 0"
    and "\<And>m e. m < n \<Longrightarrow> translate s root (v + of_nat (4096 * m)) \<noteq> Some (e, True)"
  shows "\<exists>s' R' A'. map_loop s (to_virt s (page_to_phys root)) v phys (v + of_nat (4096 * n)) fl False = Some (Ok s') \<and>
    space_inv s' root R' A' \<and> maps s R A s' R' A' root (page_indices v n) \<and>
    (\<forall>m<n. translate s' root (v + of_nat (4096 * m)) =
       Some (align_phys (phys + of_nat (4096 * m)) False OR fl OR PTE_FLAG_PRESENT, False))"
  using assms
proof (induction n arbitrary: s R A v phys)
  case 0
  have "map_loop s (to_virt s (page_to_phys root)) v phys (v + of_nat (4096 * 0)) fl False = Some (Ok s)"
    by (subst map_loop.simps) simp
  then show ?case using 0(1) maps_refl [of s R A root] by fastforce
next
  case (Suc n)
  let ?rv = "to_virt s (page_to_phys root)"
  have b1: "unat v + 4096 * 1 < 2 ^ 64" using Suc.prems(3) by simp
  have v1: "unat (v + 4096) = unat v + 4096" using unat_page_offset [OF b1] by simp
  have nh0: "translate s root v \<noteq> Some (e, True)" for e using Suc.prems(7) [of 0 e] by simp
  from map_page_step [OF Suc.prems(1,4,6) nh0, of phys fl] Suc.prems(2) obtain s1 R1 A1 where
    s1: "paging_map_page s ?rv v phys fl False = Ok s1" "space_inv s1 root R1 A1"
      "maps s R A s1 R1 A1 root {vm_index v}" "card R \<le> card R1 + 3"
      "translate s1 root v = Some (align_phys phys False OR fl OR PTE_FLAG_PRESENT, False)"
    by auto
  have off: "v + 4096 + of_nat (4096 * m) = v + of_nat (4096 * Suc m)" for m by (simp add: algebra_simps)
  have poff: "phys + 4096 + of_nat (4096 * m) = phys + of_nat (4096 * Suc m)" for m by (simp add: algebra_simps)
  have apart: "vm_index (v + of_nat (4096 * Suc m)) \<noteq> vm_index v" if "m < n" for m
    using that Suc.prems(3,5) by (intro page_index_apart) simp_all
  have keep: "translate s1 root (v + of_nat (4096 * Suc m)) = translate s root (v + of_nat (4096 * Suc m))"
    if "m < n" for m
    using apart [OF that] by (intro translate_same [OF mapsD(2) [OF s1(3)]]) simp
  have rv: "to_virt s1 (page_to_phys root) = ?rv" by (simp only: mapsD(6) [OF s1(3)])
  have "\<exists>s' R' A'. map_loop s1 (to_virt s1 (page_to_phys root)) (v + 4096) (phys + 4096) (v + 4096 + of_nat (4096 * n)) fl False = Some (Ok s') \<and>
    space_inv s' root R' A' \<and> maps s1 R1 A1 s' R' A' root (page_indices (v + 4096) n) \<and>
    (\<forall>m<n. translate s' root (v + 4096 + of_nat (4096 * m)) =
       Some (align_phys (phys + 4096 + of_nat (4096 * m)) False OR fl OR PTE_FLAG_PRESENT, False))"
  proof (rule Suc.IH [OF s1(2)])
    show "3 * n \<le> card R1" using s1(4) Suc.prems(2) by simp
    show "unat (v + 4096) + 4096 * n < 2 ^ 64" using v1 Suc.prems(3) by simp
    show "v + 4096 \<noteq> 0" using v1 by (auto simp: unat_eq_zero)
    show "n \<le> 2 ^ 36" "to_virt s1 (page_to_phys root) \<noteq> 0" using Suc.prems(5,6) rv by simp_all
    show "translate s1 root (v + 4096 + of_nat (4096 * m)) \<noteq> Some (e, True)" if "m < n" for m e
      unfolding off keep [OF that] using that by (intro Suc.prems(7)) simp
  qed
  then obtain s' R' A' where s': "map_loop s1 ?rv (v + 4096) (phys + 4096) (v + of_nat (4096 * Suc n)) fl False = Some (Ok s')"
    "space_inv s' root R' A'" "maps s1 R1 A1 s' R' A' root (page_indices (v + 4096) n)"
    "\<forall>m<n. translate s' root (v + of_nat (4096 * Suc m)) =
       Some (align_phys (phys + of_nat (4096 * Suc m)) False OR fl OR PTE_FLAG_PRESENT, False)"
    unfolding off poff rv by blast
  have less: "v < v + of_nat (4096 * Suc n)"
    unfolding word_less_nat_alt unat_page_offset [OF Suc.prems(3)] by simp
  have "map_loop s ?rv v phys (v + of_nat (4096 * Suc n)) fl False = Some (Ok s')"
    by (subst map_loop.simps) (simp only: less if_True s1(1) outcome.case page_step_def if_False PAGING_PAGE_SIZE_def s'(1))
  moreover have "maps s R A s' R' A' root (page_indices v (Suc n))"
    using maps_trans [OF s1(3) s'(3)] by (simp add: page_indices_Suc)
  moreover have "translate s' root (v + of_nat (4096 * m)) =
       Some (align_phys (phys + of_nat (4096 * m)) False OR fl OR PTE_FLAG_PRESENT, False)" if "m < Suc n" for m
  proof (cases m)
    case 0
    have "vm_index v \<notin> page_indices (v + 4096) n"
    proof
      assume "vm_index v \<in> page_indices (v + 4096) n"
      then obtain m where "m < n" "vm_index v = vm_index (v + of_nat (4096 * Suc m))"
        unfolding page_indices_def off by blast
      then show False using apart [of m] by argo
    qed
    from translate_same [OF mapsD(2) [OF s'(3)] this] show ?thesis using 0 s1(5) by simp
  next
    case (Suc m')
    then show ?thesis using s'(4) that by blast
  qed
  ultimately show ?case using s'(2) by blast
qed

section \<open>Unmapping a page\<close>

lemma translate_at_leafD:
  assumes "translate_at s root i j k l = Some (e, False)"
  obtains pt where "walk s 0 root [i, j, k] = Some pt" "cell s pt l = e" "present e"
proof -
  obtain pd where pd: "walk s 0 root [i, j] = Some pd" "present (cell s pd k)" "\<not> is_huge_entry (cell s pd k)"
    using assms by (auto simp: translate_at_def Let_def split: option.splits if_splits)
  show thesis
    using that [OF walk_PT [OF pd]] assms pd by (auto simp: translate_at_def Let_def split: if_splits)
qed

lemma pt_tree_drop:
  assumes "pt_tree s root A" "\<not> table_at s root p" shows "pt_tree s root (A - {(p, k)})"
  using assms unfolding pt_tree_def table_at_def by fastforce

lemma unmap_page_mapped:
  assumes inv: "space_inv s root R A" and v: "v \<noteq> 0" and root: "to_virt s (page_to_phys root) \<noteq> 0"
    and tr: "translate s root v = Some (e, False)" and p: "e AND PAGING_PTE_ADDR_MASK = page_to_phys p"
    and pA: "(p, 0) \<in> A" "pmm_refs (pg_pmm s) p = 1" "\<not> table_at s root p"
  shows "\<exists>s'. paging_unmap_page s (to_virt s (page_to_phys root)) v False True = Ok s' \<and>
    space_inv s' root (insert p R) (A - {(p, 0)}) \<and> translate s' root v = None \<and>
    same_translation s s' root {vm_index v} \<and> same_regs s s' \<and>
    (\<forall>(q, k)\<in>A - {(p, 0)}. pmm_refs (pg_pmm s') q = pmm_refs (pg_pmm s) q)"
proof -
  obtain i j k l where vi: "vm_index v = (i, j, k, l)" by (cases "vm_index v") auto
  have lt: "i < 512" "j < 512" "k < 512" "l < 512" using vm_index_lt [OF vi] by auto
  obtain pt where pt: "walk s 0 root [i, j, k] = Some pt" "cell s pt l = e"
    using tr translate_at_leafD [of s root i j k l e] by (auto simp: translate_def vi)
  define s1 where "s1 = write_entry (cell_addr s pt l) 0 s"
  note leaf = set_leaf [OF inv pt(1) lt s1_def]
  have av: "pmm_avail (pg_pmm s) R A" using inv by (simp add: space_inv_def)
  from pmm_frames.drop_last [OF av pA(1,2)] obtain m where
    m: "pmm_page_dec_ref (pg_pmm s) (page_to_phys p) = Ok m" "pmm_avail m (R \<union> block p 0) (A - {(p, 0)})"
      "\<forall>q j. (q, j) \<in> A - {(p, 0)} \<longrightarrow> pmm_refs m q = pmm_refs (pg_pmm s) q"
    by blast
  have "vmm_get_pte s (to_virt s (page_to_phys root)) v False False = Ok (Some (cell_addr s pt l), s)"
    using get_pte_find [OF vi, of s root] tr pt(1) by simp
  then have run: "paging_unmap_page s (to_virt s (page_to_phys root)) v False True = Ok (s1\<lparr>pg_pmm := m\<rparr>)"
    using v root p pt(2) m(1) leaf(6) by (simp add: paging_unmap_page_def cell_def [symmetric] s1_def [symmetric])
  have "pt_tree s1 root A" "\<not> table_at s1 root p"
    using leaf(1,5) pA(3) by (auto simp: space_inv_def table_at_def)
  then have "pt_tree s1 root (A - {(p, 0)})" by (rule pt_tree_drop)
  moreover have "R \<union> block p 0 = insert p R" by (auto simp: block_single)
  ultimately have "space_inv (s1\<lparr>pg_pmm := m\<rparr>) root (insert p R) (A - {(p, 0)})"
    using m(2) by (simp add: space_inv_def)
  moreover have "translate (s1\<lparr>pg_pmm := m\<rparr>) root v = None" using leaf(4) by (simp add: translate_def vi)
  moreover have "same_translation s (s1\<lparr>pg_pmm := m\<rparr>) root {vm_index v}" using leaf(2) by (simp add: vi)
  moreover have "same_regs s (s1\<lparr>pg_pmm := m\<rparr>)" using leaf(3) by (simp add: same_regs_def)
  ultimately show ?thesis using run m(3) by fastforce
qed

section \<open>A small address space\<close>

text \<open>An empty page table in frame 1 of the memory of \<open>pmm_demo\<close>.\<close>

definition paging_demo :: paging where
  "paging_demo = \<lparr>pg_pmm = pmm_demo, ram = (\<lambda>_. 0), hhdm_offset = 0xFFFF800000000000,
     kernel_pml4_phys = 0x1000, cr3 = 0x1000, cr4 = 0, msr_pat = 0\<rparr>"

lemma demo_cell: "cell paging_demo p i = 0"
  by (simp add: cell_def load64_def paging_demo_def)

lemma demo_walk: "walk paging_demo l p is = (if is = [] then Some p else None)"
  by (cases "is") (simp_all add: follow_def demo_cell)

lemma demo_avail: "pmm_avail pmm_demo {2..<8} {(1, 0)}"
proof -
  have "frames (fblocks demo_free) = {2..<8}" by (auto simp: demo_fblocks frames_def block_def)
  then show ?thesis using demo_valid unfolding pmm_avail_def by (auto simp: pmm_demo_def)
qed

lemma demo_space: "space_inv paging_demo 1 {2..<8} {(1, 0)}"
  unfolding space_inv_def pt_tree_def demo_walk
  using demo_avail by (auto simp: paging_demo_def split: if_splits)

lemma demo_translate: "translate paging_demo p v = None"
  unfolding translate_def translate_at_def demo_walk by (simp split: prod.splits)

lemma demo_root: "to_virt paging_demo (page_to_phys 1) = 0xFFFF800000001000"
  by (simp add: paging_demo_def hhdm_physToVirt_def page_to_phys_def PMM_PAGE_SIZE_def)

section \<open>The contract\<close>

text \<open>
  C6: mapping a page of a well-formed address space with three free frames at hand succeeds:
  the address then translates to the aligned frame with the flags, the translation of every
  other page is as before, the tables stay a tree of allocated frames and only free frames
  were taken.
\<close>

theorem paging_map_page_maps:
  assumes "space_inv s root R A" and "3 \<le> card R" and "v \<noteq> 0" and "to_virt s (page_to_phys root) \<noteq> 0"
    and "\<forall>e. translate s root v \<noteq> Some (e, True)"
  shows "\<exists>s' R' A'. paging_map_page s (to_virt s (page_to_phys root)) v phys fl False = Ok s' \<and>
    space_inv s' root R' A' \<and> R' \<subseteq> R \<and> A \<subseteq> A' \<and>
    translate s' root v = Some (align_phys phys False OR fl OR PTE_FLAG_PRESENT, False) \<and>
    (\<forall>w. unat w div 4096 mod 2 ^ 36 \<noteq> unat v div 4096 mod 2 ^ 36 \<longrightarrow> translate s' root w = translate s root w)"
proof -
  from map_page_step [OF assms(1,3,4), of phys fl] assms(2,5) obtain s' R' A' where
    s': "paging_map_page s (to_virt s (page_to_phys root)) v phys fl False = Ok s'" "space_inv s' root R' A'"
      "maps s R A s' R' A' root {vm_index v}"
      "translate s' root v = Some (align_phys phys False OR fl OR PTE_FLAG_PRESENT, False)"
    by auto
  have "translate s' root w = translate s root w" if "unat w div 4096 mod 2 ^ 36 \<noteq> unat v div 4096 mod 2 ^ 36" for w
    using that by (intro translate_same [OF mapsD(2) [OF s'(3)]]) (simp only: vm_index_eq singleton_iff not_False_eq_True)
  then show ?thesis using s' mapsD(3,4) [OF s'(3)] by blast
qed

theorem paging_map_page_maps_witness:
  "\<exists>s' R' A'. paging_map_page paging_demo 0xFFFF800000001000 0x400123 0x5000 PTE_FLAG_RW False = Ok s' \<and>
    space_inv s' 1 R' A' \<and> translate s' 1 0x400123 = Some (0x5003, False) \<and> translate s' 1 0x401000 = None"
proof -
  have "align_phys 0x5000 False OR PTE_FLAG_RW OR PTE_FLAG_PRESENT = 0x5003"
    by (simp add: align_phys_def PAGING_PAGE_SIZE_def PTE_FLAG_RW_def PTE_FLAG_PRESENT_def)
  moreover have "unat (0x401000 :: u64) div 4096 mod 2 ^ 36 \<noteq> unat (0x400123 :: u64) div 4096 mod 2 ^ 36" by simp
  moreover have "3 \<le> card {2..<8 :: nat}" "(0x400123 :: u64) \<noteq> 0" "to_virt paging_demo (page_to_phys 1) \<noteq> 0"
    "\<forall>e. translate paging_demo 1 0x400123 \<noteq> Some (e, True)"
    unfolding demo_root demo_translate by simp_all
  note paging_map_page_maps [OF demo_space this, of "0x5000" PTE_FLAG_RW, unfolded demo_root demo_translate]
  ultimately show ?thesis by metis
qed

text \<open>
  C31: a page mapped to an allocated frame with one reference and then unmapped gives back the
  translation of every address as it was, and the frame is free again.
\<close>

theorem paging_map_unmap_roundtrip:
  assumes "space_inv s root R A" and "3 \<le> card R" and "v \<noteq> 0" and "to_virt s (page_to_phys root) \<noteq> 0"
    and "translate s root v = None"
    and "(p, 0) \<in> A" and "pmm_refs (pg_pmm s) p = 1" and "\<not> table_at s root p"
    and "fl AND PAGING_PTE_ADDR_MASK = 0"
  shows "\<exists>s1 s2 R' A'. paging_map_page s (to_virt s (page_to_phys root)) v (page_to_phys p) fl False = Ok s1 \<and>
    paging_unmap_page s1 (to_virt s (page_to_phys root)) v False True = Ok s2 \<and>
    space_inv s2 root (insert p R') (A' - {(p, 0)}) \<and> R' \<subseteq> R \<and> A \<subseteq> A' \<and>
    (\<forall>w. translate s2 root w = translate s root w)"
proof -
  let ?rv = "to_virt s (page_to_phys root)"
  from map_page_step [OF assms(1,3,4), of "page_to_phys p" fl] assms(2,5) obtain s1 R' A' where
    s1: "paging_map_page s ?rv v (page_to_phys p) fl False = Ok s1" "space_inv s1 root R' A'"
      "maps s R A s1 R' A' root {vm_index v}"
      "translate s1 root v = Some (align_phys (page_to_phys p) False OR fl OR PTE_FLAG_PRESENT, False)"
    by auto
  have p: "p < 2 ^ 40" using pmm_frames.alloc_bound [of "pg_pmm s" R A p 0] assms(1,6) by (simp add: space_inv_def)
  have "unat (page_to_phys p) = p * 4096" using p by (simp add: unat_page_to_phys)
  then have "unat (page_to_phys p mod 4096) = 0" by (simp add: unat_mod)
  then have al: "align_phys (page_to_phys p) False = page_to_phys p"
    by (simp add: align_phys_def PAGING_PAGE_SIZE_def unat_eq_zero)
  have "PTE_FLAG_PRESENT AND PAGING_PTE_ADDR_MASK = 0" by (simp add: PTE_FLAG_PRESENT_def PAGING_PTE_ADDR_MASK_def)
  then have mask: "(align_phys (page_to_phys p) False OR fl OR PTE_FLAG_PRESENT) AND PAGING_PTE_ADDR_MASK = page_to_phys p"
    using assms(9) page_to_phys_masked [OF p] by (simp add: al bit.conj_disj_distrib2)
  have rv: "to_virt s1 (page_to_phys root) = ?rv" by (simp only: mapsD(6) [OF s1(3)])
  have "(p, 0) \<in> A'" "pmm_refs (pg_pmm s1) p = 1" "\<not> table_at s1 root p"
    using mapsD(4) [OF s1(3)] mapsD(5,7) [OF s1(3) assms(6)] assms(6,7,8) by auto
  from unmap_page_mapped [OF s1(2) assms(3) _ s1(4) mask this] assms(4) obtain s2 where
    s2: "paging_unmap_page s1 ?rv v False True = Ok s2" "space_inv s2 root (insert p R') (A' - {(p, 0)})"
      "translate s2 root v = None" "same_translation s1 s2 root {vm_index v}"
    unfolding rv by blast
  have "translate s2 root w = translate s root w" for w
  proof (cases "vm_index w = vm_index v")
    case True
    then show ?thesis using s2(3) assms(5) by (simp add: translate_def)
  next
    case False
    then show ?thesis using translate_same [OF s2(4), of w] translate_same [OF mapsD(2) [OF s1(3)], of w] by simp
  qed
  then show ?thesis using s1(1) s2(1,2) mapsD(3,4) [OF s1(3)] by blast
qed

text \<open>A frame of the small memory is taken for the page, so that the page can be mapped and unmapped.\<close>

lemma demo_with_frame:
  "\<exists>s p R. space_inv s 1 R {(p, 0), (1, 0)} \<and> card R = 5 \<and> pmm_refs (pg_pmm s) p = 1 \<and> \<not> table_at s 1 p \<and>
    to_virt s (page_to_phys 1) = 0xFFFF800000001000 \<and> (\<forall>v. translate s 1 v = None) \<and> p \<in> {2..<8}"
proof -
  from pmm_take_some [OF demo_avail] obtain p m where
    p: "p \<in> {2..<8}" "pmm_avail m ({2..<8} - {p}) {(p, 0), (1, 0)}" "pmm_refs m p = 1" by auto
  let ?s = "paging_demo\<lparr>pg_pmm := m\<rparr>"
  have "space_inv ?s 1 ({2..<8} - {p}) {(p, 0), (1, 0)}"
    using p(2) demo_space by (auto simp: space_inv_def pt_tree_def)
  moreover have "card ({2..<8} - {p}) = 5" using p(1) by simp
  moreover have "\<not> table_at ?s 1 p" using p(1) unfolding table_at_def walk_pmm demo_walk by auto
  moreover have "to_virt ?s (page_to_phys 1) = 0xFFFF800000001000" using demo_root by simp
  moreover have "\<forall>v. translate ?s 1 v = None" using demo_translate by (simp add: translate_def)
  ultimately show ?thesis using p(1,3) by (metis (no_types, lifting) paging.select_convs(1) paging.surjective paging.update_convs(1))
qed

theorem paging_map_unmap_roundtrip_witness:
  "\<exists>s p s1 s2 R' A'. paging_map_page s 0xFFFF800000001000 0x400000 (page_to_phys p) PTE_FLAG_RW False = Ok s1 \<and>
    paging_unmap_page s1 0xFFFF800000001000 0x400000 False True = Ok s2 \<and>
    space_inv s2 1 (insert p R') (A' - {(p, 0)}) \<and> translate s2 1 0x400000 = None"
proof -
  from demo_with_frame obtain s p R where s: "space_inv s 1 R {(p, 0), (1, 0)}" "card R = 5" "pmm_refs (pg_pmm s) p = 1"
    "\<not> table_at s 1 p" "to_virt s (page_to_phys 1) = 0xFFFF800000001000" "\<forall>v. translate s 1 v = None"
    by blast
  have "3 \<le> card R" "(0x400000 :: u64) \<noteq> 0" "to_virt s (page_to_phys 1) \<noteq> 0" "translate s 1 0x400000 = None"
    "(p, 0) \<in> {(p, 0), (1, 0)}"
    using s by simp_all
  from paging_map_unmap_roundtrip [OF s(1) this s(3,4), of PTE_FLAG_RW] show ?thesis
    unfolding s(5) using s(6) by (simp add: PTE_FLAG_RW_def PAGING_PTE_ADDR_MASK_def) metis
qed

lemma map_region_step:
  assumes "space_inv s root R A" and "3 * n \<le> card R" and "v \<noteq> 0" and "to_virt s (page_to_phys root) \<noteq> 0"
    and "unat v + 4096 * n < 2 ^ 64" and "n \<le> 2 ^ 36"
    and "\<forall>m<n. \<forall>e. translate s root (v + of_nat (4096 * m)) \<noteq> Some (e, True)"
  shows "\<exists>s' R' A'. paging_map_region s (to_virt s (page_to_phys root)) v phys (of_nat (4096 * n)) fl False = Ok s' \<and>
    space_inv s' root R' A' \<and> maps s R A s' R' A' root (page_indices v n) \<and>
    (\<forall>m<n. translate s' root (v + of_nat (4096 * m)) =
       Some (align_phys (phys + of_nat (4096 * m)) False OR fl OR PTE_FLAG_PRESENT, False)) \<and>
    (\<forall>w. (\<forall>m<n. unat w div 4096 mod 2 ^ 36 \<noteq> (unat v div 4096 + m) mod 2 ^ 36) \<longrightarrow> translate s' root w = translate s root w)"
proof -
  have "\<And>m e. m < n \<Longrightarrow> translate s root (v + of_nat (4096 * m)) \<noteq> Some (e, True)" using assms(7) by blast
  from map_loop_pages [OF assms(1,2,5,3,6,4) this] obtain s' R' A' where
    s': "map_loop s (to_virt s (page_to_phys root)) v phys (v + of_nat (4096 * n)) fl False = Some (Ok s')"
      "space_inv s' root R' A'" "maps s R A s' R' A' root (page_indices v n)"
      "\<forall>m<n. translate s' root (v + of_nat (4096 * m)) =
       Some (align_phys (phys + of_nat (4096 * m)) False OR fl OR PTE_FLAG_PRESENT, False)"
    by blast
  have "translate s' root w = translate s root w"
    if w: "\<forall>m<n. unat w div 4096 mod 2 ^ 36 \<noteq> (unat v div 4096 + m) mod 2 ^ 36" for w
  proof (rule translate_same [OF mapsD(2) [OF s'(3)]])
    show "vm_index w \<notin> page_indices v n"
    proof
      assume "vm_index w \<in> page_indices v n"
      then obtain m where m: "m < n" "vm_index w = vm_index (v + of_nat (4096 * m))" unfolding page_indices_def by blast
      have "unat (v + of_nat (4096 * m)) div 4096 = unat v div 4096 + m"
        using unat_page_offset [of v m] assms(5) m(1) by simp
      then show False using m w unfolding vm_index_eq by metis
    qed
  qed
  then show ?thesis using s' unfolding paging_map_region_def by (simp add: loop_outcome_def) blast
qed

lemma vm_index_in_region:
  assumes "unat v mod 4096 = 0" and "unat v + 4096 * n < 2 ^ 64" and "b < 4096 * n"
  shows "vm_index (v + of_nat b) = vm_index (v + of_nat (4096 * (b div 4096)))"
proof -
  have le: "4096 * (b div 4096) \<le> b" by simp
  have "unat (v + of_nat b) = unat v + b" using assms(2,3) by (simp add: unat_word_ariths unat_of_nat)
  moreover have "unat (v + of_nat (4096 * (b div 4096))) = unat v + 4096 * (b div 4096)"
    using assms(2,3) le by (intro unat_page_offset) linarith
  moreover have "(unat v + b) div 4096 = (unat v + 4096 * (b div 4096)) div 4096" using div_plus_div_distrib_dvd_left [OF mod_0_imp_dvd [OF assms(1)], of b] by simp
  ultimately show ?thesis unfolding vm_index_eq by simp
qed

lemma align_phys_offset:
  assumes "unat phys mod 4096 = 0"
  shows "align_phys (phys + of_nat (4096 * m)) False = phys + of_nat (4096 * m)"
proof -
  have "unat (phys + of_nat (4096 * m)) mod 4096 = (unat phys + 4096 * m) mod 2 ^ 64 mod 4096"
    by (simp add: unat_word_ariths unat_of_nat mod_simps)
  also have "\<dots> = (unat phys + 4096 * m) mod 4096" by (rule mod_mod_cancel) simp
  finally have "unat (phys + of_nat (4096 * m)) mod 4096 = 0" using assms by simp
  then have "(phys + of_nat (4096 * m)) mod 4096 = 0" by (simp add: unat_mod flip: unat_eq_zero)
  then show ?thesis by (simp add: align_phys_def PAGING_PAGE_SIZE_def)
qed

text \<open>
  C32: mapping a region of \<open>n\<close> pages, both ends of the mapping on page boundaries, terminates.
  Then every byte of the region translates to its frame, the \<open>m\<close>-th page to the \<open>m\<close>-th frame, and
  the translation of every page outside of the region is left alone.
\<close>

theorem paging_map_region_maps:
  assumes "space_inv s root R A" and "3 * n \<le> card R" and "v \<noteq> 0" and "to_virt s (page_to_phys root) \<noteq> 0"
    and "unat v + 4096 * n < 2 ^ 64" and "n \<le> 2 ^ 36"
    and "\<forall>m<n. \<forall>e. translate s root (v + of_nat (4096 * m)) \<noteq> Some (e, True)"
    and "unat v mod 4096 = 0" and "unat phys mod 4096 = 0"
  shows "\<exists>s' R' A'. paging_map_region s (to_virt s (page_to_phys root)) v phys (of_nat (4096 * n)) fl False = Ok s' \<and>
    space_inv s' root R' A' \<and>
    (\<forall>b<4096 * n. translate s' root (v + of_nat b) =
       Some ((phys + of_nat (4096 * (b div 4096))) OR fl OR PTE_FLAG_PRESENT, False)) \<and>
    (\<forall>w. (\<forall>m<n. unat w div 4096 mod 2 ^ 36 \<noteq> (unat v div 4096 + m) mod 2 ^ 36) \<longrightarrow> translate s' root w = translate s root w)"
proof -
  from map_region_step [OF assms(1-7), of phys fl] obtain s' R' A' where
    run: "paging_map_region s (to_virt s (page_to_phys root)) v phys (of_nat (4096 * n)) fl False = Ok s'" "space_inv s' root R' A'"
    and tr: "\<And>m. m < n \<Longrightarrow> translate s' root (v + of_nat (4096 * m)) =
       Some (align_phys (phys + of_nat (4096 * m)) False OR fl OR PTE_FLAG_PRESENT, False)"
    and out: "\<forall>w. (\<forall>m<n. unat w div 4096 mod 2 ^ 36 \<noteq> (unat v div 4096 + m) mod 2 ^ 36) \<longrightarrow> translate s' root w = translate s root w"
    by blast
  have "translate s' root (v + of_nat b) = Some ((phys + of_nat (4096 * (b div 4096))) OR fl OR PTE_FLAG_PRESENT, False)"
    if b: "b < 4096 * n" for b
  proof -
    have "b div 4096 < n" using b by (simp add: less_mult_imp_div_less mult.commute)
    from tr [OF this] show ?thesis
      unfolding translate_def vm_index_in_region [OF assms(8,5) b] align_phys_offset [OF assms(9)] .
  qed
  then show ?thesis using run out by blast
qed

theorem paging_map_region_maps_witness:
  "\<exists>s'. paging_map_region paging_demo 0xFFFF800000001000 0x400000 0x5000 0x2000 PTE_FLAG_RW False = Ok s' \<and>
    translate s' 1 0x400000 = Some (0x5003, False) \<and> translate s' 1 0x401FFF = Some (0x6003, False)"
proof -
  have c: "3 * 2 \<le> card {2..<8 :: nat}" "(0x400000 :: u64) \<noteq> 0" "to_virt paging_demo (page_to_phys 1) \<noteq> 0"
    "unat (0x400000 :: u64) + 4096 * 2 < 2 ^ 64" "(2 :: nat) \<le> 2 ^ 36"
    "\<forall>m<2. \<forall>e. translate paging_demo 1 (0x400000 + of_nat (4096 * m)) \<noteq> Some (e, True)"
    "unat (0x400000 :: u64) mod 4096 = 0" "unat (0x5000 :: u64) mod 4096 = 0"
    unfolding demo_root demo_translate by simp_all
  from paging_map_region_maps [OF demo_space c, of PTE_FLAG_RW] obtain s' where
    s': "paging_map_region paging_demo 0xFFFF800000001000 0x400000 0x5000 (of_nat (4096 * 2)) PTE_FLAG_RW False = Ok s'"
      "\<forall>b<4096 * 2. translate s' 1 (0x400000 + of_nat b) =
         Some ((0x5000 + of_nat (4096 * (b div 4096))) OR PTE_FLAG_RW OR PTE_FLAG_PRESENT, False)"
    unfolding demo_root by blast
  have "translate s' 1 0x400000 = Some (0x5003, False)" "translate s' 1 0x401FFF = Some (0x6003, False)"
    using s'(2) [rule_format, of 0] s'(2) [rule_format, of "0x1FFF"] by (simp_all add: PTE_FLAG_RW_def PTE_FLAG_PRESENT_def)
  then show ?thesis using s'(1) by auto
qed

text \<open>
  A region that does not start on a page boundary is not mapped completely: the loop
  advances from the unaligned address, so the page of the last byte keeps its old translation.
\<close>

theorem paging_map_region_unaligned_end:
  assumes "space_inv s root R A" and "3 * n \<le> card R" and "v \<noteq> 0" and "to_virt s (page_to_phys root) \<noteq> 0"
    and "unat v + 4096 * n < 2 ^ 64" and "0 < n" and "n < 2 ^ 36"
    and "\<forall>m<n. \<forall>e. translate s root (v + of_nat (4096 * m)) \<noteq> Some (e, True)"
    and "unat v mod 4096 \<noteq> 0"
  shows "\<exists>s'. paging_map_region s (to_virt s (page_to_phys root)) v phys (of_nat (4096 * n)) fl False = Ok s' \<and>
    translate s' root (v + of_nat (4096 * n) - 1) = translate s root (v + of_nat (4096 * n) - 1)"
proof -
  let ?w = "v + of_nat (4096 * n) - 1"
  have end_addr: "unat (v + of_nat (4096 * n)) = unat v + 4096 * n" using assms(5) by (rule unat_page_offset)
  have "1 \<le> v + of_nat (4096 * n)" unfolding word_le_nat_alt end_addr using assms(6) by simp
  then have "unat ?w = unat v + 4096 * n - 1" using end_addr by (simp only: unat_sub unat_1)
  also have "\<dots> = (unat v div 4096 + n) * 4096 + (unat v mod 4096 - 1)"
    using assms(9) div_mult_mod_eq [of "unat v" 4096] by (simp only: add_mult_distrib)
  also have "\<dots> div 4096 = unat v div 4096 + n" using mod_less_divisor [of 4096 "unat v"] by (simp del: mod_less_divisor)
  finally have w: "unat ?w div 4096 = unat v div 4096 + n" .
  have apart: "(unat v div 4096 + n) mod 2 ^ 36 \<noteq> (unat v div 4096 + m) mod 2 ^ 36" if "m < n" for m
  proof
    have le: "unat v div 4096 + m \<le> unat v div 4096 + n" using that by simp
    assume "(unat v div 4096 + n) mod 2 ^ 36 = (unat v div 4096 + m) mod 2 ^ 36"
    then have "2 ^ 36 dvd n - m" unfolding mod_eq_dvd_iff_nat [OF le] by simp
    then have "2 ^ 36 \<le> n - m" using that by (intro dvd_imp_le) simp_all
    then show False using assms(7) by simp
  qed
  have "n \<le> 2 ^ 36" using assms(7) by simp
  from map_region_step [OF assms(1-5) this assms(8), of phys fl] show ?thesis using apart w by metis
qed

theorem paging_map_region_unaligned_end_witness:
  "\<exists>s'. paging_map_region paging_demo 0xFFFF800000001000 0x400800 0x5000 0x1000 PTE_FLAG_RW False = Ok s' \<and>
    translate s' 1 0x4017FF = None"
proof -
  have c: "3 * 1 \<le> card {2..<8 :: nat}" "(0x400800 :: u64) \<noteq> 0" "to_virt paging_demo (page_to_phys 1) \<noteq> 0"
    "unat (0x400800 :: u64) + 4096 * 1 < 2 ^ 64" "0 < (1 :: nat)" "(1 :: nat) < 2 ^ 36"
    "\<forall>m<1. \<forall>e. translate paging_demo 1 (0x400800 + of_nat (4096 * m)) \<noteq> Some (e, True)"
    "unat (0x400800 :: u64) mod 4096 \<noteq> 0"
    unfolding demo_root demo_translate by simp_all
  show ?thesis
    using paging_map_region_unaligned_end [OF demo_space c, of "0x5000" PTE_FLAG_RW] unfolding demo_root demo_translate by simp
qed

text \<open>
  Mapping stops the kernel when a page table is needed and no frame is free.
\<close>

theorem paging_map_page_out_of_memory:
  assumes "space_inv s root {} A" and "\<not> present (cell s root (unat (PAGING_GET_PML4INDEX v)))"
  shows "paging_map_page s (to_virt s (page_to_phys root)) v phys fl huge = Halt"
proof -
  have av: "pmm_avail (pg_pmm s) {} A" using assms(1) by (simp add: space_inv_def)
  let ?i = "PAGING_GET_PML4INDEX (v - v mod 4096)"
  obtain m where "pmm_alloc (pg_pmm s) 4096 = Ok (0, m)" using pmm_frames.take_none [OF av] by blast
  moreover have "read_entry s (to_virt s (page_to_phys root)) ?i AND PTE_FLAG_PRESENT = 0"
    using assms(2) read_entry_cell [of s root "unat ?i"] by (simp add: present_def indices_align)
  ultimately have "next_table s (to_virt s (page_to_phys root)) ?i True = Ok (None, s\<lparr>pg_pmm := m\<rparr>)"
    by (simp add: next_table_def PAGING_PAGE_SIZE_def)
  then show ?thesis
    unfolding paging_map_page_def vmm_get_pte_def vmm_get_pte_align Let_def by simp
qed

lemma frames_exhausted:
  assumes "pmm_avail s R A" "finite R" shows "\<exists>s' A'. pmm_avail s' {} A' \<and> A \<subseteq> A'"
  using assms
proof (induction "card R" arbitrary: s R A)
  case 0
  then show ?case by auto
next
  case (Suc n)
  then have "R \<noteq> {}" by auto
  from pmm_take_some [OF Suc.prems(1) this] obtain p s' where "p \<in> R" "pmm_avail s' (R - {p}) (insert (p, 0) A)" by blast
  moreover have "n = card (R - {p})" using Suc.hyps(2) Suc.prems(2) \<open>p \<in> R\<close> by simp
  ultimately show ?case using Suc.hyps(1) [of "R - {p}" s' "insert (p, 0) A"] Suc.prems(2) by blast
qed

theorem paging_map_page_out_of_memory_witness:
  "\<exists>s A. space_inv s 1 {} A \<and> paging_map_page s 0xFFFF800000001000 0x400000 0x5000 PTE_FLAG_RW False = Halt"
proof -
  from frames_exhausted [OF demo_avail] obtain m A where m: "pmm_avail m {} A" "{(1, 0)} \<subseteq> A" by auto
  let ?s = "paging_demo\<lparr>pg_pmm := m\<rparr>"
  have inv: "space_inv ?s 1 {} A"
    unfolding space_inv_def pt_tree_def walk_pmm demo_walk using m by (auto split: if_splits)
  have "\<not> present (cell ?s 1 (unat (PAGING_GET_PML4INDEX 0x400000)))" unfolding cell_pmm demo_cell by simp
  from paging_map_page_out_of_memory [OF inv this] demo_root show ?thesis using inv by auto
qed

end
