(* ===== verification/Threads.thy ===== *)
theory Threads
  imports Spinlock
begin

text \<open>
  Threads and tasks (\<open>kernel/include/scheduling/task.h\<close>), the global variables of the
  scheduler, and the sleeping lock of \<open>kernel/src/scheduling/lock.c\<close>. Structures live in
  partial maps from their addresses; address 0 is \<open>NULL\<close> and points to nothing.
\<close>

section \<open>Structures\<close>

datatype thread_state = THREAD_READY | THREAD_RUNNING | THREAD_BLOCKED | THREAD_ZOMBIE | THREAD_SLEEPING

record thread =
  th_tid :: u64
  th_context :: u64
  th_state :: thread_state
  th_ticks_remaining :: u64
  th_wake_time :: u64
  th_next :: u64
  th_next_waiter :: u64

record task =
  tk_pid :: u64
  tk_name :: "u8 list"
  tk_vas :: u64
  tk_threads :: u64
  tk_next :: u64

record procs =
  thread_heap :: "u64 \<rightharpoonup> thread"
  task_heap :: "u64 \<rightharpoonup> task"
  task_current :: u64
  thread_current :: u64
  task_list :: u64
  scheduler_lock :: spinlock_irq
  next_pid :: u64
  next_tid :: u64

record mutex =
  is_locked :: bool
  internal_lock :: spinlock_irq
  waiting_queue_head :: u64
  waiting_queue_tail :: u64

definition MUTEX_INIT :: mutex where
  "MUTEX_INIT = \<lparr>is_locked = False, internal_lock = SPINLOCK_IRQ_INIT, waiting_queue_head = 0, waiting_queue_tail = 0\<rparr>"

text \<open>Reading and writing a thread or a task through a pointer.\<close>

definition thread_at :: "procs \<Rightarrow> u64 \<Rightarrow> thread outcome" where
  "thread_at s p = (if p = 0 then Fault else case thread_heap s p of None \<Rightarrow> Fault | Some t \<Rightarrow> Ok t)"

definition task_at :: "procs \<Rightarrow> u64 \<Rightarrow> task outcome" where
  "task_at s p = (if p = 0 then Fault else case task_heap s p of None \<Rightarrow> Fault | Some t \<Rightarrow> Ok t)"

definition set_thread :: "u64 \<Rightarrow> (thread \<Rightarrow> thread) \<Rightarrow> procs \<Rightarrow> procs outcome" where
  "set_thread p f s = obind (thread_at s p) (\<lambda>t. Ok (s\<lparr>thread_heap := (thread_heap s)(p \<mapsto> f t)\<rparr>))"

definition set_task :: "u64 \<Rightarrow> (task \<Rightarrow> task) \<Rightarrow> procs \<Rightarrow> procs outcome" where
  "set_task p f s = obind (task_at s p) (\<lambda>t. Ok (s\<lparr>task_heap := (task_heap s)(p \<mapsto> f t)\<rparr>))"

section \<open>The sleeping lock\<close>

text \<open>
  \<open>mutex_acquire\<close> returns \<open>True\<close> when it took the mutex. With \<open>False\<close> the calling thread
  has been appended to the queue and blocked, and \<open>scheduler_yield\<close> follows: the thread
  continues behind that call once \<open>mutex_release\<close> has made it ready, then as the owner.
\<close>

definition mutex_acquire :: "mutex \<Rightarrow> u64 \<Rightarrow> procs \<Rightarrow> (bool \<times> mutex \<times> u64 \<times> procs) outcome" where
  "mutex_acquire m rflags s =
     obind (lock_acquire (internal_lock m) rflags) (\<lambda>(l, irq_flags, rflags).
     let m = m\<lparr>internal_lock := l\<rparr> in
     if \<not> is_locked m then
       let m = m\<lparr>is_locked := True\<rparr>;
           (l, rflags) = lock_release (internal_lock m) irq_flags
       in Ok (True, m\<lparr>internal_lock := l\<rparr>, rflags, s)
     else
       obind (set_thread (thread_current s) (th_next_waiter_update (\<lambda>_. 0)) s) (\<lambda>s.
       obind (if waiting_queue_tail m = 0
              then Ok (m\<lparr>waiting_queue_head := thread_current s, waiting_queue_tail := thread_current s\<rparr>, s)
              else obind (set_thread (waiting_queue_tail m) (th_next_waiter_update (\<lambda>_. thread_current s)) s) (\<lambda>s.
                   Ok (m\<lparr>waiting_queue_tail := thread_current s\<rparr>, s))) (\<lambda>(m, s).
       obind (set_thread (thread_current s) (th_state_update (\<lambda>_. THREAD_BLOCKED)) s) (\<lambda>s.
       let (l, rflags) = lock_release (internal_lock m) irq_flags
       in Ok (False, m\<lparr>internal_lock := l\<rparr>, rflags, s)))))"

definition mutex_release :: "mutex \<Rightarrow> u64 \<Rightarrow> procs \<Rightarrow> (mutex \<times> u64 \<times> procs) outcome" where
  "mutex_release m rflags s =
     obind (lock_acquire (internal_lock m) rflags) (\<lambda>(l, irq_flags, rflags).
     let m = m\<lparr>internal_lock := l\<rparr> in
     obind (if waiting_queue_head m = 0 then Ok (m\<lparr>is_locked := False\<rparr>, s)
            else
              let woken_thread = waiting_queue_head m in
              obind (thread_at s (waiting_queue_head m)) (\<lambda>t.
              let m = m\<lparr>waiting_queue_head := th_next_waiter t\<rparr>;
                  m = (if waiting_queue_head m = 0 then m\<lparr>waiting_queue_tail := 0\<rparr> else m)
              in obind (set_thread woken_thread (th_state_update (\<lambda>_. THREAD_READY)) s) (\<lambda>s. Ok (m, s)))) (\<lambda>(m, s).
     let (l, rflags) = lock_release (internal_lock m) irq_flags
     in Ok (m\<lparr>internal_lock := l\<rparr>, rflags, s)))"

section \<open>The queue of waiting threads\<close>

text \<open>\<open>waiters h p ts\<close>: the chain of \<open>next_waiter\<close> pointers from \<open>p\<close> runs through \<open>ts\<close> and ends at \<open>NULL\<close>.\<close>

fun waiters :: "(u64 \<rightharpoonup> thread) \<Rightarrow> u64 \<Rightarrow> u64 list \<Rightarrow> bool" where
  "waiters h p [] \<longleftrightarrow> p = 0"
| "waiters h p (t # ts) \<longleftrightarrow> p = t \<and> t \<noteq> 0 \<and> (\<exists>th. h t = Some th \<and> waiters h (th_next_waiter th) ts)"

definition mutex_queue :: "mutex \<Rightarrow> procs \<Rightarrow> u64 list \<Rightarrow> bool" where
  "mutex_queue m s ts \<longleftrightarrow> waiters (thread_heap s) (waiting_queue_head m) ts \<and> distinct ts \<and>
     waiting_queue_tail m = (if ts = [] then 0 else last ts) \<and> (ts \<noteq> [] \<longrightarrow> is_locked m) \<and>
     (\<forall>t\<in>set ts. \<exists>th. thread_heap s t = Some th \<and> th_state th = THREAD_BLOCKED) \<and> lock_free (internal_lock m)"

lemma waiters_cong:
  assumes "\<forall>t\<in>set ts. map_option th_next_waiter (h' t) = map_option th_next_waiter (h t)"
  shows "waiters h' p ts = waiters h p ts"
  using assms
proof (induction ts arbitrary: p)
  case (Cons t ts)
  then show ?case by (cases "h t"; cases "h' t") auto
qed simp

lemma waiters_append:
  assumes "waiters h p ts" "ts \<noteq> []" "distinct ts" "c \<notin> set ts" "c \<noteq> 0" "h c = Some thc" "th_next_waiter thc = 0"
    and "h (last ts) = Some thl"
  shows "waiters (h(last ts \<mapsto> thl\<lparr>th_next_waiter := c\<rparr>)) p (ts @ [c])"
  using assms
proof (induction ts arbitrary: p)
  case (Cons t ts)
  show ?case
  proof (cases "ts = []")
    case True
    then show ?thesis using Cons.prems by auto
  next
    case False
    obtain th where th: "h t = Some th" "waiters h (th_next_waiter th) ts" using Cons.prems(1) by auto
    have "waiters (h(last ts \<mapsto> thl\<lparr>th_next_waiter := c\<rparr>)) (th_next_waiter th) (ts @ [c])"
      using Cons.prems False by (intro Cons.IH [OF th(2) False]) auto
    moreover have "t \<noteq> last ts" using Cons.prems(3) False by auto
    ultimately show ?thesis using Cons.prems(1) th False by (auto simp: fun_upd_def)
  qed
qed simp

section \<open>Refinement of a queue lock\<close>

text \<open>The abstract lock: its owner and the threads that wait for it, in order of arrival.\<close>

type_synonym queue_lock = "u64 option \<times> u64 list"

fun aq_acquire :: "u64 \<Rightarrow> queue_lock \<Rightarrow> queue_lock" where
  "aq_acquire c (None, ts) = (Some c, ts)"
| "aq_acquire c (Some ow, ts) = (Some ow, ts @ [c])"

fun aq_release :: "queue_lock \<Rightarrow> queue_lock" where
  "aq_release (ow, []) = (None, [])"
| "aq_release (ow, t # ts) = (Some t, ts)"

definition mutex_abs :: "mutex \<Rightarrow> procs \<Rightarrow> queue_lock \<Rightarrow> bool" where
  "mutex_abs m s a \<longleftrightarrow> mutex_queue m s (snd a) \<and> (is_locked m \<longleftrightarrow> fst a \<noteq> None)"

lemma set_thread_Ok:
  "p \<noteq> 0 \<Longrightarrow> thread_heap s p = Some t \<Longrightarrow> set_thread p f s = Ok (s\<lparr>thread_heap := (thread_heap s)(p \<mapsto> f t)\<rparr>)"
  by (simp add: set_thread_def thread_at_def)

lemma mutex_acquire_free:
  assumes "mutex_queue m s ts" "\<not> is_locked m"
  shows "mutex_acquire m rf s =
    Ok (True, m\<lparr>is_locked := True, internal_lock := lock_advance (internal_lock m)\<rparr>, rf, s)"
  using assms lock_release_acquired [of "internal_lock m" rf]
  by (simp add: mutex_acquire_def mutex_queue_def lock_acquire_free)

lemma waiters_mem: "waiters h p ts \<Longrightarrow> t \<in> set ts \<Longrightarrow> t \<noteq> 0 \<and> h t \<noteq> None"
  by (induction ts arbitrary: p) auto

lemma mutex_acquire_contended:
  assumes q: "mutex_queue m s ts" and l: "is_locked m"
    and c: "c = thread_current s" "c \<noteq> 0" "c \<notin> set ts" "thread_heap s c = Some thc"
  shows "\<exists>m' s'. mutex_acquire m rf s = Ok (False, m', rf, s') \<and> mutex_queue m' s' (ts @ [c]) \<and> is_locked m' \<and>
    thread_current s' = c \<and> task_heap s' = task_heap s"
proof -
  have lf: "lock_free (internal_lock m)" and w: "waiters (thread_heap s) (waiting_queue_head m) ts"
    and d: "distinct ts" and tl: "waiting_queue_tail m = (if ts = [] then 0 else last ts)"
    and bl: "\<forall>t\<in>set ts. \<exists>th. thread_heap s t = Some th \<and> th_state th = THREAD_BLOCKED"
    using q by (simp_all add: mutex_queue_def)
  define thc1 where "thc1 = thc\<lparr>th_next_waiter := 0\<rparr>"
  define thc2 where "thc2 = thc1\<lparr>th_state := THREAD_BLOCKED\<rparr>"
  define h where "h = (thread_heap s)(c \<mapsto> thc2)"
  have wh: "waiters h (waiting_queue_head m) ts"
    unfolding h_def using w c(3) by (subst waiters_cong) auto
  have rel: "lock_release (internal_lock m\<lparr>ticket := ticket (internal_lock m) + 1\<rparr>) rf = (lock_advance (internal_lock m), rf)"
    by (rule lock_release_acquired)
  show ?thesis
  proof (cases "ts = []")
    case True
    let ?m = "m\<lparr>waiting_queue_head := c, waiting_queue_tail := c, internal_lock := lock_advance (internal_lock m)\<rparr>"
    let ?s = "s\<lparr>thread_heap := h\<rparr>"
    have "mutex_acquire m rf s = Ok (False, ?m, rf, ?s)"
      using l lf c True tl rel
      by (simp add: mutex_acquire_def lock_acquire_free set_thread_Ok h_def thc2_def thc1_def)
    moreover have "mutex_queue ?m ?s (ts @ [c])"
      using True c(2) l lf by (simp add: mutex_queue_def h_def thc2_def thc1_def)
    ultimately show ?thesis using l c(1) by auto
  next
    case False
    have lst: "last ts \<in> set ts" "last ts \<noteq> c" "last ts \<noteq> 0" using False c(3) waiters_mem [OF w] by auto
    obtain thl where thl: "thread_heap s (last ts) = Some thl" "th_state thl = THREAD_BLOCKED" using bl lst(1) by auto
    define h' where "h' = h(last ts \<mapsto> thl\<lparr>th_next_waiter := c\<rparr>)"
    let ?m = "m\<lparr>waiting_queue_tail := c, internal_lock := lock_advance (internal_lock m)\<rparr>"
    let ?s = "s\<lparr>thread_heap := h'\<rparr>"
    have heap: "(thread_heap s)(c \<mapsto> thc1, last ts \<mapsto> thl\<lparr>th_next_waiter := c\<rparr>, c \<mapsto> thc2) = h'"
      using lst(2) by (auto simp: h'_def h_def fun_eq_iff)
    have "mutex_acquire m rf s = Ok (False, ?m, rf, ?s)"
      using l lf c False tl rel lst thl(1) heap
      by (simp add: mutex_acquire_def lock_acquire_free set_thread_Ok thc1_def thc2_def)
    moreover have "waiters h' (waiting_queue_head m) (ts @ [c])"
      unfolding h'_def using wh False d c(2,3) lst(2) thl(1)
      by (intro waiters_append [of _ _ _ _ thc2]) (auto simp: h_def thc2_def thc1_def)
    then have "mutex_queue ?m ?s (ts @ [c])"
      using False d c(2,3) l lf bl lst thl by (auto simp: mutex_queue_def h'_def h_def thc2_def)
    ultimately show ?thesis using l c(1) by auto
  qed
qed

lemma mutex_release_empty:
  assumes "mutex_queue m s []"
  shows "mutex_release m rf s = Ok (m\<lparr>is_locked := False, internal_lock := lock_advance (internal_lock m)\<rparr>, rf, s)"
  using assms lock_release_acquired [of "internal_lock m" rf]
  by (simp add: mutex_release_def mutex_queue_def lock_acquire_free)

lemma mutex_release_wakes:
  assumes q: "mutex_queue m s (t # ts)"
  shows "\<exists>m' th. thread_heap s t = Some th \<and>
    mutex_release m rf s = Ok (m', rf, s\<lparr>thread_heap := (thread_heap s)(t \<mapsto> th\<lparr>th_state := THREAD_READY\<rparr>)\<rparr>) \<and>
    mutex_queue m' (s\<lparr>thread_heap := (thread_heap s)(t \<mapsto> th\<lparr>th_state := THREAD_READY\<rparr>)\<rparr>) ts \<and> is_locked m'"
proof -
  obtain th where th: "thread_heap s t = Some th" "t \<noteq> 0" "waiting_queue_head m = t" "t \<notin> set ts"
    "waiters (thread_heap s) (th_next_waiter th) ts"
    using q by (auto simp: mutex_queue_def)
  have lf: "lock_free (internal_lock m)" and l: "is_locked m" using q by (auto simp: mutex_queue_def)
  let ?s = "s\<lparr>thread_heap := (thread_heap s)(t \<mapsto> th\<lparr>th_state := THREAD_READY\<rparr>)\<rparr>"
  have nz: "th_next_waiter th = 0 \<longleftrightarrow> ts = []" using th(5) by (cases ts) auto
  let ?m = "m\<lparr>waiting_queue_head := th_next_waiter th, waiting_queue_tail := if ts = [] then 0 else waiting_queue_tail m,
    internal_lock := lock_advance (internal_lock m)\<rparr>"
  have "mutex_release m rf s = Ok (?m, rf, ?s)"
    using lf th nz lock_release_acquired [of "internal_lock m" rf]
    by (auto simp: mutex_release_def lock_acquire_free thread_at_def set_thread_Ok Let_def)
  moreover have "waiters ((thread_heap s)(t \<mapsto> th\<lparr>th_state := THREAD_READY\<rparr>)) (th_next_waiter th) ts"
    using th(4,5) by (subst waiters_cong) auto
  then have "mutex_queue ?m ?s ts" using q th(4) l lf by (auto simp: mutex_queue_def)
  ultimately show ?thesis using th(1) l by auto
qed

text \<open>
  C28: \<open>mutex_acquire\<close> refines the queue lock: a free mutex is taken at once, otherwise the
  calling thread is blocked and appended to the end of the queue.
\<close>

theorem mutex_acquire_refines:
  assumes "mutex_abs m s a" and "thread_current s \<noteq> 0" and "thread_current s \<notin> set (snd a)"
    and "thread_heap s (thread_current s) \<noteq> None"
  shows "\<exists>got m' s'. mutex_acquire m rf s = Ok (got, m', rf, s') \<and>
    mutex_abs m' s' (aq_acquire (thread_current s) a) \<and> (got \<longleftrightarrow> fst a = None)"
proof (cases "fst a")
  case None
  then have q: "mutex_queue m s (snd a)" "\<not> is_locked m" using assms(1) by (auto simp: mutex_abs_def)
  have "mutex_queue (m\<lparr>is_locked := True, internal_lock := lock_advance (internal_lock m)\<rparr>) s (snd a)"
    using q by (auto simp: mutex_queue_def)
  then show ?thesis using None mutex_acquire_free [OF q, of rf] by (cases a) (auto simp: mutex_abs_def)
next
  case (Some ow)
  then have q: "mutex_queue m s (snd a)" "is_locked m" using assms(1) by (auto simp: mutex_abs_def)
  obtain thc where "thread_heap s (thread_current s) = Some thc" using assms(4) by auto
  from mutex_acquire_contended [OF q refl assms(2,3) this, of rf] Some show ?thesis
    by (cases a) (auto simp: mutex_abs_def)
qed

text \<open>
  C29: \<open>mutex_release\<close> refines the queue lock: the mutex passes to the thread that has waited
  longest, which becomes ready, and is free when nobody waits.
\<close>

theorem mutex_release_refines:
  assumes "mutex_abs m s (Some ow, ts)"
  shows "\<exists>m' s'. mutex_release m rf s = Ok (m', rf, s') \<and> mutex_abs m' s' (aq_release (Some ow, ts)) \<and>
    (ts = [] \<longrightarrow> s' = s) \<and>
    (ts \<noteq> [] \<longrightarrow> map_option th_state (thread_heap s' (hd ts)) = Some THREAD_READY)"
proof (cases ts)
  case Nil
  then have q: "mutex_queue m s []" using assms by (simp add: mutex_abs_def)
  then have "mutex_queue (m\<lparr>is_locked := False, internal_lock := lock_advance (internal_lock m)\<rparr>) s []"
    by (simp add: mutex_queue_def)
  then show ?thesis using Nil mutex_release_empty [OF q, of rf] by (auto simp: mutex_abs_def)
next
  case (Cons t ts')
  then have q: "mutex_queue m s (t # ts')" using assms by (simp add: mutex_abs_def)
  from mutex_release_wakes [OF q, of rf] show ?thesis using Cons by (auto simp: mutex_abs_def)
qed

text \<open>Two threads, the first of which owns the mutex while the second runs.\<close>

definition demo_thread :: "u64 \<Rightarrow> thread_state \<Rightarrow> thread" where
  "demo_thread n st = \<lparr>th_tid = n, th_context = 0, th_state = st, th_ticks_remaining = 4, th_wake_time = 0,
     th_next = 0x1000, th_next_waiter = 0\<rparr>"

definition procs_demo :: procs where
  "procs_demo = \<lparr>thread_heap = [0x1000 \<mapsto> demo_thread 0 THREAD_READY, 0x2000 \<mapsto> demo_thread 1 THREAD_RUNNING],
     task_heap = Map.empty, task_current = 0, thread_current = 0x2000, task_list = 0,
     scheduler_lock = SPINLOCK_IRQ_INIT, next_pid = 1, next_tid = 2\<rparr>"

definition mutex_demo :: mutex where
  "mutex_demo = MUTEX_INIT\<lparr>is_locked := True\<rparr>"

lemma mutex_demo_abs: "mutex_abs mutex_demo procs_demo (Some 0x1000, [])"
  by (simp add: mutex_abs_def mutex_queue_def mutex_demo_def MUTEX_INIT_def)

theorem mutex_acquire_refines_witness:
  "\<exists>m' s'. mutex_acquire mutex_demo 0x202 procs_demo = Ok (False, m', 0x202, s') \<and> mutex_abs m' s' (Some 0x1000, [0x2000])"
proof -
  have c: "thread_current procs_demo = 0x2000" "thread_heap procs_demo 0x2000 \<noteq> None" by (simp_all add: procs_demo_def)
  from mutex_acquire_refines [OF mutex_demo_abs, of "0x202", unfolded c(1)] c(2) show ?thesis by auto
qed

theorem mutex_release_refines_witness:
  "\<exists>m' s' m'' s''. mutex_acquire mutex_demo 0x202 procs_demo = Ok (False, m', 0x202, s') \<and>
    mutex_release m' 0x202 s' = Ok (m'', 0x202, s'') \<and> mutex_abs m'' s'' (Some 0x2000, []) \<and>
    map_option th_state (thread_heap s'' 0x2000) = Some THREAD_READY"
proof -
  have q: "mutex_queue mutex_demo procs_demo []" "is_locked mutex_demo"
    using mutex_demo_abs by (simp_all add: mutex_abs_def)
  have "\<exists>m' s'. mutex_acquire mutex_demo 0x202 procs_demo = Ok (False, m', 0x202, s') \<and>
      mutex_queue m' s' ([] @ [0x2000]) \<and> is_locked m'"
    using mutex_acquire_contended [OF q, of "0x2000" "demo_thread 1 THREAD_RUNNING" "0x202"]
    by (simp add: procs_demo_def) blast
  then obtain m' s' where a: "mutex_acquire mutex_demo 0x202 procs_demo = Ok (False, m', 0x202, s')"
    "mutex_abs m' s' (Some 0x1000, [0x2000])"
    by (auto simp: mutex_abs_def)
  from mutex_release_refines [OF a(2), of "0x202"] show ?thesis using a(1) by auto
qed

end
