(* ===== verification/Kheap.thy ===== *)
theory Kheap
  imports Paging_Props Threads
begin

text \<open>
  The kernel heap, \<open>kernel/src/memory/kheap.c\<close>: a list of adjacent blocks, each behind a
  header of type \<open>struct kheap_node\<close>. The headers are a partial map from their addresses;
  a header that has been merged into its predecessor stays in memory and is no longer
  reached from \<open>kheap_head\<close>.
\<close>

section \<open>State\<close>

definition KHEAP_STARTING_SIZE :: u64 where "KHEAP_STARTING_SIZE = 0x100000"
definition KHEAP_MIN_SPLITTING_SIZE :: u64 where "KHEAP_MIN_SPLITTING_SIZE = 16"
definition KHEAP_BLOCK_SIZE :: u64 where "KHEAP_BLOCK_SIZE = 16"
definition KHEAP_EXTENDING_AMOUNT :: u64 where "KHEAP_EXTENDING_AMOUNT = 0x100000"

record kheap_node =
  nd_size :: u64
  isFree :: bool
  nd_next :: u64

text \<open>\<open>sizeof(struct kheap_node)\<close>: two words and a padded flag.\<close>

definition sizeof_kheap_node :: u64 where "sizeof_kheap_node = 24"

record kheap =
  kh_pg :: paging
  kh_procs :: procs
  kh_nodes :: "u64 \<rightharpoonup> kheap_node"
  kheap_start :: u64
  kheap_end :: u64
  kheap_head :: u64
  kheap_lock :: mutex

abbreviation kh_rflags :: "kheap \<Rightarrow> u64" where
  "kh_rflags s \<equiv> cpu_rflags (pg_pmm (kh_pg s))"

definition set_kh_rflags :: "u64 \<Rightarrow> kheap \<Rightarrow> kheap" where
  "set_kh_rflags rf s = s\<lparr>kh_pg := (kh_pg s)\<lparr>pg_pmm := (pg_pmm (kh_pg s))\<lparr>cpu_rflags := rf\<rparr>\<rparr>\<rparr>"

definition node_at :: "(u64 \<rightharpoonup> kheap_node) \<Rightarrow> u64 \<Rightarrow> kheap_node outcome" where
  "node_at h p = (if p = 0 then Fault else case h p of None \<Rightarrow> Fault | Some n \<Rightarrow> Ok n)"

text \<open>A mutex that another thread holds puts the caller to sleep: the outcome \<open>Block\<close>.\<close>

definition kheap_mutex_acquire :: "kheap \<Rightarrow> kheap outcome" where
  "kheap_mutex_acquire s =
     obind (mutex_acquire (kheap_lock s) (kh_rflags s) (kh_procs s)) (\<lambda>(got, m, rf, ps).
     if got then Ok (set_kh_rflags rf (s\<lparr>kheap_lock := m, kh_procs := ps\<rparr>)) else Block)"

definition kheap_mutex_release :: "kheap \<Rightarrow> kheap outcome" where
  "kheap_mutex_release s =
     obind (mutex_release (kheap_lock s) (kh_rflags s) (kh_procs s)) (\<lambda>(m, rf, ps).
     Ok (set_kh_rflags rf (s\<lparr>kheap_lock := m, kh_procs := ps\<rparr>)))"

section \<open>Growing the heap\<close>

partial_function (option) extend_loop ::
  "paging \<Rightarrow> u64 \<Rightarrow> u64 \<Rightarrow> u64 \<Rightarrow> (bool \<times> paging) outcome option" where
  [code]: "extend_loop s kernel_pml4 virtual fin =
     (if virtual < fin then
        (case pmm_alloc (pg_pmm s) PAGING_PAGE_SIZE of
           Ok (newPage, pmm) \<Rightarrow>
             if newPage = 0 then Some (Ok (False, s\<lparr>pg_pmm := pmm\<rparr>))
             else
               (case paging_map_page (s\<lparr>pg_pmm := pmm\<rparr>) (to_virt s kernel_pml4) virtual newPage
                       (PTE_FLAG_RW OR PTE_FLAG_GLOBAL) False of
                  Ok s \<Rightarrow> extend_loop s kernel_pml4 (virtual + PAGING_PAGE_SIZE) fin
                | Halt \<Rightarrow> Some Halt | Spin \<Rightarrow> Some Spin | Block \<Rightarrow> Some Block | Fault \<Rightarrow> Some Fault)
         | Halt \<Rightarrow> Some Halt | Spin \<Rightarrow> Some Spin | Block \<Rightarrow> Some Block | Fault \<Rightarrow> Some Fault)
      else Some (Ok (True, s)))"

partial_function (option) last_node :: "(u64 \<rightharpoonup> kheap_node) \<Rightarrow> u64 \<Rightarrow> u64 outcome option" where
  [code]: "last_node h current =
     (if current = 0 then Some (Ok current)
      else case h current of
        None \<Rightarrow> Some Fault
      | Some n \<Rightarrow> if nd_next n \<noteq> 0 then last_node h (nd_next n) else Some (Ok current))"

definition num_pages :: "u64 \<Rightarrow> u64" where
  "num_pages sz = (if sz mod PAGING_PAGE_SIZE \<noteq> 0 then sz div PAGING_PAGE_SIZE + 1 else sz div PAGING_PAGE_SIZE)"

definition append_pages :: "kheap \<Rightarrow> u64 \<Rightarrow> kheap outcome" where
  "append_pages s numPages =
     obind (loop_outcome (last_node (kh_nodes s) (kheap_head s))) (\<lambda>current.
     obind (if current = 0 then Ok True else obind (node_at (kh_nodes s) current) (\<lambda>n. Ok (\<not> isFree n))) (\<lambda>fresh.
     obind (if fresh then
              let newNode = kheap_end s;
                  s = s\<lparr>kh_nodes := (kh_nodes s)(newNode \<mapsto>
                        \<lparr>nd_size = numPages * PAGING_PAGE_SIZE - sizeof_kheap_node, isFree = True, nd_next = 0\<rparr>)\<rparr>
              in if current = 0 then Ok (s\<lparr>kheap_head := newNode\<rparr>)
                 else obind (node_at (kh_nodes s) current) (\<lambda>n.
                   Ok (s\<lparr>kh_nodes := (kh_nodes s)(current \<mapsto> n\<lparr>nd_next := newNode\<rparr>)\<rparr>))
            else obind (node_at (kh_nodes s) current) (\<lambda>n.
                   Ok (s\<lparr>kh_nodes := (kh_nodes s)(current \<mapsto> n\<lparr>nd_size := nd_size n + numPages * PAGING_PAGE_SIZE\<rparr>)\<rparr>))) (\<lambda>s.
     Ok (s\<lparr>kheap_end := kheap_end s + numPages * PAGING_PAGE_SIZE\<rparr>))))"

definition kheap_extend :: "kheap \<Rightarrow> u64 \<Rightarrow> (bool \<times> kheap) outcome" where
  "kheap_extend s sz =
     (let numPages = num_pages sz;
          kernel_pml4_phys = paging_getKernelRoot (kh_pg s)
      in obind (loop_outcome (extend_loop (kh_pg s) kernel_pml4_phys (kheap_end s)
                  (kheap_end s + numPages * PAGING_PAGE_SIZE))) (\<lambda>(ok, pg).
         let s = s\<lparr>kh_pg := pg\<rparr> in
         if \<not> ok then Ok (False, s)
         else obind (append_pages s numPages) (\<lambda>s. Ok (True, s))))"

definition kheap_init :: "kernel_image \<Rightarrow> kheap \<Rightarrow> kheap outcome" where
  "kheap_init img s =
     (let start = KERNEL_END img + 0x100000;
          start = (if start mod PAGING_PAGE_SIZE \<noteq> 0
                   then start + (PAGING_PAGE_SIZE - start mod PAGING_PAGE_SIZE) else start);
          s = s\<lparr>kheap_start := start, kheap_end := start\<rparr>
      in obind (kheap_extend s KHEAP_STARTING_SIZE) (\<lambda>(_, s). Ok s))"

section \<open>Allocation\<close>

text \<open>The inner loop of \<open>kmalloc\<close>: the first free block that is large enough, or \<open>NULL\<close>.\<close>

partial_function (option) find_block :: "(u64 \<rightharpoonup> kheap_node) \<Rightarrow> u64 \<Rightarrow> u64 \<Rightarrow> u64 outcome option" where
  [code]: "find_block h currentNode sz =
     (if currentNode = 0 then Some (Ok 0)
      else case h currentNode of
        None \<Rightarrow> Some Fault
      | Some n \<Rightarrow>
          if isFree n \<and> nd_size n \<ge> sz then Some (Ok currentNode)
          else find_block h (nd_next n) sz)"

definition take_block :: "kheap \<Rightarrow> u64 \<Rightarrow> u64 \<Rightarrow> kheap outcome" where
  "take_block s currentNode sz =
     obind (node_at (kh_nodes s) currentNode) (\<lambda>n.
     let (n, h) =
       (if nd_size n - sz \<ge> sizeof_kheap_node + KHEAP_MIN_SPLITTING_SIZE then
          let newNode = currentNode + sizeof_kheap_node + sz
          in (n\<lparr>nd_next := newNode, nd_size := sz\<rparr>,
              (kh_nodes s)(newNode \<mapsto>
                \<lparr>nd_size = nd_size n - sz - sizeof_kheap_node, isFree = True, nd_next = nd_next n\<rparr>))
        else (n, kh_nodes s))
     in Ok (s\<lparr>kh_nodes := h(currentNode \<mapsto> n\<lparr>isFree := False\<rparr>)\<rparr>))"

partial_function (option) kmalloc_loop :: "kheap \<Rightarrow> u64 \<Rightarrow> (u64 \<times> kheap) outcome option" where
  [code]: "kmalloc_loop s sz =
     (case loop_outcome (find_block (kh_nodes s) (kheap_head s) sz) of
        Ok currentNode \<Rightarrow>
          if currentNode \<noteq> 0 then
            Some (obind (take_block s currentNode sz) (\<lambda>s.
                  obind (kheap_mutex_release s) (\<lambda>s. Ok (currentNode + sizeof_kheap_node, s))))
          else
            (case kheap_extend s KHEAP_EXTENDING_AMOUNT of
               Ok (ok, s) \<Rightarrow>
                 if \<not> ok then Some (obind (kheap_mutex_release s) (\<lambda>s. Ok (0, s)))
                 else kmalloc_loop s sz
             | Halt \<Rightarrow> Some Halt | Spin \<Rightarrow> Some Spin | Block \<Rightarrow> Some Block | Fault \<Rightarrow> Some Fault)
      | Halt \<Rightarrow> Some Halt | Spin \<Rightarrow> Some Spin | Block \<Rightarrow> Some Block | Fault \<Rightarrow> Some Fault)"

definition round_size :: "u64 \<Rightarrow> u64" where
  "round_size sz =
     (if sz mod KHEAP_BLOCK_SIZE \<noteq> 0 then sz + (KHEAP_BLOCK_SIZE - sz mod KHEAP_BLOCK_SIZE) else sz)"

definition kmalloc :: "kheap \<Rightarrow> u64 \<Rightarrow> (u64 \<times> kheap) outcome" where
  "kmalloc s sz =
     (let sz = round_size sz in
      obind (kheap_mutex_acquire s) (\<lambda>s. loop_outcome (kmalloc_loop s sz)))"

section \<open>Release\<close>

partial_function (option) kheap_coalesce ::
  "(u64 \<rightharpoonup> kheap_node) \<Rightarrow> u64 \<Rightarrow> (u64 \<rightharpoonup> kheap_node) outcome option" where
  [code]: "kheap_coalesce h current =
     (if current = 0 then Some (Ok h)
      else case h current of
        None \<Rightarrow> Some Fault
      | Some n \<Rightarrow>
          if nd_next n = 0 then Some (Ok h)
          else if isFree n then
            (case h (nd_next n) of
               None \<Rightarrow> Some Fault
             | Some n' \<Rightarrow>
                 if isFree n' then
                   kheap_coalesce (h(current \<mapsto> n\<lparr>nd_size := nd_size n + (nd_size n' + sizeof_kheap_node),
                                                    nd_next := nd_next n'\<rparr>)) current
                 else kheap_coalesce h (nd_next n))
          else kheap_coalesce h (nd_next n))"

definition kfree :: "kheap \<Rightarrow> u64 \<Rightarrow> kheap outcome" where
  "kfree s ptr =
     (if ptr = 0 then Ok s
      else obind (kheap_mutex_acquire s) (\<lambda>s.
        let node_to_free = ptr - sizeof_kheap_node in
        obind (node_at (kh_nodes s) node_to_free) (\<lambda>n.
        if isFree n then kheap_mutex_release s
        else
          let h = (kh_nodes s)(node_to_free \<mapsto> n\<lparr>isFree := True\<rparr>) in
          obind (loop_outcome (kheap_coalesce h (kheap_head s))) (\<lambda>h.
          kheap_mutex_release (s\<lparr>kh_nodes := h\<rparr>)))))"

text \<open>The lines that \<open>kheap_print_nodes\<close> logs: start and end of a region, whether it is free, its size.\<close>

partial_function (option) print_nodes ::
  "(u64 \<rightharpoonup> kheap_node) \<Rightarrow> u64 \<Rightarrow> (u64 \<times> u64 \<times> bool \<times> u64) list \<Rightarrow> (u64 \<times> u64 \<times> bool \<times> u64) list outcome option" where
  [code]: "print_nodes h current out =
     (if current = 0 then Some (Ok out)
      else case h current of
        None \<Rightarrow> Some Fault
      | Some n \<Rightarrow>
          print_nodes h (nd_next n)
            (out @ [(current + sizeof_kheap_node, current + sizeof_kheap_node + nd_size n, isFree n, nd_size n)]))"

definition kheap_print_nodes :: "kheap \<Rightarrow> ((u64 \<times> u64 \<times> bool \<times> u64) list \<times> kheap) outcome" where
  "kheap_print_nodes s =
     obind (kheap_mutex_acquire s) (\<lambda>s.
     obind (loop_outcome (print_nodes (kh_nodes s) (kheap_head s) [])) (\<lambda>out.
     obind (kheap_mutex_release s) (\<lambda>s. Ok (out, s))))"

end
