(* ===== verification/Kheap_Inv.thy ===== *)
theory Kheap_Inv
  imports Kheap
begin

text \<open>
  The list of headers as a tiling of the heap: an abstract heap is the list of its blocks,
  each with its size and whether it is free. First fit with splitting, release and merging
  are functions on such lists, and the loops of the code compute them.
\<close>

section \<open>Abstract heaps\<close>

type_synonym blocks = "(nat \<times> bool) list"

text \<open>Bytes that blocks take with their headers, and the used blocks with their offsets.\<close>

fun extent :: "blocks \<Rightarrow> nat" where
  "extent [] = 0"
| "extent ((n, f) # bs) = 24 + n + extent bs"

fun used :: "nat \<Rightarrow> blocks \<Rightarrow> (nat \<times> nat) set" where
  "used off [] = {}"
| "used off ((n, f) # bs) = (if f then {} else {(off, n)}) \<union> used (off + 24 + n) bs"

definition split_free :: "nat \<Rightarrow> nat \<Rightarrow> blocks" where
  "split_free sz n = (if 40 \<le> n - sz then [(sz, False), (n - sz - 24, True)] else [(n, False)])"

fun first_fit :: "nat \<Rightarrow> blocks \<Rightarrow> (nat \<times> blocks) option" where
  "first_fit sz [] = None"
| "first_fit sz ((n, f) # bs) =
     (if f \<and> sz \<le> n then Some (0, split_free sz n @ bs)
      else map_option (\<lambda>(off, bs'). (24 + n + off, (n, f) # bs')) (first_fit sz bs))"

fun release_at :: "nat \<Rightarrow> blocks \<Rightarrow> blocks" where
  "release_at off [] = []"
| "release_at off ((n, f) # bs) = (if off = 0 then (n, True) # bs else (n, f) # release_at (off - (24 + n)) bs)"

function (sequential) merge :: "blocks \<Rightarrow> blocks" where
  "merge ((n, f) # (m, g) # bs) =
     (if f \<and> g then merge ((n + (m + 24), True) # bs) else (n, f) # merge ((m, g) # bs))"
| "merge bs = bs"
  by pat_completeness auto
termination
  by (relation "measure length") auto

fun apart_free :: "blocks \<Rightarrow> bool" where
  "apart_free ((n, f) # (m, g) # bs) \<longleftrightarrow> \<not> (f \<and> g) \<and> apart_free ((m, g) # bs)"
| "apart_free bs \<longleftrightarrow> True"

lemma extent_append [simp]: "extent (xs @ ys) = extent xs + extent ys"
  by (induction xs rule: extent.induct) auto

lemma used_append: "used off (xs @ ys) = used off xs \<union> used (off + extent xs) ys"
  by (induction off xs rule: used.induct) (auto simp: add.assoc)

lemma used_range: "(p, n) \<in> used off bs \<Longrightarrow> off \<le> p \<and> p + 24 + n \<le> off + extent bs"
  by (induction off bs rule: used.induct) (force split: if_splits)+

lemma used_disjoint:
  "(p, n) \<in> used off bs \<Longrightarrow> (q, m) \<in> used off bs \<Longrightarrow> (p, n) \<noteq> (q, m) \<Longrightarrow> p + 24 + n \<le> q \<or> q + 24 + m \<le> p"
  by (induction off bs rule: used.induct) (auto dest: used_range split: if_splits)

lemma used_split:
  "(p, n) \<in> used off bs \<Longrightarrow> \<exists>xs ys. bs = xs @ (n, False) # ys \<and> p = off + extent xs"
proof (induction off bs rule: used.induct)
  case (2 off k f bs)
  show ?case
  proof (cases "(p, n) \<in> used (off + 24 + k) bs")
    case True
    then obtain xs ys where "bs = xs @ (n, False) # ys" "p = off + 24 + k + extent xs" using 2 by blast
    then show ?thesis by (intro exI [of _ "(k, f) # xs"] exI [of _ ys]) simp
  next
    case False
    then have "(k, f) # bs = [] @ (n, False) # bs \<and> p = off + extent []" using 2 by (auto split: if_splits)
    then show ?thesis by blast
  qed
qed simp

lemma first_fit_split:
  "first_fit sz bs = Some (off, bs') \<Longrightarrow>
    \<exists>xs n ys. bs = xs @ (n, True) # ys \<and> off = extent xs \<and> sz \<le> n \<and> bs' = xs @ split_free sz n @ ys"
proof (induction sz bs arbitrary: off bs' rule: first_fit.induct)
  case (2 sz k f bs)
  show ?case
  proof (cases "f \<and> sz \<le> k")
    case True
    then show ?thesis using 2(2) by (intro exI [of _ "[]"] exI [of _ k] exI [of _ bs]) auto
  next
    case False
    then obtain off1 bs1 where 1: "first_fit sz bs = Some (off1, bs1)" "off = 24 + k + off1" "bs' = (k, f) # bs1"
      using 2(2) by auto
    from 2(1) [OF False 1(1)] obtain xs n ys where
      "bs = xs @ (n, True) # ys" "off1 = extent xs" "sz \<le> n" "bs1 = xs @ split_free sz n @ ys" by blast
    then show ?thesis using 1 by (intro exI [of _ "(k, f) # xs"] exI [of _ n] exI [of _ ys]) simp
  qed
qed simp

lemma first_fit_None: "first_fit sz bs = None \<longleftrightarrow> (\<forall>n. (n, True) \<in> set bs \<longrightarrow> n < sz)"
  by (induction sz bs rule: first_fit.induct) (auto simp: not_le)

lemma extent_split_free: "sz \<le> n \<Longrightarrow> extent (split_free sz n) = 24 + n"
  by (auto simp: split_free_def)

lemma release_at_split: "release_at (extent xs) (xs @ (n, f) # ys) = xs @ (n, True) # ys"
  by (induction xs rule: extent.induct) auto

lemma merge_extent: "extent (merge bs) = extent bs"
  by (induction bs rule: merge.induct) auto

lemma merge_used: "used off (merge bs) = used off bs"
  by (induction bs arbitrary: off rule: merge.induct) (auto simp: algebra_simps)

lemma merge_Nil [simp]: "merge bs = [] \<longleftrightarrow> bs = []"
  by (induction bs rule: merge.induct) auto

lemma merge_Cons: "\<exists>m bs'. merge ((n, f) # bs) = (m, f) # bs' \<and> n \<le> m"
proof (induction bs arbitrary: n)
  case (Cons b bs)
  obtain m g where b: "b = (m, g)" by (cases b)
  show ?case
  proof (cases "f \<and> g")
    case True
    then show ?thesis using Cons [of "n + (m + 24)"] b by (metis (full_types) add_leD1 merge.simps(1))
  next
    case False
    then show ?thesis using b by auto
  qed
qed auto

lemma merge_apart: "apart_free (merge bs)"
proof (induction bs rule: merge.induct)
  case (1 n f m g bs)
  show ?case
  proof (cases "f \<and> g")
    case True
    then show ?thesis using 1(1) by simp
  next
    case False
    obtain m' bs' where "merge ((m, g) # bs) = (m', g) # bs'" using merge_Cons by blast
    then show ?thesis using False 1(2) by auto
  qed
qed auto

lemma merge_id: "apart_free bs \<Longrightarrow> merge bs = bs"
  by (induction bs rule: merge.induct) auto

lemma merge_rejoin_one:
  "apart_free (x # (k + (m + 24), True) # ys) \<Longrightarrow> merge (x # (k, True) # (m, True) # ys) = x # (k + (m + 24), True) # ys"
  using merge_id [of "(k + (m + 24), True) # ys"] by (cases x) auto

lemma merge_rejoin:
  assumes "apart_free (xs @ (n, True) # ys)" "n = k + (m + 24)"
  shows "merge (xs @ (k, True) # (m, True) # ys) = xs @ (n, True) # ys"
  using assms
proof (induction xs rule: apart_free.induct)
  case (1 i f j g xs)
  then show ?case by auto
next
  case "2_2"
  then show ?case using merge_rejoin_one by simp
qed (use merge_id in auto)

section \<open>Headers in memory\<close>

text \<open>\<open>tiles h a bs q\<close>: headers of the blocks \<open>bs\<close> from address \<open>a\<close> on, the last one pointing to \<open>q\<close>.\<close>

fun tiles :: "(u64 \<rightharpoonup> kheap_node) \<Rightarrow> nat \<Rightarrow> blocks \<Rightarrow> u64 \<Rightarrow> bool" where
  "tiles h a [] q \<longleftrightarrow> True"
| "tiles h a ((n, f) # bs) q \<longleftrightarrow>
     h (of_nat a) = Some \<lparr>nd_size = of_nat n, isFree = f, nd_next = (if bs = [] then q else of_nat (a + 24 + n))\<rparr> \<and>
     tiles h (a + 24 + n) bs q"

definition first_at :: "nat \<Rightarrow> blocks \<Rightarrow> u64" where
  "first_at a bs = (if bs = [] then 0 else of_nat a)"

lemma tiles_append:
  "tiles h a (xs @ ys) q \<longleftrightarrow> tiles h a xs (if ys = [] then q else of_nat (a + extent xs)) \<and> tiles h (a + extent xs) ys q"
  by (induction h a xs q rule: tiles.induct) (auto simp: add.assoc)

lemma tiles_cong:
  assumes "\<forall>x. a \<le> x \<longrightarrow> x < a + extent bs \<longrightarrow> h' (of_nat x) = h (of_nat x)"
  shows "tiles h' a bs q = tiles h a bs q"
  using assms
proof (induction h a bs q rule: tiles.induct)
  case (2 h a n f bs q)
  have "tiles h' (a + 24 + n) bs q = tiles h (a + 24 + n) bs q" using 2 by auto
  then show ?case using 2(2) by simp
qed simp

lemma of_nat_u64_eq: "x < 2 ^ 64 \<Longrightarrow> y < 2 ^ 64 \<Longrightarrow> (of_nat x :: u64) = of_nat y \<longleftrightarrow> x = y"
  using unat_of_nat_u64 by metis

lemma of_nat_u64_0: "x < 2 ^ 64 \<Longrightarrow> 0 < x \<Longrightarrow> (of_nat x :: u64) \<noteq> 0"
  using of_nat_u64_eq [of x 0] by simp

lemma tiles_update:
  assumes "p < a \<or> a + extent bs \<le> p" "p < 2 ^ 64" "a + extent bs \<le> 2 ^ 64"
  shows "tiles (h(of_nat p \<mapsto> n)) a bs q = tiles h a bs q"
proof (rule tiles_cong, intro allI impI)
  fix x assume x: "a \<le> x" "x < a + extent bs"
  have "x < 2 ^ 64" using x(2) assms(3) by simp
  moreover have "x \<noteq> p" using x assms(1) by auto
  ultimately have "(of_nat x :: u64) \<noteq> of_nat p" using assms(2) of_nat_u64_eq by blast
  then show "(h(of_nat p \<mapsto> n)) (of_nat x) = h (of_nat x)" by simp
qed

section \<open>The loops\<close>

lemma find_block_list:
  assumes "tiles h a bs 0" "0 < a" "a + extent bs < 2 ^ 64"
  shows "find_block h (first_at a bs) sz =
    Some (Ok (case first_fit (unat sz) bs of None \<Rightarrow> 0 | Some (off, _) \<Rightarrow> of_nat (a + off)))"
  using assms
proof (induction bs arbitrary: a)
  case Nil
  then show ?case by (subst find_block.simps) (simp add: first_at_def)
next
  case (Cons b bs)
  obtain n f where b: "b = (n, f)" by (cases b)
  have nz: "(of_nat a :: u64) \<noteq> 0" using Cons.prems by (intro of_nat_u64_0) auto
  have n: "unat (of_nat n :: u64) = n" using Cons.prems b by (intro unat_of_nat_u64) auto
  have node: "h (of_nat a) = Some \<lparr>nd_size = of_nat n, isFree = f, nd_next = first_at (a + 24 + n) bs\<rparr>"
    using Cons.prems(1) b by (simp add: first_at_def)
  have big: "sz \<le> of_nat n \<longleftrightarrow> unat sz \<le> n" by (simp add: word_le_nat_alt n)
  show ?case
  proof (cases "f \<and> unat sz \<le> n")
    case True
    then show ?thesis using b nz node big by (subst find_block.simps) (simp add: first_at_def)
  next
    case False
    have "find_block h (first_at a (b # bs)) sz = find_block h (first_at (a + 24 + n) bs) sz"
      using b nz node big False by (subst find_block.simps) (auto simp: first_at_def)
    also have "\<dots> = Some (Ok (case first_fit (unat sz) bs of None \<Rightarrow> 0 | Some (off, _) \<Rightarrow> of_nat (a + 24 + n + off)))"
      using Cons.prems b by (intro Cons.IH) auto
    finally show ?thesis using b False by (auto simp: add.assoc split: option.split)
  qed
qed

lemma last_node_list:
  assumes "tiles h a bs 0" "0 < a" "a + extent bs < 2 ^ 64"
  shows "last_node h (first_at a bs) = Some (Ok (if bs = [] then 0 else of_nat (a + extent (butlast bs))))"
  using assms
proof (induction bs arbitrary: a)
  case Nil
  then show ?case by (subst last_node.simps) (simp add: first_at_def)
next
  case (Cons b bs)
  obtain n f where b: "b = (n, f)" by (cases b)
  have nz: "(of_nat a :: u64) \<noteq> 0" using Cons.prems by (intro of_nat_u64_0) auto
  have node: "h (of_nat a) = Some \<lparr>nd_size = of_nat n, isFree = f, nd_next = first_at (a + 24 + n) bs\<rparr>"
    using Cons.prems(1) b by (simp add: first_at_def)
  show ?case
  proof (cases "bs = []")
    case True
    then show ?thesis using b nz node by (subst last_node.simps) (simp add: first_at_def)
  next
    case False
    have nz': "first_at (a + 24 + n) bs \<noteq> 0"
      using Cons.prems b False of_nat_u64_0 [of "a + 24 + n"] by (simp add: first_at_def del: of_nat_add)
    have "last_node h (first_at a (b # bs)) = last_node h (first_at (a + 24 + n) bs)"
      using b nz node nz' by (subst last_node.simps) (simp add: first_at_def)
    also have "\<dots> = Some (Ok (of_nat (a + 24 + n + extent (butlast bs))))"
      using Cons.IH [of "a + 24 + n"] Cons.prems b False by simp
    finally show ?thesis using b False by (simp add: add.assoc)
  qed
qed

lemma coalesce_one:
  assumes "tiles h a [b] 0" "0 < a" "a + extent [b] < 2 ^ 64"
  shows "kheap_coalesce h (first_at a [b]) = Some (Ok h)" "merge [b] = [b]"
proof -
  obtain n f where b: "b = (n, f)" by (cases b)
  have "(of_nat a :: u64) \<noteq> 0" using assms by (intro of_nat_u64_0) auto
  then show "kheap_coalesce h (first_at a [b]) = Some (Ok h)"
    using assms(1) b by (subst kheap_coalesce.simps) (auto simp: first_at_def)
  show "merge [b] = [b]" by simp
qed

lemma coalesce_list:
  assumes "tiles h a bs 0" "0 < a" "a + extent bs < 2 ^ 64"
  shows "\<exists>h'. kheap_coalesce h (first_at a bs) = Some (Ok h') \<and> tiles h' a (merge bs) 0 \<and>
    (\<forall>x. x < 2 ^ 64 \<longrightarrow> x < a \<or> a + extent bs \<le> x \<longrightarrow> h' (of_nat x) = h (of_nat x))"
  using assms
proof (induction bs arbitrary: h a rule: merge.induct)
  case (1 n f m g bs)
  let ?a = "of_nat a :: u64"
  let ?b = "of_nat (a + 24 + n) :: u64"
  have ext: "a + 24 + n + 24 + m + extent bs < 2 ^ 64" using 1(5) by simp
  have nz: "?a \<noteq> 0" "?b \<noteq> 0" using 1(4) ext by (intro of_nat_u64_0; simp)+
  have na: "h ?a = Some \<lparr>nd_size = of_nat n, isFree = f, nd_next = ?b\<rparr>"
    and nb: "h ?b = Some \<lparr>nd_size = of_nat m, isFree = g, nd_next = first_at (a + 24 + n + 24 + m) bs\<rparr>"
    and rest: "tiles h (a + 24 + n + 24 + m) bs 0"
    using 1(3) by (simp_all add: first_at_def)
  show ?case
  proof (cases "f \<and> g")
    case True
    define h1 where "h1 = h(?a \<mapsto> \<lparr>nd_size = of_nat (n + (m + 24)), isFree = True, nd_next = first_at (a + 24 + n + 24 + m) bs\<rparr>)"
    have step: "kheap_coalesce h (first_at a ((n, f) # (m, g) # bs)) = kheap_coalesce h1 (first_at a ((n + (m + 24), True) # bs))"
      using nz na nb True by (subst kheap_coalesce.simps) (simp add: first_at_def h1_def sizeof_kheap_node_def)
    have t1: "tiles h1 a ((n + (m + 24), True) # bs) 0"
    proof -
      have "tiles h1 (a + 24 + n + 24 + m) bs 0"
        unfolding h1_def using rest ext by (subst tiles_update) auto
      then show ?thesis by (simp add: h1_def first_at_def ac_simps)
    qed
    have "a + extent ((n + (m + 24), True) # bs) < 2 ^ 64" using ext by simp
    from 1(1) [OF True t1 1(4) this] obtain h' where
      h': "kheap_coalesce h1 (first_at a ((n + (m + 24), True) # bs)) = Some (Ok h')"
        "tiles h' a (merge ((n + (m + 24), True) # bs)) 0"
        "\<forall>x. x < 2 ^ 64 \<longrightarrow> x < a \<or> a + extent ((n + (m + 24), True) # bs) \<le> x \<longrightarrow> h' (of_nat x) = h1 (of_nat x)"
      by blast
    have out: "h' (of_nat x) = h (of_nat x)" if "x < 2 ^ 64" "x < a \<or> a + extent ((n, f) # (m, g) # bs) \<le> x" for x
    proof -
      have "(of_nat x :: u64) \<noteq> ?a" using that ext of_nat_u64_eq [of x a] by auto
      moreover have "x < a \<or> a + extent ((n + (m + 24), True) # bs) \<le> x" using that(2) by auto
      then have "h' (of_nat x) = h1 (of_nat x)" using h'(3) that(1) by blast
      ultimately show ?thesis by (simp add: h1_def)
    qed
    then show ?thesis using True step h'(1,2) by auto
  next
    case False
    have step: "kheap_coalesce h (first_at a ((n, f) # (m, g) # bs)) = kheap_coalesce h (first_at (a + 24 + n) ((m, g) # bs))"
      using nz na nb False by (subst kheap_coalesce.simps) (auto simp: first_at_def)
    have "tiles h (a + 24 + n) ((m, g) # bs) 0" "0 < a + 24 + n" "a + 24 + n + extent ((m, g) # bs) < 2 ^ 64"
      using 1(3,4) ext by simp_all
    from 1(2) [OF False this] obtain h' where
      h': "kheap_coalesce h (first_at (a + 24 + n) ((m, g) # bs)) = Some (Ok h')"
        "tiles h' (a + 24 + n) (merge ((m, g) # bs)) 0"
        "\<forall>x. x < 2 ^ 64 \<longrightarrow> x < a + 24 + n \<or> a + 24 + n + extent ((m, g) # bs) \<le> x \<longrightarrow> h' (of_nat x) = h (of_nat x)"
      by blast
    have "h' ?a = h ?a" using h'(3) ext by simp
    then have "tiles h' a (merge ((n, f) # (m, g) # bs)) 0" using False na h'(2) by auto
    then show ?thesis using step h'(1,3) by auto
  qed
next
  case "2_1"
  then show ?case by (subst kheap_coalesce.simps) (simp add: first_at_def)
next
  case "2_2"
  from coalesce_one [OF "2_2"] show ?case using "2_2"(1) by (intro exI [of _ h]) simp
qed

section \<open>The heap and its lock\<close>

definition heap_rep :: "kheap \<Rightarrow> blocks \<Rightarrow> bool" where
  "heap_rep s bs \<longleftrightarrow> tiles (kh_nodes s) (unat (kheap_start s)) bs 0 \<and>
     unat (kheap_end s) = unat (kheap_start s) + extent bs \<and> 0 < unat (kheap_start s) \<and>
     kheap_head s = first_at (unat (kheap_start s)) bs"

definition heap_unlocked :: "kheap \<Rightarrow> bool" where
  "heap_unlocked s \<longleftrightarrow> mutex_queue (kheap_lock s) (kh_procs s) [] \<and> \<not> is_locked (kheap_lock s)"

definition heap_locked :: "kheap \<Rightarrow> bool" where
  "heap_locked s \<longleftrightarrow> mutex_queue (kheap_lock s) (kh_procs s) [] \<and> is_locked (kheap_lock s)"

definition heap_ok :: "kheap \<Rightarrow> blocks \<Rightarrow> bool" where
  "heap_ok s bs \<longleftrightarrow> heap_rep s bs \<and> heap_unlocked s"

lemma heap_rep_bound: "heap_rep s bs \<Longrightarrow> unat (kheap_start s) + extent bs < 2 ^ 64"
  using unsigned_less [of "kheap_end s", where ?'a = nat] by (simp add: heap_rep_def)

lemma set_kh_rflags_same [simp]: "set_kh_rflags (kh_rflags s) (s\<lparr>kheap_lock := m\<rparr>) = s\<lparr>kheap_lock := m\<rparr>"
  by (simp add: set_kh_rflags_def)

lemma kheap_acquire_free:
  assumes "heap_unlocked s"
  shows "\<exists>m. kheap_mutex_acquire s = Ok (s\<lparr>kheap_lock := m\<rparr>) \<and> heap_locked (s\<lparr>kheap_lock := m\<rparr>)"
proof -
  let ?m = "(kheap_lock s)\<lparr>is_locked := True, internal_lock := lock_advance (internal_lock (kheap_lock s))\<rparr>"
  have "kheap_mutex_acquire s = Ok (s\<lparr>kheap_lock := ?m\<rparr>)"
    using assms mutex_acquire_free [of "kheap_lock s" "kh_procs s" "[]" "kh_rflags s"]
    by (simp add: kheap_mutex_acquire_def heap_unlocked_def)
  moreover have "heap_locked (s\<lparr>kheap_lock := ?m\<rparr>)"
    using assms by (simp add: heap_locked_def heap_unlocked_def mutex_queue_def)
  ultimately show ?thesis by blast
qed

lemma kheap_release_held:
  assumes "heap_locked s"
  shows "\<exists>m. kheap_mutex_release s = Ok (s\<lparr>kheap_lock := m\<rparr>) \<and> heap_unlocked (s\<lparr>kheap_lock := m\<rparr>)"
proof -
  let ?m = "(kheap_lock s)\<lparr>is_locked := False, internal_lock := lock_advance (internal_lock (kheap_lock s))\<rparr>"
  have "kheap_mutex_release s = Ok (s\<lparr>kheap_lock := ?m\<rparr>)"
    using assms mutex_release_empty [of "kheap_lock s" "kh_procs s" "kh_rflags s"]
    by (simp add: kheap_mutex_release_def heap_locked_def)
  moreover have "heap_unlocked (s\<lparr>kheap_lock := ?m\<rparr>)"
    using assms by (simp add: heap_locked_def heap_unlocked_def mutex_queue_def)
  ultimately show ?thesis by blast
qed

lemma heap_lock_simps [simp]:
  "heap_rep (s\<lparr>kheap_lock := m\<rparr>) = heap_rep s"
  "heap_rep (s\<lparr>kh_pg := pg\<rparr>) = heap_rep s"
  "heap_locked (s\<lparr>kh_nodes := h\<rparr>) = heap_locked s"
  "heap_locked (s\<lparr>kh_pg := pg\<rparr>) = heap_locked s"
  by (simp_all add: fun_eq_iff heap_rep_def heap_locked_def)

text \<open>What no operation on blocks touches.\<close>

definition same_heap :: "kheap \<Rightarrow> kheap \<Rightarrow> bool" where
  "same_heap s s' \<longleftrightarrow> kh_pg s' = kh_pg s \<and> kh_procs s' = kh_procs s \<and>
     kheap_start s' = kheap_start s \<and> kheap_end s' = kheap_end s"

section \<open>Taking a block\<close>

lemma take_block_list:
  assumes rep: "heap_rep s bs" and fit: "first_fit (unat sz) bs = Some (off, bs')"
  shows "\<exists>h. take_block s (of_nat (unat (kheap_start s) + off)) sz = Ok (s\<lparr>kh_nodes := h\<rparr>) \<and> heap_rep (s\<lparr>kh_nodes := h\<rparr>) bs'"
proof -
  from first_fit_split [OF fit] obtain xs n ys where
    bs: "bs = xs @ (n, True) # ys" "off = extent xs" "unat sz \<le> n" "bs' = xs @ split_free (unat sz) n @ ys" by blast
  define a where "a = unat (kheap_start s)"
  define c where "c = a + extent xs"
  let ?h = "kh_nodes s"
  let ?q = "first_at (c + 24 + n) ys"
  have bound: "c + 24 + n + extent ys < 2 ^ 64" and a: "0 < a"
    using heap_rep_bound [OF rep] rep bs(1) by (simp_all add: c_def a_def heap_rep_def)
  have t: "tiles ?h a xs (of_nat c)" "?h (of_nat c) = Some \<lparr>nd_size = of_nat n, isFree = True, nd_next = ?q\<rparr>"
    "tiles ?h (c + 24 + n) ys 0"
    using rep unfolding heap_rep_def bs(1) a_def [symmetric] tiles_append c_def [symmetric] by (simp_all add: first_at_def)
  have cz: "(of_nat c :: u64) \<noteq> 0" using a bound by (intro of_nat_u64_0) (simp_all add: c_def)
  have n: "unat (of_nat n :: u64) = n" using bound by (intro unat_of_nat_u64) simp
  have le: "sz \<le> of_nat n" using bs(3) n by (simp add: word_le_nat_alt)
  have diff: "unat (of_nat n - sz) = n - unat sz" using le n by (simp add: unat_sub)
  have big: "sizeof_kheap_node + KHEAP_MIN_SPLITTING_SIZE \<le> of_nat n - sz \<longleftrightarrow> 40 \<le> n - unat sz"
    using diff by (simp add: word_le_nat_alt sizeof_kheap_node_def KHEAP_MIN_SPLITTING_SIZE_def)
  have head: "kheap_head s = first_at a bs'"
    using rep bs by (cases xs) (auto simp: heap_rep_def a_def first_at_def split_free_def)
  have len: "unat (kheap_end s) = a + extent bs'"
    using rep bs extent_split_free [OF bs(3)] by (simp add: heap_rep_def a_def)
  show ?thesis
  proof (cases "40 \<le> n - unat sz")
    case True
    define b where "b = c + 24 + unat sz"
    define nd where "nd = \<lparr>nd_size = of_nat n - sz - 24, isFree = True, nd_next = ?q\<rparr>"
    have new: "of_nat c + 24 + sz = (of_nat b :: u64)" by (simp add: b_def)
    let ?cd = "\<lparr>nd_size = sz, isFree = False, nd_next = of_nat b\<rparr>"
    let ?h' = "?h(of_nat b \<mapsto> nd, of_nat c \<mapsto> ?cd)"
    have run: "take_block s (of_nat c) sz = Ok (s\<lparr>kh_nodes := ?h'\<rparr>)"
      using t(2) cz big True new by (simp add: take_block_def node_at_def Let_def sizeof_kheap_node_def nd_def)
    have b: "c < b" "b + 24 \<le> c + 24 + n" using True by (simp_all add: b_def)
    have up: "tiles ?h' (c + 24 + n) ys 0" using t(3) bound b by (simp add: tiles_update)
    have "a + extent xs \<le> c" by (simp add: c_def)
    then have lo: "tiles ?h' a xs (of_nat c)" using t(1) bound b by (simp add: tiles_update)
    have "of_nat b \<noteq> (of_nat c :: u64)" using bound b by (subst of_nat_u64_eq) auto
    moreover have "nd_size nd = of_nat (n - unat sz - 24)"
      using True bs(3) by (simp add: nd_def of_nat_diff)
    ultimately have mid: "tiles ?h' c (split_free (unat sz) n) ?q"
      using True by (simp add: split_free_def nd_def b_def)
    have "tiles ?h' a bs' 0"
      unfolding bs(4) tiles_append c_def [symmetric] extent_split_free [OF bs(3)]
      using lo mid up by (simp add: first_at_def split_free_def add.assoc)
    then show ?thesis using run head len a bs(2) by (auto simp: heap_rep_def a_def c_def)
  next
    case False
    let ?cd = "\<lparr>nd_size = of_nat n, isFree = False, nd_next = ?q\<rparr>"
    let ?h' = "?h(of_nat c \<mapsto> ?cd)"
    have run: "take_block s (of_nat c) sz = Ok (s\<lparr>kh_nodes := ?h'\<rparr>)"
      using t(2) cz big False by (simp add: take_block_def node_at_def Let_def)
    have up: "tiles ?h' (c + 24 + n) ys 0" using t(3) bound by (simp add: tiles_update)
    have "a + extent xs \<le> c" by (simp add: c_def)
    then have lo: "tiles ?h' a xs (of_nat c)" using t(1) bound by (simp add: tiles_update)
    have mid: "tiles ?h' c (split_free (unat sz) n) ?q" using False by (simp add: split_free_def)
    have "tiles ?h' a bs' 0"
      unfolding bs(4) tiles_append c_def [symmetric] extent_split_free [OF bs(3)]
      using lo mid up by (simp add: first_at_def split_free_def add.assoc)
    then show ?thesis using run head len a bs(2) by (auto simp: heap_rep_def a_def c_def)
  qed
qed

lemma kmalloc_fit:
  assumes ok: "heap_ok s bs" and fit: "first_fit (unat (round_size sz)) bs = Some (off, bs')"
  shows "\<exists>s'. kmalloc s sz = Ok (of_nat (unat (kheap_start s) + off + 24), s') \<and> heap_ok s' bs' \<and> same_heap s s'"
proof -
  have rep: "heap_rep s bs" and un: "heap_unlocked s" using ok by (simp_all add: heap_ok_def)
  from kheap_acquire_free [OF un] obtain m where
    acq: "kheap_mutex_acquire s = Ok (s\<lparr>kheap_lock := m\<rparr>)" "heap_locked (s\<lparr>kheap_lock := m\<rparr>)" by blast
  define s1 where "s1 = s\<lparr>kheap_lock := m\<rparr>"
  have rep1: "heap_rep s1 bs" using rep by (simp add: s1_def)
  let ?a = "unat (kheap_start s)"
  have a: "unat (kheap_start s1) = ?a" by (simp add: s1_def)
  have find: "loop_outcome (find_block (kh_nodes s1) (kheap_head s1) (round_size sz)) = Ok (of_nat (?a + off))"
    using find_block_list [of "kh_nodes s1" ?a bs "round_size sz"] rep1 heap_rep_bound [OF rep1] fit a
    by (simp add: heap_rep_def loop_outcome_def)
  from first_fit_split [OF fit] have "off < extent bs" by auto
  then have nz: "(of_nat (?a + off) :: u64) \<noteq> 0"
    using rep heap_rep_bound [OF rep] by (intro of_nat_u64_0) (auto simp: heap_rep_def)
  from take_block_list [OF rep1 fit] obtain h where
    h: "take_block s1 (of_nat (?a + off)) (round_size sz) = Ok (s1\<lparr>kh_nodes := h\<rparr>)" "heap_rep (s1\<lparr>kh_nodes := h\<rparr>) bs'"
    unfolding a by blast
  have "heap_locked (s1\<lparr>kh_nodes := h\<rparr>)" using acq(2) by (simp add: s1_def)
  from kheap_release_held [OF this] obtain m' where
    rel: "kheap_mutex_release (s1\<lparr>kh_nodes := h\<rparr>) = Ok (s1\<lparr>kh_nodes := h, kheap_lock := m'\<rparr>)"
      "heap_unlocked (s1\<lparr>kh_nodes := h, kheap_lock := m'\<rparr>)" by blast
  let ?s = "s1\<lparr>kh_nodes := h, kheap_lock := m'\<rparr>"
  have "kmalloc_loop s1 (round_size sz) = Some (Ok (of_nat (?a + off) + sizeof_kheap_node, ?s))"
    using nz by (subst kmalloc_loop.simps) (simp add: find h(1) rel(1) del: of_nat_add)
  then have "kmalloc s sz = Ok (of_nat (?a + off + 24), ?s)"
    using acq(1) by (simp add: kmalloc_def loop_outcome_def s1_def [symmetric] sizeof_kheap_node_def)
  moreover have "heap_ok ?s bs'" using h(2) rel(2) by (simp add: heap_ok_def)
  moreover have "same_heap s ?s" by (simp add: same_heap_def s1_def)
  ultimately show ?thesis by blast
qed

section \<open>Releasing a block\<close>

lemma kfree_used:
  assumes ok: "heap_ok s bs" and bs: "bs = xs @ (n, False) # ys"
  shows "\<exists>s'. kfree s (of_nat (unat (kheap_start s) + extent xs + 24)) = Ok s' \<and>
    heap_ok s' (merge (xs @ (n, True) # ys)) \<and> same_heap s s'"
proof -
  have rep: "heap_rep s bs" and un: "heap_unlocked s" using ok by (simp_all add: heap_ok_def)
  from kheap_acquire_free [OF un] obtain m where
    acq: "kheap_mutex_acquire s = Ok (s\<lparr>kheap_lock := m\<rparr>)" "heap_locked (s\<lparr>kheap_lock := m\<rparr>)" by blast
  define s1 where "s1 = s\<lparr>kheap_lock := m\<rparr>"
  define a where "a = unat (kheap_start s)"
  define c where "c = a + extent xs"
  let ?h = "kh_nodes s1"
  let ?q = "first_at (c + 24 + n) ys"
  let ?bs = "xs @ (n, True) # ys"
  have bound: "c + 24 + n + extent ys < 2 ^ 64" and a: "0 < a"
    using heap_rep_bound [OF rep] rep bs by (simp_all add: c_def a_def heap_rep_def)
  have rep1: "heap_rep s1 bs" using rep by (simp add: s1_def)
  have start: "unat (kheap_start s1) = a" by (simp add: s1_def a_def)
  have t: "tiles ?h a xs (of_nat c)" "?h (of_nat c) = Some \<lparr>nd_size = of_nat n, isFree = False, nd_next = ?q\<rparr>"
    "tiles ?h (c + 24 + n) ys 0"
    using rep1 unfolding heap_rep_def start bs tiles_append c_def [symmetric] by (simp_all add: first_at_def)
  have cz: "(of_nat c :: u64) \<noteq> 0" and pz: "(of_nat (c + 24) :: u64) \<noteq> 0"
    using a bound by (intro of_nat_u64_0; simp add: c_def)+
  define h1 where "h1 = ?h(of_nat c \<mapsto> \<lparr>nd_size = of_nat n, isFree = True, nd_next = ?q\<rparr>)"
  have "tiles h1 (c + 24 + n) ys 0" unfolding h1_def using t(3) bound by (subst tiles_update) auto
  moreover have "tiles h1 a xs (of_nat c)" unfolding h1_def using t(1) bound by (subst tiles_update) (auto simp: c_def)
  ultimately have "tiles h1 a ?bs 0"
    unfolding tiles_append c_def [symmetric] by (simp add: h1_def first_at_def)
  from coalesce_list [OF this a] bound obtain h' where
    h': "kheap_coalesce h1 (first_at a ?bs) = Some (Ok h')" "tiles h' a (merge ?bs) 0"
    by (auto simp: c_def)
  have head: "kheap_head s1 = first_at a ?bs" using rep1 bs start by (simp add: heap_rep_def first_at_def)
  have "heap_locked (s1\<lparr>kh_nodes := h'\<rparr>)" using acq(2) by (simp add: s1_def)
  from kheap_release_held [OF this] obtain m' where
    rel: "kheap_mutex_release (s1\<lparr>kh_nodes := h'\<rparr>) = Ok (s1\<lparr>kh_nodes := h', kheap_lock := m'\<rparr>)"
      "heap_unlocked (s1\<lparr>kh_nodes := h', kheap_lock := m'\<rparr>)" by blast
  let ?s = "s1\<lparr>kh_nodes := h', kheap_lock := m'\<rparr>"
  have "of_nat (c + 24) - sizeof_kheap_node = (of_nat c :: u64)" by (simp add: sizeof_kheap_node_def)
  moreover have "loop_outcome (kheap_coalesce h1 (kheap_head s1)) = Ok h'" using h'(1) head by (simp add: loop_outcome_def)
  ultimately have "kfree s (of_nat (c + 24)) = Ok ?s"
    using acq(1) t(2) cz pz rel(1) by (simp add: kfree_def s1_def [symmetric] node_at_def h1_def [symmetric] del: of_nat_add)
  moreover have "heap_ok ?s (merge ?bs)"
    using rel(2) h'(2) rep1 start a bs merge_extent [of ?bs] merge_Nil [of ?bs] head
    by (simp add: heap_ok_def heap_rep_def first_at_def)
  moreover have "same_heap s ?s" by (simp add: same_heap_def s1_def)
  ultimately show ?thesis unfolding c_def a_def by blast
qed

end
