(* ===== verification/Kheap_Props.thy ===== *)
theory Kheap_Props
  imports Kheap_Inv
begin

text \<open>
  The contract of the kernel heap: what \<open>kmalloc\<close> and \<open>kfree\<close> do to the set of used
  blocks, how the heap grows through the page tables, and that the search for memory
  always comes to an end.
\<close>

section \<open>Growing the tiling\<close>

definition grow :: "blocks \<Rightarrow> nat \<Rightarrow> blocks" where
  "grow bs k = (if bs \<noteq> [] \<and> snd (last bs) then butlast bs @ [(fst (last bs) + k, True)] else bs @ [(k - 24, True)])"

lemma grow_cases:
  obtains (extend) xs m where "bs = xs @ [(m, True)]" "grow bs k = xs @ [(m + k, True)]"
  | (append) "grow bs k = bs @ [(k - 24, True)]" "bs \<noteq> [] \<longrightarrow> \<not> snd (last bs)"
proof (cases "bs \<noteq> [] \<and> snd (last bs)")
  case True
  then have "bs = butlast bs @ [(fst (last bs), True)]" by (metis append_butlast_last_id prod.collapse)
  then show thesis using extend True by (metis grow_def)
next
  case False
  then show thesis using append by (auto simp: grow_def)
qed

lemma extent_grow: "24 \<le> k \<Longrightarrow> extent (grow bs k) = extent bs + k"
  by (cases rule: grow_cases [of bs k]) auto

lemma used_grow: "used off (grow bs k) = used off bs"
  by (cases rule: grow_cases [of bs k]) (auto simp: used_append)

lemma append_pages_list:
  assumes rep: "heap_rep s bs" and n: "0 < n" "unat (kheap_end s) + 4096 * n < 2 ^ 64"
  shows "\<exists>s'. append_pages s (of_nat n) = Ok s' \<and> heap_rep s' (grow bs (4096 * n)) \<and>
    kh_pg s' = kh_pg s \<and> kh_procs s' = kh_procs s \<and> kheap_lock s' = kheap_lock s \<and>
    kheap_start s' = kheap_start s \<and> unat (kheap_end s') = unat (kheap_end s) + 4096 * n"
proof -
  let ?a = "unat (kheap_start s)"
  let ?h = "kh_nodes s"
  define k where "k = 4096 * n"
  have t: "tiles ?h ?a bs 0" "unat (kheap_end s) = ?a + extent bs" "0 < ?a" "kheap_head s = first_at ?a bs"
    using rep by (simp_all add: heap_rep_def)
  have b: "?a + extent bs + k < 2 ^ 64" using n(2) t(2) by (simp add: k_def)
  have k: "24 \<le> k" using n(1) by (simp add: k_def)
  have kw: "of_nat n * PAGING_PAGE_SIZE = (of_nat k :: u64)" by (simp add: PAGING_PAGE_SIZE_def k_def)
  have e: "kheap_end s = of_nat (?a + extent bs)" using t(2) by (metis of_nat_index)
  have fin: "unat (kheap_end s + of_nat k) = unat (kheap_end s) + k"
    using unat_page_offset [OF n(2)] by (simp only: k_def)
  have last: "loop_outcome (last_node ?h (kheap_head s)) = Ok (if bs = [] then 0 else of_nat (?a + extent (butlast bs)))"
    using last_node_list [of ?h ?a bs] t b by (simp add: loop_outcome_def)
  have ks: "of_nat k - 24 = (of_nat (k - 24) :: u64)" using k by (simp add: of_nat_diff)
  show ?thesis
  proof (cases rule: grow_cases [of bs k])
    case (extend xs m)
    let ?c = "?a + extent xs"
    have node: "?h (of_nat ?c) = Some \<lparr>nd_size = of_nat m, isFree = True, nd_next = 0\<rparr>" "tiles ?h ?a xs (of_nat ?c)"
      using t(1) extend(1) by (simp_all add: tiles_append)
    have cz: "(of_nat ?c :: u64) \<noteq> 0" using t(3) b extend(1) by (intro of_nat_u64_0) auto
    let ?h' = "?h(of_nat ?c \<mapsto> \<lparr>nd_size = of_nat (m + k), isFree = True, nd_next = 0\<rparr>)"
    let ?s = "s\<lparr>kh_nodes := ?h', kheap_end := kheap_end s + of_nat k\<rparr>"
    have "append_pages s (of_nat n) = Ok ?s"
      using last extend(1) node(1) cz unfolding append_pages_def kw by (simp add: node_at_def)
    moreover have "tiles ?h' ?a xs (of_nat ?c)" using node(2) b extend(1) by (subst tiles_update) auto
    then have "tiles ?h' ?a (grow bs k) 0" unfolding extend(2) tiles_append by simp
    then have "heap_rep ?s (grow bs k)"
      using t fin extent_grow [OF k, of bs] extend by (simp add: heap_rep_def first_at_def)
    ultimately show ?thesis using fin by (auto simp: k_def)
  next
    case append
    let ?nd = "\<lparr>nd_size = of_nat (k - 24), isFree = True, nd_next = 0\<rparr>"
    have ez: "?a + extent bs < 2 ^ 64" using b by simp
    show ?thesis
    proof (cases bs rule: rev_cases)
      case Nil
      let ?s = "s\<lparr>kh_nodes := ?h(kheap_end s \<mapsto> ?nd), kheap_head := kheap_end s, kheap_end := kheap_end s + of_nat k\<rparr>"
      have "append_pages s (of_nat n) = Ok ?s"
        using last Nil ks unfolding append_pages_def kw by (simp add: sizeof_kheap_node_def Let_def)
      moreover have "kheap_end s = kheap_start s" using e Nil by simp
      then have "heap_rep ?s (grow bs k)"
        using t Nil append(1) fin k by (simp add: heap_rep_def first_at_def)
      ultimately show ?thesis using fin by (auto simp: k_def)
    next
      case (snoc xs x)
      then obtain m where x: "bs = xs @ [(m, False)]" using append(2) by (cases x) auto
      let ?c = "?a + extent xs"
      have node: "?h (of_nat ?c) = Some \<lparr>nd_size = of_nat m, isFree = False, nd_next = 0\<rparr>" "tiles ?h ?a xs (of_nat ?c)"
        using t(1) x by (simp_all add: tiles_append)
      have cz: "(of_nat ?c :: u64) \<noteq> 0" using t(3) b x by (intro of_nat_u64_0) auto
      have ne: "(of_nat ?c :: u64) \<noteq> kheap_end s" unfolding e using x b by (subst of_nat_u64_eq) auto
      let ?h' = "?h(kheap_end s \<mapsto> ?nd, of_nat ?c \<mapsto> \<lparr>nd_size = of_nat m, isFree = False, nd_next = kheap_end s\<rparr>)"
      let ?s = "s\<lparr>kh_nodes := ?h', kheap_end := kheap_end s + of_nat k\<rparr>"
      have run: "append_pages s (of_nat n) = Ok ?s"
        using last x node(1) cz ks ne unfolding append_pages_def kw by (simp add: node_at_def sizeof_kheap_node_def Let_def)
      have "tiles ?h' ?a xs (of_nat ?c)"
        unfolding e using node(2) b x by (subst tiles_update; (subst tiles_update)?) auto
      moreover have g: "grow bs k = xs @ [(m, False), (k - 24, True)]" using append(1) x by simp
      ultimately have "tiles ?h' ?a (grow bs k) 0"
        unfolding g tiles_append using ne e x by (simp add: add.assoc)
      then have "heap_rep ?s (grow bs k)"
        using t fin extent_grow [OF k, of bs] append(1) x by (simp add: heap_rep_def first_at_def)
      then show ?thesis using run fin by (auto simp: k_def)
    qed
  qed
qed

section \<open>Mapping new pages\<close>

lemma avail_finite: "pmm_avail m R A \<Longrightarrow> finite R"
  using pmm_frames.avail_bound [of m R A] by (meson finite_nat_set_iff_bounded)

lemma align_phys_page: "p < 2 ^ 40 \<Longrightarrow> align_phys (page_to_phys p) False = page_to_phys p"
proof -
  assume "p < 2 ^ 40"
  then have "unat (page_to_phys p) = p * 4096" by (simp add: unat_page_to_phys)
  then have "unat (page_to_phys p mod 4096) = 0" by (simp add: unat_mod)
  then show ?thesis by (simp add: align_phys_def PAGING_PAGE_SIZE_def unat_eq_zero)
qed

definition heap_entry :: "nat \<Rightarrow> u64" where
  "heap_entry p = page_to_phys p OR (PTE_FLAG_RW OR PTE_FLAG_GLOBAL) OR PTE_FLAG_PRESENT"

lemma take_frame_space:
  assumes inv: "space_inv s root R A" and ne: "R \<noteq> {}"
  obtains p m where "pmm_alloc (pg_pmm s) 4096 = Ok (page_to_phys p, m)" "p \<in> R" "p < 2 ^ 40" "page_to_phys p \<noteq> 0"
    "space_inv (s\<lparr>pg_pmm := m\<rparr>) root (R - {p}) (insert (p, 0) A)"
    "maps s R A (s\<lparr>pg_pmm := m\<rparr>) (R - {p}) (insert (p, 0) A) root {}" "card R = Suc (card (R - {p}))"
    "pmm_refs m p = 1"
proof -
  have av: "pmm_avail (pg_pmm s) R A" and tree: "pt_tree s root A" using inv by (simp_all add: space_inv_def)
  from pmm_frames.take_cases [OF av] ne obtain p m where
    p: "pmm_alloc (pg_pmm s) 4096 = Ok (page_to_phys p, m)" "page_to_phys p \<noteq> 0" "p < 2 ^ 40" "p \<in> R"
      "pmm_avail m (R - {p}) (insert (p, 0) A)" "pmm_refs m p = 1"
      "\<forall>q k. (q, k) \<in> A \<longrightarrow> pmm_refs m q = pmm_refs (pg_pmm s) q"
    by auto
  have "pt_tree s root (insert (p, 0) A)" using tree unfolding pt_tree_def by (elim conjE, intro conjI) blast+
  then have "space_inv (s\<lparr>pg_pmm := m\<rparr>) root (R - {p}) (insert (p, 0) A)" using p(5) by (simp add: space_inv_def)
  moreover have "maps s R A (s\<lparr>pg_pmm := m\<rparr>) (R - {p}) (insert (p, 0) A) root {}"
    using p(7) by (auto simp: maps_def same_regs_def table_at_def)
  moreover have "card R = Suc (card (R - {p}))" using avail_finite [OF av] p(4) by (metis card_Suc_Diff1)
  ultimately show thesis using that p by blast
qed

text \<open>
  The loop of \<open>kheap_extend\<close> over \<open>n\<close> pages: it ends, and it can only stop early when fewer
  than four frames per page were free.
\<close>

definition extend_result :: "nat \<Rightarrow> paging \<Rightarrow> nat set \<Rightarrow> (nat \<times> nat) set \<Rightarrow> nat \<Rightarrow> u64 \<Rightarrow> (bool \<times> paging) outcome option \<Rightarrow> bool" where
  "extend_result root s R A n v r \<longleftrightarrow>
     (r = Some Halt \<and> card R < 4 * n) \<or>
     (\<exists>s' R' A'. r = Some (Ok (False, s')) \<and> card R < 4 * n \<and>
        space_inv s' root R' A' \<and> maps s R A s' R' A' root (page_indices v n)) \<or>
     (\<exists>s' R' A'. r = Some (Ok (True, s')) \<and> card R' + n \<le> card R \<and>
        space_inv s' root R' A' \<and> maps s R A s' R' A' root (page_indices v n) \<and>
        (\<forall>m<n. \<exists>p\<in>R. translate s' root (v + of_nat (4096 * m)) = Some (heap_entry p, False)))"

lemma page_in_indices: "0 < n \<Longrightarrow> vm_index v \<in> page_indices v n"
  by (force simp: page_indices_def)

lemma page_indices_later:
  assumes "unat v + 4096 * Suc n < 2 ^ 64" "Suc n \<le> 2 ^ 36"
  shows "vm_index v \<notin> page_indices (v + 4096) n"
proof
  assume "vm_index v \<in> page_indices (v + 4096) n"
  then obtain m where m: "m < n" "vm_index v = vm_index (v + 4096 + of_nat (4096 * m))" unfolding page_indices_def by blast
  have "v + 4096 + of_nat (4096 * m) = v + of_nat (4096 * Suc m)" by (simp add: algebra_simps)
  moreover have "vm_index (v + of_nat (4096 * Suc m)) \<noteq> vm_index v"
    using m(1) assms by (intro page_index_apart) simp_all
  ultimately show False using m(2) by metis
qed

lemma maps_mono: "maps s R A s' R' A' root X \<Longrightarrow> X \<subseteq> Y \<Longrightarrow> maps s R A s' R' A' root Y"
  unfolding maps_def using same_translation_mono by blast

lemma extend_loop_result:
  assumes "space_inv s root R A" "unat v + 4096 * n < 2 ^ 64" "v \<noteq> 0" "n \<le> 2 ^ 36"
    and "to_virt s (page_to_phys root) \<noteq> 0"
    and "\<And>m e. m < n \<Longrightarrow> translate s root (v + of_nat (4096 * m)) \<noteq> Some (e, True)"
  shows "extend_result root s R A n v (extend_loop s (page_to_phys root) v (v + of_nat (4096 * n)))"
  using assms
proof (induction n arbitrary: s R A v)
  case 0
  have "extend_loop s (page_to_phys root) v (v + of_nat (4096 * 0)) = Some (Ok (True, s))"
    by (subst extend_loop.simps) simp
  then show ?case using 0(1) maps_refl [of s R A root] by (fastforce simp: extend_result_def)
next
  case (Suc n)
  let ?r = "extend_loop s (page_to_phys root) v (v + of_nat (4096 * Suc n))"
  have less: "v < v + of_nat (4096 * Suc n)"
    unfolding word_less_nat_alt unat_page_offset [OF Suc.prems(2)] by simp
  have av: "pmm_avail (pg_pmm s) R A" using Suc.prems(1) by (simp add: space_inv_def)
  show ?case
  proof (cases "R = {}")
    case True
    with av obtain m where m: "pmm_alloc (pg_pmm s) 4096 = Ok (0, m)" "pmm_avail m {} A" "pmm_refs m = pmm_refs (pg_pmm s)"
      using pmm_frames.take_none by blast
    have "?r = Some (Ok (False, s\<lparr>pg_pmm := m\<rparr>))"
      using less m(1) by (subst extend_loop.simps) (simp add: PAGING_PAGE_SIZE_def)
    moreover have "space_inv (s\<lparr>pg_pmm := m\<rparr>) root {} A" using Suc.prems(1) m(2) by (simp add: space_inv_def)
    moreover have "maps s R A (s\<lparr>pg_pmm := m\<rparr>) {} A root (page_indices v (Suc n))"
      using m(3) True by (auto simp: maps_def same_regs_def table_at_def)
    ultimately show ?thesis using True by (auto simp: extend_result_def)
  next
    case False
    from take_frame_space [OF Suc.prems(1) False] obtain p m where
      p: "pmm_alloc (pg_pmm s) 4096 = Ok (page_to_phys p, m)" "p \<in> R" "p < 2 ^ 40" "page_to_phys p \<noteq> 0"
        "space_inv (s\<lparr>pg_pmm := m\<rparr>) root (R - {p}) (insert (p, 0) A)"
        "maps s R A (s\<lparr>pg_pmm := m\<rparr>) (R - {p}) (insert (p, 0) A) root {}" "card R = Suc (card (R - {p}))"
      by metis
    let ?s = "s\<lparr>pg_pmm := m\<rparr>"
    let ?rv = "to_virt s (page_to_phys root)"
    let ?fl = "PTE_FLAG_RW OR PTE_FLAG_GLOBAL"
    have tr: "translate ?s = translate s" by (simp add: fun_eq_iff translate_def)
    have nh: "translate ?s root v \<noteq> Some (e, True)" for e using Suc.prems(6) [of 0 e] tr by simp
    have unfold: "?r = (case paging_map_page ?s ?rv v (page_to_phys p) ?fl False of
        Ok s \<Rightarrow> extend_loop s (page_to_phys root) (v + 4096) (v + of_nat (4096 * Suc n))
      | Halt \<Rightarrow> Some Halt | Spin \<Rightarrow> Some Spin | Block \<Rightarrow> Some Block | Fault \<Rightarrow> Some Fault)"
      using less p(1,4) by (subst extend_loop.simps) (simp add: PAGING_PAGE_SIZE_def cong: outcome.case_cong)
    have rvs: "to_virt ?s (page_to_phys root) = ?rv" by simp
    from map_page_step [OF p(5) Suc.prems(3) _ nh, of "page_to_phys p" ?fl] Suc.prems(5) consider
        (halt) "card (R - {p}) < 3" "paging_map_page ?s ?rv v (page_to_phys p) ?fl False = Halt"
      | (mapped) s1 R1 A1 where "paging_map_page ?s ?rv v (page_to_phys p) ?fl False = Ok s1"
         "space_inv s1 root R1 A1" "maps ?s (R - {p}) (insert (p, 0) A) s1 R1 A1 root {vm_index v}"
         "card (R - {p}) \<le> card R1 + 3"
         "translate s1 root v = Some (align_phys (page_to_phys p) False OR ?fl OR PTE_FLAG_PRESENT, False)"
      unfolding rvs by blast
    then show ?thesis
    proof cases
      case halt
      then show ?thesis using unfold p(7) by (simp add: extend_result_def)
    next
      case mapped
      have off: "v + 4096 + of_nat (4096 * m) = v + of_nat (4096 * Suc m)" for m by (simp add: algebra_simps)
      have m1: "maps s R A s1 R1 A1 root {vm_index v}" using maps_trans [OF p(6) mapped(3)] by simp
      have rv: "to_virt s1 (page_to_phys root) = ?rv" by (simp only: mapsD(6) [OF m1])
      have tr1: "translate s1 root v = Some (heap_entry p, False)"
        using mapped(5) align_phys_page [OF p(3)] by (simp add: heap_entry_def)
      have v1: "unat (v + 4096) = unat v + 4096" using unat_page_offset [of v 1] Suc.prems(2) by simp
      have "R1 \<subseteq> R - {p}" using mapsD(3) [OF mapped(3)] .
      moreover have fR: "finite R" using avail_finite [OF av] .
      ultimately have c1: "card R1 + 1 \<le> card R" using p(7) card_mono [of "R - {p}" R1] by simp
      have "extend_result root s1 R1 A1 n (v + 4096) (extend_loop s1 (page_to_phys root) (v + 4096) (v + 4096 + of_nat (4096 * n)))"
      proof (rule Suc.IH [OF mapped(2)])
        show "unat (v + 4096) + 4096 * n < 2 ^ 64" using v1 Suc.prems(2) by simp
        show "v + 4096 \<noteq> 0" using v1 by (auto simp: unat_eq_zero)
        show "n \<le> 2 ^ 36" "to_virt s1 (page_to_phys root) \<noteq> 0" using Suc.prems(4,5) rv by simp_all
        fix i e assume "i < n"
        then have "vm_index (v + of_nat (4096 * Suc i)) \<noteq> vm_index v"
          using Suc.prems(2,4) by (intro page_index_apart) simp_all
        then have "translate s1 root (v + of_nat (4096 * Suc i)) = translate s root (v + of_nat (4096 * Suc i))"
          by (intro translate_same [OF mapsD(2) [OF m1]]) simp
        then show "translate s1 root (v + 4096 + of_nat (4096 * i)) \<noteq> Some (e, True)"
          unfolding off using Suc.prems(6) [of "Suc i" e] \<open>i < n\<close> by simp
      qed
      moreover have "?r = extend_loop s1 (page_to_phys root) (v + 4096) (v + 4096 + of_nat (4096 * n))"
        unfolding unfold off by (simp add: mapped(1))
      ultimately have IH: "extend_result root s1 R1 A1 n (v + 4096) ?r" by metis
      have ext: "maps s R A s2 R2 A2 root (page_indices v (Suc n))"
        if "maps s1 R1 A1 s2 R2 A2 root (page_indices (v + 4096) n)" for s2 R2 A2
        using maps_trans [OF m1 that] by (simp add: page_indices_Suc)
      have few: "card R < 4 * Suc n" if "card R1 < 4 * n" using that mapped(4) p(7) by simp
      have all: "\<forall>i<Suc n. \<exists>q\<in>R. translate s2 root (v + of_nat (4096 * i)) = Some (heap_entry q, False)"
        if mp: "maps s1 R1 A1 s2 R2 A2 root (page_indices (v + 4096) n)"
          and pg: "\<forall>i<n. \<exists>q\<in>R1. translate s2 root (v + 4096 + of_nat (4096 * i)) = Some (heap_entry q, False)" for s2 R2 A2
      proof (intro allI impI)
        fix i assume "i < Suc n"
        show "\<exists>q\<in>R. translate s2 root (v + of_nat (4096 * i)) = Some (heap_entry q, False)"
        proof (cases i)
          case 0
          have "vm_index v \<notin> page_indices (v + 4096) n" using Suc.prems(2,4) by (intro page_indices_later)
          from translate_same [OF mapsD(2) [OF mp] this] show ?thesis using 0 tr1 p(2) by auto
        next
          case (Suc j)
          then show ?thesis using pg \<open>i < Suc n\<close> \<open>R1 \<subseteq> R - {p}\<close> unfolding off by fastforce
        qed
      qed
      from IH show ?thesis
        unfolding extend_result_def [of _ s1]
      proof (elim disjE exE conjE)
        assume "?r = Some Halt" "card R1 < 4 * n"
        then show ?thesis using few by (simp add: extend_result_def)
      next
        fix s2 R2 A2 assume a: "?r = Some (Ok (False, s2))" "card R1 < 4 * n" "space_inv s2 root R2 A2"
          "maps s1 R1 A1 s2 R2 A2 root (page_indices (v + 4096) n)"
        then show ?thesis unfolding extend_result_def using few ext [OF a(4)] by blast
      next
        fix s2 R2 A2 assume a: "?r = Some (Ok (True, s2))" "card R2 + n \<le> card R1" "space_inv s2 root R2 A2"
          "maps s1 R1 A1 s2 R2 A2 root (page_indices (v + 4096) n)"
          "\<forall>m<n. \<exists>p\<in>R1. translate s2 root (v + 4096 + of_nat (4096 * m)) = Some (heap_entry p, False)"
        have "card R2 + Suc n \<le> card R" using a(2) c1 by simp
        then show ?thesis unfolding extend_result_def using a(1,3) ext [OF a(4)] all [OF a(4,5)] by blast
      qed
    qed
  qed
qed

section \<open>The heap in its address space\<close>

text \<open>
  The heap with the page tables it grows into: the kernel's root table, no huge mapping in the
  part of the kernel's half that lies above the direct map, where the areas of the kernel, its
  image and the heap are, and too little memory to grow up to the end of the address space.
\<close>

definition kernel_base :: nat where
  "kernel_base = 2 ^ 64 - 2 ^ 46"

definition heap_env :: "kheap \<Rightarrow> nat \<Rightarrow> nat set \<Rightarrow> (nat \<times> nat) set \<Rightarrow> bool" where
  "heap_env s root R A \<longleftrightarrow> space_inv (kh_pg s) root R A \<and> kernel_pml4_phys (kh_pg s) = page_to_phys root \<and>
     to_virt (kh_pg s) (page_to_phys root) \<noteq> 0 \<and> kheap_end s \<noteq> 0 \<and> kernel_base \<le> unat (kheap_end s) \<and>
     (\<forall>v e. kernel_base \<le> unat v \<longrightarrow> translate (kh_pg s) root v \<noteq> Some (e, True)) \<and>
     unat (kheap_end s) + 4096 * (card R + 256) < 2 ^ 64"

lemma translate_index: "vm_index v = vm_index w \<Longrightarrow> translate s root v = translate s root w"
  by (simp add: translate_def)

lemma unat_lt_u64: "unat (w :: u64) < 2 ^ 64"
  using unsigned_less [of w, where ?'a = nat] by (simp del: unsigned_less)

lemma num_pages_ceil: "unat (num_pages sz) = (unat sz + 4095) div 4096"
proof -
  have m: "sz mod 4096 \<noteq> 0 \<longleftrightarrow> unat sz mod 4096 \<noteq> 0" by (simp add: unat_mod flip: unat_eq_zero)
  have d: "unat (sz div 4096) = unat sz div 4096" by (simp add: unat_div)
  have "unat sz \<le> 2 ^ 64 - 1" using unat_lt_u64 [of sz] by (intro less_Suc_eq_le [THEN iffD1]) (simp del: unsigned_less)
  from div_le_mono [OF this, of 4096] have "unat sz div 4096 < 2 ^ 64 - 1" by simp
  then have s: "unat (sz div 4096 + 1) = unat sz div 4096 + 1" using d by (simp add: unat_plus_if')
  obtain q r where qr: "unat sz = q * 4096 + r" "r < 4096" using div_mult_mod_eq [of "unat sz" 4096] mod_less_divisor by (metis zero_less_numeral)
  have "(unat sz + 4095) div 4096 = (if r = 0 then q else q + 1)"
  proof (cases "r = 0")
    case False
    then have "unat sz + 4095 = (q + 1) * 4096 + (r - 1)" using qr by simp
    then show ?thesis using False qr(2) by simp
  qed (simp add: qr)
  then show ?thesis using m d s qr by (simp add: num_pages_def PAGING_PAGE_SIZE_def)
qed

lemma kheap_extend_step:
  assumes rep: "heap_rep s bs" and inv: "space_inv (kh_pg s) root R A"
    and root: "kernel_pml4_phys (kh_pg s) = page_to_phys root" "to_virt (kh_pg s) (page_to_phys root) \<noteq> 0"
    and n: "num_pages sz = of_nat n" "0 < n" "n \<le> 2 ^ 36" "unat (kheap_end s) + 4096 * n < 2 ^ 64" and nz: "kheap_end s \<noteq> 0"
    and nh: "\<forall>m<n. \<forall>e. translate (kh_pg s) root (kheap_end s + of_nat (4096 * m)) \<noteq> Some (e, True)"
  shows "(kheap_extend s sz = Halt \<and> card R < 4 * n) \<or>
    (\<exists>pg R' A'. kheap_extend s sz = Ok (False, s\<lparr>kh_pg := pg\<rparr>) \<and> card R < 4 * n \<and> space_inv pg root R' A' \<and>
       maps (kh_pg s) R A pg R' A' root (page_indices (kheap_end s) n)) \<or>
    (\<exists>s' R' A'. kheap_extend s sz = Ok (True, s') \<and> heap_rep s' (grow bs (4096 * n)) \<and> space_inv (kh_pg s') root R' A' \<and>
       card R' + n \<le> card R \<and> maps (kh_pg s) R A (kh_pg s') R' A' root (page_indices (kheap_end s) n) \<and>
       (\<forall>m<n. \<exists>p\<in>R. translate (kh_pg s') root (kheap_end s + of_nat (4096 * m)) = Some (heap_entry p, False)) \<and>
       kh_procs s' = kh_procs s \<and> kheap_lock s' = kheap_lock s \<and> kheap_start s' = kheap_start s \<and>
       unat (kheap_end s') = unat (kheap_end s) + 4096 * n)"
proof -
  let ?r = "extend_loop (kh_pg s) (page_to_phys root) (kheap_end s) (kheap_end s + of_nat (4096 * n))"
  have res: "extend_result root (kh_pg s) R A n (kheap_end s) ?r"
    using nh by (intro extend_loop_result [OF inv n(4) nz n(3) root(2)]) blast
  have run: "kheap_extend s sz = obind (loop_outcome ?r) (\<lambda>(ok, pg).
      let s = s\<lparr>kh_pg := pg\<rparr> in if \<not> ok then Ok (False, s) else obind (append_pages s (of_nat n)) (\<lambda>s. Ok (True, s)))"
    by (simp add: kheap_extend_def n(1) paging_getKernelRoot_def root(1) PAGING_PAGE_SIZE_def mult.commute Let_def)
  from res show ?thesis
    unfolding extend_result_def
  proof (elim disjE exE conjE)
    assume "?r = Some Halt" "card R < 4 * n"
    then show ?thesis using run by (simp add: loop_outcome_def)
  next
    fix pg R' A' assume a: "?r = Some (Ok (False, pg))" "card R < 4 * n" "space_inv pg root R' A'"
      "maps (kh_pg s) R A pg R' A' root (page_indices (kheap_end s) n)"
    then have "kheap_extend s sz = Ok (False, s\<lparr>kh_pg := pg\<rparr>)" using run by (simp add: loop_outcome_def)
    then show ?thesis using a(2-4) by blast
  next
    fix pg R' A' assume a: "?r = Some (Ok (True, pg))" "card R' + n \<le> card R" "space_inv pg root R' A'"
      "maps (kh_pg s) R A pg R' A' root (page_indices (kheap_end s) n)"
      "\<forall>m<n. \<exists>p\<in>R. translate pg root (kheap_end s + of_nat (4096 * m)) = Some (heap_entry p, False)"
    have rep': "heap_rep (s\<lparr>kh_pg := pg\<rparr>) bs" using rep by simp
    from append_pages_list [OF rep' n(2)] n(4) obtain s' where
      s': "append_pages (s\<lparr>kh_pg := pg\<rparr>) (of_nat n) = Ok s'" "heap_rep s' (grow bs (4096 * n))" "kh_pg s' = pg"
        "kh_procs s' = kh_procs s" "kheap_lock s' = kheap_lock s" "kheap_start s' = kheap_start s"
        "unat (kheap_end s') = unat (kheap_end s) + 4096 * n"
      by auto
    have "kheap_extend s sz = Ok (True, s')" using run a(1) s'(1) by (simp add: loop_outcome_def)
    then show ?thesis using a(2-5) s'(2-) by auto
  qed
qed

lemma heap_env_pages:
  assumes env: "heap_env s root R A" and n: "n \<le> 256" and m: "m < n"
  shows "translate (kh_pg s) root (kheap_end s + of_nat (4096 * m)) \<noteq> Some (e, True)"
proof -
  have "unat (kheap_end s + of_nat (4096 * m)) = unat (kheap_end s) + 4096 * m"
    using env n m by (intro unat_page_offset) (simp add: heap_env_def)
  then have "kernel_base \<le> unat (kheap_end s + of_nat (4096 * m))" using env by (simp add: heap_env_def)
  then show ?thesis using env unfolding heap_env_def by blast
qed

text \<open>
  How the heap grows: the pages below its old end keep their translation, and every page from
  the old to the new end is mapped, writable, to one of the frames \<open>R\<close>.
\<close>

definition heap_grown :: "nat \<Rightarrow> nat set \<Rightarrow> kheap \<Rightarrow> kheap \<Rightarrow> bool" where
  "heap_grown root R s s' \<longleftrightarrow> unat (kheap_end s) \<le> unat (kheap_end s') \<and>
     (\<forall>v. kernel_base \<le> unat v \<longrightarrow> unat v div 4096 < unat (kheap_end s) div 4096 \<longrightarrow>
        translate (kh_pg s') root v = translate (kh_pg s) root v) \<and>
     (\<forall>v. unat (kheap_end s) div 4096 \<le> unat v div 4096 \<longrightarrow> unat v div 4096 < unat (kheap_end s') div 4096 \<longrightarrow>
        (\<exists>p\<in>R. translate (kh_pg s') root v = Some (heap_entry p, False)))"

lemma heap_grown_refl: "kh_pg s' = kh_pg s \<Longrightarrow> kheap_end s' = kheap_end s \<Longrightarrow> heap_grown root R s s'"
  unfolding heap_grown_def by simp

lemma heap_grown_trans:
  assumes "heap_grown root R s s1" "heap_grown root R1 s1 s2" "R1 \<subseteq> R" "kernel_base \<le> unat (kheap_end s)"
  shows "heap_grown root R s s2"
  unfolding heap_grown_def
proof (intro conjI allI impI)
  have le: "unat (kheap_end s) \<le> unat (kheap_end s1)" "unat (kheap_end s1) \<le> unat (kheap_end s2)"
    using assms(1,2) by (simp_all add: heap_grown_def)
  then show "unat (kheap_end s) \<le> unat (kheap_end s2)" by simp
  have d: "unat (kheap_end s) div 4096 \<le> unat (kheap_end s1) div 4096" using le(1) by (rule div_le_mono)
  fix v
  show "translate (kh_pg s2) root v = translate (kh_pg s) root v"
    if "kernel_base \<le> unat v" "unat v div 4096 < unat (kheap_end s) div 4096"
    using assms(1,2) that d unfolding heap_grown_def by simp
  assume v: "unat (kheap_end s) div 4096 \<le> unat v div 4096" "unat v div 4096 < unat (kheap_end s2) div 4096"
  show "\<exists>p\<in>R. translate (kh_pg s2) root v = Some (heap_entry p, False)"
  proof (cases "unat v div 4096 < unat (kheap_end s1) div 4096")
    case True
    have "kernel_base div 4096 \<le> unat v div 4096" using div_le_mono [OF assms(4), of 4096] v(1) by simp
    then have "kernel_base \<le> unat v" using div_mult_mod_eq [of "unat v" 4096] by (simp add: kernel_base_def)
    then show ?thesis using assms(1,2) True v(1) unfolding heap_grown_def by simp
  next
    case False
    then have "\<exists>p\<in>R1. translate (kh_pg s2) root v = Some (heap_entry p, False)"
      using assms(2) v(2) unfolding heap_grown_def by simp
    then show ?thesis using assms(3) by blast
  qed
qed

lemma grown_step:
  assumes "same_translation (kh_pg s) (kh_pg s') root (page_indices (kheap_end s) n)" and "kernel_base \<le> unat (kheap_end s)"
    and "unat (kheap_end s) + 4096 * n < 2 ^ 64" and "unat (kheap_end s') = unat (kheap_end s) + 4096 * k"
    and "\<And>m. m < k \<Longrightarrow> \<exists>p\<in>R. translate (kh_pg s') root (kheap_end s + of_nat (4096 * m)) = Some (heap_entry p, False)" and "k \<le> n"
  shows "heap_grown root R s s'"
  unfolding heap_grown_def
proof (intro conjI allI impI)
  let ?e = "unat (kheap_end s)"
  have e': "unat (kheap_end s') div 4096 = ?e div 4096 + k" using assms(4) by simp
  show "?e \<le> unat (kheap_end s')" using assms(4) by simp
  have page: "unat (kheap_end s + of_nat (4096 * m)) div 4096 = ?e div 4096 + m" if "m < n" for m
  proof -
    have "?e + 4096 * m < 2 ^ 64" using that assms(3) by simp
    then show ?thesis by (simp only: unat_page_offset)
  qed
  have top: "x div 4096 < 2 ^ 52" if "x < 2 ^ 64" for x :: nat using that by (simp add: div_less_iff_less_mult)
  have mod: "x mod 2 ^ 36 = y mod 2 ^ 36 \<longleftrightarrow> x = y" if "kernel_base div 4096 \<le> x" "kernel_base div 4096 \<le> y" "x < 2 ^ 52" "y < 2 ^ 52" for x y
  proof -
    have "x div 2 ^ 36 = 2 ^ 16 - 1" "y div 2 ^ 36 = 2 ^ 16 - 1" using that by (simp_all add: kernel_base_def div_nat_eqI)
    then show ?thesis by (metis div_mult_mod_eq)
  qed
  have low: "kernel_base div 4096 \<le> ?e div 4096" using assms(2) by (rule div_le_mono)
  fix v
  show "translate (kh_pg s') root v = translate (kh_pg s) root v" if v: "kernel_base \<le> unat v" "unat v div 4096 < ?e div 4096"
  proof (rule translate_same [OF assms(1)])
    have "kernel_base div 4096 \<le> unat v div 4096" using v(1) by (rule div_le_mono)
    moreover have "?e div 4096 + m < 2 ^ 52" if "m < n" for m
      using page [OF that] top [OF unat_lt_u64 [of "kheap_end s + of_nat (4096 * m)"]] by simp
    ultimately have "unat v div 4096 mod 2 ^ 36 \<noteq> (?e div 4096 + m) mod 2 ^ 36" if "m < n" for m
      using that v(2) low top [OF unat_lt_u64 [of v]] by (subst mod) simp_all
    then show "vm_index v \<notin> page_indices (kheap_end s) n" unfolding page_indices_def using page by (auto simp: vm_index_eq)
  qed
  assume v: "?e div 4096 \<le> unat v div 4096" "unat v div 4096 < unat (kheap_end s') div 4096"
  let ?m = "unat v div 4096 - ?e div 4096"
  have m: "?m < k" using v e' by simp
  have "vm_index v = vm_index (kheap_end s + of_nat (4096 * ?m))" unfolding vm_index_eq using page [of ?m] m v(1) assms(6) by simp
  then show "\<exists>p\<in>R. translate (kh_pg s') root v = Some (heap_entry p, False)"
    using assms(5) [OF m] translate_index [of v] by metis
qed

section \<open>The search for memory\<close>

lemma first_fit_used:
  assumes "first_fit sz bs = Some (off, bs')"
  shows "\<exists>n. sz \<le> n \<and> used 0 bs' = insert (off, n) (used 0 bs) \<and> (\<forall>(p, k)\<in>used 0 bs. off + 24 + n \<le> p \<or> p + 24 + k \<le> off) \<and>
    extent bs' = extent bs"
proof -
  from first_fit_split [OF assms] obtain xs m ys where
    bs: "bs = xs @ (m, True) # ys" "off = extent xs" "sz \<le> m" "bs' = xs @ split_free sz m @ ys" by blast
  define n where "n = (if 40 \<le> m - sz then sz else m)"
  have sp: "used c (split_free sz m @ ys) = insert (c, n) (used (c + 24 + m) ys)" for c
    using bs(3) by (auto simp: split_free_def n_def add.assoc)
  have n: "sz \<le> n" "n \<le> m" using bs(3) by (simp_all add: n_def)
  have us: "used 0 bs' = insert (off, n) (used 0 bs)"
    using used_append [of 0 xs "split_free sz m @ ys"] used_append [of 0 xs "(m, True) # ys"] sp [of "extent xs"] bs by simp
  have "off + 24 + n \<le> p \<or> p + 24 + k \<le> off" if "(p, k) \<in> used 0 bs" for p k
    using that n(2) used_range [of p k 0 xs] used_range [of p k "extent xs + 24 + m" ys]
    unfolding bs(1,2) used_append by auto
  moreover have "extent bs' = extent bs" using bs extent_split_free [OF bs(3)] by simp
  ultimately show ?thesis using n(1) us by blast
qed

text \<open>The result of a request of \<open>z\<close> bytes to a heap with the blocks \<open>bs\<close> that may have grown on the way.\<close>

definition granted :: "nat \<Rightarrow> nat set \<Rightarrow> kheap \<Rightarrow> blocks \<Rightarrow> nat \<Rightarrow> nat \<Rightarrow> u64 \<times> kheap \<Rightarrow> bool" where
  "granted root R s bs z T r \<longleftrightarrow> (case r of (p, s') \<Rightarrow> \<exists>bs' R' A'. heap_ok s' bs' \<and> heap_env s' root R' A' \<and>
     kheap_start s' = kheap_start s \<and> unat (kheap_end s') + 4096 * card R' \<le> T \<and> kh_procs s' = kh_procs s \<and> heap_grown root R s s' \<and>
     ((p = 0 \<and> used 0 bs' = used 0 bs) \<or>
      (\<exists>off n. p = of_nat (unat (kheap_start s) + off + 24) \<and> z \<le> n \<and> off + 24 + n \<le> extent bs' \<and>
         used 0 bs' = insert (off, n) (used 0 bs) \<and>
         (\<forall>(q, k)\<in>used 0 bs. off + 24 + n \<le> q \<or> q + 24 + k \<le> off))))"

lemma granted_mono:
  assumes "granted root R1 s1 bs1 z T r" "kheap_start s1 = kheap_start s" "kh_procs s1 = kh_procs s"
    "used 0 bs1 = used 0 bs" "T \<le> T'" "heap_grown root R s s1" "R1 \<subseteq> R" "kernel_base \<le> unat (kheap_end s)"
  shows "granted root R s bs z T' r"
proof -
  have "heap_grown root R s s'" if "heap_grown root R1 s1 s'" for s' by (rule heap_grown_trans [OF assms(6) that assms(7,8)])
  then show ?thesis using assms(1-5) unfolding granted_def by (fastforce split: prod.splits)
qed

lemma num_pages_amount: "num_pages KHEAP_EXTENDING_AMOUNT = of_nat 256" "num_pages KHEAP_STARTING_SIZE = of_nat 256"
  by (simp_all add: num_pages_def KHEAP_EXTENDING_AMOUNT_def KHEAP_STARTING_SIZE_def PAGING_PAGE_SIZE_def)

lemma release_pg_env:
  assumes "heap_locked s" "heap_rep s bs" "heap_env s root R A"
  shows "\<exists>s'. kheap_mutex_release s = Ok s' \<and> heap_ok s' bs \<and> heap_env s' root R A \<and> kheap_start s' = kheap_start s \<and>
    kheap_end s' = kheap_end s \<and> kh_procs s' = kh_procs s \<and> kh_pg s' = kh_pg s"
proof -
  from kheap_release_held [OF assms(1)] obtain m where
    "kheap_mutex_release s = Ok (s\<lparr>kheap_lock := m\<rparr>)" "heap_unlocked (s\<lparr>kheap_lock := m\<rparr>)" by blast
  then show ?thesis using assms(2,3) by (auto simp: heap_ok_def heap_env_def)
qed

lemma maps_env:
  assumes env: "heap_env s root R A"
    and mp: "maps (kh_pg s) R A pg R' A' root X" and inv: "space_inv pg root R' A'"
    and s': "kh_pg s' = pg" "unat (kheap_end s') = unat (kheap_end s) + 4096 * n" "card R' + n \<le> card R"
  shows "heap_env s' root R' A'"
  unfolding heap_env_def s'(1)
proof (intro conjI allI impI)
  have regs: "same_regs (kh_pg s) pg" using mp by (rule mapsD)
  show "space_inv pg root R' A'" by fact
  show "kernel_pml4_phys pg = page_to_phys root" "to_virt pg (page_to_phys root) \<noteq> 0"
    using env regs by (simp_all add: heap_env_def same_regs_def)
  have "0 < unat (kheap_end s)" using env by (simp add: heap_env_def unat_gt_0)
  then show "kheap_end s' \<noteq> 0" using s'(2) by (auto simp flip: unat_gt_0)
  show "kernel_base \<le> unat (kheap_end s')" using env s'(2) by (simp add: heap_env_def)
  show "translate pg root v \<noteq> Some (e, True)" if "kernel_base \<le> unat v" for v e
    using mapsD(8) [OF mp, of v e] env that unfolding heap_env_def by auto
  show "unat (kheap_end s') + 4096 * (card R' + 256) < 2 ^ 64" using env s'(2,3) by (simp add: heap_env_def)
qed

text \<open>No free block fits and the heap cannot grow by enough pages.\<close>

definition exhausted :: "blocks \<Rightarrow> nat \<Rightarrow> nat \<Rightarrow> bool" where
  "exhausted bs k z \<longleftrightarrow> first_fit z bs = None \<and> (k < 4 * 256 \<or> 4096 * 256 - 24 < z)"

lemma first_fit_grow:
  assumes "z \<le> k - 24"
  shows "first_fit z (grow bs k) \<noteq> None"
  by (cases rule: grow_cases [of bs k]) (use assms in \<open>auto simp: first_fit_None not_less\<close>)

lemma kmalloc_loop_granted:
  assumes "heap_rep s bs" "heap_locked s" "heap_env s root R A"
  shows "(kmalloc_loop s z = Some Halt \<and> exhausted bs (card R) (unat z)) \<or>
    (\<exists>r. kmalloc_loop s z = Some (Ok r) \<and> granted root R s bs (unat z) (unat (kheap_end s) + 4096 * card R) r \<and>
      (fst r = 0 \<longrightarrow> exhausted bs (card R) (unat z)))"
  using assms
proof (induction "card R" arbitrary: s bs R A rule: less_induct)
  case less
  let ?a = "unat (kheap_start s)"
  note rep = less.prems(1) and locked = less.prems(2) and env = less.prems(3)
  have find: "loop_outcome (find_block (kh_nodes s) (kheap_head s) z) =
      Ok (case first_fit (unat z) bs of None \<Rightarrow> 0 | Some (off, _) \<Rightarrow> of_nat (?a + off))"
    using find_block_list [of "kh_nodes s" ?a bs z] rep heap_rep_bound [OF rep] by (simp add: heap_rep_def loop_outcome_def)
  show ?case
  proof (cases "first_fit (unat z) bs")
    case (Some x)
    then obtain off bs' where fit: "first_fit (unat z) bs = Some (off, bs')" by (cases x) simp
    from take_block_list [OF rep fit] obtain h where
      h: "take_block s (of_nat (?a + off)) z = Ok (s\<lparr>kh_nodes := h\<rparr>)" "heap_rep (s\<lparr>kh_nodes := h\<rparr>) bs'" by blast
    have "heap_locked (s\<lparr>kh_nodes := h\<rparr>)" "heap_env (s\<lparr>kh_nodes := h\<rparr>) root R A"
      using locked env by (simp_all add: heap_env_def)
    from release_pg_env [OF this(1) h(2) this(2)] obtain s' where
      s': "kheap_mutex_release (s\<lparr>kh_nodes := h\<rparr>) = Ok s'" "heap_ok s' bs'" "heap_env s' root R A"
        "kheap_start s' = kheap_start s" "kheap_end s' = kheap_end s" "kh_procs s' = kh_procs s" "kh_pg s' = kh_pg s"
      by auto
    from first_fit_used [OF fit] obtain n where
      n: "unat z \<le> n" "used 0 bs' = insert (off, n) (used 0 bs)"
        "\<forall>(p, k)\<in>used 0 bs. off + 24 + n \<le> p \<or> p + 24 + k \<le> off" by blast
    have mem: "(off, n) \<in> used 0 bs'" using n(2) by simp
    have in_ext: "off + 24 + n \<le> extent bs'" using used_range [OF mem] by simp
    have "heap_rep s' bs'" using s'(2) by (simp add: heap_ok_def)
    then have "(of_nat (?a + off) :: u64) \<noteq> 0"
      using in_ext heap_rep_bound [of s' bs'] s'(4) rep by (intro of_nat_u64_0) (simp_all add: heap_rep_def)
    then have "kmalloc_loop s z = Some (Ok (of_nat (?a + off) + sizeof_kheap_node, s'))"
      using fit by (subst kmalloc_loop.simps) (simp add: find h(1) s'(1) del: of_nat_add)
    moreover have "of_nat (?a + off) + sizeof_kheap_node = (of_nat (?a + off + 24) :: u64)" by (simp add: sizeof_kheap_node_def)
    moreover have "granted root R s bs (unat z) (unat (kheap_end s) + 4096 * card R) (of_nat (?a + off + 24), s')"
      unfolding granted_def prod.case using s'(2-6) n in_ext heap_grown_refl [OF s'(7,5)] by (intro exI [of _ bs'] exI [of _ R] exI [of _ A]) auto
    moreover have "(of_nat (?a + off + 24) :: u64) \<noteq> 0"
      using in_ext \<open>heap_rep s' bs'\<close> heap_rep_bound [of s' bs'] s'(4) by (intro of_nat_u64_0) (simp_all add: heap_rep_def)
    ultimately show ?thesis by (metis fst_conv)
  next
    case None
    have nz: "kheap_end s \<noteq> 0" and inv: "space_inv (kh_pg s) root R A"
      and rt: "kernel_pml4_phys (kh_pg s) = page_to_phys root" "to_virt (kh_pg s) (page_to_phys root) \<noteq> 0"
      and bound: "unat (kheap_end s) + 4096 * 256 < 2 ^ 64"
      using env by (simp_all add: heap_env_def)
    have pages: "\<forall>m<256. \<forall>e. translate (kh_pg s) root (kheap_end s + of_nat (4096 * m)) \<noteq> Some (e, True)"
      using heap_env_pages [OF env order_refl] by blast
    have unfold: "kmalloc_loop s z = (case kheap_extend s KHEAP_EXTENDING_AMOUNT of
         Ok (ok, s) \<Rightarrow> if \<not> ok then Some (obind (kheap_mutex_release s) (\<lambda>s. Ok (0, s))) else kmalloc_loop s z
       | Halt \<Rightarrow> Some Halt | Spin \<Rightarrow> Some Spin | Block \<Rightarrow> Some Block | Fault \<Rightarrow> Some Fault)"
      using None by (subst kmalloc_loop.simps) (simp add: find)
    have "0 < (256 :: nat)" "(256 :: nat) \<le> 2 ^ 36" by simp_all
    from kheap_extend_step [OF rep inv rt num_pages_amount(1) this bound nz pages] show ?thesis
    proof (elim disjE exE conjE)
      assume "kheap_extend s KHEAP_EXTENDING_AMOUNT = Halt" "card R < 4 * 256"
      then show ?thesis using unfold None by (simp add: exhausted_def)
    next
      fix pg R' A'
      assume e: "kheap_extend s KHEAP_EXTENDING_AMOUNT = Ok (False, s\<lparr>kh_pg := pg\<rparr>)" "space_inv pg root R' A'"
        "maps (kh_pg s) R A pg R' A' root (page_indices (kheap_end s) 256)" "card R < 4 * 256"
      have c: "card R' + 0 \<le> card R" using mapsD(3) [OF e(3)] avail_finite [of "pg_pmm (kh_pg s)" R A] inv
        by (simp add: space_inv_def card_mono)
      let ?s = "s\<lparr>kh_pg := pg\<rparr>"
      have "heap_env ?s root R' A'" by (rule maps_env [OF env e(3,2) _ _ c]) simp_all
      moreover have "heap_locked ?s" "heap_rep ?s bs" using locked rep by simp_all
      ultimately obtain s' where
        s': "kheap_mutex_release ?s = Ok s'" "heap_ok s' bs" "heap_env s' root R' A'"
          "kheap_start s' = kheap_start s" "kheap_end s' = kheap_end s" "kh_procs s' = kh_procs s" "kh_pg s' = pg"
        using release_pg_env [of ?s bs root R' A'] by auto
      have "heap_grown root R s s'"
        by (rule grown_step [where n = 256 and k = 0]) (use mapsD(2) [OF e(3)] env bound s'(5,7) in \<open>simp_all add: heap_env_def\<close>)
      have "kmalloc_loop s z = Some (Ok (0, s'))" using unfold e(1) s'(1) by simp
      moreover have "granted root R s bs (unat z) (unat (kheap_end s) + 4096 * card R) (0, s')"
        unfolding granted_def prod.case using s'(2-6) c \<open>heap_grown root R s s'\<close> by (intro exI [of _ bs] exI [of _ R'] exI [of _ A']) auto
      moreover have "exhausted bs (card R) (unat z)" using None e(4) by (simp add: exhausted_def)
      ultimately show ?thesis by blast
    next
      fix s1 R' A'
      assume e: "kheap_extend s KHEAP_EXTENDING_AMOUNT = Ok (True, s1)" "heap_rep s1 (grow bs (4096 * 256))"
        "space_inv (kh_pg s1) root R' A'" "card R' + 256 \<le> card R"
        "maps (kh_pg s) R A (kh_pg s1) R' A' root (page_indices (kheap_end s) 256)"
        "\<forall>m<256. \<exists>p\<in>R. translate (kh_pg s1) root (kheap_end s + of_nat (4096 * m)) = Some (heap_entry p, False)"
        "kh_procs s1 = kh_procs s" "kheap_lock s1 = kheap_lock s" "kheap_start s1 = kheap_start s"
        "unat (kheap_end s1) = unat (kheap_end s) + 4096 * 256"
      have env1: "heap_env s1 root R' A'" by (rule maps_env [OF env e(5,3) refl e(10,4)])
      have lk1: "heap_locked s1" using locked e(7,8) by (simp add: heap_locked_def)
      have base: "kernel_base \<le> unat (kheap_end s)" using env by (simp add: heap_env_def)
      have grown: "heap_grown root R s s1"
        by (rule grown_step [OF mapsD(2) [OF e(5)] base bound e(10)]) (use e(6) in simp_all)
      have "R' \<subseteq> R" using e(5) by (rule mapsD)
      have "card R' < card R" using e(4) by simp
      from less.hyps [OF this e(2) lk1 env1]
      have "(kmalloc_loop s1 z = Some Halt \<and> exhausted (grow bs (4096 * 256)) (card R') (unat z)) \<or>
        (\<exists>r. kmalloc_loop s1 z = Some (Ok r) \<and> granted root R' s1 (grow bs (4096 * 256)) (unat z) (unat (kheap_end s1) + 4096 * card R') r \<and>
          (fst r = 0 \<longrightarrow> exhausted (grow bs (4096 * 256)) (card R') (unat z)))" .
      moreover have "exhausted (grow bs (4096 * 256)) (card R') (unat z) \<Longrightarrow> exhausted bs (card R) (unat z)"
        using None first_fit_grow [of "unat z" "4096 * 256" bs] unfolding exhausted_def by (meson not_less)
      moreover have "unat (kheap_end s1) + 4096 * card R' \<le> unat (kheap_end s) + 4096 * card R" using e(4,10) by simp
      moreover have "kmalloc_loop s z = kmalloc_loop s1 z" using unfold e(1) by simp
      ultimately show ?thesis
        using granted_mono [OF _ e(9,7) used_grow _ grown \<open>R' \<subseteq> R\<close> base] by metis
    qed
  qed
qed

end
