(* ===== verification/Kheap_Contract.thy ===== *)
theory Kheap_Contract
  imports Kheap_Props
begin

text \<open>
  The interface of the kernel heap to its clients, and its contract: blocks that are handed
  out are apart from each other, live until they are freed, and allocation always returns.
\<close>

section \<open>The interface\<close>

locale kernel_heap =
  fixes live :: "'s \<Rightarrow> (u64 \<rightharpoonup> nat) \<Rightarrow> bool"
    and alloc :: "'s \<Rightarrow> u64 \<Rightarrow> (u64 \<times> 's) outcome"
    and free_mem :: "'s \<Rightarrow> u64 \<Rightarrow> 's outcome"
    and room :: "'s \<Rightarrow> u64 \<Rightarrow> bool"
  assumes alloc_result: "live s L \<Longrightarrow> alloc s z = Halt \<or> (\<exists>s'. alloc s z = Ok (0, s') \<and> live s' L) \<or>
      (\<exists>p s' n. alloc s z = Ok (p, s') \<and> p \<noteq> 0 \<and> p \<notin> dom L \<and> unat (round_size z) \<le> n \<and> live s' (L(p \<mapsto> n)))"
    and alloc_room: "room s z \<Longrightarrow> \<exists>p s'. alloc s z = Ok (p, s') \<and> p \<noteq> 0"
    and free_live: "live s L \<Longrightarrow> L p = Some n \<Longrightarrow> \<exists>s'. free_mem s p = Ok s' \<and> live s' (L(p := None))"
    and free_null: "free_mem s 0 = Ok s"
    and live_null: "live s L \<Longrightarrow> 0 \<notin> dom L"
    and live_apart: "live s L \<Longrightarrow> L p = Some n \<Longrightarrow> L q = Some m \<Longrightarrow> p \<noteq> q \<Longrightarrow>
      unat p + n \<le> unat q \<or> unat q + m \<le> unat p"
begin

text \<open>A block that is allocated and freed leaves the live blocks as they were.\<close>

lemma alloc_free:
  assumes "live s L" "alloc s z = Ok (p, s')"
  shows "\<exists>s''. free_mem s' p = Ok s'' \<and> live s'' L"
proof (cases "p = 0")
  case True
  then show ?thesis using alloc_result [OF assms(1), of z] assms(2) free_null by auto
next
  case False
  then obtain n where n: "p \<notin> dom L" "live s' (L(p \<mapsto> n))" using alloc_result [OF assms(1), of z] assms(2) by auto
  have "(L(p \<mapsto> n))(p := None) = L" using n(1) by (auto simp: fun_eq_iff)
  then show ?thesis using free_live [OF n(2), of p n] by simp
qed

text \<open>A new block is apart from every live one.\<close>

lemma alloc_apart:
  assumes "live s L" "alloc s z = Ok (p, s')" "p \<noteq> 0" "L q = Some m"
  shows "unat p + unat (round_size z) \<le> unat q \<or> unat q + m \<le> unat p"
proof -
  obtain n where n: "p \<notin> dom L" "live s' (L(p \<mapsto> n))" "unat (round_size z) \<le> n"
    using alloc_result [OF assms(1), of z] assms(2,3) by auto
  have "p \<noteq> q" using n(1) assms(4) by auto
  then show ?thesis using live_apart [OF n(2), of p n q m] n(3) assms(4) by auto
qed

end

section \<open>The heap of the kernel provides it\<close>

definition lives :: "kheap \<Rightarrow> blocks \<Rightarrow> (u64 \<rightharpoonup> nat) \<Rightarrow> bool" where
  "lives s bs L \<longleftrightarrow> (\<forall>p n. L p = Some n \<longleftrightarrow> (\<exists>off. (off, n) \<in> used 0 bs \<and> p = of_nat (unat (kheap_start s) + off + 24)))"

definition heap_live :: "nat \<Rightarrow> kheap \<Rightarrow> (u64 \<rightharpoonup> nat) \<Rightarrow> bool" where
  "heap_live root s L \<longleftrightarrow> (\<exists>bs R A. heap_ok s bs \<and> heap_env s root R A \<and> lives s bs L)"

definition heap_room :: "nat \<Rightarrow> kheap \<Rightarrow> u64 \<Rightarrow> bool" where
  "heap_room root s z \<longleftrightarrow>
     (\<exists>bs R A. heap_ok s bs \<and> heap_env s root R A \<and> \<not> exhausted bs (card R) (unat (round_size z)))"

lemma used_addr:
  assumes "heap_rep s bs" "(off, n) \<in> used 0 bs"
  shows "unat (of_nat (unat (kheap_start s) + off + 24) :: u64) = unat (kheap_start s) + off + 24"
    "unat (kheap_start s) + off + 24 + n \<le> unat (kheap_end s)"
proof -
  show "unat (kheap_start s) + off + 24 + n \<le> unat (kheap_end s)"
    using used_range [OF assms(2)] assms(1) by (simp add: heap_rep_def)
  then show "unat (of_nat (unat (kheap_start s) + off + 24) :: u64) = unat (kheap_start s) + off + 24"
    using unat_lt_u64 [of "kheap_end s"] by (intro unat_of_nat_u64) linarith
qed

lemma kmalloc_granted:
  assumes ok: "heap_ok s bs" and env: "heap_env s root R A"
  shows "(kmalloc s z = Halt \<and> exhausted bs (card R) (unat (round_size z))) \<or>
    (\<exists>r. kmalloc s z = Ok r \<and> granted root R s bs (unat (round_size z)) (unat (kheap_end s) + 4096 * card R) r \<and>
      (fst r = 0 \<longrightarrow> exhausted bs (card R) (unat (round_size z))))"
proof -
  have rep: "heap_rep s bs" and un: "heap_unlocked s" using ok by (simp_all add: heap_ok_def)
  from kheap_acquire_free [OF un] obtain m where
    acq: "kheap_mutex_acquire s = Ok (s\<lparr>kheap_lock := m\<rparr>)" "heap_locked (s\<lparr>kheap_lock := m\<rparr>)" by blast
  have "heap_rep (s\<lparr>kheap_lock := m\<rparr>) bs" "heap_env (s\<lparr>kheap_lock := m\<rparr>) root R A"
    using rep env by (simp_all add: heap_env_def)
  from kmalloc_loop_granted [OF this(1) acq(2) this(2), of "round_size z"]
  have "(kmalloc s z = Halt \<and> exhausted bs (card R) (unat (round_size z))) \<or>
    (\<exists>r. kmalloc s z = Ok r \<and> granted root R (s\<lparr>kheap_lock := m\<rparr>) bs (unat (round_size z)) (unat (kheap_end s) + 4096 * card R) r \<and>
      (fst r = 0 \<longrightarrow> exhausted bs (card R) (unat (round_size z))))"
    using acq(1) by (auto simp: kmalloc_def loop_outcome_def)
  moreover have "granted root R s bs x T r" if "granted root R (s\<lparr>kheap_lock := m\<rparr>) bs x T r" for x T r
    using that by (simp add: granted_def heap_grown_def)
  ultimately show ?thesis by blast
qed

lemma lives_insert:
  assumes L: "lives s bs L" and st: "kheap_start s' = kheap_start s" and rep: "heap_rep s' bs'"
    and us: "used 0 bs' = insert (off, n) (used 0 bs)" and p: "p = of_nat (unat (kheap_start s) + off + 24)"
    and ap: "\<forall>(q, k)\<in>used 0 bs. off + 24 + n \<le> q \<or> q + 24 + k \<le> off"
  shows "lives s' bs' (L(p \<mapsto> n))" "p \<notin> dom L" "p \<noteq> 0"
proof -
  have inj: "of_nat (unat (kheap_start s) + o1 + 24) = (of_nat (unat (kheap_start s) + o2 + 24) :: u64) \<longleftrightarrow> o1 = o2"
    if "(o1, n1) \<in> used 0 bs'" "(o2, n2) \<in> used 0 bs'" for o1 o2 n1 n2
    using used_addr(1) [OF rep that(1)] used_addr(1) [OF rep that(2)] st by (metis add_left_imp_eq add_right_imp_eq)
  have new: "(off, n) \<in> used 0 bs'" using us by simp
  have fresh: "o1 \<noteq> off" if "(o1, k) \<in> used 0 bs" for o1 k using ap that by fastforce
  show "p \<notin> dom L"
  proof
    assume "p \<in> dom L"
    then obtain k o1 where "(o1, k) \<in> used 0 bs" "p = of_nat (unat (kheap_start s) + o1 + 24)" using L unfolding lives_def by blast
    then show False using inj [OF _ new, of o1 k] us p fresh by auto
  qed
  have "0 < unat p" using used_addr(1) [OF rep new] p st by simp
  then show "p \<noteq> 0" by auto
  show "lives s' bs' (L(p \<mapsto> n))"
    unfolding lives_def st
  proof (intro allI)
    fix q k
    show "(L(p \<mapsto> n)) q = Some k \<longleftrightarrow> (\<exists>o1. (o1, k) \<in> used 0 bs' \<and> q = of_nat (unat (kheap_start s) + o1 + 24))"
    proof (cases "q = p")
      case True
      have "k = n" if "(o1, k) \<in> used 0 bs'" "p = of_nat (unat (kheap_start s) + o1 + 24)" for o1
        using that us p inj [OF that(1) new] fresh [of o1 k] by auto
      then show ?thesis using True new p by auto
    next
      case False
      then have "(\<exists>o1. (o1, k) \<in> used 0 bs' \<and> q = of_nat (unat (kheap_start s) + o1 + 24)) \<longleftrightarrow>
        (\<exists>o1. (o1, k) \<in> used 0 bs \<and> q = of_nat (unat (kheap_start s) + o1 + 24))" using us p by auto
      then show ?thesis using False L unfolding lives_def by simp
    qed
  qed
qed

lemma kfree_live:
  assumes ok: "heap_ok s bs" and us: "(off, n) \<in> used 0 bs"
  shows "\<exists>s' bs'. kfree s (of_nat (unat (kheap_start s) + off + 24)) = Ok s' \<and> heap_ok s' bs' \<and> same_heap s s' \<and>
    used 0 bs' = used 0 bs - {(off, n)} \<and> extent bs' = extent bs \<and> apart_free bs'"
proof -
  from used_split [OF us] obtain xs ys where bs: "bs = xs @ (n, False) # ys" "off = extent xs" by auto
  let ?bs = "merge (xs @ (n, True) # ys)"
  from kfree_used [OF ok bs(1)] obtain s' where
    s': "kfree s (of_nat (unat (kheap_start s) + off + 24)) = Ok s'" "heap_ok s' ?bs" "same_heap s s'"
    unfolding bs(2) by blast
  have "(off, n) \<notin> used 0 xs" "(off, n) \<notin> used (off + 24 + n) ys"
    using used_range [of off n 0 xs] used_range [of off n "off + 24 + n" ys] bs(2) by auto
  then have "used 0 ?bs = used 0 bs - {(off, n)}"
    unfolding merge_used bs(1) used_append using bs(2) by auto
  moreover have "extent ?bs = extent bs" unfolding merge_extent bs(1) by simp
  ultimately show ?thesis using s' merge_apart by blast
qed

lemma heap_env_same: "heap_env s root R A \<Longrightarrow> same_heap s s' \<Longrightarrow> heap_env s' root R A"
  by (simp add: heap_env_def same_heap_def)

lemma lives_remove:
  assumes L: "lives s bs L" and st: "kheap_start s' = kheap_start s" and rep: "heap_rep s bs"
    and us: "used 0 bs' = used 0 bs - {(off, n)}" "(off, n) \<in> used 0 bs" and p: "p = of_nat (unat (kheap_start s) + off + 24)"
  shows "lives s' bs' (L(p := None))"
  unfolding lives_def st
proof (intro allI)
  fix q k
  have "q = p \<longleftrightarrow> (o1, k) = (off, n)" if o1: "(o1, k) \<in> used 0 bs" "q = of_nat (unat (kheap_start s) + o1 + 24)" for o1
  proof -
    have "q = p \<longleftrightarrow> o1 = off"
      using used_addr(1) [OF rep o1(1)] used_addr(1) [OF rep us(2)] o1(2) p by (metis add_left_imp_eq add_right_imp_eq)
    moreover have "k = n" if "o1 = off" using used_disjoint [OF o1(1) us(2)] that by auto
    ultimately show ?thesis by auto
  qed
  then show "(L(p := None)) q = Some k \<longleftrightarrow> (\<exists>o1. (o1, k) \<in> used 0 bs' \<and> q = of_nat (unat (kheap_start s) + o1 + 24))"
    using L unfolding lives_def us by auto
qed

interpretation kernel_blocks: kernel_heap "heap_live root" kmalloc kfree "heap_room root" for root
proof
  fix s L z p q n m
  show "\<exists>p s'. kmalloc s z = Ok (p, s') \<and> p \<noteq> 0" if "heap_room root s z"
    using that kmalloc_granted [of s _ root _ _ z] unfolding heap_room_def by fastforce
  show "kfree s 0 = Ok s" by (simp add: kfree_def)
  assume "heap_live root s L"
  then obtain bs R A where ok: "heap_ok s bs" and env: "heap_env s root R A" and L: "lives s bs L"
    by (auto simp: heap_live_def)
  have rep: "heap_rep s bs" using ok by (simp add: heap_ok_def)
  show "0 \<notin> dom L"
  proof
    assume "0 \<in> dom L"
    then obtain k o1 where "(o1, k) \<in> used 0 bs" "0 = (of_nat (unat (kheap_start s) + o1 + 24) :: u64)"
      using L unfolding lives_def by blast
    then show False using used_addr(1) [OF rep, of o1 k] by simp
  qed
  show "unat p + n \<le> unat q \<or> unat q + m \<le> unat p" if "L p = Some n" "L q = Some m" "p \<noteq> q"
  proof -
    note pq = that
    obtain o1 o2 where o: "(o1, n) \<in> used 0 bs" "p = of_nat (unat (kheap_start s) + o1 + 24)"
      "(o2, m) \<in> used 0 bs" "q = of_nat (unat (kheap_start s) + o2 + 24)"
      using pq(1,2) L unfolding lives_def by blast
    have "(o1, n) \<noteq> (o2, m)" using pq(3) o(2,4) by auto
    from used_disjoint [OF o(1,3) this] show ?thesis
      using used_addr(1) [OF rep o(1)] used_addr(1) [OF rep o(3)] o(2,4) by auto
  qed
  show "\<exists>s'. kfree s p = Ok s' \<and> heap_live root s' (L(p := None))" if "L p = Some n"
  proof -
    note pn = that
    obtain off where off: "(off, n) \<in> used 0 bs" "p = of_nat (unat (kheap_start s) + off + 24)"
      using pn L unfolding lives_def by blast
    from kfree_live [OF ok off(1)] obtain s' bs' where
      s': "kfree s p = Ok s'" "heap_ok s' bs'" "same_heap s s'" "used 0 bs' = used 0 bs - {(off, n)}"
      unfolding off(2) by blast
    have "lives s' bs' (L(p := None))" using s'(3) by (intro lives_remove [OF L _ rep s'(4) off]) (simp add: same_heap_def)
    then show ?thesis using s'(1,2) heap_env_same [OF env s'(3)] unfolding heap_live_def by blast
  qed
  show "kmalloc s z = Halt \<or> (\<exists>s'. kmalloc s z = Ok (0, s') \<and> heap_live root s' L) \<or>
      (\<exists>p s' n. kmalloc s z = Ok (p, s') \<and> p \<noteq> 0 \<and> p \<notin> dom L \<and> unat (round_size z) \<le> n \<and> heap_live root s' (L(p \<mapsto> n)))"
  proof (cases "kmalloc s z = Halt")
    case False
    from kmalloc_granted [OF ok env, of z] False obtain p s' bs' R' A' where
      g: "kmalloc s z = Ok (p, s')" "heap_ok s' bs'" "heap_env s' root R' A'" "kheap_start s' = kheap_start s"
        "(p = 0 \<and> used 0 bs' = used 0 bs) \<or>
          (\<exists>off n. p = of_nat (unat (kheap_start s) + off + 24) \<and> unat (round_size z) \<le> n \<and> off + 24 + n \<le> extent bs' \<and>
             used 0 bs' = insert (off, n) (used 0 bs) \<and>
             (\<forall>(q, k)\<in>used 0 bs. off + 24 + n \<le> q \<or> q + 24 + k \<le> off))"
      unfolding granted_def split_paired_Ex prod.case by blast
    have rep': "heap_rep s' bs'" using g(2) by (simp add: heap_ok_def)
    from g(5) show ?thesis
    proof (elim disjE exE conjE)
      assume a: "p = 0" "used 0 bs' = used 0 bs"
      then have "lives s' bs' L" using L g(4) by (simp add: lives_def)
      then show ?thesis using a g(1-3) unfolding heap_live_def by blast
    next
      fix off n
      assume a: "p = of_nat (unat (kheap_start s) + off + 24)" "unat (round_size z) \<le> n"
        "used 0 bs' = insert (off, n) (used 0 bs)"
        "\<forall>(q, k)\<in>used 0 bs. off + 24 + n \<le> q \<or> q + 24 + k \<le> off"
      note ins = lives_insert [OF L g(4) rep' a(3,1,4)]
      then have "heap_live root s' (L(p \<mapsto> n))" using g(2,3) unfolding heap_live_def by blast
      then show ?thesis using g(1) a(2) ins(2,3) by blast
    qed
  qed simp
qed

section \<open>A small heap\<close>

text \<open>One page of heap with a single free block, in the small address space.\<close>

definition kheap_demo :: kheap where
  "kheap_demo = \<lparr>kh_pg = paging_demo, kh_procs = procs_demo,
     kh_nodes = [0xFFFFFFFF80200000 \<mapsto> \<lparr>nd_size = 4072, isFree = True, nd_next = 0\<rparr>],
     kheap_start = 0xFFFFFFFF80200000, kheap_end = 0xFFFFFFFF80201000, kheap_head = 0xFFFFFFFF80200000,
     kheap_lock = MUTEX_INIT\<rparr>"

lemma kheap_demo_ok: "heap_ok kheap_demo [(4072, True)]"
  by (simp add: heap_ok_def heap_rep_def heap_unlocked_def mutex_queue_def kheap_demo_def MUTEX_INIT_def first_at_def)

lemma kheap_demo_env: "heap_env kheap_demo 1 {2..<8} {(1, 0)}"
proof -
  have "kernel_pml4_phys paging_demo = page_to_phys 1"
    by (simp add: paging_demo_def page_to_phys_def PMM_PAGE_SIZE_def)
  moreover have "to_virt paging_demo (page_to_phys 1) \<noteq> 0" unfolding demo_root by simp
  ultimately show ?thesis using demo_space demo_translate by (simp add: heap_env_def kheap_demo_def kernel_base_def)
qed

section \<open>The contract\<close>



lemma round_size_100: "round_size 100 = 112"
  by (simp add: round_size_def KHEAP_BLOCK_SIZE_def)


text \<open>
  C16: freeing a used block gives back exactly that block: the other used blocks stay, the
  heap covers the same memory, and no two free blocks are adjacent afterwards.
\<close>

theorem kfree_returns_block:
  assumes "heap_ok s bs" and "(off, n) \<in> used 0 bs"
  shows "\<exists>s' bs'. kfree s (kheap_start s + of_nat (off + 24)) = Ok s' \<and> heap_ok s' bs' \<and>
    used 0 bs' = used 0 bs - {(off, n)} \<and> extent bs' = extent bs \<and> apart_free bs'"
proof -
  have "kheap_start s + of_nat (off + 24) = of_nat (unat (kheap_start s) + off + 24)" by simp
  then show ?thesis using kfree_live [OF assms] by metis
qed

theorem kfree_returns_block_witness:
  "\<exists>s s' bs'. kmalloc kheap_demo 100 = Ok (0xFFFFFFFF80200018, s) \<and> kfree s 0xFFFFFFFF80200018 = Ok s' \<and>
    heap_ok s' bs' \<and> used 0 bs' = {}"
proof -
  have st: "unat (kheap_start kheap_demo) = 0xFFFFFFFF80200000" by (simp add: kheap_demo_def)
  have "first_fit (unat (round_size 100)) [(4072, True)] = Some (0, [(112, False), (3936, True)])"
    by (simp add: round_size_100 split_free_def)
  from kmalloc_fit [OF kheap_demo_ok this] obtain s1 where
    s1: "kmalloc kheap_demo 100 = Ok (0xFFFFFFFF80200018, s1)" "heap_ok s1 [(112, False), (3936, True)]" "same_heap kheap_demo s1"
    unfolding st by auto
  have "kheap_start s1 + of_nat (0 + 24) = 0xFFFFFFFF80200018" using s1(3) by (simp add: same_heap_def kheap_demo_def)
  then show ?thesis using kfree_returns_block [OF s1(2), of 0 112] s1(1) by auto
qed

text \<open>
  On a heap without adjacent free blocks, taking a block by first fit and freeing it
  restores the list of blocks exactly.
\<close>

theorem kmalloc_kfree_roundtrip:
  assumes "heap_ok s bs" and "apart_free bs" and "first_fit (unat (round_size z)) bs \<noteq> None"
  shows "\<exists>p s' s''. kmalloc s z = Ok (p, s') \<and> p \<noteq> 0 \<and> kfree s' p = Ok s'' \<and> heap_ok s'' bs"
proof -
  from assms(3) obtain off bs' where fit: "first_fit (unat (round_size z)) bs = Some (off, bs')" by auto
  from kmalloc_fit [OF assms(1) fit] obtain s' where
    s': "kmalloc s z = Ok (of_nat (unat (kheap_start s) + off + 24), s')" "heap_ok s' bs'" "same_heap s s'" by blast
  from first_fit_split [OF fit] obtain xs m ys where
    bs: "bs = xs @ (m, True) # ys" "off = extent xs" "unat (round_size z) \<le> m" "bs' = xs @ split_free (unat (round_size z)) m @ ys"
    by blast
  have undone: "\<exists>n zs. bs' = xs @ (n, False) # zs \<and> merge (xs @ (n, True) # zs) = bs"
  proof (cases "40 \<le> m - unat (round_size z)")
    case True
    let ?zs = "(m - unat (round_size z) - 24, True) # ys"
    have "bs' = xs @ (unat (round_size z), False) # ?zs" using bs(4) True by (simp add: split_free_def)
    moreover have "merge (xs @ (unat (round_size z), True) # ?zs) = bs"
      unfolding bs(1) using assms(2) bs(1) True by (intro merge_rejoin) auto
    ultimately show ?thesis by blast
  next
    case False
    then have "bs' = xs @ (m, False) # ys" using bs(4) by (simp add: split_free_def)
    then show ?thesis using merge_id [OF assms(2)] bs(1) by auto
  qed
  then obtain n zs where nz: "bs' = xs @ (n, False) # zs" "merge (xs @ (n, True) # zs) = bs" by blast
  from kfree_used [OF s'(2) nz(1)] obtain s'' where
    s'': "kfree s' (of_nat (unat (kheap_start s) + off + 24)) = Ok s''" "heap_ok s'' bs"
    using s'(3) nz(2) bs(2) unfolding same_heap_def by auto
  have "(off, n) \<in> used 0 bs'" unfolding nz(1) used_append bs(2) by simp
  then have "unat (of_nat (unat (kheap_start s) + off + 24) :: u64) \<noteq> 0"
    using used_addr(1) [of s' bs' off n] s'(2,3) by (simp add: heap_ok_def same_heap_def)
  then show ?thesis using s'(1) s'' by force
qed

theorem kmalloc_kfree_roundtrip_witness:
  "\<exists>p s' s''. kmalloc kheap_demo 100 = Ok (p, s') \<and> p \<noteq> 0 \<and> kfree s' p = Ok s'' \<and> heap_ok s'' [(4072, True)]"
  using kmalloc_kfree_roundtrip [OF kheap_demo_ok, of 100] by (simp add: round_size_100)

text \<open>
  C34: freeing a block that is already free (a double free of a block whose header is still
  in the list) changes nothing.
\<close>

theorem kfree_detects_double_free:
  assumes "heap_ok s (xs @ (n, True) # ys)"
  shows "\<exists>s'. kfree s (kheap_start s + of_nat (extent xs + 24)) = Ok s' \<and> heap_ok s' (xs @ (n, True) # ys) \<and>
    kh_nodes s' = kh_nodes s"
proof -
  let ?bs = "xs @ (n, True) # ys"
  let ?c = "unat (kheap_start s) + extent xs"
  have rep: "heap_rep s ?bs" and un: "heap_unlocked s" using assms by (simp_all add: heap_ok_def)
  from kheap_acquire_free [OF un] obtain m where
    acq: "kheap_mutex_acquire s = Ok (s\<lparr>kheap_lock := m\<rparr>)" "heap_locked (s\<lparr>kheap_lock := m\<rparr>)" by blast
  from kheap_release_held [OF acq(2)] obtain m' where
    rel: "kheap_mutex_release (s\<lparr>kheap_lock := m\<rparr>) = Ok (s\<lparr>kheap_lock := m'\<rparr>)" "heap_unlocked (s\<lparr>kheap_lock := m'\<rparr>)" by auto
  have bound: "?c + 24 < 2 ^ 64" "0 < ?c" using heap_rep_bound [OF rep] rep by (simp_all add: heap_rep_def)
  have nz: "(of_nat ?c :: u64) \<noteq> 0" "(of_nat (?c + 24) :: u64) \<noteq> 0" using bound by (intro of_nat_u64_0; simp)+
  obtain nd where nd: "kh_nodes s (of_nat ?c) = Some nd" "isFree nd" using rep by (auto simp: heap_rep_def tiles_append)
  have ptr: "kheap_start s + of_nat (extent xs + 24) = of_nat (?c + 24)" by simp
  have sub: "of_nat (?c + 24) - sizeof_kheap_node = (of_nat ?c :: u64)" by (simp add: sizeof_kheap_node_def)
  have "kfree s (of_nat (?c + 24)) = Ok (s\<lparr>kheap_lock := m'\<rparr>)"
    unfolding kfree_def Let_def sub using nz nd acq(1) rel(1) by (simp add: node_at_def del: of_nat_add)
  then show ?thesis unfolding ptr using rep rel(2) by (auto simp: heap_ok_def)
qed

theorem kfree_detects_double_free_witness:
  "\<exists>s'. kfree kheap_demo 0xFFFFFFFF80200018 = Ok s' \<and> heap_ok s' [(4072, True)]"
proof -
  have "kheap_start kheap_demo + of_nat (extent [] + 24) = 0xFFFFFFFF80200018" by (simp add: kheap_demo_def)
  then show ?thesis using kfree_detects_double_free [of kheap_demo "[]" 4072 "[]"] kheap_demo_ok by auto
qed

text \<open>
  \<open>kheap_extend\<close> with four free frames for every page succeeds; each page of the new part
  of the heap is then mapped, writable, to a frame that was free, and the new memory is one
  more free block or extends the last free one.
\<close>

theorem kheap_extend_maps_heap:
  assumes "heap_rep s bs" and "heap_env s root R A" and "unat sz = 4096 * n" and "0 < n" and "n \<le> 256" and "4 * n \<le> card R"
  shows "\<exists>s' R' A'. kheap_extend s sz = Ok (True, s') \<and> heap_rep s' (grow bs (4096 * n)) \<and> heap_env s' root R' A' \<and>
    unat (kheap_end s') = unat (kheap_end s) + 4096 * n \<and>
    (\<forall>m<n. \<exists>p\<in>R. translate (kh_pg s') root (kheap_end s + of_nat (4096 * m)) = Some (heap_entry p, False))"
proof -
  have np: "num_pages sz = of_nat n"
  proof (rule u64_of_unat)
    have "unat (num_pages sz) = (4096 * n + 4095) div 4096" by (simp only: num_pages_ceil assms(3))
    then show "unat (num_pages sz) = n" by simp
  qed
  have env: "space_inv (kh_pg s) root R A" "kernel_pml4_phys (kh_pg s) = page_to_phys root"
    "to_virt (kh_pg s) (page_to_phys root) \<noteq> 0" "kheap_end s \<noteq> 0" "unat (kheap_end s) + 4096 * n < 2 ^ 64"
    using assms(2,5) by (simp_all add: heap_env_def)
  have "n \<le> 2 ^ 36" using assms(5) by simp
  moreover have "\<forall>m<n. \<forall>e. translate (kh_pg s) root (kheap_end s + of_nat (4096 * m)) \<noteq> Some (e, True)"
    using heap_env_pages [OF assms(2,5)] by blast
  ultimately have "\<exists>s' R' A'. kheap_extend s sz = Ok (True, s') \<and> heap_rep s' (grow bs (4096 * n)) \<and> space_inv (kh_pg s') root R' A' \<and>
       card R' + n \<le> card R \<and> maps (kh_pg s) R A (kh_pg s') R' A' root (page_indices (kheap_end s) n) \<and>
       (\<forall>m<n. \<exists>p\<in>R. translate (kh_pg s') root (kheap_end s + of_nat (4096 * m)) = Some (heap_entry p, False)) \<and>
       unat (kheap_end s') = unat (kheap_end s) + 4096 * n"
    using kheap_extend_step [OF assms(1) env(1,2,3) np assms(4) _ env(5,4)] assms(6) by auto
  then obtain s' R' A' where s': "kheap_extend s sz = Ok (True, s')" "heap_rep s' (grow bs (4096 * n))" "space_inv (kh_pg s') root R' A'"
       "card R' + n \<le> card R" "maps (kh_pg s) R A (kh_pg s') R' A' root (page_indices (kheap_end s) n)"
       "\<forall>m<n. \<exists>p\<in>R. translate (kh_pg s') root (kheap_end s + of_nat (4096 * m)) = Some (heap_entry p, False)"
       "unat (kheap_end s') = unat (kheap_end s) + 4096 * n"
    by blast
  have "heap_env s' root R' A'" by (rule maps_env [OF assms(2) s'(5,3) refl s'(7,4)])
  then show ?thesis using s' by blast
qed

theorem kheap_extend_maps_heap_witness:
  "\<exists>s' p. kheap_extend kheap_demo 0x1000 = Ok (True, s') \<and> heap_rep s' [(8168, True)] \<and> p \<in> {2..<8} \<and>
    translate (kh_pg s') 1 0xFFFFFFFF80201000 = Some (heap_entry p, False)"
proof -
  have rep: "heap_rep kheap_demo [(4072, True)]" using kheap_demo_ok by (simp add: heap_ok_def)
  have "unat (0x1000 :: u64) = 4096 * 1" "(0 :: nat) < 1" "(1 :: nat) \<le> 256" "4 * 1 \<le> card {2..<8 :: nat}" by simp_all
  from kheap_extend_maps_heap [OF rep kheap_demo_env this] show ?thesis
    by (auto simp: grow_def kheap_demo_def)
qed

text \<open>
  The rounding of the size wraps around: a request of \<open>2 ^ 64 - 1\<close> bytes is served with a
  block of no bytes at all.
\<close>

theorem kmalloc_size_wraps:
  assumes "heap_ok s ((n, True) # bs)" and "40 \<le> n"
  shows "\<exists>s'. kmalloc s 0xFFFFFFFFFFFFFFFF = Ok (kheap_start s + 24, s') \<and> heap_ok s' ((0, False) # (n - 24, True) # bs)"
proof -
  have "round_size 0xFFFFFFFFFFFFFFFF = 0" by (simp add: round_size_def KHEAP_BLOCK_SIZE_def)
  then have "first_fit (unat (round_size 0xFFFFFFFFFFFFFFFF)) ((n, True) # bs) = Some (0, (0, False) # (n - 24, True) # bs)"
    using assms(2) by (simp add: split_free_def)
  from kmalloc_fit [OF assms(1) this] show ?thesis by auto
qed

theorem kmalloc_size_wraps_witness:
  "\<exists>s'. kmalloc kheap_demo 0xFFFFFFFFFFFFFFFF = Ok (0xFFFFFFFF80200018, s') \<and> heap_ok s' [(0, False), (4048, True)]"
proof -
  have "kheap_start kheap_demo + 24 = 0xFFFFFFFF80200018" by (simp add: kheap_demo_def)
  then show ?thesis using kmalloc_size_wraps [OF kheap_demo_ok] by auto
qed

lemma append_pages_total:
  assumes "heap_rep s bs" shows "\<exists>s'. append_pages s k = Ok s' \<and> kh_pg s' = kh_pg s"
proof -
  let ?a = "unat (kheap_start s)"
  have t: "tiles (kh_nodes s) ?a bs 0" "0 < ?a" "kheap_head s = first_at ?a bs" using assms by (simp_all add: heap_rep_def)
  have last: "loop_outcome (last_node (kh_nodes s) (kheap_head s)) = Ok (if bs = [] then 0 else of_nat (?a + extent (butlast bs)))"
    using last_node_list [of "kh_nodes s" ?a bs] t heap_rep_bound [OF assms] by (simp add: loop_outcome_def)
  show ?thesis
  proof (cases bs rule: rev_cases)
    case Nil
    then show ?thesis using last by (simp add: append_pages_def Let_def)
  next
    case (snoc xs x)
    obtain m f where x: "x = (m, f)" by (cases x)
    have nz: "(of_nat (?a + extent xs) :: u64) \<noteq> 0"
      using t(2) heap_rep_bound [OF assms] snoc x by (intro of_nat_u64_0) simp_all
    have "\<exists>nd. kh_nodes s (of_nat (?a + extent xs)) = Some nd \<and> isFree nd = f" using t(1) snoc x by (simp add: tiles_append)
    then show ?thesis using last snoc nz by (auto simp: append_pages_def Let_def node_at_def)
  qed
qed

text \<open>
  At the end of the address space \<open>kheap_extend\<close> reports success without mapping a page:
  the bound of its loop wraps around and the loop body is never run.
\<close>

theorem kheap_extend_wraps:
  assumes "heap_rep s bs" and "num_pages sz = of_nat n" and "4096 * n < 2 ^ 64" and "2 ^ 64 \<le> unat (kheap_end s) + 4096 * n"
  shows "\<exists>s'. kheap_extend s sz = Ok (True, s') \<and> kh_pg s' = kh_pg s"
proof -
  have w: "of_nat n * PAGING_PAGE_SIZE = (of_nat (4096 * n) :: u64)" by (simp add: PAGING_PAGE_SIZE_def)
  have n: "unat (of_nat (4096 * n) :: u64) = 4096 * n" using assms(3) by (rule unat_of_nat_u64)
  then have "unat (kheap_end s + of_nat (4096 * n)) = unat (kheap_end s) + 4096 * n - 2 ^ 64"
    using assms(4) by (simp add: unat_plus_if')
  also have "\<dots> \<le> unat (kheap_end s)" using assms(3) by simp
  finally have "\<not> kheap_end s < kheap_end s + of_nat (4096 * n)" by (simp add: word_less_nat_alt)
  then have "extend_loop (kh_pg s) root (kheap_end s) (kheap_end s + of_nat (4096 * n)) = Some (Ok (True, kh_pg s))" for root
    by (subst extend_loop.simps) simp
  moreover obtain s' where "append_pages s (of_nat n) = Ok s'" "kh_pg s' = kh_pg s"
    using append_pages_total [OF assms(1)] by blast
  ultimately show ?thesis
    unfolding kheap_extend_def assms(2) Let_def w by (simp add: loop_outcome_def)
qed

theorem kheap_extend_wraps_witness:
  "\<exists>s'. kheap_extend (kheap_demo\<lparr>kh_nodes := [0xFFFFFFFFFFFFE000 \<mapsto> \<lparr>nd_size = 4072, isFree = True, nd_next = 0\<rparr>],
      kheap_start := 0xFFFFFFFFFFFFE000, kheap_head := 0xFFFFFFFFFFFFE000, kheap_end := 0xFFFFFFFFFFFFF000\<rparr>) 0x1000 = Ok (True, s') \<and>
    kh_pg s' = paging_demo"
proof -
  let ?s = "kheap_demo\<lparr>kh_nodes := [0xFFFFFFFFFFFFE000 \<mapsto> \<lparr>nd_size = 4072, isFree = True, nd_next = 0\<rparr>],
      kheap_start := 0xFFFFFFFFFFFFE000, kheap_head := 0xFFFFFFFFFFFFE000, kheap_end := 0xFFFFFFFFFFFFF000\<rparr>"
  have rep: "heap_rep ?s [(4072, True)]" by (simp add: heap_rep_def first_at_def)
  have "num_pages 0x1000 = of_nat 1" by (simp add: num_pages_def PAGING_PAGE_SIZE_def)
  from kheap_extend_wraps [OF rep this] show ?thesis by (simp add: kheap_demo_def)
qed

end
