(* ===== verification/Vmm.thy ===== *)
theory Vmm
  imports Kheap_Contract
begin

text \<open>
  The virtual memory manager, \<open>kernel/src/memory/vmm.c\<close>: address spaces with a list of areas,
  lazily backed by frames in the page fault handler. Areas and address spaces are structures
  on the kernel heap; they are kept in partial maps from their addresses, and a structure
  that has been freed is removed from its map.
\<close>

section \<open>State\<close>

definition VMM_USER_START :: u64 where "VMM_USER_START = 0x1000"
definition VMM_USER_END :: u64 where "VMM_USER_END = 0x7FFFFFFFFFFF"
definition VMM_KERNEL_START :: u64 where "VMM_KERNEL_START = 0xFFFFC00000000000"
definition VMM_KERNEL_END :: u64 where "VMM_KERNEL_END = 0xFFFFFFFF80000000 - 1"

definition VMM_FLAGS_READ :: u64 where "VMM_FLAGS_READ = push_bit 0 1"
definition VMM_FLAGS_WRITE :: u64 where "VMM_FLAGS_WRITE = push_bit 1 1"
definition VMM_FLAGS_EXEC :: u64 where "VMM_FLAGS_EXEC = push_bit 2 1"
definition VMM_FLAGS_USER :: u64 where "VMM_FLAGS_USER = push_bit 3 1"
definition VMM_FLAGS_ANON :: u64 where "VMM_FLAGS_ANON = push_bit 4 1"
definition VMM_FLAGS_MMIO :: u64 where "VMM_FLAGS_MMIO = push_bit 5 1"
definition VMM_FLAGS_WC :: u64 where "VMM_FLAGS_WC = push_bit 6 1"
definition VMM_FLAGS_UC :: u64 where "VMM_FLAGS_UC = push_bit 7 1"

definition PTE_CACHE_WC :: u64 where "PTE_CACHE_WC = PTE_FLAG_PWT"
definition PTE_CACHE_UC :: u64 where "PTE_CACHE_UC = PTE_FLAG_PCD"

definition PAGE_FAULT_PRESENT :: u64 where "PAGE_FAULT_PRESENT = push_bit 0 1"
definition PAGE_FAULT_WRITE :: u64 where "PAGE_FAULT_WRITE = push_bit 1 1"
definition PAGE_FAULT_INSTRUCTION_FETCH :: u64 where "PAGE_FAULT_INSTRUCTION_FETCH = push_bit 4 1"

record vm_area =
  va_base :: u64
  va_size :: u64
  va_flags :: u64
  va_next :: u64

record vm_address_space =
  pml4_phys :: u64
  region_list :: u64
  vas_lock :: spinlock_irq

record vmm =
  vm_heap :: kheap
  vm_areas :: "u64 \<rightharpoonup> vm_area"
  vm_spaces :: "u64 \<rightharpoonup> vm_address_space"
  kernel_vas :: u64
  current_vas :: u64

definition sizeof_vm_area :: u64 where "sizeof_vm_area = 32"
definition sizeof_vm_address_space :: u64 where "sizeof_vm_address_space = 32"

abbreviation vm_pg :: "vmm \<Rightarrow> paging" where
  "vm_pg s \<equiv> kh_pg (vm_heap s)"

definition set_vm_pg :: "paging \<Rightarrow> vmm \<Rightarrow> vmm" where
  "set_vm_pg pg s = s\<lparr>vm_heap := (vm_heap s)\<lparr>kh_pg := pg\<rparr>\<rparr>"

definition area_at :: "vmm \<Rightarrow> u64 \<Rightarrow> vm_area outcome" where
  "area_at s p = (if p = 0 then Fault else case vm_areas s p of None \<Rightarrow> Fault | Some a \<Rightarrow> Ok a)"

definition space_at :: "vmm \<Rightarrow> u64 \<Rightarrow> vm_address_space outcome" where
  "space_at s p = (if p = 0 then Fault else case vm_spaces s p of None \<Rightarrow> Fault | Some a \<Rightarrow> Ok a)"

definition set_space :: "u64 \<Rightarrow> (vm_address_space \<Rightarrow> vm_address_space) \<Rightarrow> vmm \<Rightarrow> vmm outcome" where
  "set_space p f s = obind (space_at s p) (\<lambda>a. Ok (s\<lparr>vm_spaces := (vm_spaces s)(p \<mapsto> f a)\<rparr>))"

definition set_area :: "u64 \<Rightarrow> (vm_area \<Rightarrow> vm_area) \<Rightarrow> vmm \<Rightarrow> vmm outcome" where
  "set_area p f s = obind (area_at s p) (\<lambda>a. Ok (s\<lparr>vm_areas := (vm_areas s)(p \<mapsto> f a)\<rparr>))"

text \<open>Taking and releasing the lock of an address space.\<close>

definition vas_acquire :: "u64 \<Rightarrow> vmm \<Rightarrow> (u64 \<times> vmm) outcome" where
  "vas_acquire space s =
     obind (space_at s space) (\<lambda>sp.
     obind (lock_acquire (vas_lock sp) (kh_rflags (vm_heap s))) (\<lambda>(l, irq_flags, rf).
     Ok (irq_flags, s\<lparr>vm_spaces := (vm_spaces s)(space \<mapsto> sp\<lparr>vas_lock := l\<rparr>),
                      vm_heap := set_kh_rflags rf (vm_heap s)\<rparr>)))"

definition vas_release :: "u64 \<Rightarrow> u64 \<Rightarrow> vmm \<Rightarrow> vmm outcome" where
  "vas_release space irq_flags s =
     obind (space_at s space) (\<lambda>sp.
     let (l, rf) = lock_release (vas_lock sp) irq_flags
     in Ok (s\<lparr>vm_spaces := (vm_spaces s)(space \<mapsto> sp\<lparr>vas_lock := l\<rparr>),
              vm_heap := set_kh_rflags rf (vm_heap s)\<rparr>))"

definition vm_kmalloc :: "vmm \<Rightarrow> u64 \<Rightarrow> (u64 \<times> vmm) outcome" where
  "vm_kmalloc s sz = obind (kmalloc (vm_heap s) sz) (\<lambda>(p, h). Ok (p, s\<lparr>vm_heap := h\<rparr>))"

definition vm_kfree :: "vmm \<Rightarrow> u64 \<Rightarrow> vmm outcome" where
  "vm_kfree s p = obind (kfree (vm_heap s) p) (\<lambda>h. Ok (s\<lparr>vm_heap := h\<rparr>))"

section \<open>Address spaces\<close>

definition vmm_init :: "vmm \<Rightarrow> vmm outcome" where
  "vmm_init s =
     obind (vm_kmalloc s sizeof_vm_address_space) (\<lambda>(p, s).
     let s = s\<lparr>kernel_vas := p\<rparr> in
     if p = 0 then Halt
     else Ok (s\<lparr>vm_spaces := (vm_spaces s)(p \<mapsto>
                  \<lparr>pml4_phys = paging_getKernelRoot (vm_pg s), region_list = 0, vas_lock = SPINLOCK_IRQ_INIT\<rparr>),
                current_vas := p\<rparr>))"

text \<open>The loop that copies the upper half of the kernel's root table.\<close>

function copy_upper_half :: "paging \<Rightarrow> u64 \<Rightarrow> u64 \<Rightarrow> nat \<Rightarrow> paging" where
  "copy_upper_half s virt_new virt_kernel i =
     (if i < 512 then
        copy_upper_half (write_entry (virt_new + 8 * of_nat i) (read_entry s virt_kernel (of_nat i)) s)
          virt_new virt_kernel (i + 1)
      else s)"
  by pat_completeness auto
termination
  by (relation "measure (\<lambda>(s, virt_new, virt_kernel, i). 512 - i)") auto

declare copy_upper_half.simps [simp del]

definition vmm_new_address_space :: "vmm \<Rightarrow> (u64 \<times> vmm) outcome" where
  "vmm_new_address_space s =
     obind (vm_kmalloc s sizeof_vm_address_space) (\<lambda>(p, s).
     if p = 0 then Ok (0, s)
     else
       obind (pmm_alloc (pg_pmm (vm_pg s)) PAGING_PAGE_SIZE) (\<lambda>(new_pml4, pmm).
       let s = set_vm_pg ((vm_pg s)\<lparr>pg_pmm := pmm\<rparr>) s in
       if new_pml4 = 0 then obind (vm_kfree s p) (\<lambda>s. Ok (0, s))
       else
         let s = s\<lparr>vm_spaces := (vm_spaces s)(p \<mapsto>
                     \<lparr>pml4_phys = new_pml4, region_list = 0, vas_lock = SPINLOCK_IRQ_INIT\<rparr>)\<rparr>;
             pg = vm_pg s;
             virt_new_pml4 = to_virt pg new_pml4;
             pg = pg\<lparr>ram := memset (ram pg) virt_new_pml4 0 PAGING_PAGE_SIZE\<rparr>
         in obind (space_at s (kernel_vas s)) (\<lambda>k.
            Ok (p, set_vm_pg (copy_upper_half pg virt_new_pml4 (to_virt pg (pml4_phys k)) 256) s))))"

definition vmm_generic_to_x86_flags :: "u64 \<Rightarrow> u64" where
  "vmm_generic_to_x86_flags genericFlags =
     (let x86_flags = 0;
          x86_flags = (if genericFlags AND VMM_FLAGS_READ \<noteq> 0 then x86_flags OR 0 else x86_flags);
          x86_flags = (if genericFlags AND VMM_FLAGS_WRITE \<noteq> 0 then x86_flags OR PTE_FLAG_RW else x86_flags);
          x86_flags = (if genericFlags AND VMM_FLAGS_EXEC = 0 then x86_flags OR PTE_FLAG_NO_EXEC else x86_flags);
          x86_flags = (if genericFlags AND VMM_FLAGS_WC \<noteq> 0 then x86_flags OR PTE_CACHE_WC else x86_flags);
          x86_flags = (if genericFlags AND VMM_FLAGS_UC \<noteq> 0 then x86_flags OR PTE_CACHE_UC else x86_flags)
      in if genericFlags AND VMM_FLAGS_USER \<noteq> 0 then x86_flags OR PTE_FLAG_US else x86_flags OR PTE_FLAG_GLOBAL)"

section \<open>Allocating an area\<close>

text \<open>
  The search for a hole: \<open>Some (prev, current, candidate)\<close> when the loop ends, \<open>None\<close> when the
  candidate has run past the end of the region.
\<close>

partial_function (option) find_hole ::
  "(u64 \<rightharpoonup> vm_area) \<Rightarrow> u64 \<Rightarrow> u64 \<Rightarrow> u64 \<Rightarrow> u64 \<Rightarrow> u64 \<Rightarrow> (u64 \<times> u64 \<times> u64) option outcome option" where
  [code]: "find_hole h sz region_search_end current prev candidate =
     (if current = 0 then Some (Ok (Some (prev, current, candidate)))
      else case h current of
        None \<Rightarrow> Some Fault
      | Some a \<Rightarrow>
          if va_base a \<ge> candidate + sz \<and> candidate + sz \<le> region_search_end
          then Some (Ok (Some (prev, current, candidate)))
          else
            let candidate = va_base a + va_size a in
            if candidate \<ge> region_search_end then Some (Ok None)
            else find_hole h sz region_search_end (va_next a) current candidate)"

definition page_round :: "u64 \<Rightarrow> u64" where
  "page_round sz =
     (if sz mod PAGING_PAGE_SIZE \<noteq> 0 then sz + (PAGING_PAGE_SIZE - sz mod PAGING_PAGE_SIZE) else sz)"

definition search_bounds :: "vmm \<Rightarrow> u64 \<Rightarrow> u64 \<times> u64" where
  "search_bounds s space = (if space = kernel_vas s then (VMM_KERNEL_START, VMM_KERNEL_END) else (VMM_USER_START, VMM_USER_END))"

definition area_flags :: "vmm \<Rightarrow> u64 \<Rightarrow> u64 \<Rightarrow> u64" where
  "area_flags s space fl =
     (if space = kernel_vas s \<and> fl AND VMM_FLAGS_USER \<noteq> 0 then fl AND NOT VMM_FLAGS_USER else fl)"

text \<open>The part behind the allocation of the new area.\<close>

definition insert_area :: "vmm \<Rightarrow> u64 \<Rightarrow> u64 \<Rightarrow> u64 \<Rightarrow> vm_area \<Rightarrow> vmm outcome" where
  "insert_area s space prev new_area a =
     (let s = s\<lparr>vm_areas := (vm_areas s)(new_area \<mapsto> a)\<rparr> in
      if prev = 0 then set_space space (region_list_update (\<lambda>_. new_area)) s
      else set_area prev (va_next_update (\<lambda>_. new_area)) s)"

text \<open>Memory mapped I/O is mapped at once, anonymous memory by the page fault handler.\<close>

definition back_area :: "vmm \<Rightarrow> u64 \<Rightarrow> u64 \<Rightarrow> u64 \<Rightarrow> u64 \<Rightarrow> u64 \<Rightarrow> vmm outcome" where
  "back_area s space candidate sz fl arg =
     (if fl AND VMM_FLAGS_MMIO \<noteq> 0 then
        obind (space_at s space) (\<lambda>sp.
        obind (paging_map_region (vm_pg s) (to_virt (vm_pg s) (pml4_phys sp)) candidate arg sz
                 (vmm_generic_to_x86_flags fl) False) (\<lambda>pg. Ok (set_vm_pg pg s)))
      else if fl AND VMM_FLAGS_ANON \<noteq> 0 then Ok s
      else Halt)"

definition alloc_at :: "vmm \<Rightarrow> u64 \<Rightarrow> u64 \<Rightarrow> u64 \<Rightarrow> u64 \<Rightarrow> u64 \<Rightarrow> (u64 \<times> u64 \<times> u64) option \<Rightarrow> (u64 \<times> vmm) outcome" where
  "alloc_at s space irq_flags sz fl arg hole =
     (case hole of
        None \<Rightarrow> obind (vas_release space irq_flags s) (\<lambda>s. Ok (0, s))
      | Some (prev, current, candidate) \<Rightarrow>
          obind (vm_kmalloc s sizeof_vm_area) (\<lambda>(new_area, s).
          if new_area = 0 then obind (vas_release space irq_flags s) (\<lambda>s. Ok (0, s))
          else
            obind (insert_area s space prev new_area
                     \<lparr>va_base = candidate, va_size = sz, va_flags = fl, va_next = current\<rparr>) (\<lambda>s.
            obind (back_area s space candidate sz fl arg) (\<lambda>s.
            obind (vas_release space irq_flags s) (\<lambda>s. Ok (candidate, s))))))"

definition vmm_alloc :: "vmm \<Rightarrow> u64 \<Rightarrow> u64 \<Rightarrow> u64 \<Rightarrow> u64 \<Rightarrow> (u64 \<times> vmm) outcome" where
  "vmm_alloc s space sz fl arg =
     (let sz = page_round sz in
      if space = 0 \<or> sz = 0 then Ok (0, s)
      else
        obind (vas_acquire space s) (\<lambda>(irq_flags, s).
        let (region_search_start, region_search_end) = search_bounds s space;
            fl = area_flags s space fl
        in
        obind (space_at s space) (\<lambda>sp.
        obind (loop_outcome (find_hole (vm_areas s) sz region_search_end (region_list sp) 0 region_search_start))
          (alloc_at s space irq_flags sz fl arg))))"

section \<open>Looking up and freeing areas\<close>

partial_function (option) find_area :: "(u64 \<rightharpoonup> vm_area) \<Rightarrow> u64 \<Rightarrow> u64 \<Rightarrow> u64 outcome option" where
  [code]: "find_area h current vaddr =
     (if current = 0 then Some (Ok 0)
      else case h current of
        None \<Rightarrow> Some Fault
      | Some a \<Rightarrow>
          if vaddr \<ge> va_base a \<and> vaddr < va_base a + va_size a then Some (Ok current)
          else find_area h (va_next a) vaddr)"

definition vmm_get_vm_area :: "vmm \<Rightarrow> u64 \<Rightarrow> u64 \<Rightarrow> u64 outcome" where
  "vmm_get_vm_area s space vaddr =
     (if space = 0 then Ok 0
      else obind (space_at s space) (\<lambda>sp. loop_outcome (find_area (vm_areas s) (region_list sp) vaddr)))"

text \<open>The search of \<open>vmm_free\<close>, which also keeps the predecessor.\<close>

partial_function (option) find_free_area :: "(u64 \<rightharpoonup> vm_area) \<Rightarrow> u64 \<Rightarrow> u64 \<Rightarrow> u64 \<Rightarrow> (u64 \<times> u64) outcome option" where
  [code]: "find_free_area h current prev addr =
     (if current = 0 then Some (Ok (prev, 0))
      else case h current of
        None \<Rightarrow> Some Fault
      | Some a \<Rightarrow>
          if va_base a \<le> addr \<and> va_base a + va_size a > addr then Some (Ok (prev, current))
          else find_free_area h (va_next a) current addr)"

definition vmm_free :: "vmm \<Rightarrow> u64 \<Rightarrow> u64 \<Rightarrow> vmm outcome" where
  "vmm_free s space addr =
     (if space = 0 \<or> addr = 0 then Ok s
      else
        obind (vas_acquire space s) (\<lambda>(irq_flags, s).
        obind (space_at s space) (\<lambda>sp.
        obind (loop_outcome (find_free_area (vm_areas s) (region_list sp) 0 addr)) (\<lambda>(prev, current).
        if current = 0 then vas_release space irq_flags s
        else
          obind (area_at s current) (\<lambda>a.
          obind (if prev = 0 then set_space space (region_list_update (\<lambda>_. va_next a)) s
                 else set_area prev (va_next_update (\<lambda>_. va_next a)) s) (\<lambda>s.
          obind (paging_unmap_region (vm_pg s) (to_virt (vm_pg s) (pml4_phys sp)) (va_base a) (va_size a) False
                   (va_flags a AND VMM_FLAGS_MMIO = 0)) (\<lambda>pg.
          obind (vm_kfree (set_vm_pg pg s) current) (\<lambda>s.
          vas_release space irq_flags (s\<lparr>vm_areas := (vm_areas s)(current := None)\<rparr>)))))))))"

partial_function (option) destroy_loop :: "vmm \<Rightarrow> u64 \<Rightarrow> u64 \<Rightarrow> vmm outcome option" where
  [code]: "destroy_loop s space current =
     (if current = 0 then Some (Ok s)
      else case vm_areas s current of
        None \<Rightarrow> Some Fault
      | Some a \<Rightarrow>
          (case vmm_free s space (va_base a) of
             Ok s \<Rightarrow> destroy_loop s space (va_next a)
           | Halt \<Rightarrow> Some Halt | Spin \<Rightarrow> Some Spin | Block \<Rightarrow> Some Block | Fault \<Rightarrow> Some Fault))"

definition vmm_destroy_address_space :: "vmm \<Rightarrow> u64 \<Rightarrow> vmm outcome" where
  "vmm_destroy_address_space s space =
     (if space = 0 \<or> space = kernel_vas s then Ok s
      else
        obind (space_at s space) (\<lambda>sp.
        obind (loop_outcome (destroy_loop s space (region_list sp))) (\<lambda>s.
        obind (space_at s space) (\<lambda>sp.
        obind (pmm_page_dec_ref (pg_pmm (vm_pg s)) (pml4_phys sp)) (\<lambda>pmm.
        obind (vm_kfree (set_vm_pg ((vm_pg s)\<lparr>pg_pmm := pmm\<rparr>) s) space) (\<lambda>s.
        Ok (s\<lparr>vm_spaces := (vm_spaces s)(space := None)\<rparr>)))))))"

section \<open>The page fault handler\<close>

definition vmm_page_fault_handler :: "vmm \<Rightarrow> u64 \<Rightarrow> u64 \<Rightarrow> vmm outcome" where
  "vmm_page_fault_handler s cr2 error_code =
     (let present = error_code AND PAGE_FAULT_PRESENT \<noteq> 0;
          write = error_code AND PAGE_FAULT_WRITE \<noteq> 0;
          execute = error_code AND PAGE_FAULT_INSTRUCTION_FETCH \<noteq> 0;
          target_vas = (if cr2 \<ge> VMM_KERNEL_START then kernel_vas s else current_vas s)
      in
      obind (vas_acquire target_vas s) (\<lambda>(irq_flags, s).
      obind (vmm_get_vm_area s target_vas cr2) (\<lambda>target_area.
      if target_area = 0 then Halt
      else
        obind (area_at s target_area) (\<lambda>a.
        if present then
          if write \<and> va_flags a AND VMM_FLAGS_WRITE = 0 then Halt
          else if execute \<and> va_flags a AND VMM_FLAGS_EXEC = 0 then Halt
          else Halt
        else
          obind (pmm_alloc (pg_pmm (vm_pg s)) PAGING_PAGE_SIZE) (\<lambda>(phys_page, pmm).
          let pg = (vm_pg s)\<lparr>pg_pmm := pmm\<rparr> in
          if phys_page = 0 then Halt
          else
            let pg = pg\<lparr>ram := memset (ram pg) (to_virt pg phys_page) 0 PAGING_PAGE_SIZE\<rparr> in
            obind (space_at s target_vas) (\<lambda>sp.
            obind (paging_map_page pg (to_virt pg (pml4_phys sp)) cr2 phys_page
                     (vmm_generic_to_x86_flags (va_flags a)) False) (\<lambda>pg.
            vas_release target_vas irq_flags (set_vm_pg pg s))))))))"

definition vmm_switch_address_space :: "vmm \<Rightarrow> u64 \<Rightarrow> vmm outcome" where
  "vmm_switch_address_space s space =
     (if space = 0 then Ok s
      else
        let s = s\<lparr>current_vas := space\<rparr> in
        obind (space_at s space) (\<lambda>sp. Ok (set_vm_pg (paging_switch_context (pml4_phys sp) (vm_pg s)) s)))"

definition vmm_get_kernel_vas :: "vmm \<Rightarrow> u64" where
  "vmm_get_kernel_vas s = kernel_vas s"

end
