(* ===== verification/Uptime.thy ===== *)
theory Uptime
  imports Prelude
begin

text \<open>
  The clock of \<open>kernel/src/devices/timer.c\<close>: the counters of the timer and the uptime computed
  from the time stamp counter. The value that the processor's counter has at a reading is an
  argument.
\<close>

record timer =
  system_ticks :: u64
  lapic_ticks_per_ms :: u64
  tsc_freq_hz :: u64
  tsc_boot_time :: u64

definition timer_zero :: timer where
  "timer_zero = \<lparr>system_ticks = 0, lapic_ticks_per_ms = 0, tsc_freq_hz = 0, tsc_boot_time = 0\<rparr>"

text \<open>The instruction delivers the counter in two halves.\<close>

definition rdtsc :: "u32 \<Rightarrow> u32 \<Rightarrow> u64" where
  "rdtsc lo hi = (push_bit 32 (ucast hi) OR ucast lo)"

definition timer_get_uptime_ticks :: "timer \<Rightarrow> u64" where
  "timer_get_uptime_ticks t = system_ticks t"

definition timer_get_uptime_ms :: "timer \<Rightarrow> u64 \<Rightarrow> u64 outcome" where
  "timer_get_uptime_ms t tsc =
     (let diff = tsc - tsc_boot_time t;
          per_ms = tsc_freq_hz t div 1000
      in if per_ms = 0 then Fault else Ok (diff div per_ms))"

lemma uptime_Ok: "tsc_freq_hz t div 1000 \<noteq> 0 \<Longrightarrow> timer_get_uptime_ms t tsc = Ok ((tsc - tsc_boot_time t) div (tsc_freq_hz t div 1000))"
  by (simp add: timer_get_uptime_ms_def)

lemma uptime_uncalibrated: "timer_get_uptime_ms timer_zero tsc = Fault"
  by (simp add: timer_get_uptime_ms_def timer_zero_def)

end
