(* ===== verification/Scheduler.thy ===== *)
theory Scheduler
  imports Kheap Uptime
begin

text \<open>
  The round-robin scheduler of \<open>kernel/src/scheduling/scheduler.c\<close>. Its two loops walk the
  circular list of tasks and, in each task, the circular list of its threads; both may run for
  ever on a damaged list, and the search for a ready thread does when there is none.
\<close>

section \<open>The operations\<close>

text \<open>The first slot of the next task, and the slot behind a thread of the task.\<close>

definition skip_task :: "procs \<Rightarrow> u64 \<Rightarrow> (u64 \<times> u64) outcome" where
  "skip_task s t = obind (task_at s t) (\<lambda>tk. obind (task_at s (tk_next tk)) (\<lambda>nt. Ok (tk_next tk, tk_threads nt)))"

definition next_slot :: "procs \<Rightarrow> u64 \<Rightarrow> u64 \<Rightarrow> (u64 \<times> u64) outcome" where
  "next_slot s t h = obind (task_at s t) (\<lambda>tk. if h = tk_threads tk then skip_task s t else Ok (t, h))"

text \<open>
  Loop of the search: a task without threads is skipped; a thread that is not ready is followed
  by the next one of its task or the first one of the next task. Back at the interrupted
  thread the search goes on with the first thread of the task list.
\<close>

partial_function (option) search_ready :: "procs \<Rightarrow> u64 \<Rightarrow> u64 \<Rightarrow> (u64 \<times> u64) outcome option" where
  [code]: "search_ready s search_task search_thread =
     (if search_thread = 0 then
        (case skip_task s search_task of
           Ok (t, h) \<Rightarrow> search_ready s t h
         | Halt \<Rightarrow> Some Halt | Spin \<Rightarrow> Some Spin | Block \<Rightarrow> Some Block | Fault \<Rightarrow> Some Fault)
      else
        (case thread_at s search_thread of
           Ok th \<Rightarrow>
             if th_state th = THREAD_READY then Some (Ok (search_task, search_thread))
             else
               (case next_slot s search_task (th_next th) of
                  Ok (t, h) \<Rightarrow>
                    if t = task_current s \<and> h = thread_current s then
                      (case obind (thread_at s h) (\<lambda>ch. if th_state ch = THREAD_READY then Ok None
                              else obind (task_at s (task_list s)) (\<lambda>first. Ok (Some (tk_threads first)))) of
                         Ok None \<Rightarrow> Some (Ok (t, h))
                       | Ok (Some first) \<Rightarrow> search_ready s (task_list s) first
                       | Halt \<Rightarrow> Some Halt | Spin \<Rightarrow> Some Spin | Block \<Rightarrow> Some Block | Fault \<Rightarrow> Some Fault)
                    else search_ready s t h
                | Halt \<Rightarrow> Some Halt | Spin \<Rightarrow> Some Spin | Block \<Rightarrow> Some Block | Fault \<Rightarrow> Some Fault)
         | Halt \<Rightarrow> Some Halt | Spin \<Rightarrow> Some Spin | Block \<Rightarrow> Some Block | Fault \<Rightarrow> Some Fault))"

text \<open>
  The context that the interrupted thread saves is passed in, the one to continue with is
  returned, with RFLAGS.
\<close>

definition search_start :: "procs \<Rightarrow> (u64 \<times> u64) outcome" where
  "search_start s =
     obind (thread_at s (thread_current s)) (\<lambda>th.
     obind (task_at s (task_current s)) (\<lambda>tk.
     if th_next th = tk_threads tk then
       if tk_next tk \<noteq> 0 then obind (task_at s (tk_next tk)) (\<lambda>nt. Ok (tk_next tk, tk_threads nt))
       else Ok (tk_next tk, th_next th)
     else Ok (task_current s, th_next th)))"

definition pause_current :: "u64 \<Rightarrow> thread \<Rightarrow> thread" where
  "pause_current status t =
     (if th_state t = THREAD_RUNNING then t\<lparr>th_state := THREAD_READY\<rparr> else t)\<lparr>th_context := status\<rparr>"

definition scheduler_schedule :: "procs \<Rightarrow> u64 \<Rightarrow> u64 \<Rightarrow> (u64 \<times> u64 \<times> procs) outcome" where
  "scheduler_schedule s rflags status =
     (if task_current s = 0 \<or> thread_current s = 0 then Ok (status, rflags, s)
      else
        obind (lock_acquire (scheduler_lock s) rflags) (\<lambda>(l, irq_flags, rflags).
        obind (set_thread (thread_current s) (pause_current status) (s\<lparr>scheduler_lock := l\<rparr>)) (\<lambda>s.
        obind (search_start s) (\<lambda>(search_task, search_thread).
        obind (loop_outcome (search_ready s search_task search_thread)) (\<lambda>(search_task, search_thread).
        obind (set_thread search_thread (th_state_update (\<lambda>_. THREAD_RUNNING))
                 (s\<lparr>task_current := search_task, thread_current := search_thread\<rparr>)) (\<lambda>s.
        let (l, rflags) = lock_release (scheduler_lock s) irq_flags;
            s = s\<lparr>scheduler_lock := l\<rparr>
        in obind (thread_at s (thread_current s)) (\<lambda>th. Ok (th_context th, rflags, s))))))))"

text \<open>Waking: the inner loop over the threads of a task, the outer one over the tasks.\<close>

definition wake_thread :: "u64 \<Rightarrow> thread \<Rightarrow> thread" where
  "wake_thread now t =
     (if th_state t = THREAD_SLEEPING \<and> th_wake_time t \<le> now
      then t\<lparr>th_state := THREAD_READY, th_wake_time := 0\<rparr> else t)"

partial_function (option) wake_threads :: "procs \<Rightarrow> u64 \<Rightarrow> u64 \<Rightarrow> u64 \<Rightarrow> procs outcome option" where
  [code]: "wake_threads s now curr_task curr_thread =
     (case set_thread curr_thread (wake_thread now) s of
        Ok s \<Rightarrow>
          (case obind (thread_at s curr_thread) (\<lambda>th. obind (task_at s curr_task) (\<lambda>tk. Ok (th_next th, tk_threads tk))) of
             Ok (nx, first) \<Rightarrow> if nx \<noteq> first then wake_threads s now curr_task nx else Some (Ok s)
           | Halt \<Rightarrow> Some Halt | Spin \<Rightarrow> Some Spin | Block \<Rightarrow> Some Block | Fault \<Rightarrow> Some Fault)
      | Halt \<Rightarrow> Some Halt | Spin \<Rightarrow> Some Spin | Block \<Rightarrow> Some Block | Fault \<Rightarrow> Some Fault)"

partial_function (option) wake_tasks :: "procs \<Rightarrow> u64 \<Rightarrow> u64 \<Rightarrow> procs outcome option" where
  [code]: "wake_tasks s now curr_task =
     (case obind (task_at s curr_task) (\<lambda>tk.
             if tk_threads tk \<noteq> 0 then loop_outcome (wake_threads s now curr_task (tk_threads tk)) else Ok s) of
        Ok s \<Rightarrow>
          (case task_at s curr_task of
             Ok tk \<Rightarrow> if tk_next tk \<noteq> task_list s then wake_tasks s now (tk_next tk) else Some (Ok s)
           | Halt \<Rightarrow> Some Halt | Spin \<Rightarrow> Some Spin | Block \<Rightarrow> Some Block | Fault \<Rightarrow> Some Fault)
      | Halt \<Rightarrow> Some Halt | Spin \<Rightarrow> Some Spin | Block \<Rightarrow> Some Block | Fault \<Rightarrow> Some Fault)"

definition scheduler_wake_sleeping_threads :: "timer \<Rightarrow> u64 \<Rightarrow> procs \<Rightarrow> u64 \<Rightarrow> (u64 \<times> procs) outcome" where
  "scheduler_wake_sleeping_threads tm tsc s rflags =
     (if task_list s = 0 then Ok (rflags, s)
      else
        obind (lock_acquire (scheduler_lock s) rflags) (\<lambda>(l, irq_flags, rflags).
        let s = s\<lparr>scheduler_lock := l\<rparr> in
        obind (timer_get_uptime_ms tm tsc) (\<lambda>currTimeMs.
        obind (loop_outcome (wake_tasks s currTimeMs (task_list s))) (\<lambda>s.
        let (l, rflags) = lock_release (scheduler_lock s) irq_flags
        in Ok (rflags, s\<lparr>scheduler_lock := l\<rparr>)))))"

end
