(* ===== verification/Devices.thy ===== *)
theory Devices
  imports Uptime
begin

text \<open>
  The processor and its devices as the kernel sees them through instructions
  (\<open>kernel/src/drivers/portsIO.c\<close>, \<open>kernel/src/cpu.c\<close>) and memory-mapped registers. What the
  hardware answers is not computed by the kernel: it is a field of the machine, a function of
  the port or register that is read and of the number of device accesses before. Every access
  is recorded, in one sequence for all devices, so that the order across devices is visible.
\<close>

datatype io_event = Inb u16 u8 | Outb u16 u8 | Mmio_read u64 u32 | Mmio_write u64 u32 | Rdtsc u64

record machine =
  port_in :: "u16 \<Rightarrow> nat \<Rightarrow> u8"
  mmio_in :: "u64 \<Rightarrow> nat \<Rightarrow> u32"
  tsc_in :: "nat \<Rightarrow> u32 \<times> u32"
  io_trace :: "io_event list"
  msr_in :: "u32 \<Rightarrow> u32 \<times> u32"
  cpuid_in :: "u32 \<Rightarrow> u32 \<Rightarrow> u32 \<times> u32 \<times> u32 \<times> u32"

definition io_time :: "machine \<Rightarrow> nat" where
  "io_time m = length (io_trace m)"

definition io_log :: "io_event \<Rightarrow> machine \<Rightarrow> machine" where
  "io_log e m = m\<lparr>io_trace := io_trace m @ [e]\<rparr>"

lemma io_log_simps [simp]:
  "port_in (io_log e m) = port_in m" "mmio_in (io_log e m) = mmio_in m" "tsc_in (io_log e m) = tsc_in m"
  "io_trace (io_log e m) = io_trace m @ [e]" "io_time (io_log e m) = Suc (io_time m)"
  "msr_in (io_log e m) = msr_in m" "cpuid_in (io_log e m) = cpuid_in m"
  by (simp_all add: io_log_def io_time_def)

section \<open>Ports\<close>

definition inb :: "u16 \<Rightarrow> machine \<Rightarrow> u8 \<times> machine" where
  "inb port m = (let ret = port_in m port (io_time m) in (ret, io_log (Inb port ret) m))"

definition outb :: "u16 \<Rightarrow> u8 \<Rightarrow> machine \<Rightarrow> machine" where
  "outb port val m = io_log (Outb port val) m"

section \<open>Registers of the processor\<close>

definition cpu_rdmsr :: "u32 \<Rightarrow> machine \<Rightarrow> u64" where
  "cpu_rdmsr msr_index m = (let (low, high) = msr_in m msr_index in push_bit 32 (ucast high) OR ucast low)"

definition cpu_wrmsr :: "u32 \<Rightarrow> u64 \<Rightarrow> machine \<Rightarrow> machine" where
  "cpu_wrmsr msr_index value m =
     (let low = ucast (value AND 0xFFFFFFFF); high = ucast (drop_bit 32 value)
      in m\<lparr>msr_in := (msr_in m)(msr_index := (low, high))\<rparr>)"

text \<open>Every result register has its own pointer, which may be \<open>NULL\<close>; here all four are returned.\<close>

definition cpu_cpuid :: "u32 \<Rightarrow> u32 \<Rightarrow> machine \<Rightarrow> u32 \<times> u32 \<times> u32 \<times> u32" where
  "cpu_cpuid leaf subleaf m = cpuid_in m leaf subleaf"

definition read_tsc :: "machine \<Rightarrow> u64 \<times> machine" where
  "read_tsc m = (let (lo, hi) = tsc_in m (io_time m); tsc = rdtsc lo hi in (tsc, io_log (Rdtsc tsc) m))"

section \<open>Memory-mapped registers\<close>

definition mmio_write :: "u64 \<Rightarrow> u32 \<Rightarrow> machine \<Rightarrow> machine" where
  "mmio_write addr v m = io_log (Mmio_write addr v) m"

definition mmio_read :: "u64 \<Rightarrow> machine \<Rightarrow> u32 \<times> machine" where
  "mmio_read addr m = (let v = mmio_in m addr (io_time m) in (v, io_log (Mmio_read addr v) m))"

lemma rdmsr_wrmsr: "cpu_rdmsr i (cpu_wrmsr j v m) = (if i = j then v else cpu_rdmsr i m)"
proof -
  have m: "(0xFFFFFFFF :: u64) = mask 32" by (simp add: mask_numeral)
  have "push_bit 32 (ucast (ucast (drop_bit 32 v) :: u32)) OR ucast (ucast (v AND 0xFFFFFFFF) :: u32) = v"
    unfolding m by (intro bit_eqI) (auto simp: bit_simps)
  then show ?thesis by (simp add: cpu_rdmsr_def cpu_wrmsr_def Let_def)
qed

end
