(* ===== verification/Serial.thy ===== *)
theory Serial
  imports Devices
begin

text \<open>
  The serial port (\<open>kernel/src/drivers/serial.c\<close>). Sending waits until the transmitter is
  empty, which it may never be: the two waiting loops are partial.
\<close>

definition PORT :: u16 where "PORT = 0x3f8"

definition serial_init :: "machine \<Rightarrow> int \<times> machine" where
  "serial_init m =
     (let m = outb (PORT + 1) 0x00 m;
          m = outb (PORT + 3) 0x80 m;
          m = outb (PORT + 0) 0x03 m;
          m = outb (PORT + 1) 0x00 m;
          m = outb (PORT + 3) 0x03 m;
          m = outb (PORT + 2) 0xC7 m;
          m = outb (PORT + 4) 0x0B m;
          m = outb (PORT + 4) 0x1E m;
          m = outb (PORT + 0) 0xAE m;
          (r, m) = inb (PORT + 0) m
      in if r \<noteq> 0xAE then (1, m) else (0, outb (PORT + 4) 0x0F m))"

definition serial_received :: "machine \<Rightarrow> u8 \<times> machine" where
  "serial_received m = (let (v, m) = inb (PORT + 5) m in (v AND 1, m))"

partial_function (option) serial_read :: "machine \<Rightarrow> (u8 \<times> machine) option" where
  [code]: "serial_read m =
     (let (r, m) = serial_received m in if r = 0 then serial_read m else Some (inb PORT m))"

definition is_transmit_empty :: "machine \<Rightarrow> u8 \<times> machine" where
  "is_transmit_empty m = (let (v, m) = inb (PORT + 5) m in (v AND 0x20, m))"

partial_function (option) serial_write :: "u8 \<Rightarrow> machine \<Rightarrow> machine option" where
  [code]: "serial_write a m =
     (let (e, m) = is_transmit_empty m in if e = 0 then serial_write a m else Some (outb PORT a m))"

primrec serial_write_str :: "u8 list \<Rightarrow> machine \<Rightarrow> machine option" where
  "serial_write_str [] m = Some m"
| "serial_write_str (c # cs) m = (case serial_write c m of None \<Rightarrow> None | Some m \<Rightarrow> serial_write_str cs m)"

section \<open>What is sent\<close>

text \<open>The bytes sent through the data register, in order.\<close>

primrec sent :: "io_event list \<Rightarrow> u8 list" where
  "sent [] = []"
| "sent (e # es) = (case e of Outb p v \<Rightarrow> if p = PORT then v # sent es else sent es | _ \<Rightarrow> sent es)"

lemma sent_append [simp]: "sent (es @ fs) = sent es @ sent fs"
  by (induction es) (auto split: io_event.splits)

text \<open>The transmitter becomes empty again and again.\<close>

definition drains :: "machine \<Rightarrow> bool" where
  "drains m \<longleftrightarrow> (\<forall>n. \<exists>k\<ge>n. port_in m (PORT + 5) k AND 0x20 \<noteq> 0)"

lemma transmit_empty_step:
  "is_transmit_empty m = (let v = port_in m (PORT + 5) (io_time m) in (v AND 0x20, io_log (Inb (PORT + 5) v) m))"
  by (simp add: is_transmit_empty_def inb_def Let_def)

lemma serial_write_when:
  assumes "port_in m (PORT + 5) k AND 0x20 \<noteq> 0" "io_time m \<le> k"
  shows "\<exists>m'. serial_write a m = Some m' \<and> sent (io_trace m') = sent (io_trace m) @ [a] \<and> port_in m' = port_in m"
  using assms
proof (induction "k - io_time m" arbitrary: m)
  case 0
  then have "io_time m = k" by simp
  then show ?case using 0(2) by (subst serial_write.simps) (simp add: transmit_empty_step outb_def Let_def)
next
  case (Suc n)
  show ?case
  proof (cases "port_in m (PORT + 5) (io_time m) AND 0x20 = 0")
    case True
    let ?m = "io_log (Inb (PORT + 5) (port_in m (PORT + 5) (io_time m))) m"
    have "n = k - io_time ?m" "port_in ?m (PORT + 5) k AND 0x20 \<noteq> 0" "io_time ?m \<le> k" using Suc.hyps(2) Suc.prems by simp_all
    from Suc.hyps(1) [OF this] obtain m' where
      m': "serial_write a ?m = Some m'" "sent (io_trace m') = sent (io_trace ?m) @ [a]" "port_in m' = port_in ?m" by blast
    have "serial_write a m = serial_write a ?m" using True by (subst serial_write.simps) (simp add: transmit_empty_step Let_def)
    then show ?thesis using m' by simp
  next
    case False
    then show ?thesis by (subst serial_write.simps) (simp add: transmit_empty_step outb_def Let_def)
  qed
qed

lemma write_str_sends:
  assumes "drains m"
  shows "\<exists>m'. serial_write_str cs m = Some m' \<and> sent (io_trace m') = sent (io_trace m) @ cs \<and> drains m'"
  using assms
proof (induction cs arbitrary: m)
  case (Cons c cs)
  obtain k where "io_time m \<le> k" "port_in m (PORT + 5) k AND 0x20 \<noteq> 0" using Cons.prems unfolding drains_def by blast
  from serial_write_when [OF this(2,1), of c] obtain m1 where
    m1: "serial_write c m = Some m1" "sent (io_trace m1) = sent (io_trace m) @ [c]" "port_in m1 = port_in m" by blast
  then have "drains m1" using Cons.prems by (simp add: drains_def)
  from Cons.IH [OF this] show ?case using m1 by auto
qed simp

text \<open>
  As long as the transmitter becomes empty again and again, \<open>serial_write_str\<close> ends, and it
  has sent exactly the given bytes in their order.
\<close>

theorem serial_write_str_sends:
  assumes "drains m"
  shows "\<exists>m'. serial_write_str cs m = Some m' \<and> sent (io_trace m') = sent (io_trace m) @ cs \<and> drains m'"
  using assms by (rule write_str_sends)

text \<open>
  A machine for examples. Its serial port is ready at every second access; with every access
  the bytes of its other ports go down by one, its memory-mapped registers by 1000, and the time
  stamp counter up by 20000.
\<close>

definition machine_demo :: machine where
  "machine_demo = \<lparr>port_in = (\<lambda>p n. if p = PORT + 5 then (if even n then 0 else 0x60) else of_nat (255 - n mod 256)),
     mmio_in = (\<lambda>a n. 0xFFFFFFFF - 1000 * of_nat n), tsc_in = (\<lambda>n. (of_nat (20000 * n), 0)), io_trace = [],
     msr_in = (\<lambda>_. (0xFEE00900, 0)), cpuid_in = (\<lambda>_ _. (0, 0, 0, 0x200))\<rparr>"

lemma machine_demo_drains: "drains machine_demo"
proof -
  have "\<exists>k\<ge>n. port_in machine_demo (PORT + 5) k AND 0x20 \<noteq> 0" for n
    by (rule exI [of _ "2 * n + 1"]) (simp add: machine_demo_def)
  then show ?thesis by (simp add: drains_def)
qed

theorem serial_write_str_sends_witness:
  "\<exists>m'. serial_write_str [0x4F, 0x4B] machine_demo = Some m' \<and> sent (io_trace m') = [0x4F, 0x4B]"
  using serial_write_str_sends [OF machine_demo_drains, of "[0x4F, 0x4B]"] by (auto simp: machine_demo_def)

end
