(* ===== verification/Gdt.thy ===== *)
theory Gdt
  imports Prelude
begin

text \<open>
  The descriptor tables of the processor: the global descriptor table of
  \<open>kernel/src/memory/gdt/gdt.c\<close> and the interrupt descriptor table of
  \<open>kernel/src/interrupts/idt.c\<close>. The fields of a descriptor are scattered over its bits; the
  lemmas read them back.
\<close>

section \<open>Segment descriptors\<close>

definition GDT_NUM_ENTRIES :: nat where "GDT_NUM_ENTRIES = 5"
definition GDT_KERNEL_CS :: nat where "GDT_KERNEL_CS = 1"
definition GDT_KERNEL_DS :: nat where "GDT_KERNEL_DS = 2"
definition GDT_USER_CS :: nat where "GDT_USER_CS = 3"
definition GDT_USER_DS :: nat where "GDT_USER_DS = 4"

definition SEG_DESCTYPE :: "u16 \<Rightarrow> u16" where "SEG_DESCTYPE x = push_bit 0x04 x"
definition SEG_PRES :: "u16 \<Rightarrow> u16" where "SEG_PRES x = push_bit 0x07 x"
definition SEG_SAVL :: "u16 \<Rightarrow> u16" where "SEG_SAVL x = push_bit 0x0C x"
definition SEG_LONG :: "u16 \<Rightarrow> u16" where "SEG_LONG x = push_bit 0x0D x"
definition SEG_SIZE :: "u16 \<Rightarrow> u16" where "SEG_SIZE x = push_bit 0x0E x"
definition SEG_GRAN :: "u16 \<Rightarrow> u16" where "SEG_GRAN x = push_bit 0x0F x"
definition SEG_PRIV :: "u16 \<Rightarrow> u16" where "SEG_PRIV x = push_bit 0x05 (x AND 0x03)"
definition SEG_DATA_RDWR :: u16 where "SEG_DATA_RDWR = 0x02"
definition SEG_CODE_EXRD :: u16 where "SEG_CODE_EXRD = 0x0A"

definition GDT_CODE_PL0 :: u16 where
  "GDT_CODE_PL0 = (SEG_DESCTYPE 1 OR SEG_PRES 1 OR SEG_SAVL 0 OR SEG_LONG 1 OR SEG_SIZE 0 OR SEG_GRAN 1 OR
     SEG_PRIV 0 OR SEG_CODE_EXRD)"

definition GDT_DATA_PL0 :: u16 where
  "GDT_DATA_PL0 = (SEG_DESCTYPE 1 OR SEG_PRES 1 OR SEG_SAVL 0 OR SEG_LONG 0 OR SEG_SIZE 0 OR SEG_GRAN 1 OR
     SEG_PRIV 0 OR SEG_DATA_RDWR)"

definition GDT_CODE_PL3 :: u16 where
  "GDT_CODE_PL3 = (SEG_DESCTYPE 1 OR SEG_PRES 1 OR SEG_SAVL 0 OR SEG_LONG 1 OR SEG_SIZE 0 OR SEG_GRAN 1 OR
     SEG_PRIV 3 OR SEG_CODE_EXRD)"

definition GDT_DATA_PL3 :: u16 where
  "GDT_DATA_PL3 = (SEG_DESCTYPE 1 OR SEG_PRES 1 OR SEG_SAVL 0 OR SEG_LONG 0 OR SEG_SIZE 0 OR SEG_GRAN 1 OR
     SEG_PRIV 3 OR SEG_DATA_RDWR)"

text \<open>
  The right-hand sides have 32 bits (\<open>flag << 8\<close> as an \<open>int\<close>) and are widened when they are
  combined with the 64-bit descriptor.
\<close>

definition gdt_create_descriptor :: "u32 \<Rightarrow> u32 \<Rightarrow> u16 \<Rightarrow> u64" where
  "gdt_create_descriptor base limit flag =
     (let descriptor = ucast (limit AND 0x000F0000) :: u64;
          descriptor = descriptor OR ucast (push_bit 8 (ucast flag :: u32) AND 0x00F0FF00);
          descriptor = descriptor OR ucast (drop_bit 16 base AND 0x000000FF);
          descriptor = descriptor OR ucast (base AND 0xFF000000);
          descriptor = push_bit 32 descriptor;
          descriptor = descriptor OR ucast (push_bit 16 base);
          descriptor = descriptor OR ucast (limit AND 0x0000FFFF)
      in descriptor)"

record gdtr =
  gdtr_size :: u16
  gdtr_offset :: u64

text \<open>The table at address \<open>addr\<close> and the register that \<open>lgdt\<close> loads.\<close>

definition gdt_init :: "u64 \<Rightarrow> u64 list \<times> gdtr" where
  "gdt_init addr =
     (let t = replicate GDT_NUM_ENTRIES 0;
          t = t[0 := 0];
          t = t[GDT_KERNEL_CS := gdt_create_descriptor 0 0 GDT_CODE_PL0];
          t = t[GDT_KERNEL_DS := gdt_create_descriptor 0 0 GDT_DATA_PL0];
          t = t[GDT_USER_CS := gdt_create_descriptor 0 0 GDT_CODE_PL3];
          t = t[GDT_USER_DS := gdt_create_descriptor 0 0 GDT_DATA_PL3]
      in (t, \<lparr>gdtr_size = of_nat (8 * GDT_NUM_ENTRIES) - 1, gdtr_offset = addr\<rparr>))"

section \<open>Interrupt descriptors\<close>

definition IDT_NUM_ENTRIES :: nat where "IDT_NUM_ENTRIES = 256"
definition IDT_GATE_INTERRUPT_TYPE :: u8 where "IDT_GATE_INTERRUPT_TYPE = 14"

record idt_descriptor =
  offset_1 :: u16
  segment_selector :: u16
  ist :: u8
  idt_flags :: u8
  offset_2 :: u16
  offset_3 :: u32
  idt_reserved :: u32

record idtr =
  idtr_size :: u16
  idtr_offset :: u64

definition zero_descriptor :: idt_descriptor where
  "zero_descriptor = \<lparr>offset_1 = 0, segment_selector = 0, ist = 0, idt_flags = 0, offset_2 = 0, offset_3 = 0, idt_reserved = 0\<rparr>"

text \<open>The vector has eight bits, so it is always an index of the table.\<close>

definition idt_set_descriptor :: "idt_descriptor list \<Rightarrow> u8 \<Rightarrow> u64 \<Rightarrow> u8 \<Rightarrow> idt_descriptor list" where
  "idt_set_descriptor t vec isr flags = t[unat vec := (t ! unat vec)\<lparr>
     offset_1 := ucast (isr AND 0xffff), segment_selector := of_nat (GDT_KERNEL_CS * 8), ist := 0, idt_flags := flags,
     offset_2 := ucast (drop_bit 16 isr AND 0xffff), offset_3 := ucast (drop_bit 32 isr)\<rparr>]"

function idt_fill :: "u64 list \<Rightarrow> nat \<Rightarrow> idt_descriptor list \<Rightarrow> idt_descriptor list outcome" where
  "idt_fill isr_stub_table i t =
     (if i < IDT_NUM_ENTRIES then
        if i < length isr_stub_table then
          idt_fill isr_stub_table (i + 1)
            (idt_set_descriptor t (of_nat i) (isr_stub_table ! i) (IDT_GATE_INTERRUPT_TYPE OR push_bit 7 1))
        else Fault
      else Ok t)"
  by pat_completeness auto
termination
  by (relation "measure (\<lambda>(stubs, i, t). IDT_NUM_ENTRIES - i)") auto

declare idt_fill.simps [simp del]

definition idt_init :: "u64 \<Rightarrow> u64 list \<Rightarrow> (idt_descriptor list \<times> idtr) outcome" where
  "idt_init addr isr_stub_table =
     obind (idt_fill isr_stub_table 0 (replicate IDT_NUM_ENTRIES zero_descriptor)) (\<lambda>t.
     Ok (t, \<lparr>idtr_size = of_nat (16 * IDT_NUM_ENTRIES) - 1, idtr_offset = addr\<rparr>))"

section \<open>Reading the fields back\<close>

text \<open>The places that the processor reads: base, limit and attributes of a segment; entry point of a gate.\<close>

definition seg_base :: "u64 \<Rightarrow> u32" where
  "seg_base d = (ucast (drop_bit 16 d) AND 0xFFFFFF) OR push_bit 24 (ucast (drop_bit 56 d))"

definition seg_limit :: "u64 \<Rightarrow> u32" where
  "seg_limit d = (ucast d AND 0xFFFF) OR (push_bit 16 (ucast (drop_bit 48 d) AND 0xF))"

definition seg_attrs :: "u64 \<Rightarrow> u16" where
  "seg_attrs d = ucast (drop_bit 40 d) AND 0xF0FF"

definition gate_entry :: "idt_descriptor \<Rightarrow> u64" where
  "gate_entry g = (ucast (offset_1 g) OR push_bit 16 (ucast (offset_2 g)) OR push_bit 32 (ucast (offset_3 g)))"

lemma bit_FF0000: "bit (0x000F0000 :: int) n \<longleftrightarrow> 16 \<le> n \<and> n < 20"
proof -
  have eq: "(0x000F0000 :: int) = push_bit 16 (mask 4)" by (simp add: mask_numeral)
  show ?thesis unfolding eq by (auto simp: bit_push_bit_iff bit_mask_iff bit_or_iff)
qed

lemma bit_F0FF00: "bit (0x00F0FF00 :: int) n \<longleftrightarrow> 8 \<le> n \<and> n < 16 \<or> 20 \<le> n \<and> n < 24"
proof -
  have eq: "(0x00F0FF00 :: int) = push_bit 8 (mask 8) OR push_bit 20 (mask 4)" by (simp add: mask_numeral)
  show ?thesis unfolding eq by (auto simp: bit_push_bit_iff bit_mask_iff bit_or_iff)
qed

lemma bit_FF000000: "bit (0xFF000000 :: int) n \<longleftrightarrow> 24 \<le> n \<and> n < 32"
proof -
  have eq: "(0xFF000000 :: int) = push_bit 24 (mask 8)" by (simp add: mask_numeral)
  show ?thesis unfolding eq by (auto simp: bit_push_bit_iff bit_mask_iff bit_or_iff)
qed

lemma bit_F0FF: "bit (0xF0FF :: int) n \<longleftrightarrow> n < 8 \<or> 12 \<le> n \<and> n < 16"
proof -
  have eq: "(0xF0FF :: int) = mask 8 OR push_bit 12 (mask 4)" by (simp add: mask_numeral)
  show ?thesis unfolding eq by (auto simp: bit_push_bit_iff bit_mask_iff bit_or_iff)
qed

lemma low_masks: "(0xFF :: u32) = mask 8" "(0xFFFF :: u32) = mask 16" "(0xFFFFFF :: u32) = mask 24" "(0xF :: u32) = mask 4"
    "(0xFFFF :: u64) = mask 16"
  by (simp_all add: mask_numeral)

lemmas field_bits = bit_FF0000 bit_F0FF00 bit_FF000000 bit_F0FF low_masks bit_and_iff bit_or_iff bit_push_bit_iff
  bit_drop_bit_eq bit_unsigned_iff bit_mask_iff bit_ucast_iff

lemma bit_FFFFF: "bit (0xFFFFF :: int) n \<longleftrightarrow> n < 20"
proof -
  have eq: "(0xFFFFF :: int) = mask 20" by (simp add: mask_numeral)
  show ?thesis unfolding eq by (auto simp: bit_push_bit_iff bit_mask_iff bit_or_iff)
qed

lemma descriptor_bits:
  "bit (gdt_create_descriptor base limit flag) n \<longleftrightarrow>
     (if n < 16 then bit limit n else if n < 40 then bit base (n - 16) else if n < 48 then bit flag (n - 40)
      else if n < 52 then bit limit (n - 32) else if n < 56 then bit flag (n - 40) else n < 64 \<and> bit base (n - 32))"
proof (cases "n < 32")
  case True
  then show ?thesis by (cases "n < 16") (simp_all add: gdt_create_descriptor_def field_bits)
next
  case False
  then obtain k where k: "n = 32 + k" by (metis le_Suc_ex not_less)
  consider "k < 8" | "8 \<le> k" "k < 16" | "16 \<le> k" "k < 20" | "20 \<le> k" "k < 24" | "24 \<le> k" "k < 32" | "32 \<le> k" by linarith
  then show ?thesis unfolding k
    by cases (simp_all add: gdt_create_descriptor_def field_bits bit_imp_le_length less_diff_conv2)
qed

text \<open>
  The fields of a segment descriptor are read back as they were given: the base, the lower
  twenty bits of the limit, and the attribute bits that a descriptor has.
\<close>

theorem gdt_descriptor_roundtrip:
  "seg_base (gdt_create_descriptor base limit flag) = base \<and>
   seg_limit (gdt_create_descriptor base limit flag) = limit AND 0xFFFFF \<and>
   seg_attrs (gdt_create_descriptor base limit flag) = flag AND 0xF0FF"
proof (intro conjI bit_eqI)
  fix n
  show "bit (seg_base (gdt_create_descriptor base limit flag)) n = bit base n" if "possible_bit TYPE(u32) n"
    using that by (auto simp: seg_base_def field_bits descriptor_bits)
  show "bit (seg_limit (gdt_create_descriptor base limit flag)) n = bit (limit AND 0xFFFFF) n" if "possible_bit TYPE(u32) n"
    using that by (auto simp: seg_limit_def field_bits bit_FFFFF descriptor_bits)
  show "bit (seg_attrs (gdt_create_descriptor base limit flag)) n = bit (flag AND 0xF0FF) n" if "possible_bit TYPE(u16) n"
    using that by (auto simp: seg_attrs_def field_bits descriptor_bits)
qed

text \<open>The table that the kernel loads: no segment but the null one is absent, and only user segments have privilege 3.\<close>

lemma gdt_init_table:
  "fst (gdt_init addr) = [0, 0x00A09A0000000000, 0x0080920000000000, 0x00A0FA0000000000, 0x0080F20000000000]"
proof -
  have idx: "GDT_KERNEL_CS = Suc 0" "GDT_KERNEL_DS = Suc (Suc 0)" "GDT_USER_CS = Suc (Suc (Suc 0))"
      "GDT_USER_DS = Suc (Suc (Suc (Suc 0)))" "GDT_NUM_ENTRIES = Suc (Suc (Suc (Suc (Suc 0))))"
    by (simp_all add: GDT_KERNEL_CS_def GDT_KERNEL_DS_def GDT_USER_CS_def GDT_USER_DS_def GDT_NUM_ENTRIES_def)
  have fl: "GDT_CODE_PL0 = 0xA09A" "GDT_DATA_PL0 = 0x8092" "GDT_CODE_PL3 = 0xA0FA" "GDT_DATA_PL3 = 0x80F2"
    by (simp_all add: GDT_CODE_PL0_def GDT_DATA_PL0_def GDT_CODE_PL3_def GDT_DATA_PL3_def SEG_DESCTYPE_def SEG_PRES_def
      SEG_SAVL_def SEG_LONG_def SEG_SIZE_def SEG_GRAN_def SEG_PRIV_def SEG_DATA_RDWR_def SEG_CODE_EXRD_def)
  show ?thesis unfolding gdt_init_def Let_def idx fl by (simp add: gdt_create_descriptor_def)
qed

lemma gate_entry_split:
  "gate_entry (g\<lparr>offset_1 := ucast (isr AND 0xffff), segment_selector := x, ist := y, idt_flags := z,
     offset_2 := ucast (drop_bit 16 isr AND 0xffff), offset_3 := ucast (drop_bit 32 isr)\<rparr>) = isr"
proof (rule bit_eqI)
  fix n assume n: "possible_bit TYPE(u64) n"
  consider "n < 16" | "16 \<le> n" "n < 32" | "32 \<le> n" by linarith
  then show "bit (gate_entry (g\<lparr>offset_1 := ucast (isr AND 0xffff), segment_selector := x, ist := y, idt_flags := z,
     offset_2 := ucast (drop_bit 16 isr AND 0xffff), offset_3 := ucast (drop_bit 32 isr)\<rparr>)) n = bit isr n"
    using n by cases (auto simp: gate_entry_def field_bits)
qed

lemma length_set_descriptor [simp]: "length (idt_set_descriptor t v isr f) = length t"
  by (simp add: idt_set_descriptor_def)

lemma idt_fill_entries:
  assumes "length stubs = 256" "length t = 256" "i \<le> 256"
  shows "\<exists>t'. idt_fill stubs i t = Ok t' \<and> length t' = 256 \<and> (\<forall>j<i. t' ! j = t ! j) \<and>
    (\<forall>j. i \<le> j \<longrightarrow> j < 256 \<longrightarrow> gate_entry (t' ! j) = stubs ! j \<and> segment_selector (t' ! j) = 8 \<and> idt_flags (t' ! j) = 0x8E)"
  using assms
proof (induction "256 - i" arbitrary: i t)
  case 0
  then show ?case by (subst idt_fill.simps) (simp add: IDT_NUM_ENTRIES_def)
next
  case (Suc k)
  let ?t = "idt_set_descriptor t (of_nat i) (stubs ! i) (IDT_GATE_INTERRUPT_TYPE OR push_bit 7 1)"
  have i: "i < 256" using Suc.hyps(2) by simp
  then have u: "unat (of_nat i :: u8) = i" by (simp add: unat_of_nat)
  have step: "idt_fill stubs i t = idt_fill stubs (i + 1) ?t"
    using i Suc.prems(1) by (subst idt_fill.simps) (simp add: IDT_NUM_ENTRIES_def)
  have here: "gate_entry (?t ! i) = stubs ! i" "segment_selector (?t ! i) = 8" "idt_flags (?t ! i) = 0x8E"
    using i Suc.prems(2) u gate_entry_split
    by (simp_all add: idt_set_descriptor_def GDT_KERNEL_CS_def IDT_GATE_INTERRUPT_TYPE_def)
  have before: "\<forall>j<i. ?t ! j = t ! j" using u by (simp add: idt_set_descriptor_def)
  have "k = 256 - (i + 1)" using Suc.hyps(2) by simp
  from Suc.hyps(1) [OF this Suc.prems(1), of ?t] Suc.prems(2) i obtain t' where
    t': "idt_fill stubs (i + 1) ?t = Ok t'" "length t' = 256" "\<forall>j<i + 1. t' ! j = ?t ! j"
      "\<forall>j. i + 1 \<le> j \<longrightarrow> j < 256 \<longrightarrow> gate_entry (t' ! j) = stubs ! j \<and> segment_selector (t' ! j) = 8 \<and> idt_flags (t' ! j) = 0x8E"
    by auto
  have "gate_entry (t' ! j) = stubs ! j \<and> segment_selector (t' ! j) = 8 \<and> idt_flags (t' ! j) = 0x8E" if "i \<le> j" "j < 256" for j
  proof (cases "j = i")
    case True
    then show ?thesis using t'(3) here by simp
  qed (use t'(4) that in auto)
  then show ?case using step t'(1-3) before by auto
qed

text \<open>
  \<open>idt_init\<close> fills all 256 gates: gate \<open>j\<close> is a present interrupt gate of the kernel code
  segment whose entry point is stub \<open>j\<close>, and the loaded size covers the whole table.
\<close>

theorem idt_init_installs_stubs:
  assumes "length stubs = 256"
  shows "\<exists>t r. idt_init addr stubs = Ok (t, r) \<and> length t = 256 \<and> idtr_size r = 0xFFF \<and>
    (\<forall>j<256. gate_entry (t ! j) = stubs ! j \<and> segment_selector (t ! j) = 8 \<and> idt_flags (t ! j) = 0x8E)"
proof -
  from idt_fill_entries [OF assms, of "replicate IDT_NUM_ENTRIES zero_descriptor" 0] show ?thesis
    by (auto simp: idt_init_def IDT_NUM_ENTRIES_def)
qed

theorem idt_init_installs_stubs_witness:
  "\<exists>t r. idt_init 0x1000 (map (\<lambda>i. 0xFFFFFFFF80001000 + 16 * of_nat i) [0..<256]) = Ok (t, r) \<and>
     gate_entry (t ! 14) = 0xFFFFFFFF800010E0"
proof -
  have "length (map (\<lambda>i. 0xFFFFFFFF80001000 + 16 * of_nat i :: u64) [0..<256]) = 256" by simp
  from idt_init_installs_stubs [OF this, of "0x1000"] show ?thesis by auto
qed

end
