(* ===== verification/Kern.thy ===== *)
theory Kern
  imports Vmm Scheduler Serial Gdt
begin

text \<open>
  The state of the running kernel: the memory managers with the tasks and threads they contain,
  the clock, the devices, and the interrupt frames on the stacks of the threads
  (\<open>kernel/include/interrupts/isr.h\<close>).
\<close>

record cpu_status =
  general_purpose_registers :: "u64 list"
  vector_number :: u64
  error_code :: u64
  rip :: u64
  cs :: u64
  st_rflags :: u64
  rsp :: u64
  ss :: u64

definition sizeof_cpu_status :: u64 where "sizeof_cpu_status = 184"

record kern =
  kn_vm :: vmm
  kn_timer :: timer
  kn_machine :: machine
  kn_contexts :: "u64 \<rightharpoonup> cpu_status"
  kn_words :: "u64 \<rightharpoonup> u64"
  kn_cr2 :: u64
  lapic_MMIO :: u64

abbreviation kn_heap :: "kern \<Rightarrow> kheap" where
  "kn_heap s \<equiv> vm_heap (kn_vm s)"

abbreviation kn_pg :: "kern \<Rightarrow> paging" where
  "kn_pg s \<equiv> kh_pg (kn_heap s)"

abbreviation kn_procs :: "kern \<Rightarrow> procs" where
  "kn_procs s \<equiv> kh_procs (kn_heap s)"

abbreviation kn_rflags :: "kern \<Rightarrow> u64" where
  "kn_rflags s \<equiv> kh_rflags (kn_heap s)"

definition set_kn_procs :: "procs \<Rightarrow> kern \<Rightarrow> kern" where
  "set_kn_procs p s = s\<lparr>kn_vm := (kn_vm s)\<lparr>vm_heap := (kn_heap s)\<lparr>kh_procs := p\<rparr>\<rparr>\<rparr>"

definition set_kn_rflags :: "u64 \<Rightarrow> kern \<Rightarrow> kern" where
  "set_kn_rflags rf s = s\<lparr>kn_vm := (kn_vm s)\<lparr>vm_heap := set_kh_rflags rf (kn_heap s)\<rparr>\<rparr>"

text \<open>An operation of the memory managers, and one of the scheduler, in the whole kernel.\<close>

definition in_vm :: "(vmm \<Rightarrow> ('a \<times> vmm) outcome) \<Rightarrow> kern \<Rightarrow> ('a \<times> kern) outcome" where
  "in_vm f s = obind (f (kn_vm s)) (\<lambda>(r, vm). Ok (r, s\<lparr>kn_vm := vm\<rparr>))"

definition on_vm :: "(vmm \<Rightarrow> vmm outcome) \<Rightarrow> kern \<Rightarrow> kern outcome" where
  "on_vm f s = obind (f (kn_vm s)) (\<lambda>vm. Ok (s\<lparr>kn_vm := vm\<rparr>))"

definition in_procs :: "(procs \<Rightarrow> procs outcome) \<Rightarrow> kern \<Rightarrow> kern outcome" where
  "in_procs f s = obind (f (kn_procs s)) (\<lambda>p. Ok (set_kn_procs p s))"

definition context_at :: "kern \<Rightarrow> u64 \<Rightarrow> cpu_status outcome" where
  "context_at s p = (if p = 0 then Fault else case kn_contexts s p of None \<Rightarrow> Fault | Some c \<Rightarrow> Ok c)"

text \<open>The lock of the scheduler.\<close>

definition sched_acquire :: "kern \<Rightarrow> (u64 \<times> kern) outcome" where
  "sched_acquire s =
     obind (lock_acquire (scheduler_lock (kn_procs s)) (kn_rflags s)) (\<lambda>(l, irq_flags, rf).
     Ok (irq_flags, set_kn_rflags rf (set_kn_procs ((kn_procs s)\<lparr>scheduler_lock := l\<rparr>) s)))"

definition sched_release :: "u64 \<Rightarrow> kern \<Rightarrow> kern" where
  "sched_release irq_flags s =
     (let (l, rf) = lock_release (scheduler_lock (kn_procs s)) irq_flags
      in set_kn_rflags rf (set_kn_procs ((kn_procs s)\<lparr>scheduler_lock := l\<rparr>) s))"

definition kn_schedule :: "u64 \<Rightarrow> kern \<Rightarrow> (u64 \<times> kern) outcome" where
  "kn_schedule status s =
     obind (scheduler_schedule (kn_procs s) (kn_rflags s) status) (\<lambda>(context, rf, ps).
     Ok (context, set_kn_rflags rf (set_kn_procs ps s)))"

lemma kn_procs_simps [simp]:
  "kn_procs (set_kn_procs p s) = p" "kn_procs (set_kn_rflags rf s) = kn_procs s"
  "kn_rflags (set_kn_rflags rf s) = rf" "kn_rflags (set_kn_procs p s) = kn_rflags s"
  "kn_pg (set_kn_procs p s) = kn_pg s"
  by (simp_all add: set_kn_procs_def set_kn_rflags_def set_kh_rflags_def)

end
