(* ===== verification/Lapic.thy ===== *)
theory Lapic
  imports Kern
begin

text \<open>The local interrupt controller (\<open>kernel/src/drivers/lapic.c\<close>), driven through memory-mapped registers.\<close>

definition MSR_IA32_APIC_BASE :: u32 where "MSR_IA32_APIC_BASE = 0x1B"
definition CPUID_LAPIC_LEAF :: u32 where "CPUID_LAPIC_LEAF = 0x1"
definition APIC_BASE_MASK :: u64 where "APIC_BASE_MASK = 0xFFFFFFFFFFFFF000"
definition APIC_ENABLE_BIT :: u32 where "APIC_ENABLE_BIT = 0x100"
definition LAPIC_REG_SPURIOUS :: u32 where "LAPIC_REG_SPURIOUS = 0x0F0"
definition LAPIC_REG_EOI :: u32 where "LAPIC_REG_EOI = 0x00B0"
definition SPURIOUS_VECTOR :: u32 where "SPURIOUS_VECTOR = 0xFF"

definition lapic_write :: "u32 \<Rightarrow> u32 \<Rightarrow> kern \<Rightarrow> kern" where
  "lapic_write reg value s = s\<lparr>kn_machine := mmio_write (lapic_MMIO s + ucast reg) value (kn_machine s)\<rparr>"

definition lapic_read :: "u32 \<Rightarrow> kern \<Rightarrow> u32 \<times> kern" where
  "lapic_read reg s = (let (v, m) = mmio_read (lapic_MMIO s + ucast reg) (kn_machine s) in (v, s\<lparr>kn_machine := m\<rparr>))"

definition lapic_initialize :: "kern \<Rightarrow> kern outcome" where
  "lapic_initialize s =
     (let (_, _, _, cpuidResult) = cpu_cpuid CPUID_LAPIC_LEAF 0 (kn_machine s) in
      if cpuidResult AND push_bit 9 1 = 0 then Halt
      else
        let lapicMSR = cpu_rdmsr MSR_IA32_APIC_BASE (kn_machine s);
            phys_lapic_base = lapicMSR AND APIC_BASE_MASK
        in obind (in_vm (\<lambda>vm. vmm_alloc vm (vmm_get_kernel_vas vm) PAGING_PAGE_SIZE
                    (VMM_FLAGS_MMIO OR VMM_FLAGS_READ OR VMM_FLAGS_WRITE OR VMM_FLAGS_UC) phys_lapic_base) s) (\<lambda>(p, s).
           let s = s\<lparr>lapic_MMIO := p\<rparr> in
           if p = 0 then Halt
           else Ok (lapic_write LAPIC_REG_SPURIOUS (SPURIOUS_VECTOR OR APIC_ENABLE_BIT) s)))"

definition lapic_spurious_isr :: "kern \<Rightarrow> kern" where
  "lapic_spurious_isr s = s"

definition lapic_send_EOI :: "kern \<Rightarrow> kern" where
  "lapic_send_EOI s = lapic_write LAPIC_REG_EOI 0 s"

end
