(* ===== verification/Timer.thy ===== *)
theory Timer
  imports Lapic
begin

text \<open>
  The system timer (\<open>kernel/src/devices/timer.c\<close>): calibration against the PIT, the handler of
  the periodic interrupt, and busy waiting.
\<close>

definition TIMER_FREQUENCY_HZ :: u64 where "TIMER_FREQUENCY_HZ = 100"
definition PIT_CMD_PORT :: u16 where "PIT_CMD_PORT = 0x43"
definition PIT_DATA_PORT :: u16 where "PIT_DATA_PORT = 0x40"
definition PIT_BASE_FREQ :: u64 where "PIT_BASE_FREQ = 1193182"
definition LAPIC_LVT_TIMER_REG :: u32 where "LAPIC_LVT_TIMER_REG = 0x320"
definition LAPIC_DIVIDE_REG :: u32 where "LAPIC_DIVIDE_REG = 0x3E0"
definition LAPIC_INITIAL_COUNT_REG :: u32 where "LAPIC_INITIAL_COUNT_REG = 0x380"
definition LAPIC_CURRENT_COUNT_REG :: u32 where "LAPIC_CURRENT_COUNT_REG = 0x390"
definition LAPIC_LVT_PERIODIC :: u32 where "LAPIC_LVT_PERIODIC = 0x20000"
definition LAPIC_LVT_VECTOR :: u32 where "LAPIC_LVT_VECTOR = 32"
definition THREAD_INITIAL_TICKS :: u64 where "THREAD_INITIAL_TICKS = 4"

section \<open>Calibration\<close>

definition pit_prepare_sleep :: "u64 \<Rightarrow> machine \<Rightarrow> machine" where
  "pit_prepare_sleep ms m =
     (let count_num = ucast (PIT_BASE_FREQ div 1000 * ms) :: u16;
          m = outb PIT_CMD_PORT 0x30 m;
          m = outb PIT_DATA_PORT (ucast (count_num AND 0xFF)) m
      in outb PIT_DATA_PORT (ucast (drop_bit 8 count_num AND 0xFF)) m)"

definition pit_read_count :: "machine \<Rightarrow> u16 \<times> machine" where
  "pit_read_count m =
     (let m = outb PIT_CMD_PORT 0x00 m;
          (low, m) = inb PIT_DATA_PORT m;
          (high, m) = inb PIT_DATA_PORT m
      in (ucast low OR push_bit 8 (ucast high), m))"

definition ticks_to_wait :: u16 where "ticks_to_wait = 11931"

partial_function (option) pit_wait :: "u16 \<Rightarrow> machine \<Rightarrow> machine option" where
  [code]: "pit_wait start_pit m =
     (let (current, m) = pit_read_count m;
          delta = start_pit - current
      in if delta \<ge> ticks_to_wait then Some m else pit_wait start_pit m)"

definition timer_init :: "kern \<Rightarrow> kern outcome" where
  "timer_init s =
     (let s = lapic_write LAPIC_DIVIDE_REG 0x3 s;
          s = lapic_write LAPIC_INITIAL_COUNT_REG 0xFFFFFFFF s;
          s = s\<lparr>kn_machine := pit_prepare_sleep 0xFFFF (kn_machine s)\<rparr>;
          (start_lapic_timer, s) = lapic_read LAPIC_CURRENT_COUNT_REG s;
          (start_tsc_timer, m) = read_tsc (kn_machine s);
          (start_pit, m) = pit_read_count m
      in case pit_wait start_pit m of
           None \<Rightarrow> Spin
         | Some m \<Rightarrow>
             let s = lapic_write LAPIC_LVT_TIMER_REG 0x10000 (s\<lparr>kn_machine := m\<rparr>);
                 (end_lapic_timer, s) = lapic_read LAPIC_CURRENT_COUNT_REG s;
                 (end_tsc_timer, m) = read_tsc (kn_machine s);
                 s = s\<lparr>kn_machine := m,
                       kn_timer := (kn_timer s)\<lparr>lapic_ticks_per_ms := ucast ((start_lapic_timer - end_lapic_timer) div 10),
                         tsc_freq_hz := (end_tsc_timer - start_tsc_timer) * 100,
                         tsc_boot_time := end_tsc_timer\<rparr>\<rparr>;
                 s = lapic_write LAPIC_LVT_TIMER_REG (LAPIC_LVT_VECTOR OR LAPIC_LVT_PERIODIC) s;
                 s = lapic_write LAPIC_DIVIDE_REG 0x3 s
             in Ok (lapic_write LAPIC_INITIAL_COUNT_REG
                      (ucast (lapic_ticks_per_ms (kn_timer s) * (1000 div TIMER_FREQUENCY_HZ))) s))"

section \<open>The interrupt\<close>

definition uptime_ms :: "kern \<Rightarrow> (u64 \<times> kern) outcome" where
  "uptime_ms s =
     (let (tsc, m) = read_tsc (kn_machine s)
      in obind (timer_get_uptime_ms (kn_timer s) tsc) (\<lambda>ms. Ok (ms, s\<lparr>kn_machine := m\<rparr>)))"

definition kn_wake :: "kern \<Rightarrow> kern outcome" where
  "kn_wake s =
     (if task_list (kn_procs s) = 0 then Ok s
      else
        let (tsc, m) = read_tsc (kn_machine s)
        in obind (scheduler_wake_sleeping_threads (kn_timer s) tsc (kn_procs s) (kn_rflags s)) (\<lambda>(rf, ps).
           Ok (set_kn_rflags rf (set_kn_procs ps (s\<lparr>kn_machine := m\<rparr>)))))"

definition timer_handler :: "u64 \<Rightarrow> kern \<Rightarrow> (u64 \<times> kern) outcome" where
  "timer_handler context s =
     (let s = s\<lparr>kn_timer := (kn_timer s)\<lparr>system_ticks := system_ticks (kn_timer s) + 1\<rparr>\<rparr>;
          s = lapic_send_EOI s
      in obind (kn_wake s) (\<lambda>s.
         let cur = thread_current (kn_procs s) in
         if cur \<noteq> 0 then
           obind (in_procs (set_thread cur (\<lambda>t. t\<lparr>th_ticks_remaining := th_ticks_remaining t - 1\<rparr>)) s) (\<lambda>s.
           obind (thread_at (kn_procs s) cur) (\<lambda>t.
           if th_ticks_remaining t = 0 then
             obind (in_procs (set_thread cur (\<lambda>t. t\<lparr>th_ticks_remaining := THREAD_INITIAL_TICKS\<rparr>)) s) (\<lambda>s.
             kn_schedule context s)
           else Ok (context, s)))
         else Ok (context, s)))"

section \<open>Busy waiting\<close>

partial_function (option) timer_wait :: "u64 \<Rightarrow> kern \<Rightarrow> kern outcome option" where
  [code]: "timer_wait until s =
     (case uptime_ms s of
        Ok (now, s) \<Rightarrow> if now < until then timer_wait until s else Some (Ok s)
      | Halt \<Rightarrow> Some Halt | Spin \<Rightarrow> Some Spin | Block \<Rightarrow> Some Block | Fault \<Rightarrow> Some Fault)"

definition timer_sleep :: "u64 \<Rightarrow> kern \<Rightarrow> kern outcome" where
  "timer_sleep ms s = obind (uptime_ms s) (\<lambda>(start, s). loop_outcome (timer_wait (start + ms) s))"

end
