(* ===== verification/Isr.thy ===== *)
theory Isr
  imports Timer
begin

text \<open>
  The interrupt dispatcher (\<open>kernel/src/interrupts/isr.c\<close>) and the entry and exit around it: the
  processor and the stub push the frame of the interrupted code with interrupts disabled, and
  \<open>iretq\<close> continues from the frame whose address the dispatcher returns.
\<close>

definition PAGE_FAULT_VECTOR :: u64 where "PAGE_FAULT_VECTOR = 14"
definition LAPIC_TIMER_VECTOR :: u64 where "LAPIC_TIMER_VECTOR = 32"
definition YIELD_VECTOR :: u64 where "YIELD_VECTOR = 50"

definition interrupt_handler :: "u64 \<Rightarrow> kern \<Rightarrow> (u64 \<times> kern) outcome" where
  "interrupt_handler context s =
     obind (context_at s context) (\<lambda>c.
     if vector_number c = PAGE_FAULT_VECTOR then
       obind (on_vm (\<lambda>vm. vmm_page_fault_handler vm (kn_cr2 s) (error_code c)) s) (\<lambda>s. Ok (context, s))
     else if vector_number c = LAPIC_TIMER_VECTOR then timer_handler context s
     else if vector_number c = YIELD_VECTOR then kn_schedule context s
     else if vector_number c = ucast SPURIOUS_VECTOR then Ok (context, lapic_spurious_isr s)
     else Ok (context, s))"

definition interrupt :: "u64 \<Rightarrow> cpu_status \<Rightarrow> kern \<Rightarrow> (u64 \<times> kern) outcome" where
  "interrupt frame c s =
     (let s = set_kn_rflags (kn_rflags s AND NOT RFLAGS_IF) (s\<lparr>kn_contexts := (kn_contexts s)(frame \<mapsto> c)\<rparr>)
      in obind (interrupt_handler frame s) (\<lambda>(next_stack, s).
         obind (context_at s next_stack) (\<lambda>c. Ok (next_stack, set_kn_rflags (st_rflags c) s))))"

text \<open>
  \<open>int $50\<close>, from code whose registers are \<open>c\<close> and whose stack has room for the frame at \<open>frame\<close>.
  The result describes the thread that continues.
\<close>

definition scheduler_yield :: "u64 \<Rightarrow> cpu_status \<Rightarrow> kern \<Rightarrow> (u64 \<times> kern) outcome" where
  "scheduler_yield frame c s =
     interrupt frame (c\<lparr>vector_number := YIELD_VECTOR, error_code := 0, st_rflags := kn_rflags s\<rparr>) s"

text \<open>
  A write of the kernel to a page: the processor walks the page tables from CR3, a page that is
  not present raises a page fault, and the write is repeated when the handler returns.
\<close>

definition page_present :: "paging \<Rightarrow> u64 \<Rightarrow> bool" where
  "page_present pg v \<longleftrightarrow> translate pg (frame_of (cr3 pg)) v \<noteq> None"

partial_function (option) touch_loop :: "u64 \<Rightarrow> kern \<Rightarrow> kern outcome option" where
  [code]: "touch_loop v s =
     (if page_present (kn_pg s) v then Some (Ok s)
      else case on_vm (\<lambda>vm. vmm_page_fault_handler vm v PAGE_FAULT_WRITE) (s\<lparr>kn_cr2 := v\<rparr>) of
             Ok s \<Rightarrow> touch_loop v s
           | Halt \<Rightarrow> Some Halt | Spin \<Rightarrow> Some Spin | Block \<Rightarrow> Some Block | Fault \<Rightarrow> Some Fault)"

definition touch_page :: "u64 \<Rightarrow> kern \<Rightarrow> kern outcome" where
  "touch_page v s = loop_outcome (touch_loop v s)"

end
