(* ===== verification/Task.thy ===== *)
theory Task
  imports Isr
begin

text \<open>
  Creating, ending and reaping tasks and threads (\<open>kernel/src/scheduling/task.c\<close> and
  \<open>scheduler_init\<close>). The addresses of functions are arguments, and so are the registers of the
  calling thread and the place of its frame where an operation ends in \<open>scheduler_yield\<close>.
\<close>

definition THREAD_INITIAL_STACK_SIZE :: u64 where "THREAD_INITIAL_STACK_SIZE = 4 * PAGING_PAGE_SIZE"
definition TASK_NAME_MAX_LENGTH :: nat where "TASK_NAME_MAX_LENGTH = 32"
definition sizeof_task :: u64 where "sizeof_task = 64"
definition sizeof_thread :: u64 where "sizeof_thread = 56"

section \<open>Creation\<close>

text \<open>
  The name is a zero-terminated string, \<open>None\<close> being \<open>NULL\<close>. \<open>strcpy\<close> reads through the pointer
  and does not look at the size of the field: a write behind its end is a fault of the model.
\<close>

definition copy_name :: "u8 list option \<Rightarrow> u8 list outcome" where
  "copy_name name =
     (case name of
        None \<Rightarrow> Fault
      | Some nm \<Rightarrow> if TASK_NAME_MAX_LENGTH < length nm + 1 then Fault
                  else Ok (nm @ replicate (TASK_NAME_MAX_LENGTH - length nm) 0))"

definition zero_task :: task where
  "zero_task = \<lparr>tk_pid = 0, tk_name = replicate TASK_NAME_MAX_LENGTH 0, tk_vas = 0, tk_threads = 0, tk_next = 0\<rparr>"

definition zero_thread :: thread where
  "zero_thread = \<lparr>th_tid = 0, th_context = 0, th_state = THREAD_READY, th_ticks_remaining = 0, th_wake_time = 0,
     th_next = 0, th_next_waiter = 0\<rparr>"

definition new_task :: "u64 \<Rightarrow> task \<Rightarrow> procs \<Rightarrow> procs" where
  "new_task p t s = s\<lparr>task_heap := (task_heap s)(p \<mapsto> t)\<rparr>"

definition new_thread :: "u64 \<Rightarrow> thread \<Rightarrow> procs \<Rightarrow> procs" where
  "new_thread p t s = s\<lparr>thread_heap := (thread_heap s)(p \<mapsto> t)\<rparr>"

text \<open>The second half of \<open>scheduler_init\<close>, for the idle task \<open>idle\<close>.\<close>

definition create_idle_thread :: "u64 \<Rightarrow> kern \<Rightarrow> kern outcome" where
  "create_idle_thread idle s =
     obind (in_vm (\<lambda>vm. vm_kmalloc vm sizeof_thread) s) (\<lambda>(idle_thread, s).
     if idle_thread = 0 then obind (on_vm (\<lambda>vm. vm_kfree vm idle) s) (\<lambda>_. Halt)
     else
       let s = set_kn_procs (new_thread idle_thread
                 (zero_thread\<lparr>th_tid := 0, th_state := THREAD_RUNNING, th_ticks_remaining := THREAD_INITIAL_TICKS\<rparr>) (kn_procs s)) s
       in obind (in_procs (set_task idle (tk_threads_update (\<lambda>_. idle_thread))) s) (\<lambda>s.
          obind (in_procs (set_thread idle_thread (th_next_update (\<lambda>_. idle_thread))) s) (\<lambda>s.
          Ok (set_kn_procs ((kn_procs s)\<lparr>thread_current := idle_thread\<rparr>) s))))"

definition scheduler_init :: "kern \<Rightarrow> kern outcome" where
  "scheduler_init s =
     obind (in_vm (\<lambda>vm. vm_kmalloc vm sizeof_task) s) (\<lambda>(idle, s).
     if idle = 0 then Halt
     else
       obind (copy_name (Some [0x49, 0x64, 0x6C, 0x65])) (\<lambda>name.
       let s = set_kn_procs (new_task idle (zero_task\<lparr>tk_pid := 0, tk_name := name, tk_vas := vmm_get_kernel_vas (kn_vm s)\<rparr>) (kn_procs s)) s;
           s = set_kn_procs ((kn_procs s)\<lparr>task_current := idle\<rparr>) s
       in obind (in_procs (set_task idle (tk_next_update (\<lambda>_. idle))) s) (\<lambda>s.
          create_idle_thread idle (set_kn_procs ((kn_procs s)\<lparr>task_list := idle\<rparr>) s))))"

text \<open>The loops that look for the last element of a circular list.\<close>

partial_function (option) last_task :: "procs \<Rightarrow> u64 \<Rightarrow> u64 outcome option" where
  [code]: "last_task s current =
     (case task_at s current of
        Ok t \<Rightarrow> if tk_next t \<noteq> task_list s then last_task s (tk_next t) else Some (Ok current)
      | Halt \<Rightarrow> Some Halt | Spin \<Rightarrow> Some Spin | Block \<Rightarrow> Some Block | Fault \<Rightarrow> Some Fault)"

partial_function (option) last_thread :: "procs \<Rightarrow> u64 \<Rightarrow> u64 \<Rightarrow> u64 outcome option" where
  [code]: "last_thread s tk current =
     (case obind (thread_at s current) (\<lambda>h. obind (task_at s tk) (\<lambda>t. Ok (th_next h, tk_threads t))) of
        Ok (nx, first) \<Rightarrow> if nx \<noteq> first then last_thread s tk nx else Some (Ok current)
      | Halt \<Rightarrow> Some Halt | Spin \<Rightarrow> Some Spin | Block \<Rightarrow> Some Block | Fault \<Rightarrow> Some Fault)"

definition append_task :: "u64 \<Rightarrow> procs \<Rightarrow> procs outcome" where
  "append_task p s =
     (if task_list s = 0 then set_task p (tk_next_update (\<lambda>_. p)) (s\<lparr>task_list := p\<rparr>)
      else
        obind (loop_outcome (last_task s (task_list s))) (\<lambda>current.
        obind (set_task current (tk_next_update (\<lambda>_. p)) s) (\<lambda>s.
        set_task p (tk_next_update (\<lambda>_. task_list s)) s)))"

definition append_thread :: "u64 \<Rightarrow> u64 \<Rightarrow> procs \<Rightarrow> procs outcome" where
  "append_thread tk p s =
     obind (task_at s tk) (\<lambda>t.
     if tk_threads t = 0 then
       obind (set_task tk (tk_threads_update (\<lambda>_. p)) s) (\<lambda>s. set_thread p (th_next_update (\<lambda>_. p)) s)
     else
       obind (loop_outcome (last_thread s tk (tk_threads t))) (\<lambda>current.
       obind (set_thread current (th_next_update (\<lambda>_. p)) s) (\<lambda>s.
       obind (task_at s tk) (\<lambda>t. set_thread p (th_next_update (\<lambda>_. tk_threads t)) s))))"

definition task_create :: "u8 list option \<Rightarrow> kern \<Rightarrow> (u64 \<times> kern) outcome" where
  "task_create name s =
     obind (in_vm (\<lambda>vm. vm_kmalloc vm sizeof_task) s) (\<lambda>(p, s).
     if p = 0 then Ok (0, s)
     else
       obind (copy_name name) (\<lambda>nm.
       let ps = kn_procs s;
           ps = new_task p (zero_task\<lparr>tk_name := nm, tk_vas := vmm_get_kernel_vas (kn_vm s), tk_pid := next_pid ps, tk_threads := 0\<rparr>) ps;
           s = set_kn_procs (ps\<lparr>next_pid := next_pid ps + 1\<rparr>) s
       in obind (sched_acquire s) (\<lambda>(irq_flags, s).
          obind (in_procs (append_task p) s) (\<lambda>s.
          Ok (p, sched_release irq_flags s)))))"

text \<open>The frame from which the scheduler starts the thread, and its place on the new stack.\<close>

definition initial_status :: "u64 \<Rightarrow> u64 \<Rightarrow> cpu_status" where
  "initial_status entry_point ret_addr =
     \<lparr>general_purpose_registers = replicate 16 0, vector_number = 0, error_code = 0, rip = entry_point,
      cs = of_nat (GDT_KERNEL_CS * 8), st_rflags = 0x202, rsp = ret_addr, ss = of_nat (GDT_KERNEL_DS * 8)\<rparr>"

definition build_stack :: "u64 \<Rightarrow> u64 \<Rightarrow> u64 \<Rightarrow> kern \<Rightarrow> (u64 \<times> kern) outcome" where
  "build_stack exit_fn entry_point new_stack_bottom s =
     (let stack_top = new_stack_bottom + THREAD_INITIAL_STACK_SIZE;
          ret_addr = stack_top - 8
      in obind (touch_page ret_addr s) (\<lambda>s.
         let s = s\<lparr>kn_words := (kn_words s)(ret_addr \<mapsto> exit_fn)\<rparr>;
             sp = ret_addr - sizeof_cpu_status
         in obind (touch_page sp s) (\<lambda>s.
            Ok (sp, s\<lparr>kn_contexts := (kn_contexts s)(sp \<mapsto> initial_status entry_point ret_addr)\<rparr>))))"

text \<open>The part of \<open>task_create_thread\<close> behind the allocations.\<close>

definition start_thread :: "u64 \<Rightarrow> u64 \<Rightarrow> u64 \<Rightarrow> u64 \<Rightarrow> u64 \<Rightarrow> kern \<Rightarrow> (u64 \<times> kern) outcome" where
  "start_thread exit_fn tk p entry_point new_stack_bottom s =
     obind (build_stack exit_fn entry_point new_stack_bottom s) (\<lambda>(sp, s).
     let ps = kn_procs s;
         ps = new_thread p (zero_thread\<lparr>th_context := sp, th_state := THREAD_READY,
                th_ticks_remaining := THREAD_INITIAL_TICKS, th_tid := next_tid ps\<rparr>) ps;
         s = set_kn_procs (ps\<lparr>next_tid := next_tid ps + 1\<rparr>) s
     in obind (sched_acquire s) (\<lambda>(irq_flags, s).
        obind (in_procs (append_thread tk p) s) (\<lambda>s.
        Ok (p, sched_release irq_flags s))))"

definition task_create_thread :: "u64 \<Rightarrow> u64 \<Rightarrow> u64 \<Rightarrow> kern \<Rightarrow> (u64 \<times> kern) outcome" where
  "task_create_thread exit_fn tk entry_point s =
     (if tk = 0 \<or> entry_point = 0 then Ok (0, s)
      else
        obind (in_vm (\<lambda>vm. vm_kmalloc vm sizeof_thread) s) (\<lambda>(p, s).
        if p = 0 then Ok (0, s)
        else
          obind (in_vm (\<lambda>vm. vmm_alloc vm (vmm_get_kernel_vas vm) THREAD_INITIAL_STACK_SIZE
                   (VMM_FLAGS_READ OR VMM_FLAGS_WRITE OR VMM_FLAGS_ANON) 0) s) (\<lambda>(new_stack_bottom, s).
          if new_stack_bottom = 0 then obind (on_vm (\<lambda>vm. vm_kfree vm p) s) (\<lambda>s. Ok (0, s))
          else start_thread exit_fn tk p entry_point new_stack_bottom s)))"

section \<open>Leaving the processor\<close>

definition task_current_thread_exit :: "u64 \<Rightarrow> cpu_status \<Rightarrow> kern \<Rightarrow> (u64 \<times> kern) outcome" where
  "task_current_thread_exit frame c s =
     obind (sched_acquire s) (\<lambda>(irq_flags, s).
     obind (in_procs (set_thread (thread_current (kn_procs s)) (th_state_update (\<lambda>_. THREAD_ZOMBIE))) s) (\<lambda>s.
     scheduler_yield frame c (sched_release irq_flags s)))"

definition thread_sleep :: "u64 \<Rightarrow> cpu_status \<Rightarrow> u64 \<Rightarrow> kern \<Rightarrow> (u64 \<times> kern) outcome" where
  "thread_sleep frame c ms s =
     obind (sched_acquire s) (\<lambda>(irq_flags, s).
     obind (uptime_ms s) (\<lambda>(now, s).
     obind (in_procs (set_thread (thread_current (kn_procs s)) (\<lambda>t. t\<lparr>th_wake_time := now + ms\<rparr>)) s) (\<lambda>s.
     obind (in_procs (set_thread (thread_current (kn_procs s)) (\<lambda>t. t\<lparr>th_state := THREAD_SLEEPING\<rparr>)) s) (\<lambda>s.
     scheduler_yield frame c (sched_release irq_flags s)))))"

section \<open>The reaper\<close>

text \<open>
  Search of a zombie among the threads of one task, with the thread in front of it; the thread
  that is found is taken out of the list.
\<close>

definition unlink_thread :: "u64 \<Rightarrow> u64 \<Rightarrow> u64 \<Rightarrow> procs \<Rightarrow> procs outcome" where
  "unlink_thread curr_task prev_thread curr_thread s =
     obind (thread_at s curr_thread) (\<lambda>h.
     if curr_thread = th_next h then set_task curr_task (tk_threads_update (\<lambda>_. 0)) s
     else
       obind (set_thread prev_thread (th_next_update (\<lambda>_. th_next h)) s) (\<lambda>s.
       obind (task_at s curr_task) (\<lambda>t.
       if curr_thread = tk_threads t then set_task curr_task (tk_threads_update (\<lambda>_. th_next h)) s
       else Ok s)))"

partial_function (option) find_zombie :: "procs \<Rightarrow> u64 \<Rightarrow> u64 \<Rightarrow> u64 \<Rightarrow> (u64 \<times> procs) outcome option" where
  [code]: "find_zombie s curr_task prev_thread curr_thread =
     (case thread_at s curr_thread of
        Ok h \<Rightarrow>
          if th_state h = THREAD_ZOMBIE then
            Some (obind (unlink_thread curr_task prev_thread curr_thread s) (\<lambda>s. Ok (curr_thread, s)))
          else
            (case task_at s curr_task of
               Ok t \<Rightarrow> if tk_threads t \<noteq> 0 \<and> th_next h \<noteq> tk_threads t
                      then find_zombie s curr_task curr_thread (th_next h) else Some (Ok (0, s))
             | Halt \<Rightarrow> Some Halt | Spin \<Rightarrow> Some Spin | Block \<Rightarrow> Some Block | Fault \<Rightarrow> Some Fault)
      | Halt \<Rightarrow> Some Halt | Spin \<Rightarrow> Some Spin | Block \<Rightarrow> Some Block | Fault \<Rightarrow> Some Fault)"

definition reap_task :: "procs \<Rightarrow> u64 \<Rightarrow> (u64 \<times> procs) outcome" where
  "reap_task s curr_task =
     obind (task_at s curr_task) (\<lambda>t.
     if tk_threads t \<noteq> 0 then
       obind (thread_at s (tk_threads t)) (\<lambda>h. loop_outcome (find_zombie s curr_task (tk_threads t) (th_next h)))
     else Ok (0, s))"

partial_function (option) reap_tasks :: "procs \<Rightarrow> u64 \<Rightarrow> (u64 \<times> u64 \<times> procs) outcome option" where
  [code]: "reap_tasks s curr_task =
     (case obind (reap_task s curr_task) (\<lambda>(d, s). obind (task_at s curr_task) (\<lambda>t. Ok (d, t, s))) of
        Ok (d, t, s) \<Rightarrow>
          if d \<noteq> 0 then Some (Ok (d, tk_vas t, s))
          else if tk_next t \<noteq> task_list s then reap_tasks s (tk_next t) else Some (Ok (0, 0, s))
      | Halt \<Rightarrow> Some Halt | Spin \<Rightarrow> Some Spin | Block \<Rightarrow> Some Block | Fault \<Rightarrow> Some Fault)"

text \<open>The stack of a dead thread is found through the stack pointer in its last frame.\<close>

definition reap_thread :: "u64 \<Rightarrow> u64 \<Rightarrow> kern \<Rightarrow> (u64 \<times> kern) outcome" where
  "reap_thread thread_to_delete stack_to_clean s =
     obind (thread_at (kn_procs s) thread_to_delete) (\<lambda>h.
     obind (context_at s (th_context h)) (\<lambda>c.
     obind (on_vm (\<lambda>vm. vmm_free vm stack_to_clean (rsp c)) s) (\<lambda>s.
     obind (on_vm (\<lambda>vm. vm_kfree vm thread_to_delete) s) (\<lambda>s.
     let ps = kn_procs s
     in Ok (thread_to_delete, set_kn_procs (ps\<lparr>thread_heap := (thread_heap ps)(thread_to_delete := None)\<rparr>) s)))))"

text \<open>
  One round of the endless loop of \<open>kernel_idle_thread\<close>; it returns the thread that was reaped,
  0 when there is none and the processor waits for the next interrupt.
\<close>

definition idle_round :: "kern \<Rightarrow> (u64 \<times> kern) outcome" where
  "idle_round s =
     obind (sched_acquire s) (\<lambda>(irq_flags, s).
     obind (if task_list (kn_procs s) \<noteq> 0
            then obind (loop_outcome (reap_tasks (kn_procs s) (task_list (kn_procs s)))) (\<lambda>(d, v, ps). Ok (d, v, set_kn_procs ps s))
            else Ok (0, 0, s)) (\<lambda>(thread_to_delete, stack_to_clean, s).
     let s = sched_release irq_flags s in
     if thread_to_delete \<noteq> 0 then reap_thread thread_to_delete stack_to_clean s
     else Ok (0, s)))"

end
