(* ===== verification/Scheduler_Props.thy ===== *)
theory Scheduler_Props
  imports Scheduler
begin

text \<open>
  The circular lists of tasks and threads as one list of slots in round-robin order, and what
  the scheduler does on it: it continues the first ready thread behind the interrupted one,
  and waking changes exactly the sleeping threads whose time has come.
\<close>

section \<open>The lists of tasks and threads\<close>

type_synonym layout = "(u64 \<times> u64 list) list"

definition first_thread :: "u64 list \<Rightarrow> u64" where
  "first_thread hs = (case hs of [] \<Rightarrow> 0 | h # _ \<Rightarrow> h)"

lemma first_thread_simps [simp]: "first_thread [] = 0" "first_thread (h # hs) = h"
  by (simp_all add: first_thread_def)

text \<open>The chain of \<open>next\<close> pointers through threads that ends at \<open>e\<close>; likewise through tasks.\<close>

fun thread_seg :: "procs \<Rightarrow> u64 list \<Rightarrow> u64 \<Rightarrow> bool" where
  "thread_seg s [] e \<longleftrightarrow> True"
| "thread_seg s (h # hs) e \<longleftrightarrow> h \<noteq> 0 \<and>
     (\<exists>th. thread_heap s h = Some th \<and> th_next th = (if hs = [] then e else hd hs)) \<and> thread_seg s hs e"

fun task_seg :: "procs \<Rightarrow> layout \<Rightarrow> u64 \<Rightarrow> bool" where
  "task_seg s [] e \<longleftrightarrow> True"
| "task_seg s ((t, hs) # ts) e \<longleftrightarrow> t \<noteq> 0 \<and>
     (\<exists>tk. task_heap s t = Some tk \<and> tk_threads tk = first_thread hs \<and> tk_next tk = (if ts = [] then e else fst (hd ts))) \<and>
     thread_seg s hs (first_thread hs) \<and> distinct hs \<and> task_seg s ts e"

definition threads_of :: "layout \<Rightarrow> u64 list" where
  "threads_of ts = concat (map snd ts)"

definition sched_rep :: "procs \<Rightarrow> layout \<Rightarrow> bool" where
  "sched_rep s ts \<longleftrightarrow> ts \<noteq> [] \<and> task_list s = fst (hd ts) \<and> task_seg s ts (task_list s) \<and>
     distinct (map fst ts) \<and> distinct (threads_of ts)"

text \<open>
  The slots in round-robin order: a task and one of its threads, or a task and \<open>NULL\<close> when it
  has no thread.
\<close>

definition task_slots :: "u64 \<times> u64 list \<Rightarrow> (u64 \<times> u64) list" where
  "task_slots x = (case x of (t, hs) \<Rightarrow> if hs = [] then [(t, 0)] else map (Pair t) hs)"

definition slots :: "layout \<Rightarrow> (u64 \<times> u64) list" where
  "slots ts = concat (map task_slots ts)"

lemma task_slots_nonempty [simp]: "task_slots x \<noteq> []"
  by (cases x) (simp add: task_slots_def)

lemma hd_task_slots: "hd (task_slots (t, hs)) = (t, first_thread hs)"
  by (cases hs) (simp_all add: task_slots_def)

lemma slots_simps [simp]: "slots [] = []" "slots (x # ts) = task_slots x @ slots ts"
  by (simp_all add: slots_def)

lemma slots_nonempty [simp]: "slots ts = [] \<longleftrightarrow> ts = []"
  by (cases ts) simp_all

lemma hd_slots: "ts \<noteq> [] \<Longrightarrow> hd (slots ts) = (fst (hd ts), first_thread (snd (hd ts)))"
  by (cases ts) (auto simp: hd_task_slots)

lemma slots_threads: "(t, h) \<in> set (slots ts) \<Longrightarrow> h \<noteq> 0 \<Longrightarrow> h \<in> set (threads_of ts)"
  by (induction ts) (auto simp: task_slots_def threads_of_def split: if_splits)

lemma distinct_slots: "distinct (map fst ts) \<Longrightarrow> (\<forall>x\<in>set ts. distinct (snd x)) \<Longrightarrow> distinct (slots ts)"
proof (induction ts)
  case (Cons x ts)
  have "fst p = fst x" if "p \<in> set (task_slots x)" for p using that by (cases x) (auto simp: task_slots_def split: if_splits)
  moreover have "fst p \<in> fst ` set ts" if "p \<in> set (slots ts)" for p
    using that by (auto simp: slots_def task_slots_def split: if_splits) force+
  ultimately have "set (task_slots x) \<inter> set (slots ts) = {}" using Cons.prems(1) by fastforce
  moreover have "distinct (task_slots x)" using Cons.prems(2) by (cases x) (auto simp: task_slots_def distinct_map inj_on_def)
  ultimately show ?case using Cons by auto
qed simp

lemma find_SomeD: "find P xs = Some x \<Longrightarrow> P x \<and> x \<in> set xs"
  by (induction xs) (auto split: if_splits)

section \<open>Successors\<close>

text \<open>The step of the search, as a function of the slot.\<close>

definition after_slot :: "procs \<Rightarrow> u64 \<times> u64 \<Rightarrow> (u64 \<times> u64) outcome" where
  "after_slot s p = (case p of (t, h) \<Rightarrow>
     if h = 0 then skip_task s t else obind (thread_at s h) (\<lambda>th. next_slot s t (th_next th)))"

fun follows :: "('a \<Rightarrow> 'a outcome) \<Rightarrow> 'a list \<Rightarrow> 'a \<Rightarrow> bool" where
  "follows f [] e \<longleftrightarrow> True"
| "follows f (p # ps) e \<longleftrightarrow> f p = Ok (if ps = [] then e else hd ps) \<and> follows f ps e"

lemma follows_append: "follows f (ps @ qs) e \<longleftrightarrow> follows f ps (if qs = [] then e else hd qs) \<and> follows f qs e"
  by (induction ps) (auto simp: hd_append)

lemma skip_task_seg:
  assumes "task_seg s ((t, hs) # ts) e" and "ts = [] \<Longrightarrow> e = t' \<and> (\<exists>tk. task_at s t' = Ok tk \<and> tk_threads tk = h')"
    and "ts \<noteq> [] \<Longrightarrow> (t', h') = hd (slots ts)"
  shows "skip_task s t = Ok (t', h')"
proof (cases ts)
  case Nil
  then show ?thesis using assms(1,2) by (auto simp: skip_task_def task_at_def)
next
  case (Cons x us)
  obtain u ks where x: "x = (u, ks)" by (cases x)
  have "t' = u" "h' = first_thread ks" using assms(3) Cons x by (simp_all add: hd_task_slots)
  then show ?thesis using assms(1) Cons x by (auto simp: skip_task_def task_at_def)
qed

lemma thread_follows:
  assumes "thread_seg s hs (first_thread ks)" "task_at s t = Ok tk" "tk_threads tk = first_thread ks" "skip_task s t = Ok e"
    and "first_thread ks \<notin> set (tl hs)"
  shows "follows (after_slot s) (map (Pair t) hs) e"
  using assms
proof (induction hs)
  case (Cons h hs)
  obtain th where th: "h \<noteq> 0" "thread_heap s h = Some th" "th_next th = (if hs = [] then first_thread ks else hd hs)"
    using Cons.prems(1) by auto
  have "first_thread ks \<notin> set (tl hs)" using Cons.prems(5) by (cases hs) auto
  moreover have "hs \<noteq> [] \<Longrightarrow> hd hs \<noteq> first_thread ks" using Cons.prems(5) by (cases hs) auto
  ultimately show ?case using Cons th by (auto simp: after_slot_def thread_at_def next_slot_def hd_map)
qed simp

lemma slots_follow:
  assumes "task_seg s ts e" "ts \<noteq> []" "task_at s e = Ok etk"
  shows "follows (after_slot s) (slots ts) (e, tk_threads etk)"
  using assms
proof (induction ts)
  case (Cons x ts)
  obtain t hs where x: "x = (t, hs)" by (cases x)
  obtain tk where tk: "t \<noteq> 0" "task_at s t = Ok tk" "tk_threads tk = first_thread hs" "thread_seg s hs (first_thread hs)" "distinct hs"
    using Cons.prems(1) x by (auto simp: task_at_def)
  let ?e = "if slots ts = [] then (e, tk_threads etk) else hd (slots ts)"
  have skip: "skip_task s t = Ok ?e"
    using skip_task_seg [of s t hs ts e "fst ?e" "snd ?e"] Cons.prems(1,3) x by auto
  have "follows (after_slot s) (task_slots x) ?e"
  proof (cases "hs = []")
    case True
    then show ?thesis using x skip by (simp add: task_slots_def after_slot_def)
  next
    case False
    then have "first_thread hs \<notin> set (tl hs)" using tk(5) by (cases hs) auto
    from thread_follows [OF tk(4,2,3) skip this] show ?thesis using False x by (simp add: task_slots_def)
  qed
  moreover have "follows (after_slot s) (slots ts) (e, tk_threads etk)"
    using Cons.IH Cons.prems x by (cases "ts = []") auto
  ultimately show ?case by (simp add: follows_append)
qed simp

lemma rep_follows:
  assumes "sched_rep s ts"
  shows "follows (after_slot s) (slots ts) (hd (slots ts))"
proof -
  obtain t hs us where ts: "ts = (t, hs) # us" using assms by (cases ts) (auto simp: sched_rep_def)
  then obtain tk where "task_at s t = Ok tk" "tk_threads tk = first_thread hs" "task_list s = t"
    using assms by (auto simp: sched_rep_def task_at_def)
  then show ?thesis using slots_follow [of s ts t tk] assms ts by (simp add: sched_rep_def hd_task_slots)
qed

text \<open>The order in which the other slots come behind the current one.\<close>

lemma rotated_follows:
  assumes "follows f (xs @ c # ys) (hd (xs @ c # ys))"
  shows "f c = Ok (hd (ys @ xs @ [c]))" "follows f (ys @ xs) c"
proof -
  have x: "follows f xs c" "follows f (c # ys) (hd (xs @ c # ys))" using assms by (simp_all add: follows_append)
  then show "f c = Ok (hd (ys @ xs @ [c]))" by (cases ys; cases xs) auto
  have "follows f ys (hd (xs @ [c]))" using x(2) by (cases xs) auto
  then show "follows f (ys @ xs) c" using x(1) by (cases xs) (auto simp: follows_append)
qed

section \<open>The search\<close>

definition ready :: "procs \<Rightarrow> u64 \<times> u64 \<Rightarrow> bool" where
  "ready s p \<longleftrightarrow> snd p \<noteq> 0 \<and> (\<exists>th. thread_heap s (snd p) = Some th \<and> th_state th = THREAD_READY)"

abbreviation current :: "procs \<Rightarrow> u64 \<times> u64" where
  "current s \<equiv> (task_current s, thread_current s)"

definition proper :: "procs \<Rightarrow> u64 \<times> u64 \<Rightarrow> bool" where
  "proper s p \<longleftrightarrow> snd p = 0 \<or> snd p \<in> dom (thread_heap s)"

lemma search_here: "ready s (t, h) \<Longrightarrow> search_ready s t h = Some (Ok (t, h))"
  by (subst search_ready.simps) (auto simp: ready_def thread_at_def)

lemma search_skip: "after_slot s (t, 0) = Ok (t', h') \<Longrightarrow> search_ready s t 0 = search_ready s t' h'"
  by (subst search_ready.simps) (simp add: after_slot_def)

lemma search_step:
  assumes "proper s (t, h)" "\<not> ready s (t, h)" "after_slot s (t, h) = Ok (t', h')" "(t', h') \<noteq> current s"
  shows "search_ready s t h = search_ready s t' h'"
proof (cases "h = 0")
  case False
  then obtain th where th: "thread_heap s h = Some th" using assms(1) by (auto simp: proper_def)
  then have "th_state th \<noteq> THREAD_READY" "next_slot s t (th_next th) = Ok (t', h')"
    using assms(2,3) False by (auto simp: ready_def after_slot_def thread_at_def)
  then show ?thesis using False th assms(4) by (subst search_ready.simps) (auto simp: thread_at_def)
qed (use assms(3) search_skip in auto)

lemma search_back:
  assumes "proper s (t, h)" "\<not> ready s (t, h)" "after_slot s (t, h) = Ok (current s)" "ready s (current s)"
  shows "search_ready s t h = Some (Ok (current s))"
proof (cases "h = 0")
  case True
  then show ?thesis using assms(3) search_skip search_here [OF assms(4)] by simp
next
  case False
  then obtain th where th: "thread_heap s h = Some th" using assms(1) by (auto simp: proper_def)
  then have "th_state th \<noteq> THREAD_READY" "next_slot s t (th_next th) = Ok (current s)"
    using assms(2,3) False by (auto simp: ready_def after_slot_def thread_at_def)
  then show ?thesis using False th assms(4) by (subst search_ready.simps) (auto simp: thread_at_def ready_def)
qed

lemma search_finds:
  assumes "follows (after_slot s) ps (current s)" "\<forall>p\<in>set ps. proper s p" "current s \<notin> set ps"
    and "find (ready s) (ps @ [current s]) = Some p"
  shows "search_ready s (fst (hd (ps @ [current s]))) (snd (hd (ps @ [current s]))) = Some (Ok p)"
  using assms
proof (induction ps)
  case Nil
  then show ?case using search_here by (auto split: if_splits)
next
  case (Cons q ps)
  obtain t h where q: "q = (t, h)" by (cases q)
  show ?case
  proof (cases "ready s q")
    case True
    then show ?thesis using Cons.prems(4) q search_here by simp
  next
    case False
    have rest: "find (ready s) (ps @ [current s]) = Some p" using Cons.prems(4) False by simp
    have "follows (after_slot s) ps (current s)" using Cons.prems(1) by simp
    note IH = Cons.IH [OF this _ _ rest]
    have nx: "after_slot s (t, h) = Ok (hd (ps @ [current s]))" using Cons.prems(1) q by (cases ps) auto
    show ?thesis
    proof (cases ps)
      case Nil
      then show ?thesis using search_back [of s t h] nx False rest Cons.prems(2) q by (auto split: if_splits)
    next
      case (Cons r rs)
      then have "hd (ps @ [current s]) \<noteq> current s" using Cons.prems(3) by auto
      then have "search_ready s t h = search_ready s (fst (hd (ps @ [current s]))) (snd (hd (ps @ [current s])))"
        using search_step [of s t h "fst (hd (ps @ [current s]))" "snd (hd (ps @ [current s]))"] nx False Cons.prems(2) q by simp
      then show ?thesis using IH Cons.prems(2,3) q by simp
    qed
  qed
qed

text \<open>Without a ready thread the search stays on the slots for ever.\<close>

definition stuck :: "procs \<Rightarrow> (u64 \<times> u64) set \<Rightarrow> bool" where
  "stuck s P \<longleftrightarrow> (\<forall>p\<in>P. proper s p \<and> \<not> ready s p \<and> (\<exists>q\<in>P. after_slot s p = Ok q)) \<and>
     (\<exists>tk. task_at s (task_list s) = Ok tk \<and> (task_list s, tk_threads tk) \<in> P) \<and> thread_current s \<noteq> 0"

lemma search_stuck:
  assumes "search_ready s t h = Some r" "stuck s P" "(t, h) \<in> P"
  shows False
proof -
  have "stuck s P \<longrightarrow> (t, h) \<in> P \<longrightarrow> False"
  proof (induction rule: search_ready.raw_induct [OF _ assms(1), of "\<lambda>s t h r. stuck s P \<longrightarrow> (t, h) \<in> P \<longrightarrow> False"])
    case (1 search s t h r)
    show ?case
    proof (intro impI)
      assume st: "stuck s P" and p: "(t, h) \<in> P"
      have IH: "search s t' h' \<noteq> Some r'" if "(t', h') \<in> P" for t' h' r' using 1(1) st that by blast
      obtain t' h' where nx: "after_slot s (t, h) = Ok (t', h')" "(t', h') \<in> P"
        and pr: "proper s (t, h)" "\<not> ready s (t, h)" "\<not> ready s (t', h')" "proper s (t', h')"
        using st p unfolding stuck_def by (metis surj_pair)
      obtain tk where tk: "task_at s (task_list s) = Ok tk" "(task_list s, tk_threads tk) \<in> P" "thread_current s \<noteq> 0"
        using st unfolding stuck_def by blast
      show False
      proof (cases "h = 0")
        case True
        then have "search s t' h' = Some r" using 1(2) nx(1) by (simp add: after_slot_def)
        then show False using IH nx(2) by blast
      next
        case False
        then obtain th where th: "thread_heap s h = Some th" using pr(1) by (auto simp: proper_def)
        then have "th_state th \<noteq> THREAD_READY" "next_slot s t (th_next th) = Ok (t', h')"
          using pr(2) nx(1) False by (auto simp: ready_def after_slot_def thread_at_def)
        note eq = 1(2) [simplified False thread_at_def th if_False option.case outcome.case this prod.case]
        show False
        proof (cases "t' = task_current s \<and> h' = thread_current s")
          case True
          then obtain ch where "thread_heap s h' = Some ch" "th_state ch \<noteq> THREAD_READY"
            using pr(3,4) tk(3) by (auto simp: ready_def proper_def)
          then have "search s (task_list s) (tk_threads tk) = Some r" using eq True tk(1,3) by simp
          then show False using IH tk(2) by blast
        next
          case not_back: False
          then have "search s t' h' = Some r" using eq by auto
          then show False using IH nx(2) by blast
        qed
      qed
    qed
  qed
  then show False using assms by blast
qed

section \<open>Scheduling\<close>

lemma thread_seg_cong:
  assumes "\<forall>h\<in>set hs. map_option th_next (thread_heap s' h) = map_option th_next (thread_heap s h)"
  shows "thread_seg s' hs e = thread_seg s hs e"
  using assms
proof (induction hs)
  case (Cons h hs)
  then show ?case by (cases "thread_heap s h"; cases "thread_heap s' h") auto
qed simp

lemma task_seg_cong:
  assumes "task_heap s' = task_heap s"
    and "\<forall>h\<in>set (threads_of ts). map_option th_next (thread_heap s' h) = map_option th_next (thread_heap s h)"
  shows "task_seg s' ts e = task_seg s ts e"
  using assms(2)
proof (induction ts)
  case (Cons x ts)
  obtain t hs where x: "x = (t, hs)" by (cases x)
  show ?case using Cons thread_seg_cong [of hs s' s] by (simp add: x assms(1) threads_of_def)
qed simp

lemma sched_rep_cong:
  assumes "task_heap s' = task_heap s" "task_list s' = task_list s"
    and "\<forall>h\<in>set (threads_of ts). map_option th_next (thread_heap s' h) = map_option th_next (thread_heap s h)"
  shows "sched_rep s' ts = sched_rep s ts"
  using task_seg_cong [OF assms(1,3)] assms(2) by (simp add: sched_rep_def)

lemma thread_seg_dom: "thread_seg s hs e \<Longrightarrow> h \<in> set hs \<Longrightarrow> h \<noteq> 0 \<and> h \<in> dom (thread_heap s)"
  by (induction hs) auto

lemma task_seg_threads: "task_seg s ts e \<Longrightarrow> h \<in> set (threads_of ts) \<Longrightarrow> h \<noteq> 0 \<and> h \<in> dom (thread_heap s)"
proof (induction ts)
  case (Cons x ts)
  obtain t hs where x: "x = (t, hs)" by (cases x)
  have "h \<in> set hs \<or> h \<in> set (threads_of ts)" using Cons.prems(2) x by (auto simp: threads_of_def)
  then show ?case using thread_seg_dom [of s hs "first_thread hs" h] Cons.IH Cons.prems(1) x by auto
qed (simp add: threads_of_def)

lemma task_seg_tasks: "task_seg s ts e \<Longrightarrow> t \<in> fst ` set ts \<Longrightarrow> t \<noteq> 0 \<and> t \<in> dom (task_heap s)"
proof (induction ts)
  case (Cons x ts)
  then show ?case by (cases x; cases "t \<in> fst ` set ts") auto
qed simp

lemma slots_tasks: "(t, h) \<in> set (slots ts) \<Longrightarrow> t \<in> fst ` set ts"
  by (induction ts) (auto simp: task_slots_def split: if_splits)

lemma rep_proper:
  assumes "sched_rep s ts" "p \<in> set (slots ts)"
  shows "proper s p"
proof -
  have "snd p = 0 \<or> snd p \<in> set (threads_of ts)" using slots_threads [of "fst p" "snd p" ts] assms(2) by auto
  then show ?thesis using task_seg_threads assms(1) unfolding sched_rep_def proper_def by blast
qed

lemma rep_distinct_slots: "sched_rep s ts \<Longrightarrow> distinct (slots ts)"
proof -
  assume r: "sched_rep s ts"
  have "\<forall>x\<in>set ts. distinct (snd x)" using r by (auto simp: sched_rep_def threads_of_def distinct_concat_iff)
  then show ?thesis using r distinct_slots by (auto simp: sched_rep_def)
qed

lemma follows_mem: "follows f ps e \<Longrightarrow> p \<in> set ps \<Longrightarrow> \<exists>q\<in>insert e (set ps). f p = Ok q"
  by (induction ps) auto

lemma search_start_after:
  assumes "after_slot s (current s) = Ok q" "thread_current s \<noteq> 0"
  shows "search_start s = Ok q"
proof -
  from assms obtain th tk where th: "thread_at s (thread_current s) = Ok th" "task_at s (task_current s) = Ok tk"
    and nx: "(if th_next th = tk_threads tk then skip_task s (task_current s) else Ok (task_current s, th_next th)) = Ok q"
    by (auto simp: after_slot_def next_slot_def outcome_simps)
  show ?thesis
  proof (cases "th_next th = tk_threads tk")
    case True
    then have "obind (task_at s (tk_next tk)) (\<lambda>nt. Ok (tk_next tk, tk_threads nt)) = Ok q"
      using nx th(2) by (simp add: skip_task_def)
    moreover from this have "tk_next tk \<noteq> 0" by (auto simp: task_at_def)
    ultimately show ?thesis using True th by (simp add: search_start_def)
  next
    case False
    then show ?thesis using th nx by (simp add: search_start_def)
  qed
qed

lemma search_result:
  assumes rep: "sched_rep s ts" and sl: "slots ts = xs @ current s # ys" and nz: "thread_current s \<noteq> 0"
  shows "\<exists>t h. search_start s = Ok (t, h) \<and> loop_outcome (search_ready s t h) =
    (case find (ready s) (ys @ xs @ [current s]) of None \<Rightarrow> Spin | Some p \<Rightarrow> Ok p)"
proof -
  let ?ps = "ys @ xs"
  have fo: "follows (after_slot s) (slots ts) (hd (slots ts))" by (rule rep_follows [OF rep])
  note rot = rotated_follows [OF fo [unfolded sl]]
  let ?q = "hd (?ps @ [current s])"
  have start: "search_start s = Ok ?q" using search_start_after [OF _ nz] rot(1) by simp
  have pr: "\<forall>p\<in>set (slots ts). proper s p" using rep_proper [OF rep] by blast
  have "current s \<notin> set ?ps" using rep_distinct_slots [OF rep] unfolding sl by simp
  moreover have "\<forall>p\<in>set ?ps. proper s p" using pr sl by auto
  ultimately have found: "search_ready s (fst ?q) (snd ?q) = Some (Ok p)" if "find (ready s) (?ps @ [current s]) = Some p" for p
    using search_finds [OF rot(2) _ _ that] by blast
  have "search_ready s (fst ?q) (snd ?q) = None" if none: "find (ready s) (?ps @ [current s]) = None"
  proof (rule ccontr)
    assume "search_ready s (fst ?q) (snd ?q) \<noteq> None"
    then obtain r where r: "search_ready s (fst ?q) (snd ?q) = Some r" by auto
    have all: "set (?ps @ [current s]) = set (slots ts)" using sl by auto
    have ne: "slots ts \<noteq> []" "ts \<noteq> []" using sl by auto
    obtain t hs us where ts: "ts = (t, hs) # us" using ne by (cases ts) auto
    have "task_list s = t" "\<exists>tk. task_at s t = Ok tk \<and> tk_threads tk = first_thread hs"
      using rep ts by (auto simp: sched_rep_def task_at_def)
    moreover have "(t, first_thread hs) \<in> set (slots ts)" using hd_slots [OF ne(2)] hd_in_set [OF ne(1)] ts by simp
    moreover have "\<exists>q\<in>set (slots ts). after_slot s p = Ok q" if "p \<in> set (slots ts)" for p
      using follows_mem [OF fo that] ne(1) by auto
    moreover have "\<not> ready s p" if "p \<in> set (slots ts)" for p using that none unfolding find_None_iff all by blast
    ultimately have "stuck s (set (slots ts))" using pr nz unfolding stuck_def by auto
    moreover have "(fst ?q, snd ?q) \<in> set (slots ts)" unfolding prod.collapse all [symmetric] by (cases ?ps) auto
    ultimately show False by (rule search_stuck [OF r])
  qed
  then have "loop_outcome (search_ready s (fst ?q) (snd ?q)) =
    (case find (ready s) (?ps @ [current s]) of None \<Rightarrow> Spin | Some p \<Rightarrow> Ok p)"
    using found by (auto simp: loop_outcome_def split: option.split)
  then show ?thesis using start by (intro exI [of _ "fst ?q"] exI [of _ "snd ?q"]) simp
qed

text \<open>The state in which the search runs: the interrupted thread is paused and its context saved.\<close>

definition paused :: "u64 \<Rightarrow> procs \<Rightarrow> procs" where
  "paused status s = s\<lparr>thread_heap := (thread_heap s)(thread_current s :=
     map_option (pause_current status) (thread_heap s (thread_current s)))\<rparr>"

definition resume :: "u64 \<Rightarrow> u64 \<Rightarrow> procs \<Rightarrow> procs" where
  "resume t h s = s\<lparr>task_current := t, thread_current := h, thread_heap := (thread_heap s)(h :=
     map_option (th_state_update (\<lambda>_. THREAD_RUNNING)) (thread_heap s h)),
     scheduler_lock := lock_advance (scheduler_lock s)\<rparr>"

lemma pause_current_simps [simp]: "th_next (pause_current st t) = th_next t" "th_context (pause_current st t) = st"
  by (simp_all add: pause_current_def)

lemma sched_rep_paused [simp]: "sched_rep (paused st s) ts = sched_rep s ts"
  by (rule sched_rep_cong) (auto simp: paused_def option.map_comp comp_def)

lemma sched_rep_resume [simp]: "sched_rep (resume t h s) ts = sched_rep s ts"
  by (rule sched_rep_cong) (auto simp: resume_def option.map_comp comp_def)

lemma sched_rep_lock [simp]: "sched_rep (s\<lparr>scheduler_lock := l\<rparr>) ts = sched_rep s ts"
  by (rule sched_rep_cong) simp_all

lemma scheduler_schedule_run:
  assumes "sched_rep s ts" and "lock_free (scheduler_lock s)" and "slots ts = xs @ current s # ys" and "thread_current s \<noteq> 0"
  shows "scheduler_schedule s rf status =
    (case find (ready (paused status s)) (ys @ xs @ [current s]) of
       None \<Rightarrow> Spin
     | Some (t, h) \<Rightarrow> Ok (th_context (the (thread_heap (paused status s) h)), rf, resume t h (paused status s)))"
proof -
  let ?l = "(scheduler_lock s)\<lparr>ticket := ticket (scheduler_lock s) + 1\<rparr>"
  let ?p = "(paused status s)\<lparr>scheduler_lock := ?l\<rparr>"
  have "current s \<in> set (slots ts)" using assms(3) by simp
  then have t: "task_current s \<in> fst ` set ts" and h: "thread_current s \<in> set (threads_of ts)"
    using slots_tasks slots_threads assms(4) by blast+
  have tnz: "task_current s \<noteq> 0" using task_seg_tasks t assms(1) unfolding sched_rep_def by blast
  obtain thc where thc: "thread_heap s (thread_current s) = Some thc"
    using task_seg_threads h assms(1) unfolding sched_rep_def by blast
  have acq: "lock_acquire (scheduler_lock s) rf = Ok (?l, rf, rf AND NOT RFLAGS_IF)" by (rule lock_acquire_free [OF assms(2)])
  have set: "set_thread (thread_current s) (pause_current status) (s\<lparr>scheduler_lock := ?l\<rparr>) = Ok ?p"
    using assms(4) thc by (simp add: set_thread_def thread_at_def paused_def)
  have cur: "task_current ?p = task_current s" "thread_current ?p = thread_current s" by (simp_all add: paused_def)
  have rd: "ready ?p = ready (paused status s)" by (simp add: ready_def fun_eq_iff)
  have "sched_rep ?p ts" using assms(1) by simp
  from search_result [OF this _ _, unfolded cur rd, OF assms(3,4)] obtain t h where
    se: "search_start ?p = Ok (t, h)" "loop_outcome (search_ready ?p t h) =
      (case find (ready (paused status s)) (ys @ xs @ [current s]) of None \<Rightarrow> Spin | Some p \<Rightarrow> Ok p)" by blast
  show ?thesis
  proof (cases "find (ready (paused status s)) (ys @ xs @ [current s])")
    case None
    then show ?thesis using tnz assms(4) acq set se unfolding scheduler_schedule_def by simp
  next
    case (Some p)
    obtain t' h' where p: "p = (t', h')" by (cases p)
    have "ready (paused status s) p" using Some by (auto simp: find_Some_iff)
    then obtain th where th: "h' \<noteq> 0" "thread_heap (paused status s) h' = Some th" using p by (auto simp: ready_def)
    then show ?thesis using Some p tnz assms(4) acq set se lock_release_acquired [of "scheduler_lock s" rf]
      unfolding scheduler_schedule_def
      by (simp add: set_thread_def thread_at_def resume_def paused_def)
  qed
qed

text \<open>
  C9: \<open>scheduler_schedule\<close> saves the context of the interrupted thread, makes it ready if it was
  running, and continues the first ready thread in round-robin order behind it; the
  interrupted thread itself comes last. When no thread is ready the search never ends.
\<close>

theorem scheduler_schedule_round_robin:
  assumes "sched_rep s ts" and "lock_free (scheduler_lock s)" and "slots ts = xs @ current s # ys" and "thread_current s \<noteq> 0"
  shows "scheduler_schedule s rf status =
    (case find (ready (paused status s)) (ys @ xs @ [current s]) of
       None \<Rightarrow> Spin
     | Some (t, h) \<Rightarrow> Ok (th_context (the (thread_heap (paused status s) h)), rf, resume t h (paused status s)))"
  by (rule scheduler_schedule_run [OF assms])

section \<open>The running thread\<close>

text \<open>
  The invariant of the scheduler: the lists are circular, the current slot is one of them, the
  lock is free, and no thread but the current one is running.
\<close>

definition sched_inv :: "procs \<Rightarrow> layout \<Rightarrow> bool" where
  "sched_inv s ts \<longleftrightarrow> sched_rep s ts \<and> lock_free (scheduler_lock s) \<and> current s \<in> set (slots ts) \<and> thread_current s \<noteq> 0 \<and>
     (\<forall>h\<in>set (threads_of ts). \<forall>th. thread_heap s h = Some th \<longrightarrow> th_state th = THREAD_RUNNING \<longrightarrow> h = thread_current s)"

lemma paused_heap: "thread_heap (paused st s) h =
    (if h = thread_current s then map_option (pause_current st) (thread_heap s h) else thread_heap s h)"
  by (simp add: paused_def)

lemma pause_not_running: "th_state (pause_current st t) \<noteq> THREAD_RUNNING"
  by (simp add: pause_current_def)

lemma schedule_keeps:
  assumes "sched_inv s ts" and "scheduler_schedule s rf status = Ok (context, rf', s')"
  shows "sched_inv s' ts \<and> (\<exists>th. thread_heap s' (thread_current s') = Some th \<and> th_state th = THREAD_RUNNING \<and> th_context th = context) \<and>
    (\<exists>th. thread_heap s (thread_current s') = Some th \<and>
      (th_state th = THREAD_READY \<or> th_state th = THREAD_RUNNING \<and> thread_current s' = thread_current s))"
proof -
  let ?s = "paused status s"
  obtain xs ys where sl: "slots ts = xs @ current s # ys" using assms(1) by (auto simp: sched_inv_def dest: split_list)
  have rep: "sched_rep s ts" "lock_free (scheduler_lock s)" "thread_current s \<noteq> 0" using assms(1) by (simp_all add: sched_inv_def)
  note run = scheduler_schedule_run [OF rep(1,2) sl rep(3), of rf status]
  obtain t h where th: "find (ready ?s) (ys @ xs @ [current s]) = Some (t, h)"
      "context = th_context (the (thread_heap ?s h))" "rf' = rf" "s' = resume t h ?s"
    using run assms(2) by (auto split: option.splits)
  have rd: "ready ?s (t, h)" and mem: "(t, h) \<in> set (ys @ xs @ [current s])" using find_SomeD [OF th(1)] by simp_all
  then have slot: "(t, h) \<in> set (slots ts)" using sl by auto
  obtain p where p: "h \<noteq> 0" "thread_heap ?s h = Some p" "th_state p = THREAD_READY" using rd by (auto simp: ready_def)
  have new: "thread_heap s' h = Some (p\<lparr>th_state := THREAD_RUNNING\<rparr>)" "thread_current s' = h" "task_current s' = t"
    using th(4) p(2) by (simp_all add: resume_def)
  have sole: "h' = h" if "thread_heap s' h' = Some q" "th_state q = THREAD_RUNNING" "h' \<in> set (threads_of ts)" for h' q
  proof (rule ccontr)
    assume ne: "h' \<noteq> h"
    then have q: "thread_heap ?s h' = Some q" using that(1) th(4) by (simp add: resume_def)
    then have "h' \<noteq> thread_current s" using that(2) pause_not_running by (auto simp: paused_heap)
    then show False using q that(2,3) assms(1) by (auto simp: paused_heap sched_inv_def)
  qed
  have "sched_rep s' ts" using rep(1) unfolding th(4) by simp
  moreover have "lock_free (scheduler_lock s')" using rep(2) unfolding th(4) by (simp add: resume_def paused_def)
  ultimately have "sched_inv s' ts" unfolding sched_inv_def new using slot p(1) sole by blast
  moreover have "\<exists>th. thread_heap s h = Some th \<and> (th_state th = THREAD_READY \<or> th_state th = THREAD_RUNNING \<and> h = thread_current s)"
    using p(2,3) by (auto simp: paused_heap pause_current_def split: if_splits)
  ultimately show ?thesis using new th(2) p(2) by auto
qed

text \<open>
  The invariant of the scheduler is kept: after \<open>scheduler_schedule\<close> exactly the thread that
  was chosen is running, it was ready (or it is the interrupted thread, which was running), and
  the lists of tasks and threads are as before.
\<close>

theorem scheduler_schedule_keeps_invariant:
  assumes "sched_inv s ts" and "scheduler_schedule s rf status = Ok (context, rf', s')"
  shows "sched_inv s' ts \<and> (\<exists>th. thread_heap s' (thread_current s') = Some th \<and> th_state th = THREAD_RUNNING \<and> th_context th = context) \<and>
    (\<exists>th. thread_heap s (thread_current s') = Some th \<and>
      (th_state th = THREAD_READY \<or> th_state th = THREAD_RUNNING \<and> thread_current s' = thread_current s))"
  by (rule schedule_keeps [OF assms])

section \<open>Waking\<close>

definition woken :: "u64 \<Rightarrow> u64 set \<Rightarrow> procs \<Rightarrow> procs" where
  "woken now H s = s\<lparr>thread_heap := \<lambda>h. if h \<in> H then map_option (wake_thread now) (thread_heap s h) else thread_heap s h\<rparr>"

lemma wake_thread_simps [simp]: "th_next (wake_thread now t) = th_next t" "wake_thread now (wake_thread now t) = wake_thread now t"
  by (simp_all add: wake_thread_def)

lemma woken_woken: "woken now H (woken now H' s) = woken now (H \<union> H') s"
  unfolding woken_def by (rule procs.equality) (auto simp: fun_eq_iff option.map_comp comp_def)

lemma woken_empty [simp]: "woken now {} s = s"
  by (simp add: woken_def)

lemma woken_fields [simp]: "task_heap (woken now H s) = task_heap s" "task_list (woken now H s) = task_list s"
    "scheduler_lock (woken now H s) = scheduler_lock s" "task_at (woken now H s) = task_at s"
  by (simp_all add: woken_def task_at_def fun_eq_iff)

lemma thread_seg_woken [simp]: "thread_seg (woken now H s) hs e = thread_seg s hs e"
  by (rule thread_seg_cong) (auto simp: woken_def option.map_comp comp_def)

lemma task_seg_woken [simp]: "task_seg (woken now H s) ts e = task_seg s ts e"
  by (rule task_seg_cong) (auto simp: woken_def option.map_comp comp_def)

lemma sched_rep_woken [simp]: "sched_rep (woken now H s) ts = sched_rep s ts"
  by (simp add: sched_rep_def)

lemma wake_threads_list:
  assumes "thread_seg s hs first" "hs \<noteq> []" "task_at s t = Ok tk" "tk_threads tk = first" "first \<notin> set (tl hs)"
  shows "wake_threads s now t (hd hs) = Some (Ok (woken now (set hs) s))"
  using assms
proof (induction hs arbitrary: s)
  case (Cons h hs)
  let ?s = "woken now {h} s"
  obtain th where th: "h \<noteq> 0" "thread_heap s h = Some th" "th_next th = (if hs = [] then first else hd hs)" "thread_seg s hs first"
    using Cons.prems(1) by auto
  have set: "set_thread h (wake_thread now) s = Ok ?s"
    using th(1,2) unfolding set_thread_def thread_at_def woken_def by (auto simp: fun_eq_iff intro!: procs.equality)
  have nx: "thread_at ?s h = Ok (wake_thread now th)" using th(1,2) by (simp add: thread_at_def woken_def)
  show ?case
  proof (cases "hs = []")
    case True
    then show ?thesis using set nx th(3) Cons.prems(3,4) by (subst wake_threads.simps) simp
  next
    case False
    have "first \<notin> set (tl hs)" "hd hs \<noteq> first" using Cons.prems(5) False by (cases hs; auto)+
    then have "wake_threads ?s now t (hd hs) = Some (Ok (woken now (set hs) ?s))"
      using Cons.prems(3,4) th(4) False by (intro Cons.IH) simp_all
    then show ?thesis using set nx th(3) Cons.prems(3,4) False \<open>hd hs \<noteq> first\<close> by (subst wake_threads.simps) (simp add: woken_woken)
  qed
qed simp

lemma wake_tasks_list:
  assumes "task_seg s ts (task_list s)" "ts \<noteq> []" "task_list s \<notin> fst ` set (tl ts)"
  shows "wake_tasks s now (fst (hd ts)) = Some (Ok (woken now (set (threads_of ts)) s))"
  using assms
proof (induction ts arbitrary: s)
  case (Cons x ts)
  obtain t hs where x: "x = (t, hs)" by (cases x)
  obtain tk where tk: "t \<noteq> 0" "task_at s t = Ok tk" "tk_threads tk = first_thread hs" "thread_seg s hs (first_thread hs)" "distinct hs"
      "tk_next tk = (if ts = [] then task_list s else fst (hd ts))" "task_seg s ts (task_list s)"
    using Cons.prems(1) x by (auto simp: task_at_def)
  let ?s = "woken now (set hs) s"
  have "(if tk_threads tk \<noteq> 0 then loop_outcome (wake_threads s now t (tk_threads tk)) else Ok s) = Ok ?s"
  proof (cases hs)
    case (Cons h ks)
    then have "h \<noteq> 0" "first_thread hs \<notin> set (tl hs)" using tk(4,5) by auto
    then show ?thesis using wake_threads_list [OF tk(4) _ tk(2,3)] Cons tk(3) by (simp add: loop_outcome_def)
  qed (use tk(3) in simp)
  then have inner: "obind (task_at s t) (\<lambda>tk. if tk_threads tk \<noteq> 0 then loop_outcome (wake_threads s now t (tk_threads tk)) else Ok s) = Ok ?s"
    using tk(2) by simp
  have "wake_tasks s now t = Some (Ok (woken now (set (threads_of (x # ts))) s))"
  proof (cases "ts = []")
    case True
    then show ?thesis unfolding wake_tasks.simps [of s] inner using x tk(2,6) by (simp add: threads_of_def)
  next
    case False
    have ne: "fst (hd ts) \<noteq> task_list s" "task_list s \<notin> fst ` set (tl ts)" using Cons.prems(3) False by (cases ts; auto)+
    then have "wake_tasks ?s now (fst (hd ts)) = Some (Ok (woken now (set (threads_of ts)) ?s))"
      using tk(7) False by (intro Cons.IH) simp_all
    then show ?thesis unfolding wake_tasks.simps [of s] inner
      using x tk(2,6) False ne(1) by (simp add: woken_woken threads_of_def Un_commute)
  qed
  then show ?case using x by simp
qed simp

lemma wake_result:
  assumes "sched_rep s ts" and "lock_free (scheduler_lock s)" and "timer_get_uptime_ms tm tsc = Ok now"
  shows "\<exists>s'. scheduler_wake_sleeping_threads tm tsc s rf = Ok (rf, s') \<and> sched_rep s' ts \<and> lock_free (scheduler_lock s') \<and>
    thread_current s' = thread_current s \<and> task_current s' = task_current s \<and>
    (\<forall>h. thread_heap s' h = (if h \<in> set (threads_of ts) then map_option (wake_thread now) (thread_heap s h) else thread_heap s h))"
proof -
  obtain t hs us where ts: "ts = (t, hs) # us" using assms(1) by (cases ts) (auto simp: sched_rep_def)
  let ?l = "(scheduler_lock s)\<lparr>ticket := ticket (scheduler_lock s) + 1\<rparr>"
  let ?s = "s\<lparr>scheduler_lock := ?l\<rparr>"
  let ?w = "woken now (set (threads_of ts)) ?s"
  have tl: "task_list s = t" "t \<noteq> 0" "t \<notin> fst ` set us" using assms(1) ts by (auto simp: sched_rep_def)
  have "sched_rep ?s ts" using assms(1) by simp
  then have "wake_tasks ?s now (task_list s) = Some (Ok ?w)"
    using wake_tasks_list [of ?s ts now] ts tl by (simp add: sched_rep_def)
  then have "scheduler_wake_sleeping_threads tm tsc s rf = Ok (rf, ?w\<lparr>scheduler_lock := lock_advance (scheduler_lock s)\<rparr>)"
    using tl(1,2) lock_acquire_free [OF assms(2), of rf] assms(3) lock_release_acquired [of "scheduler_lock s" rf]
    by (simp add: scheduler_wake_sleeping_threads_def loop_outcome_def)
  moreover have "sched_rep (?w\<lparr>scheduler_lock := lock_advance (scheduler_lock s)\<rparr>) ts" using assms(1) by simp
  ultimately show ?thesis using assms(2) by (auto simp: woken_def)
qed

text \<open>
  \<open>scheduler_wake_sleeping_threads\<close> ends and makes ready exactly the sleeping threads whose
  wake time is not after the uptime in milliseconds; no other thread, and no list, changes.
\<close>

theorem scheduler_wakes_due_threads:
  assumes "sched_rep s ts" and "lock_free (scheduler_lock s)" and "timer_get_uptime_ms tm tsc = Ok now"
  shows "\<exists>s'. scheduler_wake_sleeping_threads tm tsc s rf = Ok (rf, s') \<and> sched_rep s' ts \<and> lock_free (scheduler_lock s') \<and>
    thread_current s' = thread_current s \<and> task_current s' = task_current s \<and>
    (\<forall>h. thread_heap s' h = (if h \<in> set (threads_of ts) then map_option (wake_thread now) (thread_heap s h) else thread_heap s h))"
  by (rule wake_result [OF assms])

section \<open>A small system\<close>

text \<open>
  Three tasks, the second without threads. Of the two threads of the first task one is running
  and one sleeps; the thread of the third task is ready.
\<close>

definition sched_demo :: procs where
  "sched_demo = procs_demo\<lparr>
     thread_heap := [0x10 \<mapsto> (demo_thread 1 THREAD_RUNNING)\<lparr>th_next := 0x20\<rparr>,
       0x20 \<mapsto> (demo_thread 2 THREAD_SLEEPING)\<lparr>th_next := 0x10, th_wake_time := 5\<rparr>,
       0x30 \<mapsto> (demo_thread 3 THREAD_READY)\<lparr>th_next := 0x30, th_context := 0x9000\<rparr>],
     task_heap := [0x1000 \<mapsto> \<lparr>tk_pid = 0, tk_name = [], tk_vas = 0, tk_threads = 0x10, tk_next = 0x2000\<rparr>,
       0x2000 \<mapsto> \<lparr>tk_pid = 1, tk_name = [], tk_vas = 0, tk_threads = 0, tk_next = 0x3000\<rparr>,
       0x3000 \<mapsto> \<lparr>tk_pid = 2, tk_name = [], tk_vas = 0, tk_threads = 0x30, tk_next = 0x1000\<rparr>],
     task_current := 0x1000, thread_current := 0x10, task_list := 0x1000, scheduler_lock := SPINLOCK_IRQ_INIT\<rparr>"

abbreviation demo_layout :: layout where
  "demo_layout \<equiv> [(0x1000, [0x10, 0x20]), (0x2000, []), (0x3000, [0x30])]"

lemma sched_demo_rep: "sched_rep sched_demo demo_layout"
  by (simp add: sched_rep_def sched_demo_def threads_of_def)

lemma sched_demo_slots: "slots demo_layout = [(0x1000, 0x10), (0x1000, 0x20), (0x2000, 0), (0x3000, 0x30)]"
  by (simp add: task_slots_def)

lemma sched_demo_current: "task_current sched_demo = 0x1000" "thread_current sched_demo = 0x10" "lock_free (scheduler_lock sched_demo)"
  by (simp_all add: sched_demo_def lock_free_def SPINLOCK_IRQ_INIT_def)

lemma sched_demo_inv: "sched_inv sched_demo demo_layout"
proof -
  have "\<forall>h\<in>set (threads_of demo_layout). \<forall>th. thread_heap sched_demo h = Some th \<longrightarrow> th_state th = THREAD_RUNNING \<longrightarrow> h = 0x10"
    by (auto simp: threads_of_def sched_demo_def demo_thread_def)
  then show ?thesis using sched_demo_rep sched_demo_current unfolding sched_inv_def sched_demo_slots sched_demo_current by simp
qed

theorem scheduler_schedule_round_robin_witness:
  "\<exists>s'. scheduler_schedule sched_demo 0x202 0x8000 = Ok (0x9000, 0x202, s') \<and> thread_current s' = 0x30 \<and> task_current s' = 0x3000"
proof -
  let ?ys = "[(0x1000, 0x20), (0x2000, 0), (0x3000, 0x30)] :: (u64 \<times> u64) list"
  have f: "find (ready (paused 0x8000 sched_demo)) (?ys @ [] @ [current sched_demo]) = Some (0x3000, 0x30)"
    by (simp add: ready_def paused_def sched_demo_def demo_thread_def)
  have "th_context (the (thread_heap (paused 0x8000 sched_demo) 0x30)) = 0x9000" by (simp add: paused_def sched_demo_def)
  then show ?thesis
    using scheduler_schedule_round_robin [OF sched_demo_rep sched_demo_current(3), of "[]" ?ys "0x202" "0x8000"]
    unfolding f sched_demo_slots by (simp add: sched_demo_current resume_def)
qed

theorem scheduler_schedule_keeps_invariant_witness:
  "\<exists>s'. scheduler_schedule sched_demo 0x202 0x8000 = Ok (0x9000, 0x202, s') \<and> sched_inv s' demo_layout"
proof -
  let ?ys = "[(0x1000, 0x20), (0x2000, 0), (0x3000, 0x30)] :: (u64 \<times> u64) list"
  have f: "find (ready (paused 0x8000 sched_demo)) (?ys @ [] @ [current sched_demo]) = Some (0x3000, 0x30)"
    by (simp add: ready_def paused_def sched_demo_def demo_thread_def)
  have "th_context (the (thread_heap (paused 0x8000 sched_demo) 0x30)) = 0x9000" by (simp add: paused_def sched_demo_def)
  then have "scheduler_schedule sched_demo 0x202 0x8000 = Ok (0x9000, 0x202, resume 0x3000 0x30 (paused 0x8000 sched_demo))"
    using scheduler_schedule_run [OF sched_demo_rep sched_demo_current(3), of "[]" ?ys "0x202" "0x8000"]
    unfolding f sched_demo_slots by (simp add: sched_demo_current)
  then show ?thesis using scheduler_schedule_keeps_invariant [OF sched_demo_inv] by blast
qed

definition timer_demo :: timer where
  "timer_demo = \<lparr>system_ticks = 0, lapic_ticks_per_ms = 1000, tsc_freq_hz = 2000000, tsc_boot_time = 100\<rparr>"

theorem scheduler_wakes_due_threads_witness:
  "\<exists>s'. scheduler_wake_sleeping_threads timer_demo 14100 sched_demo 0x202 = Ok (0x202, s') \<and>
     map_option th_state (thread_heap s' 0x20) = Some THREAD_READY"
proof -
  have "timer_get_uptime_ms timer_demo 14100 = Ok 7" by (simp add: timer_get_uptime_ms_def timer_demo_def)
  from scheduler_wakes_due_threads [OF sched_demo_rep sched_demo_current(3) this, of "0x202"] show ?thesis
    by (auto simp: threads_of_def sched_demo_def wake_thread_def demo_thread_def)
qed

end
