(* ===== verification/Task_Lists.thy ===== *)
theory Task_Lists
  imports Task Scheduler_Props
begin

text \<open>
  The circular lists of tasks and threads under insertion and removal: appending a task, appending
  a thread to a task, and the search of the reaper with the removal of the thread it finds.
\<close>

section \<open>Segments\<close>

lemma thread_seg_append:
  "thread_seg s (xs @ ys) e \<longleftrightarrow> thread_seg s xs (if ys = [] then e else hd ys) \<and> thread_seg s ys e"
  by (induction xs) auto

lemma task_seg_append:
  "task_seg s (xs @ ys) e \<longleftrightarrow> task_seg s xs (if ys = [] then e else fst (hd ys)) \<and> task_seg s ys e"
proof (induction xs)
  case (Cons x xs)
  then show ?case by (cases x) auto
qed simp

lemma task_seg_local:
  assumes "\<forall>t\<in>fst ` set ts. task_heap s' t = task_heap s t"
    and "\<forall>h\<in>set (threads_of ts). map_option th_next (thread_heap s' h) = map_option th_next (thread_heap s h)"
  shows "task_seg s' ts e = task_seg s ts e"
  using assms
proof (induction ts)
  case (Cons x ts)
  obtain t hs where x: "x = (t, hs)" by (cases x)
  show ?case using Cons thread_seg_cong [of hs s' s] by (simp add: x threads_of_def)
qed simp

lemma threads_of_simps [simp]: "threads_of [] = []" "threads_of ((t, hs) # ts) = hs @ threads_of ts"
  "threads_of (xs @ ys) = threads_of xs @ threads_of ys"
  by (simp_all add: threads_of_def)

text \<open>Only the \<open>next\<close> pointers of threads differ.\<close>

definition same_threads :: "procs \<Rightarrow> procs \<Rightarrow> bool" where
  "same_threads s s' \<longleftrightarrow> (\<forall>h. map_option (th_next_update (\<lambda>_. 0)) (thread_heap s' h) = map_option (th_next_update (\<lambda>_. 0)) (thread_heap s h)) \<and>
     task_current s' = task_current s \<and> thread_current s' = thread_current s \<and> task_list s' = task_list s \<and>
     scheduler_lock s' = scheduler_lock s \<and> next_pid s' = next_pid s \<and> next_tid s' = next_tid s"

lemma same_threads_field:
  assumes "same_threads s s'" "\<And>t. f (t\<lparr>th_next := 0\<rparr>) = f t"
  shows "map_option f (thread_heap s' h) = map_option f (thread_heap s h)"
proof -
  have "map_option f x = map_option f (map_option (th_next_update (\<lambda>_. 0)) x)" for x
    by (cases x) (simp_all add: assms(2))
  then show ?thesis using assms(1) unfolding same_threads_def by metis
qed

section \<open>Appending a task\<close>

lemma last_task_list:
  assumes "task_seg s ts (task_list s)" "ts \<noteq> []" "task_list s \<notin> fst ` set (tl ts)"
  shows "last_task s (fst (hd ts)) = Some (Ok (fst (last ts)))"
  using assms
proof (induction ts)
  case (Cons x ts)
  obtain t hs where x: "x = (t, hs)" by (cases x)
  obtain tk where tk: "task_at s t = Ok tk" "tk_next tk = (if ts = [] then task_list s else fst (hd ts))"
    using Cons.prems(1) x by (auto simp: task_at_def)
  show ?case
  proof (cases "ts = []")
    case True
    then show ?thesis using tk x by (subst last_task.simps) simp
  next
    case False
    have "fst (hd ts) \<noteq> task_list s" "task_list s \<notin> fst ` set (tl ts)" using Cons.prems(3) False by (cases ts; auto)+
    then show ?thesis using tk x False Cons.IH Cons.prems(1) by (subst last_task.simps) simp
  qed
qed simp

lemma append_task_rep:
  assumes rep: "sched_rep s ts" and p: "task_heap s p = Some tk" "tk_threads tk = 0" "p \<noteq> 0" "p \<notin> fst ` set ts"
  shows "\<exists>s'. append_task p s = Ok s' \<and> sched_rep s' (ts @ [(p, [])]) \<and> same_threads s s' \<and> thread_heap s' = thread_heap s \<and>
    task_heap s' p = Some (tk\<lparr>tk_next := task_list s\<rparr>)"
proof -
  obtain us l hs where ts: "ts = us @ [(l, hs)]" using rep by (cases ts rule: rev_cases) (auto simp: sched_rep_def)
  have seg: "task_seg s ts (task_list s)" and d: "distinct (map fst ts)" "task_list s = fst (hd ts)"
    using rep unfolding sched_rep_def by blast+
  obtain lk where l: "l \<noteq> 0" "task_heap s l = Some lk" "tk_threads lk = first_thread hs" "thread_seg s hs (first_thread hs)" "distinct hs"
    and us: "task_seg s us l" using seg unfolding ts task_seg_append by auto
  have nz: "task_list s \<noteq> 0" using seg d(2) ts by (cases us) auto
  have "task_list s \<notin> fst ` set (tl ts)" using d ts by (cases us) auto
  then have la: "last_task s (task_list s) = Some (Ok l)" using last_task_list [OF seg] d(2) ts by simp
  have ne: "p \<noteq> l" using p(4) ts by auto
  let ?s = "s\<lparr>task_heap := (task_heap s)(l \<mapsto> lk\<lparr>tk_next := p\<rparr>, p \<mapsto> tk\<lparr>tk_next := task_list s\<rparr>)\<rparr>"
  have "append_task p s = Ok ?s"
    using nz la ne l(1,2) p(1,3) by (simp add: append_task_def loop_outcome_def set_task_def task_at_def)
  moreover have "task_seg ?s us l = task_seg s us l"
    using p(4) d(1) ts by (intro task_seg_local) auto
  then have "task_seg ?s (ts @ [(p, [])]) (task_list s)"
    using us l p ne thread_seg_cong [of hs ?s s] unfolding ts by (simp add: task_seg_append)
  then have "sched_rep ?s (ts @ [(p, [])])"
    using rep p(4) by (auto simp: sched_rep_def)
  ultimately show ?thesis by (auto simp: same_threads_def)
qed

section \<open>Appending a thread\<close>

lemma last_thread_list:
  assumes "thread_seg s hs first" "hs \<noteq> []" "task_at s t = Ok tk" "tk_threads tk = first" "first \<notin> set (tl hs)"
  shows "last_thread s t (hd hs) = Some (Ok (last hs))"
  using assms
proof (induction hs)
  case (Cons h hs)
  obtain th where th: "thread_at s h = Ok th" "th_next th = (if hs = [] then first else hd hs)"
    using Cons.prems(1) by (auto simp: thread_at_def)
  show ?case
  proof (cases "hs = []")
    case True
    then show ?thesis using th Cons.prems(3,4) by (subst last_thread.simps) simp
  next
    case False
    have "hd hs \<noteq> first" "first \<notin> set (tl hs)" using Cons.prems(5) False by (cases hs; auto)+
    then show ?thesis using th Cons.prems False Cons.IH by (subst last_thread.simps) simp
  qed
qed simp

text \<open>A task in the middle of the list can be replaced by one with the same successor.\<close>

lemma sched_rep_replace:
  assumes rep: "sched_rep s (xs @ (t, hs) # ys)"
    and tk: "task_heap s t = Some tk" "task_heap s' t = Some (tk\<lparr>tk_threads := first_thread hs'\<rparr>)"
    and tasks: "\<And>t'. t' \<noteq> t \<Longrightarrow> task_heap s' t' = task_heap s t'" "task_list s' = task_list s"
    and threads: "\<And>h. h \<in> set (threads_of xs @ threads_of ys) \<Longrightarrow> thread_heap s' h = thread_heap s h"
    and new: "thread_seg s' hs' (first_thread hs')" "distinct hs'" "set hs' \<inter> set (threads_of xs @ threads_of ys) = {}"
  shows "sched_rep s' (xs @ (t, hs') # ys)"
proof -
  let ?e = "if ys = [] then task_list s else fst (hd ys)"
  have seg: "task_seg s xs t" "t \<noteq> 0" "tk_next tk = ?e" "task_seg s ys (task_list s)"
    using rep tk(1) by (auto simp: sched_rep_def task_seg_append)
  have d: "t \<notin> fst ` set xs" "t \<notin> fst ` set ys" using rep by (auto simp: sched_rep_def)
  have "\<forall>t\<in>fst ` set xs. task_heap s' t = task_heap s t" "\<forall>t\<in>fst ` set ys. task_heap s' t = task_heap s t"
    using d tasks(1) by metis+
  then have "task_seg s' xs t" "task_seg s' ys (task_list s)"
    using seg(1,4) threads task_seg_local [of xs s' s] task_seg_local [of ys s' s] by simp_all
  then have "task_seg s' (xs @ (t, hs') # ys) (task_list s')"
    using seg tk(2) new(1,2) tasks(2) by (simp add: task_seg_append)
  moreover have "distinct (map fst (xs @ (t, hs') # ys))" "task_list s' = fst (hd (xs @ (t, hs') # ys))"
    using rep tasks(2) by (auto simp: sched_rep_def hd_append)
  moreover have "distinct (threads_of (xs @ (t, hs') # ys))" using rep new(2,3) by (auto simp: sched_rep_def)
  ultimately show ?thesis by (simp add: sched_rep_def)
qed

lemma append_thread_rep:
  assumes rep: "sched_rep s (xs @ (t, hs) # ys)" and p: "thread_heap s p = Some th" "p \<noteq> 0"
    "p \<notin> set (threads_of (xs @ (t, hs) # ys))"
  shows "\<exists>s'. append_thread t p s = Ok s' \<and> sched_rep s' (xs @ (t, hs @ [p]) # ys) \<and> same_threads s s' \<and>
    thread_heap s' p = Some (th\<lparr>th_next := first_thread (hs @ [p])\<rparr>)"
proof -
  obtain tk where tk: "t \<noteq> 0" "task_heap s t = Some tk" "tk_threads tk = first_thread hs"
    and seg: "thread_seg s hs (first_thread hs)" "distinct hs"
    using rep by (auto simp: sched_rep_def task_seg_append)
  have dis: "set hs \<inter> set (threads_of xs @ threads_of ys) = {}" using rep by (auto simp: sched_rep_def)
  show ?thesis
  proof (cases hs rule: rev_cases)
    case Nil
    let ?s = "s\<lparr>task_heap := (task_heap s)(t \<mapsto> tk\<lparr>tk_threads := p\<rparr>), thread_heap := (thread_heap s)(p \<mapsto> th\<lparr>th_next := p\<rparr>)\<rparr>"
    have "append_thread t p s = Ok ?s"
      using Nil tk p by (simp add: append_thread_def set_task_def set_thread_def task_at_def thread_at_def)
    moreover have "sched_rep ?s (xs @ (t, [p]) # ys)"
      using tk p by (intro sched_rep_replace [OF rep tk(2)]) auto
    ultimately show ?thesis using Nil p(1) by (auto simp: same_threads_def)
  next
    case (snoc bs l)
    let ?f = "first_thread hs"
    obtain h ks where hs: "hs = h # ks" using snoc by (metis append_is_Nil_conv list.exhaust not_Cons_self2)
    have f: "?f \<noteq> 0" "first_thread (hs @ [p]) = ?f" "?f = hd hs" "?f \<notin> set (tl hs)"
      using seg unfolding hs by simp_all
    have l: "l \<noteq> p" "l \<notin> set bs" "p \<notin> set bs" using seg(2) p(3) snoc by auto
    obtain lk where lk: "thread_heap s l = Some lk" "l \<noteq> 0" using thread_seg_dom [OF seg(1), of l] snoc by auto
    let ?s = "s\<lparr>thread_heap := (thread_heap s)(l \<mapsto> lk\<lparr>th_next := p\<rparr>, p \<mapsto> th\<lparr>th_next := ?f\<rparr>)\<rparr>"
    have "last_thread s t ?f = Some (Ok l)"
      using last_thread_list [OF seg(1) _ _ tk(3) f(4)] tk f(3) snoc by (simp add: task_at_def)
    then have run: "append_thread t p s = Ok ?s"
      using tk f(1) p(1,2) lk l(1)
      by (simp add: append_thread_def loop_outcome_def set_thread_def thread_at_def task_at_def)
    have "thread_seg s bs l" using seg(1) thread_seg_append [of s bs "[l]" ?f] snoc by simp
    moreover have "\<forall>h\<in>set bs. map_option th_next (thread_heap ?s h) = map_option th_next (thread_heap s h)"
      using l by auto
    ultimately have "thread_seg ?s bs l" using thread_seg_cong [of bs ?s s] by blast
    then have "thread_seg ?s ((bs @ [l]) @ [p]) ?f"
      unfolding thread_seg_append using lk p(1,2) l(1) by simp
    then have new: "thread_seg ?s (hs @ [p]) (first_thread (hs @ [p]))" using f(2) snoc by simp
    have "sched_rep ?s (xs @ (t, hs @ [p]) # ys)"
    proof (rule sched_rep_replace [OF rep tk(2) _ _ _ _ new])
      show "task_heap ?s t = Some (tk\<lparr>tk_threads := first_thread (hs @ [p])\<rparr>)" unfolding f(2) using tk by simp
      show "distinct (hs @ [p])" "set (hs @ [p]) \<inter> set (threads_of xs @ threads_of ys) = {}" using seg(2) p(3) dis by auto
      show "thread_heap ?s h = thread_heap s h" if "h \<in> set (threads_of xs @ threads_of ys)" for h
        using that dis p(3) snoc by auto
    qed simp_all
    moreover have "same_threads s ?s" using lk p(1) l(1) by (simp add: same_threads_def)
    ultimately show ?thesis unfolding f(2) using run by auto
  qed
qed

section \<open>The search of the reaper\<close>

definition zombie :: "procs \<Rightarrow> u64 \<Rightarrow> bool" where
  "zombie s h \<longleftrightarrow> map_option th_state (thread_heap s h) = Some THREAD_ZOMBIE"

text \<open>
  The threads of a task that the reaper looks at, in its order: not the first one, unless it is
  the only one.
\<close>

definition reap_order :: "u64 list \<Rightarrow> u64 list" where
  "reap_order hs = (case hs of [] \<Rightarrow> [] | h # ks \<Rightarrow> if ks = [] then [h] else ks)"

lemma find_zombie_none:
  assumes "thread_seg s us first" "us \<noteq> []" "\<forall>h\<in>set us. \<not> zombie s h" "first \<notin> set (tl us)"
    and "task_at s t = Ok tk" "tk_threads tk = first"
  shows "find_zombie s t q (hd us) = Some (Ok (0, s))"
  using assms
proof (induction us arbitrary: q)
  case (Cons c us)
  obtain th where th: "thread_at s c = Ok th" "th_state th \<noteq> THREAD_ZOMBIE" "th_next th = (if us = [] then first else hd us)"
    using Cons.prems(1,3) by (auto simp: thread_at_def zombie_def)
  show ?case
  proof (cases "us = []")
    case True
    then show ?thesis using th Cons.prems(5,6) by (subst find_zombie.simps) simp
  next
    case False
    have "first \<notin> set (tl us)" "hd us \<noteq> first" using Cons.prems(4) False by (cases us; auto)+
    then have "find_zombie s t c (hd us) = Some (Ok (0, s))" using Cons.prems False by (intro Cons.IH) simp_all
    then show ?thesis using th False Cons.prems(5,6) \<open>hd us \<noteq> first\<close> by (subst find_zombie.simps) simp
  qed
qed simp

lemma find_zombie_some:
  assumes "thread_seg s (bs @ z # post) first" "\<forall>h\<in>set bs. \<not> zombie s h" "zombie s z"
    and "first \<notin> set (tl (bs @ z # post))" "task_at s t = Ok tk" "tk_threads tk = first" "first \<noteq> 0"
  shows "find_zombie s t q (hd (bs @ z # post)) =
    Some (obind (unlink_thread t (if bs = [] then q else last bs) z s) (\<lambda>s. Ok (z, s)))"
  using assms
proof (induction bs arbitrary: q)
  case Nil
  then obtain th where "thread_at s z = Ok th" "th_state th = THREAD_ZOMBIE" by (auto simp: thread_at_def zombie_def)
  then show ?case by (subst find_zombie.simps) simp
next
  case (Cons c bs)
  let ?us = "bs @ z # post"
  obtain th where th: "thread_at s c = Ok th" "th_state th \<noteq> THREAD_ZOMBIE" "th_next th = hd ?us"
    using Cons.prems(1,2) by (auto simp: thread_at_def zombie_def)
  have "first \<notin> set (tl ?us)" "hd ?us \<noteq> first" using Cons.prems(4) by (cases bs; auto)+
  moreover from this(1) have "find_zombie s t c (hd ?us) =
      Some (obind (unlink_thread t (if bs = [] then c else last bs) z s) (\<lambda>s. Ok (z, s)))"
    using Cons.prems by (intro Cons.IH) simp_all
  ultimately show ?case using th Cons.prems(5-7) by (subst find_zombie.simps) simp
qed

lemma unlink_thread_rep:
  assumes rep: "sched_rep s (xs @ (t, pre @ z # post) # ys)" and pre: "pre \<noteq> [] \<or> post = []"
  shows "\<exists>s'. unlink_thread t (if pre = [] then z else last pre) z s = Ok s' \<and> sched_rep s' (xs @ (t, pre @ post) # ys) \<and>
    same_threads s s' \<and> map_option tk_vas (task_heap s' t) = map_option tk_vas (task_heap s t)"
proof -
  let ?hs = "pre @ z # post"
  obtain tk where tk: "t \<noteq> 0" "task_heap s t = Some tk" "tk_threads tk = first_thread ?hs"
    and seg: "thread_seg s ?hs (first_thread ?hs)" "distinct ?hs"
    using rep by (auto simp: sched_rep_def task_seg_append)
  have dis: "set ?hs \<inter> set (threads_of xs @ threads_of ys) = {}" using rep by (auto simp: sched_rep_def)
  obtain th where th: "z \<noteq> 0" "thread_heap s z = Some th" "th_next th = (if post = [] then first_thread ?hs else hd post)"
    using seg(1) unfolding thread_seg_append by auto
  show ?thesis
  proof (cases pre rule: rev_cases)
    case Nil
    let ?s = "s\<lparr>task_heap := (task_heap s)(t \<mapsto> tk\<lparr>tk_threads := 0\<rparr>)\<rparr>"
    have "unlink_thread t z z s = Ok ?s"
      using Nil pre th tk by (simp add: unlink_thread_def thread_at_def set_task_def task_at_def)
    moreover have "sched_rep ?s (xs @ (t, []) # ys)"
      using tk by (intro sched_rep_replace [OF rep tk(2)]) auto
    ultimately show ?thesis using Nil pre tk(2) by (auto simp: same_threads_def)
  next
    case (snoc bs q)
    let ?f = "first_thread ?hs"
    obtain h ks where hs: "pre = h # ks" using snoc by (metis append_is_Nil_conv list.exhaust not_Cons_self2)
    have f: "?f = h" "first_thread (pre @ post) = h" "h \<noteq> z" using seg(2) hs by auto
    have l: "q \<noteq> z" "q \<notin> set bs" "z \<notin> set bs" "q \<notin> set post" using seg(2) snoc by auto
    obtain lk where lk: "thread_heap s q = Some lk" "q \<noteq> 0" using thread_seg_dom [OF seg(1), of q] snoc by auto
    have nx: "th_next th \<noteq> z" using th(3) f seg(2) by (cases post) auto
    let ?s = "s\<lparr>thread_heap := (thread_heap s)(q \<mapsto> lk\<lparr>th_next := th_next th\<rparr>)\<rparr>"
    have run: "unlink_thread t q z s = Ok ?s"
      using th(1,2) nx lk tk f by (simp add: unlink_thread_def thread_at_def set_thread_def task_at_def)
    have "thread_seg s bs q" "thread_seg s post h"
      using seg(1) unfolding snoc thread_seg_append f [unfolded snoc] by (auto simp: thread_seg_append)
    then have "thread_seg ?s bs q" "thread_seg ?s post h"
      using l thread_seg_cong [of bs ?s s] thread_seg_cong [of post ?s s] by auto
    moreover have "th_next th = (if post = [] then h else hd post)" unfolding th(3) f(1) by (rule refl)
    ultimately have "thread_seg ?s ((bs @ [q]) @ post) h"
      unfolding thread_seg_append using lk by simp
    then have new: "thread_seg ?s (pre @ post) (first_thread (pre @ post))" unfolding f(2) using snoc by simp
    have "sched_rep ?s (xs @ (t, pre @ post) # ys)"
    proof (rule sched_rep_replace [OF rep tk(2) _ _ _ _ new])
      show "task_heap ?s t = Some (tk\<lparr>tk_threads := first_thread (pre @ post)\<rparr>)" unfolding f(2) using tk f by simp
      show "distinct (pre @ post)" "set (pre @ post) \<inter> set (threads_of xs @ threads_of ys) = {}" using seg(2) dis by auto
      show "thread_heap ?s h = thread_heap s h" if "h \<in> set (threads_of xs @ threads_of ys)" for h
        using that dis snoc by auto
    qed simp_all
    moreover have "same_threads s ?s" using lk by (simp add: same_threads_def)
    ultimately show ?thesis using run snoc by auto
  qed
qed

lemma reap_order_split:
  assumes "reap_order hs = bs @ z # post"
  obtains pre where "hs = pre @ z # post" "pre \<noteq> [] \<or> post = []" "pre = [] \<longrightarrow> bs = []"
    "pre \<noteq> [] \<longrightarrow> pre = hd hs # bs"
  using assms by (cases hs) (auto simp: reap_order_def Cons_eq_append_conv split: if_splits)

lemma set_tlD: "x \<in> set (tl xs) \<Longrightarrow> x \<in> set xs"
  by (cases xs) simp_all

lemma reap_task_none:
  assumes seg: "task_seg s ((t, hs) # ys) e" and none: "\<forall>h\<in>set (reap_order hs). \<not> zombie s h"
  shows "reap_task s t = Ok (0, s)"
proof (cases hs)
  case Nil
  then show ?thesis using seg by (auto simp: reap_task_def task_at_def)
next
  case (Cons h ks)
  let ?us = "if ks = [] then [h] else ks"
  obtain tk th where tk: "task_at s t = Ok tk" "tk_threads tk = h" "thread_at s h = Ok th" "th_next th = hd ?us" "h \<noteq> 0"
    using seg Cons by (auto simp: task_at_def thread_at_def)
  have "find_zombie s t h (hd ?us) = Some (Ok (0, s))"
    using seg Cons none tk(1,2) by (intro find_zombie_none [of s _ h]) (auto simp: reap_order_def split: if_splits dest: set_tlD)
  then show ?thesis using tk by (simp add: reap_task_def loop_outcome_def)
qed

lemma reap_task_some:
  assumes rep: "sched_rep s (xs @ (t, hs) # ys)" and ord: "reap_order hs = bs @ z # post"
    and none: "\<forall>h\<in>set bs. \<not> zombie s h" and z: "zombie s z"
  shows "\<exists>s'. reap_task s t = Ok (z, s') \<and> sched_rep s' (xs @ (t, remove1 z hs) # ys) \<and> same_threads s s' \<and>
    map_option tk_vas (task_heap s' t) = map_option tk_vas (task_heap s t) \<and> z \<in> set hs \<and> z \<noteq> 0"
proof -
  from reap_order_split [OF ord] obtain pre where pre: "hs = pre @ z # post" "pre \<noteq> [] \<or> post = []" "pre = [] \<longrightarrow> bs = []"
    "pre \<noteq> [] \<longrightarrow> pre = hd hs # bs" by blast
  obtain h ks where hs: "hs = h # ks" using pre(1) by (metis append_is_Nil_conv list.distinct(1) list.exhaust)
  have rp: "reap_order hs = (if ks = [] then [h] else ks)" using hs by (simp add: reap_order_def)
  have seg: "thread_seg s hs h" "distinct hs" using rep hs by (auto simp: sched_rep_def task_seg_append)
  obtain tk th where tk: "task_at s t = Ok tk" "tk_threads tk = h" "thread_at s h = Ok th" "th_next th = hd (reap_order hs)" "h \<noteq> 0"
    using rep hs rp by (auto simp: sched_rep_def task_seg_append task_at_def thread_at_def)
  have "thread_seg s (reap_order hs) h" using seg hs rp by (auto split: if_splits)
  moreover have "h \<notin> set (tl (reap_order hs))" using seg(2) hs rp by (auto dest: set_tlD)
  ultimately have "find_zombie s t h (hd (reap_order hs)) =
      Some (obind (unlink_thread t (if bs = [] then h else last bs) z s) (\<lambda>s. Ok (z, s)))"
    unfolding ord using find_zombie_some [OF _ none z _ tk(1,2,5)] by blast
  moreover have "(if bs = [] then h else last bs) = (if pre = [] then z else last pre)"
    using pre hs by (cases pre) auto
  moreover from unlink_thread_rep [of s xs t pre z post ys] rep pre(1,2) obtain s' where
    s': "unlink_thread t (if pre = [] then z else last pre) z s = Ok s'" "sched_rep s' (xs @ (t, pre @ post) # ys)"
      "same_threads s s'" "map_option tk_vas (task_heap s' t) = map_option tk_vas (task_heap s t)" by auto
  ultimately have "reap_task s t = Ok (z, s')" using tk by (simp add: reap_task_def loop_outcome_def)
  moreover have "remove1 z hs = pre @ post" using seg(2) pre(1) by (auto simp: remove1_append)
  moreover have "z \<noteq> 0" using thread_seg_dom [OF seg(1), of z] pre(1) by simp
  ultimately show ?thesis using s' pre(1) by auto
qed

lemma reap_tasks_none:
  assumes "task_seg s us (task_list s)" "us \<noteq> []" "task_list s \<notin> fst ` set (tl us)"
    and "\<forall>x\<in>set us. \<forall>h\<in>set (reap_order (snd x)). \<not> zombie s h"
  shows "reap_tasks s (fst (hd us)) = Some (Ok (0, 0, s))"
  using assms
proof (induction us)
  case (Cons x us)
  obtain t hs where x: "x = (t, hs)" by (cases x)
  obtain tk where tk: "task_at s t = Ok tk" "tk_next tk = (if us = [] then task_list s else fst (hd us))"
    using Cons.prems(1) x by (auto simp: task_at_def)
  have r: "reap_task s t = Ok (0, s)" using reap_task_none [of s t hs us "task_list s"] Cons.prems(1,4) x by simp
  show ?case
  proof (cases "us = []")
    case True
    then show ?thesis using tk x r by (subst reap_tasks.simps) simp
  next
    case False
    have "fst (hd us) \<noteq> task_list s" "task_list s \<notin> fst ` set (tl us)" using Cons.prems(3) False by (cases us; auto)+
    then show ?thesis using tk x r False Cons by (subst reap_tasks.simps) simp
  qed
qed simp

lemma reap_tasks_some:
  assumes "reap_task s t = Ok (z, s')" "z \<noteq> 0" "task_at s' t = Ok tk"
    and "task_seg s (us @ (t, hs) # ys) (task_list s)" "task_list s \<notin> fst ` set (tl (us @ (t, hs) # ys))"
    and "\<forall>x\<in>set us. \<forall>h\<in>set (reap_order (snd x)). \<not> zombie s h"
  shows "reap_tasks s (fst (hd (us @ (t, hs) # ys))) = Some (Ok (z, tk_vas tk, s'))"
  using assms(4-6)
proof (induction us)
  case Nil
  then show ?case using assms(1-3) by (subst reap_tasks.simps) simp
next
  case (Cons x us)
  obtain u ks where x: "x = (u, ks)" by (cases x)
  let ?us = "us @ (t, hs) # ys"
  obtain uk where uk: "task_at s u = Ok uk" "tk_next uk = fst (hd ?us)"
    using Cons.prems(1) x by (auto simp: task_at_def)
  have r: "reap_task s u = Ok (0, s)" using reap_task_none [of s u ks ?us "task_list s"] Cons.prems(1,3) x by simp
  have "fst (hd ?us) \<noteq> task_list s" "task_list s \<notin> fst ` set (tl ?us)" using Cons.prems(2) by (cases us; auto)+
  moreover have "reap_tasks s (fst (hd ?us)) = Some (Ok (z, tk_vas tk, s'))"
    using calculation(2) Cons.prems x by (intro Cons.IH) auto
  ultimately show ?case using uk x r by (subst reap_tasks.simps) simp
qed

end
