(* ===== verification/Vmm_Props.thy ===== *)
theory Vmm_Props
  imports Vmm
begin

text \<open>
  Address spaces as lists of areas: \<open>vmm_alloc\<close> keeps the areas sorted and disjoint, lookups
  find the one area of an address, freeing removes it, and the page fault handler backs a
  page with a zeroed frame.
\<close>

section \<open>Lists of areas\<close>

text \<open>An area with its address, base, size and flags.\<close>

type_synonym area = "u64 \<times> u64 \<times> u64 \<times> u64"

text \<open>The areas on the chain of \<open>next\<close> pointers from \<open>p\<close> to \<open>e\<close>.\<close>

fun area_seg :: "(u64 \<rightharpoonup> vm_area) \<Rightarrow> u64 \<Rightarrow> area list \<Rightarrow> u64 \<Rightarrow> bool" where
  "area_seg h p [] e \<longleftrightarrow> p = e"
| "area_seg h p ((q, b, z, f) # as) e \<longleftrightarrow> p = q \<and> q \<noteq> 0 \<and>
     (\<exists>a. h q = Some a \<and> va_base a = b \<and> va_size a = z \<and> va_flags a = f \<and> area_seg h (va_next a) as e)"

fun laid :: "nat \<Rightarrow> area list \<Rightarrow> bool" where
  "laid lo [] \<longleftrightarrow> True"
| "laid lo ((q, b, z, f) # as) \<longleftrightarrow> lo \<le> unat b \<and> 0 < unat z \<and> unat b + unat z < 2 ^ 64 \<and> laid (unat b + unat z) as"

fun top_of :: "nat \<Rightarrow> area list \<Rightarrow> nat" where
  "top_of lo [] = lo"
| "top_of lo ((q, b, z, f) # as) = top_of (unat b + unat z) as"

definition first_area :: "area list \<Rightarrow> u64" where
  "first_area as = (case as of [] \<Rightarrow> 0 | a # _ \<Rightarrow> fst a)"

lemma first_area_simps [simp]: "first_area [] = 0" "first_area (a # as) = fst a"
  by (simp_all add: first_area_def)

lemma area_seg_first: "area_seg h p as 0 \<Longrightarrow> p = first_area as"
  by (cases as) auto

lemma area_seg_mem: "area_seg h p as e \<Longrightarrow> q \<in> fst ` set as \<Longrightarrow> q \<noteq> 0 \<and> q \<in> dom h"
  by (induction h p as e rule: area_seg.induct) auto

lemma laid_top: "laid lo as \<Longrightarrow> lo \<le> top_of lo as"
  by (induction lo as rule: laid.induct) auto

lemma area_seg_cong:
  "\<forall>q\<in>fst ` set as. h' q = h q \<Longrightarrow> area_seg h' p as e = area_seg h p as e"
  by (induction h p as e rule: area_seg.induct) auto

lemma area_seg_append: "area_seg h p (xs @ ys) e \<longleftrightarrow> (\<exists>m. area_seg h p xs m \<and> area_seg h m ys e)"
  by (induction h p xs e rule: area_seg.induct) auto

lemma area_seg_relink:
  assumes "area_seg h p xs m" "xs \<noteq> []" "distinct (map fst xs)" "h (fst (last xs)) = Some a"
  shows "area_seg (h(fst (last xs) \<mapsto> a\<lparr>va_next := e\<rparr>)) p xs e"
proof -
  obtain ys q b z f where xs: "xs = ys @ [(q, b, z, f)]" using assms(2) by (metis append_butlast_last_id surj_pair)
  obtain k where k: "area_seg h p ys k" "area_seg h k [(q, b, z, f)] m" using assms(1) unfolding xs area_seg_append by blast
  have "area_seg (h(q \<mapsto> a\<lparr>va_next := e\<rparr>)) p ys k" using k(1) assms(3) xs by (subst area_seg_cong) auto
  then show ?thesis unfolding xs area_seg_append using k(2) assms(4) xs by auto
qed

lemma laid_append: "laid lo (xs @ ys) \<longleftrightarrow> laid lo xs \<and> laid (top_of lo xs) ys"
  by (induction lo xs rule: laid.induct) auto

lemma laid_lower: "laid lo as \<Longrightarrow> lo' \<le> lo \<Longrightarrow> laid lo' as"
  by (cases as rule: list.exhaust) auto

lemma laid_delete: "laid lo (xs @ a # ys) \<Longrightarrow> laid lo (xs @ ys)"
proof -
  assume l: "laid lo (xs @ a # ys)"
  obtain q b z f where a: "a = (q, b, z, f)" by (cases a)
  have "laid (unat b + unat z) ys" "top_of lo xs \<le> unat b + unat z" using l a by (auto simp: laid_append)
  then have "laid (top_of lo xs) ys" by (rule laid_lower)
  then show ?thesis using l by (simp add: laid_append)
qed

text \<open>An area that contains an address, and the bounds of areas.\<close>

definition contains :: "area \<Rightarrow> u64 \<Rightarrow> bool" where
  "contains a v = (case a of (q, b, z, f) \<Rightarrow> unat b \<le> unat v \<and> unat v < unat b + unat z)"

lemma laid_bounds: "laid lo as \<Longrightarrow> a \<in> set as \<Longrightarrow> contains a v \<Longrightarrow> lo \<le> unat v \<and> unat v < top_of lo as"
proof (induction lo as rule: laid.induct)
  case (2 lo q b z f as)
  then show ?case using laid_top [of "unat b + unat z" as] by (fastforce simp: contains_def)
qed simp

lemma laid_base: "laid lo (xs @ (q, c, z, f) # ys) \<Longrightarrow> lo \<le> unat c"
proof (induction lo xs rule: laid.induct)
  case (2 lo q b z f as)
  then show ?case by simp
qed simp

lemma laid_unique:
  "laid lo as \<Longrightarrow> a \<in> set as \<Longrightarrow> a' \<in> set as \<Longrightarrow> contains a v \<Longrightarrow> contains a' v \<Longrightarrow> a = a'"
proof (induction lo as rule: laid.induct)
  case (2 lo q b z f as)
  have no: "\<not> contains a v" if "a \<in> set as" "contains (q, b, z, f) v" for a
    using that laid_bounds [of "unat b + unat z" as a v] 2(2) by (auto simp: contains_def)
  have "laid (unat b + unat z) as" using 2(2) by simp
  then show ?case using 2(1,3-6) no by (metis set_ConsD)
qed simp

section \<open>The searches\<close>

text \<open>
  Where a new area starts: it ends inside of the region, or it is the last one and starts where
  the areas before it end. The search checks the end of the region only in front of an area.
\<close>

definition hole_at :: "nat \<Rightarrow> nat \<Rightarrow> area list \<Rightarrow> area list \<Rightarrow> u64 \<Rightarrow> u64 \<Rightarrow> bool" where
  "hole_at lo hi as ys c sz \<longleftrightarrow> lo \<le> unat c \<and> (unat c + unat sz \<le> hi \<or> ys = [] \<and> unat c = top_of lo as)"

lemma find_hole_split:
  assumes "area_seg h cur as 0" "laid (unat cand) as" "top_of (unat cand) as + unat sz < 2 ^ 64" "0 < unat sz"
  shows "(find_hole h sz fin cur prev cand = Some (Ok None) \<and> unat fin \<le> top_of (unat cand) as) \<or>
    (\<exists>xs ys c. as = xs @ ys \<and>
       find_hole h sz fin cur prev cand = Some (Ok (Some (if xs = [] then prev else fst (last xs), first_area ys, c))) \<and>
       (\<forall>q f. laid (unat cand) (xs @ (q, c, sz, f) # ys)) \<and> hole_at (unat cand) (unat fin) as ys c sz)"
  using assms
proof (induction as arbitrary: cur prev cand)
  case Nil
  then have "find_hole h sz fin cur prev cand = Some (Ok (Some (prev, 0, cand)))"
    by (subst find_hole.simps) simp
  then show ?case using Nil by (intro disjI2 exI [of _ "[]"] exI [of _ "[]"] exI [of _ cand]) (simp add: hole_at_def)
next
  case (Cons x as)
  obtain q b z f where x: "x = (q, b, z, f)" by (cases x)
  obtain a where a: "cur = q" "q \<noteq> 0" "h q = Some a" "va_base a = b" "va_size a = z" "area_seg h (va_next a) as 0"
    using Cons.prems(1) x by auto
  have lb: "unat cand \<le> unat b" "0 < unat z" "unat b + unat z < 2 ^ 64" "laid (unat b + unat z) as"
    using Cons.prems(2) x by auto
  have bz: "unat (b + z) = unat b + unat z" using lb(3) by (simp add: unat_plus_if')
  have "unat cand + unat sz < 2 ^ 64" using laid_top [OF Cons.prems(2)] Cons.prems(3) by simp
  then have cs: "unat (cand + sz) = unat cand + unat sz" by (simp add: unat_plus_if')
  show ?case
  proof (cases "cand + sz \<le> b \<and> cand + sz \<le> fin")
    case True
    then have "find_hole h sz fin cur prev cand = Some (Ok (Some (prev, cur, cand)))"
      using a by (subst find_hole.simps) simp
    moreover have "laid (unat cand) ((r, cand, sz, g) # x # as)" for r g
      using True cs lb x Cons.prems(4) by (simp add: word_le_nat_alt)
    moreover have "hole_at (unat cand) (unat fin) (x # as) (x # as) cand sz" using True cs by (simp add: hole_at_def word_le_nat_alt)
    ultimately show ?thesis using x a(1) by (intro disjI2 exI [of _ "[]"] exI [of _ "x # as"] exI [of _ cand]) simp
  next
    case False
    show ?thesis
    proof (cases "fin \<le> b + z")
      case True
      then have "find_hole h sz fin cur prev cand = Some (Ok None)"
        using False a by (subst find_hole.simps) (auto simp: Let_def)
      moreover have "unat fin \<le> top_of (unat cand) (x # as)"
        using True bz laid_top [OF lb(4)] x by (simp add: word_le_nat_alt)
      ultimately show ?thesis by blast
    next
      case end_ok: False
      have step: "find_hole h sz fin cur prev cand = find_hole h sz fin (va_next a) cur (b + z)"
        using False end_ok a by (subst find_hole.simps) (auto simp: Let_def)
      have "laid (unat (b + z)) as" "top_of (unat (b + z)) as + unat sz < 2 ^ 64"
        using lb(4) Cons.prems(3) x bz by simp_all
      from Cons.IH [OF a(6) this Cons.prems(4), of cur] show ?thesis
      proof (elim disjE exE conjE)
        fix xs ys c
        assume s: "as = xs @ ys"
          "find_hole h sz fin (va_next a) cur (b + z) = Some (Ok (Some (if xs = [] then cur else fst (last xs), first_area ys, c)))"
          "\<forall>q f. laid (unat (b + z)) (xs @ (q, c, sz, f) # ys)" "hole_at (unat (b + z)) (unat fin) as ys c sz"
        have "find_hole h sz fin cur prev cand =
            Some (Ok (Some (if x # xs = [] then prev else fst (last (x # xs)), first_area ys, c)))"
          using step s(2) x a(1) by simp
        moreover have "\<forall>q f. laid (unat cand) ((x # xs) @ (q, c, sz, f) # ys)" using s(3) x lb bz by simp
        moreover have "hole_at (unat cand) (unat fin) (x # as) ys c sz" using s(4) x lb(1) bz by (auto simp: hole_at_def)
        ultimately show ?thesis using s(1) by (intro disjI2 exI [of _ "x # xs"] exI [of _ ys] exI [of _ c]) simp
      qed (simp add: step x bz)
    qed
  qed
qed

lemma in_area:
  assumes "unat b + unat z < 2 ^ 64"
  shows "b \<le> v \<and> v < b + z \<longleftrightarrow> contains (q, b, z, f) v"
proof -
  have "unat (b + z) = unat b + unat z" using assms by (simp add: unat_plus_if')
  then show ?thesis by (simp add: contains_def word_le_nat_alt word_less_nat_alt)
qed

lemma find_area_list:
  assumes "area_seg h cur as 0" "laid lo as"
  shows "find_area h cur v = Some (Ok (case find (\<lambda>a. contains a v) as of None \<Rightarrow> 0 | Some a \<Rightarrow> fst a))"
  using assms
proof (induction as arbitrary: cur lo)
  case Nil
  then show ?case by (subst find_area.simps) simp
next
  case (Cons x as)
  obtain q b z f where x: "x = (q, b, z, f)" by (cases x)
  obtain a where a: "cur = q" "q \<noteq> 0" "h q = Some a" "va_base a = b" "va_size a = z" "area_seg h (va_next a) as 0"
    using Cons.prems(1) x by auto
  have bz: "unat b + unat z < 2 ^ 64" and rest: "laid (unat b + unat z) as" using Cons.prems(2) x by auto
  have "va_base a \<le> v \<and> v < va_base a + va_size a \<longleftrightarrow> contains x v" using in_area [OF bz, of v q f] a x by simp
  then show ?case using a x Cons.IH [OF a(6) rest] by (subst find_area.simps) auto
qed

lemma find_free_area_list:
  assumes "area_seg h cur as 0" "laid lo as"
  shows "(\<not> (\<exists>a\<in>set as. contains a v) \<and> (\<exists>pr. find_free_area h cur prev v = Some (Ok (pr, 0)))) \<or>
    (\<exists>xs a ys. as = xs @ a # ys \<and> contains a v \<and>
       find_free_area h cur prev v = Some (Ok (if xs = [] then prev else fst (last xs), fst a)))"
  using assms
proof (induction as arbitrary: cur lo prev)
  case Nil
  then have "find_free_area h cur prev v = Some (Ok (prev, 0))" by (subst find_free_area.simps) simp
  then show ?case by simp
next
  case (Cons x as)
  obtain q b z f where x: "x = (q, b, z, f)" by (cases x)
  obtain a where a: "cur = q" "q \<noteq> 0" "h q = Some a" "va_base a = b" "va_size a = z" "area_seg h (va_next a) as 0"
    using Cons.prems(1) x by auto
  have bz: "unat b + unat z < 2 ^ 64" and rest: "laid (unat b + unat z) as" using Cons.prems(2) x by auto
  have c: "b \<le> v \<and> v < b + z \<longleftrightarrow> contains x v" using in_area [OF bz, of v q f] x by simp
  show ?case
  proof (cases "contains x v")
    case True
    then have "find_free_area h cur prev v = Some (Ok (prev, fst x))" using a c x by (subst find_free_area.simps) simp
    then show ?thesis using True by (intro disjI2 exI [of _ "[]"] exI [of _ x] exI [of _ as]) simp
  next
    case False
    then have step: "find_free_area h cur prev v = find_free_area h (va_next a) cur v"
      using a c by (subst find_free_area.simps) auto
    from Cons.IH [OF a(6) rest, of cur] show ?thesis
    proof (elim disjE exE conjE)
      fix pr assume "\<not> (\<exists>a\<in>set as. contains a v)" "find_free_area h (va_next a) cur v = Some (Ok (pr, 0))"
      then show ?thesis using step False by auto
    next
      fix xs y ys assume s: "as = xs @ y # ys" "contains y v"
        "find_free_area h (va_next a) cur v = Some (Ok (if xs = [] then cur else fst (last xs), fst y))"
      then show ?thesis using step x a(1)
        by (intro disjI2 exI [of _ "x # xs"] exI [of _ y] exI [of _ ys]) simp
    qed
  qed
qed

section \<open>The invariant of an address space\<close>

text \<open>
  The areas of a space are sorted and disjoint, from the start of its region on, and every
  area structure is a live block of the kernel heap. \<open>K\<close> are the live blocks of other users of
  the heap, which the manager leaves alone.
\<close>

definition vm_core :: "nat \<Rightarrow> u64 set \<Rightarrow> vmm \<Rightarrow> u64 \<Rightarrow> area list \<Rightarrow> bool" where
  "vm_core root K s space as \<longleftrightarrow> space \<noteq> 0 \<and>
     (\<exists>sp. vm_spaces s space = Some sp \<and> area_seg (vm_areas s) (region_list sp) as 0) \<and>
     distinct (map fst as) \<and> laid (unat (fst (search_bounds s space))) as \<and> fst ` set as \<inter> K = {} \<and>
     (\<exists>L. heap_live root (vm_heap s) L \<and> fst ` set as \<union> K \<subseteq> dom L)"

definition space_lock :: "vmm \<Rightarrow> u64 \<Rightarrow> spinlock_irq" where
  "space_lock s space = vas_lock (the (vm_spaces s space))"

definition lock_held :: "spinlock_irq \<Rightarrow> bool" where
  "lock_held l \<longleftrightarrow> ticket l = turn l + 1"

definition vm_inv :: "nat \<Rightarrow> u64 set \<Rightarrow> vmm \<Rightarrow> u64 \<Rightarrow> area list \<Rightarrow> bool" where
  "vm_inv root K s space as \<longleftrightarrow> vm_core root K s space as \<and> lock_free (space_lock s space)"

definition vm_held :: "nat \<Rightarrow> u64 set \<Rightarrow> vmm \<Rightarrow> u64 \<Rightarrow> area list \<Rightarrow> bool" where
  "vm_held root K s space as \<longleftrightarrow> vm_core root K s space as \<and> lock_held (space_lock s space)"

lemma avail_rflags [simp]: "pmm_avail (m\<lparr>cpu_rflags := rf\<rparr>) R A = pmm_avail m R A"
proof -
  have "m\<lparr>cpu_rflags := rf\<rparr> = m\<lparr>pmm_lock := pmm_lock m, cpu_rflags := rf\<rparr>" by simp
  then have "pmm_valid (m\<lparr>cpu_rflags := rf\<rparr>) F A = pmm_valid m F A" for F
    unfolding pmm_valid_def using pmm_inv_lock [where s = m and l = "pmm_lock m" and rf = rf] by simp
  then show ?thesis by (simp add: pmm_avail_def)
qed

lemma refs_rflags [simp]: "pmm_refs (m\<lparr>cpu_rflags := rf\<rparr>) = pmm_refs m"
  by (simp add: pmm_refs_def fun_eq_iff)

lemma space_inv_rflags [simp]: "space_inv (s\<lparr>pg_pmm := (pg_pmm s)\<lparr>cpu_rflags := rf\<rparr>\<rparr>) root R A = space_inv s root R A"
  by (simp add: space_inv_def)

lemma heap_live_rflags [simp]: "heap_live root (set_kh_rflags rf h) L = heap_live root h L"
  unfolding heap_live_def heap_ok_def heap_rep_def heap_unlocked_def heap_env_def lives_def set_kh_rflags_def by simp

lemma heap_room_rflags [simp]: "heap_room root (set_kh_rflags rf h) z = heap_room root h z"
  unfolding heap_room_def heap_ok_def heap_rep_def heap_unlocked_def heap_env_def set_kh_rflags_def by simp

lemma search_bounds_cong: "kernel_vas s' = kernel_vas s \<Longrightarrow> search_bounds s' space = search_bounds s space"
  by (simp add: search_bounds_def)

lemma search_bounds_pos: "0 < unat (fst (search_bounds s space))"
  by (simp add: search_bounds_def VMM_KERNEL_START_def VMM_USER_START_def)

lemma vas_acquire_inv:
  assumes "vm_inv root K s space as"
  shows "\<exists>s1 l. vas_acquire space s = Ok (kh_rflags (vm_heap s), s1) \<and> vm_held root K s1 space as \<and>
    s1 = s\<lparr>vm_spaces := (vm_spaces s)(space \<mapsto> (the (vm_spaces s space))\<lparr>vas_lock := l\<rparr>),
           vm_heap := set_kh_rflags (kh_rflags (vm_heap s) AND NOT RFLAGS_IF) (vm_heap s)\<rparr>"
proof -
  obtain sp where sp: "vm_spaces s space = Some sp" "space \<noteq> 0" using assms by (auto simp: vm_inv_def vm_core_def)
  have lf: "lock_free (vas_lock sp)" using assms sp(1) by (simp add: vm_inv_def space_lock_def)
  let ?l = "(vas_lock sp)\<lparr>ticket := ticket (vas_lock sp) + 1\<rparr>"
  let ?s = "s\<lparr>vm_spaces := (vm_spaces s)(space \<mapsto> sp\<lparr>vas_lock := ?l\<rparr>),
           vm_heap := set_kh_rflags (kh_rflags (vm_heap s) AND NOT RFLAGS_IF) (vm_heap s)\<rparr>"
  have "vas_acquire space s = Ok (kh_rflags (vm_heap s), ?s)"
    using sp lock_acquire_free [OF lf] by (simp add: vas_acquire_def space_at_def)
  moreover have "vm_core root K ?s space as"
    using assms sp search_bounds_cong [of ?s s space] by (auto simp: vm_inv_def vm_core_def)
  moreover have "lock_held (space_lock ?s space)" using lf by (simp add: space_lock_def lock_held_def lock_free_def)
  ultimately show ?thesis using sp(1) by (auto simp: vm_held_def)
qed

lemma vas_release_inv:
  assumes "vm_held root K s space as"
  shows "\<exists>s1 l. vas_release space rf s = Ok s1 \<and> vm_inv root K s1 space as \<and>
    s1 = s\<lparr>vm_spaces := (vm_spaces s)(space \<mapsto> (the (vm_spaces s space))\<lparr>vas_lock := l\<rparr>), vm_heap := set_kh_rflags rf (vm_heap s)\<rparr>"
proof -
  obtain sp where sp: "vm_spaces s space = Some sp" "space \<noteq> 0" using assms by (auto simp: vm_held_def vm_core_def)
  have lh: "lock_held (vas_lock sp)" using assms sp(1) by (simp add: vm_held_def space_lock_def)
  let ?l = "(vas_lock sp)\<lparr>turn := turn (vas_lock sp) + 1\<rparr>"
  let ?s = "s\<lparr>vm_spaces := (vm_spaces s)(space \<mapsto> sp\<lparr>vas_lock := ?l\<rparr>), vm_heap := set_kh_rflags rf (vm_heap s)\<rparr>"
  have "vas_release space rf s = Ok ?s"
    using sp by (simp add: vas_release_def space_at_def lock_release_def interrupts_restore_def)
  moreover have "vm_core root K ?s space as"
    using assms sp search_bounds_cong [of ?s s space] by (auto simp: vm_held_def vm_core_def)
  moreover have "lock_free (space_lock ?s space)" using lh by (simp add: space_lock_def lock_held_def lock_free_def)
  ultimately show ?thesis using sp(1) by (auto simp: vm_inv_def)
qed

section \<open>Allocating an area\<close>

lemma vm_kmalloc_cases:
  assumes "vm_held root K s space as"
  shows "vm_kmalloc s z = Halt \<or> (\<exists>h. vm_kmalloc s z = Ok (0, s\<lparr>vm_heap := h\<rparr>) \<and> vm_held root K (s\<lparr>vm_heap := h\<rparr>) space as) \<or>
    (\<exists>p h L n. vm_kmalloc s z = Ok (p, s\<lparr>vm_heap := h\<rparr>) \<and> p \<noteq> 0 \<and> p \<notin> fst ` set as \<and> p \<notin> K \<and>
       heap_live root h (L(p \<mapsto> n)) \<and> fst ` set as \<union> K \<subseteq> dom L)"
proof -
  from assms obtain L where L: "heap_live root (vm_heap s) L" "fst ` set as \<union> K \<subseteq> dom L" by (auto simp: vm_held_def vm_core_def)
  from kernel_blocks.alloc_result [OF L(1), of z] show ?thesis
  proof (elim disjE exE conjE)
    assume "kmalloc (vm_heap s) z = Halt"
    then show ?thesis by (simp add: vm_kmalloc_def)
  next
    fix h assume h: "kmalloc (vm_heap s) z = Ok (0, h)" "heap_live root h L"
    have "vm_core root K (s\<lparr>vm_heap := h\<rparr>) space as"
      using assms h(2) L(2) search_bounds_cong [of "s\<lparr>vm_heap := h\<rparr>" s space] by (auto simp: vm_held_def vm_core_def)
    then have "vm_held root K (s\<lparr>vm_heap := h\<rparr>) space as" using assms by (simp add: vm_held_def space_lock_def)
    then show ?thesis using h(1) by (intro disjI2 disjI1 exI [of _ h]) (simp add: vm_kmalloc_def)
  next
    fix p h n assume h: "kmalloc (vm_heap s) z = Ok (p, h)" "p \<noteq> 0" "p \<notin> dom L" "heap_live root h (L(p \<mapsto> n))"
    then show ?thesis using L(2)
      by (intro disjI2 exI [of _ p] exI [of _ h] exI [of _ L] exI [of _ n]) (auto simp: vm_kmalloc_def)
  qed
qed

lemma insert_area_core:
  assumes held: "vm_held root K s space (xs @ ys)" and new: "new \<noteq> 0" "new \<notin> fst ` set (xs @ ys)" "new \<notin> K"
    and live: "heap_live root h (L(new \<mapsto> n))" "fst ` set (xs @ ys) \<union> K \<subseteq> dom L"
    and ly: "laid (unat (fst (search_bounds s space))) (xs @ (new, c, sz, fl) # ys)"
    and a: "a = \<lparr>va_base = c, va_size = sz, va_flags = fl, va_next = first_area ys\<rparr>"
  shows "\<exists>s'. insert_area (s\<lparr>vm_heap := h\<rparr>) space (if xs = [] then 0 else fst (last xs)) new a = Ok s' \<and>
    vm_held root K s' space (xs @ (new, c, sz, fl) # ys) \<and> vm_heap s' = h \<and> kernel_vas s' = kernel_vas s \<and>
    map_option pml4_phys (vm_spaces s' space) = map_option pml4_phys (vm_spaces s space)"
proof -
  let ?s = "s\<lparr>vm_heap := h\<rparr>"
  let ?h = "(vm_areas s)(new \<mapsto> a)"
  obtain sp where sp: "vm_spaces s space = Some sp" "space \<noteq> 0" "area_seg (vm_areas s) (region_list sp) (xs @ ys) 0"
    and d: "distinct (map fst (xs @ ys))" and lk: "lock_held (vas_lock sp)"
    using held by (auto simp: vm_held_def vm_core_def space_lock_def)
  obtain m where m: "area_seg (vm_areas s) (region_list sp) xs m" "area_seg (vm_areas s) m ys 0"
    using sp(3) unfolding area_seg_append by blast
  have my: "m = first_area ys" using m(2) by (rule area_seg_first)
  have xs': "area_seg ?h (region_list sp) xs m" using m(1) new(2) by (subst area_seg_cong) auto
  have ys': "area_seg ?h m ys 0" using m(2) new(2) by (subst area_seg_cong) auto
  have d': "distinct (map fst (xs @ (new, c, sz, fl) # ys))" using d new(2) by auto
  have heap: "\<exists>L. heap_live root h L \<and> fst ` set (xs @ (new, c, sz, fl) # ys) \<union> K \<subseteq> dom L"
    using live by (intro exI [of _ "L(new \<mapsto> n)"]) auto
  have dis: "fst ` set (xs @ (new, c, sz, fl) # ys) \<inter> K = {}" using held new(3) by (auto simp: vm_held_def vm_core_def)
  show ?thesis
  proof (cases "xs = []")
    case True
    let ?t = "s\<lparr>vm_heap := h, vm_areas := ?h, vm_spaces := (vm_spaces s)(space \<mapsto> sp\<lparr>region_list := new\<rparr>)\<rparr>"
    have "insert_area ?s space 0 new a = Ok ?t" using sp by (simp add: insert_area_def set_space_def space_at_def)
    moreover have "area_seg ?h new (xs @ (new, c, sz, fl) # ys) 0" using True ys' my new(1) a by simp
    then have "vm_core root K ?t space (xs @ (new, c, sz, fl) # ys)"
      using sp(2) d' ly heap dis search_bounds_cong [of ?t s space] by (simp add: vm_core_def)
    moreover have "lock_held (space_lock ?t space)" using lk by (simp add: space_lock_def)
    ultimately show ?thesis using True sp(1) by (auto simp: vm_held_def)
  next
    case False
    let ?q = "fst (last xs)"
    have q: "?q \<in> fst ` set xs" using False by simp
    obtain al where al: "vm_areas s ?q = Some al" "?q \<noteq> 0" using area_seg_mem [OF m(1) q] by auto
    have ne: "?q \<noteq> new" using q new(2) by auto
    let ?h' = "?h(?q \<mapsto> al\<lparr>va_next := new\<rparr>)"
    let ?t = "s\<lparr>vm_heap := h, vm_areas := ?h'\<rparr>"
    have "insert_area ?s space ?q new a = Ok ?t" using al ne by (simp add: insert_area_def set_area_def area_at_def)
    moreover have "area_seg ?h' (region_list sp) xs new"
      using xs' False d al(1) ne by (intro area_seg_relink [of ?h _ _ m]) auto
    moreover have "area_seg ?h' m ys 0"
    proof -
      have "?q \<notin> fst ` set ys" using q d by auto
      then have "\<forall>r\<in>fst ` set ys. ?h' r = ?h r" by (metis fun_upd_other)
      from area_seg_cong [OF this] show ?thesis using ys' by blast
    qed
    ultimately have "insert_area ?s space ?q new a = Ok ?t" "area_seg ?h' (region_list sp) (xs @ (new, c, sz, fl) # ys) 0"
      unfolding area_seg_append using my new(1) a ne by auto
    moreover from this(2) have "vm_core root K ?t space (xs @ (new, c, sz, fl) # ys)"
      using sp(1,2) d' ly heap dis search_bounds_cong [of ?t s space] by (simp add: vm_core_def)
    moreover have "lock_held (space_lock ?t space)" using lk sp(1) by (simp add: space_lock_def)
    ultimately show ?thesis using False by (auto simp: vm_held_def)
  qed
qed

text \<open>Neither lock nor search touches the areas or the kernel's address space.\<close>

lemma vm_held_bounds: "vm_held root K s space as \<Longrightarrow> laid (unat (fst (search_bounds s space))) as"
  by (simp add: vm_held_def vm_core_def)

lemma vmm_alloc_search:
  assumes held: "vm_held root K s space as" and sz: "sz \<noteq> 0"
    and top: "top_of (unat (fst (search_bounds s space))) as + unat sz < 2 ^ 64"
  shows "\<exists>sp. space_at s space = Ok sp \<and>
    (loop_outcome (find_hole (vm_areas s) sz (snd (search_bounds s space)) (region_list sp) 0 (fst (search_bounds s space))) = Ok None \<and>
       unat (snd (search_bounds s space)) \<le> top_of (unat (fst (search_bounds s space))) as \<or>
     (\<exists>xs ys c. as = xs @ ys \<and> (\<forall>q f. laid (unat (fst (search_bounds s space))) (xs @ (q, c, sz, f) # ys)) \<and>
        hole_at (unat (fst (search_bounds s space))) (unat (snd (search_bounds s space))) as ys c sz \<and>
        loop_outcome (find_hole (vm_areas s) sz (snd (search_bounds s space)) (region_list sp) 0 (fst (search_bounds s space))) =
          Ok (Some (if xs = [] then 0 else fst (last xs), first_area ys, c))))"
proof -
  obtain sp where sp: "vm_spaces s space = Some sp" "space \<noteq> 0" "area_seg (vm_areas s) (region_list sp) as 0"
    using held by (auto simp: vm_held_def vm_core_def)
  have "0 < unat sz" using sz by (simp add: unat_gt_0)
  note split = find_hole_split [OF sp(3) vm_held_bounds [OF held] top this, of "snd (search_bounds s space)" 0]
  show ?thesis
  proof (intro exI [of _ sp] conjI)
    show "space_at s space = Ok sp" using sp(1,2) by (simp add: space_at_def)
    from split show "loop_outcome (find_hole (vm_areas s) sz (snd (search_bounds s space)) (region_list sp) 0 (fst (search_bounds s space))) = Ok None \<and>
       unat (snd (search_bounds s space)) \<le> top_of (unat (fst (search_bounds s space))) as \<or>
     (\<exists>xs ys c. as = xs @ ys \<and> (\<forall>q f. laid (unat (fst (search_bounds s space))) (xs @ (q, c, sz, f) # ys)) \<and>
        hole_at (unat (fst (search_bounds s space))) (unat (snd (search_bounds s space))) as ys c sz \<and>
        loop_outcome (find_hole (vm_areas s) sz (snd (search_bounds s space)) (region_list sp) 0 (fst (search_bounds s space))) =
          Ok (Some (if xs = [] then 0 else fst (last xs), first_area ys, c)))"
    proof (elim disjE exE conjE)
      fix xs ys c
      assume "as = xs @ ys" "\<forall>q f. laid (unat (fst (search_bounds s space))) (xs @ (q, c, sz, f) # ys)"
        "hole_at (unat (fst (search_bounds s space))) (unat (snd (search_bounds s space))) as ys c sz"
        "find_hole (vm_areas s) sz (snd (search_bounds s space)) (region_list sp) 0 (fst (search_bounds s space)) =
          Some (Ok (Some (if xs = [] then 0 else fst (last xs), first_area ys, c)))"
      then show ?thesis unfolding loop_outcome_def by (intro disjI2 exI [of _ xs] exI [of _ ys] exI [of _ c]) simp
    qed (simp add: loop_outcome_def)
  qed
qed

definition anonymous :: "u64 \<Rightarrow> bool" where
  "anonymous fl \<longleftrightarrow> fl AND VMM_FLAGS_MMIO = 0 \<and> fl AND VMM_FLAGS_ANON \<noteq> 0"

lemma area_flags_cong: "kernel_vas s' = kernel_vas s \<Longrightarrow> area_flags s' space fl = area_flags s space fl"
  by (simp add: area_flags_def)

lemma area_flags_anonymous: "anonymous (area_flags s space fl) = anonymous fl"
proof -
  have "NOT VMM_FLAGS_USER AND VMM_FLAGS_MMIO = VMM_FLAGS_MMIO" "NOT VMM_FLAGS_USER AND VMM_FLAGS_ANON = VMM_FLAGS_ANON"
    by (simp_all add: VMM_FLAGS_USER_def VMM_FLAGS_MMIO_def VMM_FLAGS_ANON_def)
  then show ?thesis by (simp add: area_flags_def anonymous_def and.assoc)
qed

lemma vmm_alloc_result:
  assumes "vm_inv root K s space as" and "page_round sz \<noteq> 0" and "anonymous fl"
    and "top_of (unat (fst (search_bounds s space))) as + unat (page_round sz) < 2 ^ 64"
  shows "(vmm_alloc s space sz fl arg = Halt \<and> \<not> heap_room root (vm_heap s) sizeof_vm_area) \<or>
    (\<exists>p s'. vmm_alloc s space sz fl arg = Ok (p, s') \<and>
       ((p = 0 \<and> vm_inv root K s' space as \<and> (\<not> heap_room root (vm_heap s) sizeof_vm_area \<or>
           unat (snd (search_bounds s space)) \<le> top_of (unat (fst (search_bounds s space))) as)) \<or>
        (\<exists>xs ys new. p \<noteq> 0 \<and> as = xs @ ys \<and> vm_inv root K s' space (xs @ (new, p, page_round sz, area_flags s space fl) # ys) \<and>
           hole_at (unat (fst (search_bounds s space))) (unat (snd (search_bounds s space))) as ys p (page_round sz))))"
proof -
  let ?z = "page_round sz"
  let ?rf = "kh_rflags (vm_heap s)"
  from vas_acquire_inv [OF assms(1)] obtain s1 l where
    acq: "vas_acquire space s = Ok (?rf, s1)" and held: "vm_held root K s1 space as"
    and s1: "s1 = s\<lparr>vm_spaces := (vm_spaces s)(space \<mapsto> (the (vm_spaces s space))\<lparr>vas_lock := l\<rparr>),
           vm_heap := set_kh_rflags (?rf AND NOT RFLAGS_IF) (vm_heap s)\<rparr>"
    by blast
  have nz: "space \<noteq> 0" using held by (simp add: vm_held_def vm_core_def)
  have kv: "kernel_vas s1 = kernel_vas s" by (simp add: s1)
  have fl: "area_flags s1 space fl = area_flags s space fl" using kv by (rule area_flags_cong)
  have "top_of (unat (fst (search_bounds s1 space))) as + unat ?z < 2 ^ 64"
    using assms(4) search_bounds_cong [OF kv] by simp
  from vmm_alloc_search [OF held assms(2) this] obtain sp where sp: "space_at s1 space = Ok sp"
    and hole: "loop_outcome (find_hole (vm_areas s1) ?z (snd (search_bounds s1 space)) (region_list sp) 0 (fst (search_bounds s1 space))) = Ok None \<and>
       unat (snd (search_bounds s1 space)) \<le> top_of (unat (fst (search_bounds s1 space))) as \<or>
     (\<exists>xs ys c. as = xs @ ys \<and> (\<forall>q f. laid (unat (fst (search_bounds s1 space))) (xs @ (q, c, ?z, f) # ys)) \<and>
        hole_at (unat (fst (search_bounds s1 space))) (unat (snd (search_bounds s1 space))) as ys c ?z \<and>
        loop_outcome (find_hole (vm_areas s1) ?z (snd (search_bounds s1 space)) (region_list sp) 0 (fst (search_bounds s1 space))) =
          Ok (Some (if xs = [] then 0 else fst (last xs), first_area ys, c)))"
    by blast
  obtain lo fin where b: "search_bounds s1 space = (lo, fin)" by (cases "search_bounds s1 space")
  let ?fl = "area_flags s1 space fl"
  have start: "vmm_alloc s space sz fl arg =
      obind (loop_outcome (find_hole (vm_areas s1) ?z fin (region_list sp) 0 lo)) (alloc_at s1 space ?rf ?z ?fl arg)"
    using nz assms(2) acq sp b unfolding vmm_alloc_def by (simp add: Let_def)
  have backed: "back_area t space c ?z ?fl arg = Ok t" for t c
    using assms(3) area_flags_anonymous [of s1 space fl] by (simp add: back_area_def anonymous_def)
  have full: "\<not> heap_room root (vm_heap s) sizeof_vm_area"
    if "\<nexists>p s2. vm_kmalloc s1 sizeof_vm_area = Ok (p, s2) \<and> p \<noteq> 0"
    using that kernel_blocks.alloc_room [of root "vm_heap s1" sizeof_vm_area] by (auto simp: vm_kmalloc_def s1)
  from hole show ?thesis
    unfolding b fst_conv snd_conv
  proof (elim disjE exE conjE)
    assume a: "loop_outcome (find_hole (vm_areas s1) ?z fin (region_list sp) 0 lo) = Ok None" "unat fin \<le> top_of (unat lo) as"
    from vas_release_inv [OF held, of ?rf] obtain s2 where "vas_release space ?rf s1 = Ok s2" "vm_inv root K s2 space as" by blast
    then show ?thesis using start a b search_bounds_cong [OF kv, of space] by (simp add: alloc_at_def)
  next
    fix xs ys c
    assume h: "as = xs @ ys" "\<forall>q f. laid (unat lo) (xs @ (q, c, ?z, f) # ys)"
      "loop_outcome (find_hole (vm_areas s1) ?z fin (region_list sp) 0 lo) =
        Ok (Some (if xs = [] then 0 else fst (last xs), first_area ys, c))" "hole_at (unat lo) (unat fin) as ys c ?z"
    from vm_kmalloc_cases [OF held, of sizeof_vm_area] show ?thesis
    proof (elim disjE exE conjE)
      assume "vm_kmalloc s1 sizeof_vm_area = Halt"
      then show ?thesis using start h(3) full by (simp add: alloc_at_def)
    next
      fix hp assume a: "vm_kmalloc s1 sizeof_vm_area = Ok (0, s1\<lparr>vm_heap := hp\<rparr>)" "vm_held root K (s1\<lparr>vm_heap := hp\<rparr>) space as"
      from vas_release_inv [OF a(2), of ?rf] obtain s2 where
        "vas_release space ?rf (s1\<lparr>vm_heap := hp\<rparr>) = Ok s2" "vm_inv root K s2 space as" by blast
      then show ?thesis using start h(3) a full by (simp add: alloc_at_def)
    next
      fix new hp L n
      assume k: "vm_kmalloc s1 sizeof_vm_area = Ok (new, s1\<lparr>vm_heap := hp\<rparr>)" "new \<noteq> 0" "new \<notin> fst ` set as" "new \<notin> K"
        "heap_live root hp (L(new \<mapsto> n))" "fst ` set as \<union> K \<subseteq> dom L"
      have lay: "laid (unat (fst (search_bounds s1 space))) (xs @ (new, c, ?z, ?fl) # ys)" using h(2) b by simp
      from insert_area_core [OF _ k(2) _ k(4,5) _ lay refl] held k(3,6) h(1) obtain s2 where
        s2: "insert_area (s1\<lparr>vm_heap := hp\<rparr>) space (if xs = [] then 0 else fst (last xs)) new
            \<lparr>va_base = c, va_size = ?z, va_flags = ?fl, va_next = first_area ys\<rparr> = Ok s2"
          "vm_held root K s2 space (xs @ (new, c, ?z, ?fl) # ys)" by auto
      from vas_release_inv [OF s2(2), of ?rf] obtain s3 where
        s3: "vas_release space ?rf s2 = Ok s3" "vm_inv root K s3 space (xs @ (new, c, ?z, ?fl) # ys)" by blast
      have "vmm_alloc s space sz fl arg = Ok (c, s3)" using start h(3) k(1,2) s2(1) s3(1) by (simp add: alloc_at_def backed)
      moreover have "unat lo \<le> unat c" using h(2) laid_base by blast
      then have "c \<noteq> 0" using search_bounds_pos [of s1 space] b by auto
      moreover have "search_bounds s space = (lo, fin)" using b search_bounds_cong [OF kv, of space] by simp
      ultimately show ?thesis using h(1,4) s3(2) fl by auto
    qed
  qed
qed

text \<open>
  C11: \<open>vmm_alloc\<close> of an anonymous area returns the base of a new area that is inserted so that
  all areas stay sorted and pairwise disjoint. The new area lies inside of the region of the
  address space, unless it becomes the last one: then it starts where the areas before it end, and
  nothing keeps it from reaching over the end of the region. When the heap has no room for the
  structure of the area, \<open>NULL\<close> comes back with the areas as they were or the heap stops the
  kernel; when the areas reach the end of the region, \<open>NULL\<close> may come back as well.
\<close>

theorem vmm_alloc_inserts_area:
  assumes "vm_inv root K s space as" and "page_round sz \<noteq> 0" and "anonymous fl"
    and "top_of (unat (fst (search_bounds s space))) as + unat (page_round sz) < 2 ^ 64"
  shows "(vmm_alloc s space sz fl arg = Halt \<and> \<not> heap_room root (vm_heap s) sizeof_vm_area) \<or>
    (\<exists>p s'. vmm_alloc s space sz fl arg = Ok (p, s') \<and>
       ((p = 0 \<and> vm_inv root K s' space as \<and> (\<not> heap_room root (vm_heap s) sizeof_vm_area \<or>
           unat (snd (search_bounds s space)) \<le> top_of (unat (fst (search_bounds s space))) as)) \<or>
        (\<exists>xs ys new. p \<noteq> 0 \<and> as = xs @ ys \<and> vm_inv root K s' space (xs @ (new, p, page_round sz, area_flags s space fl) # ys) \<and>
           hole_at (unat (fst (search_bounds s space))) (unat (snd (search_bounds s space))) as ys p (page_round sz))))"
  by (rule vmm_alloc_result [OF assms])

text \<open>
  The end of the region is not checked behind the last area: an allocation that is larger than
  the whole region succeeds in an empty address space.
\<close>

theorem vmm_alloc_passes_end:
  assumes "vm_inv root K s space []" and "anonymous fl" and "heap_room root (vm_heap s) sizeof_vm_area"
    and "unat (snd (search_bounds s space)) < unat (fst (search_bounds s space)) + unat (page_round sz)"
    and "unat (fst (search_bounds s space)) + unat (page_round sz) < 2 ^ 64"
  shows "\<exists>s' new. vmm_alloc s space sz fl arg = Ok (fst (search_bounds s space), s') \<and>
    vm_inv root K s' space [(new, fst (search_bounds s space), page_round sz, area_flags s space fl)]"
proof -
  have lt: "unat (fst (search_bounds s space)) < unat (snd (search_bounds s space))"
    by (simp add: search_bounds_def VMM_KERNEL_START_def VMM_KERNEL_END_def VMM_USER_START_def VMM_USER_END_def)
  have "page_round sz \<noteq> 0" using assms(4) lt by auto
  from vmm_alloc_result [OF assms(1) this assms(2), of arg] assms(3,5) lt obtain p s' xs ys new where
    r: "vmm_alloc s space sz fl arg = Ok (p, s')" "[] = xs @ ys" "vm_inv root K s' space (xs @ (new, p, page_round sz, area_flags s space fl) # ys)"
      "hole_at (unat (fst (search_bounds s space))) (unat (snd (search_bounds s space))) [] ys p (page_round sz)"
    by auto
  have "p = fst (search_bounds s space)" using r(4) assms(4) by (auto simp: hole_at_def word_unat_eq_iff)
  then show ?thesis using r(1-3) by auto
qed

section \<open>Page faults\<close>

text \<open>Zeroing a frame that is no page table changes no translation.\<close>

lemma zero_frame_space:
  assumes inv: "space_inv s root R A" and p: "p < 2 ^ 40" "\<not> table_at s root p"
  shows "space_inv (zero_frame p s) root R A" "same_translation s (zero_frame p s) root {}" "same_regs s (zero_frame p s)"
    "is \<in> paths \<Longrightarrow> walk (zero_frame p s) 0 root is = walk s 0 root is"
proof -
  let ?s = "zero_frame p s"
  let ?path = "[0, 0, 0, 0] :: nat list"
  have tree: "pt_tree s root A" and av: "pmm_avail (pg_pmm s) R A" using inv by (simp_all add: space_inv_def)
  have ch: "only_changes s ?s root ?path 0"
    unfolding only_changes_def
  proof (intro ballI allI impI)
    fix "is" q and i :: nat assume a: "is \<in> paths" "walk s 0 root is = Some q" "i < 512"
    have "q < 2 ^ 40" "q \<noteq> p" using pt_treeD(2) [OF tree a(1,2)] p(2) a(1,2) by (auto simp: table_at_def)
    then show "cell ?s q i = cell s q i" using p(1) a(3) by (simp add: cell_zero_frame)
  qed
  have walks: "walk ?s 0 root is = walk s 0 root is" if "is \<in> paths" for "is"
  proof (rule walk_frame [OF ch that])
    show "\<not> prefix (?path @ [0]) is" using that prefix_length_le [of "?path @ [0]" "is"] by (auto simp: paths_def)
  qed
  then show "is \<in> paths \<Longrightarrow> walk ?s 0 root is = walk s 0 root is" .
  have "pt_tree ?s root A" using tree unfolding pt_tree_def by (elim conjE, intro conjI) (simp_all add: walks)
  then show "space_inv ?s root R A" using av by (simp add: space_inv_def zero_frame_def)
  show "same_regs s ?s" by (simp add: zero_frame_def same_regs_def)
  show "same_translation s ?s root {}"
    unfolding same_translation_def
  proof (intro allI impI)
    fix i j k l :: nat assume ijk: "i < 512" "j < 512" "k < 512" "l < 512"
    note eq = walks [OF path2 [OF ijk(1,2)]]
    show "translate_at ?s root i j k l = translate_at s root i j k l"
    proof (cases "walk s 0 root [i, j]")
      case None
      then show ?thesis using eq by (simp add: translate_at_def)
    next
      case (Some pd)
      show ?thesis by (rule translate_frame [OF ch ijk Some]) (use eq Some in auto)
    qed
  qed
qed

lemma free_frame_no_table:
  assumes "space_inv s root R A" "p \<in> R" shows "\<not> table_at s root p"
proof
  assume "table_at s root p"
  then have "(p, 0) \<in> A" using assms(1) by (auto simp: table_at_def space_inv_def dest: pt_treeD(1))
  then have "p \<in> frames A" using block_subset_frames [of p 0 A] by (auto simp: block_single)
  then show False using pmm_frames.avail_apart [of "pg_pmm s" R A] assms by (auto simp: space_inv_def)
qed

text \<open>A page of an area is backed: a free frame is taken, zeroed and mapped.\<close>

lemma demand_page:
  assumes inv: "space_inv s root R A" and v: "v \<noteq> 0" and root: "to_virt s (page_to_phys root) \<noteq> 0"
    and nohuge: "\<And>e. translate s root v \<noteq> Some (e, True)"
  obtains (none) m where "card R < 4" "pmm_alloc (pg_pmm s) 4096 = Ok (0, m)"
  | (halt) p m where "card R < 4" "pmm_alloc (pg_pmm s) 4096 = Ok (page_to_phys p, m)" "page_to_phys p \<noteq> 0"
    "paging_map_page (zero_frame p (s\<lparr>pg_pmm := m\<rparr>)) (to_virt s (page_to_phys root)) v (page_to_phys p) fl False = Halt"
  | (mapped) p m s' R' A' where "pmm_alloc (pg_pmm s) 4096 = Ok (page_to_phys p, m)" "page_to_phys p \<noteq> 0" "p \<in> R"
    "paging_map_page (zero_frame p (s\<lparr>pg_pmm := m\<rparr>)) (to_virt s (page_to_phys root)) v (page_to_phys p) fl False = Ok s'"
    "space_inv s' root R' A'" "(p, 0) \<in> A'" "maps s R A s' R' A' root {vm_index v}"
    "translate s' root v = Some (page_to_phys p OR fl OR PTE_FLAG_PRESENT, False)" "\<forall>i<512. cell s' p i = 0"
proof (cases "R = {}")
  case True
  have "pmm_avail (pg_pmm s) R A" using inv by (simp add: space_inv_def)
  then show thesis using pmm_frames.take_none True none by (metis card.empty zero_less_numeral)
next
  case False
  from take_frame_space [OF inv this] obtain p m where
    p: "pmm_alloc (pg_pmm s) 4096 = Ok (page_to_phys p, m)" "p \<in> R" "p < 2 ^ 40" "page_to_phys p \<noteq> 0"
      "space_inv (s\<lparr>pg_pmm := m\<rparr>) root (R - {p}) (insert (p, 0) A)"
      "maps s R A (s\<lparr>pg_pmm := m\<rparr>) (R - {p}) (insert (p, 0) A) root {}" "card R = Suc (card (R - {p}))"
    by metis
  let ?s1 = "s\<lparr>pg_pmm := m\<rparr>"
  let ?s2 = "zero_frame p ?s1"
  have nt: "\<not> table_at ?s1 root p" using free_frame_no_table [OF inv p(2)] by simp
  note z = zero_frame_space [OF p(5,3) nt]
  have tr2: "translate ?s2 root w = translate s root w" for w using translate_same [OF z(2), of w] by simp
  have nt2: "\<not> table_at ?s2 root p" using nt z(4) by (auto simp: table_at_def)
  have rv: "to_virt ?s2 (page_to_phys root) = to_virt s (page_to_phys root)" by (simp add: zero_frame_def)
  from map_page_step [OF z(1) v, of "page_to_phys p" fl] root nohuge p(7) consider
      "card R < 4" "paging_map_page ?s2 (to_virt s (page_to_phys root)) v (page_to_phys p) fl False = Halt"
    | s' R' A' where "paging_map_page ?s2 (to_virt s (page_to_phys root)) v (page_to_phys p) fl False = Ok s'"
      "space_inv s' root R' A'" "maps ?s2 (R - {p}) (insert (p, 0) A) s' R' A' root {vm_index v}"
      "translate s' root v = Some (align_phys (page_to_phys p) False OR fl OR PTE_FLAG_PRESENT, False)"
    unfolding rv tr2 by fastforce
  then show thesis
  proof cases
    case 1
    then show thesis using halt p(1,4) by blast
  next
    case s': (2 s' R' A')
  have zero: "\<forall>i<512. cell s' p i = 0"
    using mapsD(9) [OF s'(3) insertI1 p(3) _ nt2] cell_zero_frame [OF p(3,3), of _ ?s1] by simp
  have al: "align_phys (page_to_phys p) False = page_to_phys p" using p(3) by (rule align_phys_page)
  have "maps s R A s' R' A' root {vm_index v}"
    unfolding maps_def
  proof (intro conjI allI impI ballI)
    have "same_regs s ?s1" by (simp add: same_regs_def)
    then have "same_regs s ?s2" using z(3) by (rule same_regs_trans)
    then show "same_regs s s'" using mapsD(1) [OF s'(3)] by (rule same_regs_trans)
    have "same_translation s ?s2 root {}" using z(2) by (simp add: same_translation_def)
    then show "same_translation s s' root {vm_index v}"
      using mapsD(2) [OF s'(3)] same_translation_mono [of s ?s2 root "{}" "{vm_index v}"] by (auto intro: same_translation_trans)
    show "R' \<subseteq> R" "A \<subseteq> A'" using mapsD(3,4) [OF s'(3)] by auto
    show "translate s root w = Some (e, True)" if "translate s' root w = Some (e, True)" for w e
      using mapsD(8) [OF s'(3) that] tr2 by simp
    have tab: "table_at ?s2 root q = table_at s root q" for q using z(4) by (auto simp: table_at_def)
    show "table_at s root q" if "(q, 0) \<in> A" "table_at s' root q" for q
      using mapsD(7) [OF s'(3), of q] that tab by auto
    show "cell s' q i = cell s q i" if "(q, 0) \<in> A" "q < 2 ^ 40" "i < 512" "\<not> table_at s root q" for q i
    proof -
      have "(q, 0) \<noteq> (p, 0)" using that(1) p(2) pmm_frames.avail_apart [of "pg_pmm s" R A] inv block_subset_frames [of q 0 A]
        by (auto simp: space_inv_def block_single)
      then show ?thesis using mapsD(9) [OF s'(3), of q i] that tab cell_zero_frame [OF that(2) p(3) that(3), of ?s1] by auto
    qed
    fix x assume x: "x \<in> A"
    obtain q k where q: "x = (q, k)" by (cases x)
    have "pmm_refs (pg_pmm s') q = pmm_refs (pg_pmm ?s2) q" using mapsD(5) [OF s'(3), of q k] x q by simp
    also have "\<dots> = pmm_refs (pg_pmm s) q" using mapsD(5) [OF p(6), of q k] x q by (simp add: zero_frame_def)
    finally show "case x of (q, k) \<Rightarrow> pmm_refs (pg_pmm s') q = pmm_refs (pg_pmm s) q" using q by simp
  qed
  moreover have "(p, 0) \<in> A'" using mapsD(4) [OF s'(3)] by auto
  ultimately show thesis using mapped [OF p(1,4,2) s'(1,2)] s'(4) zero al by simp
  qed
qed

lemma get_area_list:
  assumes "vm_core root K s space as"
  shows "vmm_get_vm_area s space v = Ok (case find (\<lambda>a. contains a v) as of None \<Rightarrow> 0 | Some a \<Rightarrow> fst a)"
proof -
  obtain sp where sp: "vm_spaces s space = Some sp" "space \<noteq> 0" "area_seg (vm_areas s) (region_list sp) as 0"
    and ly: "laid (unat (fst (search_bounds s space))) as"
    using assms by (auto simp: vm_core_def)
  show ?thesis using find_area_list [OF sp(3) ly, of v] sp(1,2) by (simp add: vmm_get_vm_area_def space_at_def loop_outcome_def)
qed

lemma find_contains:
  assumes "laid lo as" "a \<in> set as" "contains a v"
  shows "find (\<lambda>a. contains a v) as = Some a"
proof -
  from assms(2,3) have "find (\<lambda>a. contains a v) as \<noteq> None" unfolding find_None_iff by blast
  then obtain b where b: "find (\<lambda>a. contains a v) as = Some b" by auto
  then have "b \<in> set as" "contains b v" by (auto simp: find_Some_iff)
  then show ?thesis using laid_unique [OF assms(1) _ assms(2) _ assms(3)] b by simp
qed

lemma area_seg_lookup:
  "area_seg h p as e \<Longrightarrow> (q, b, z, f) \<in> set as \<Longrightarrow> \<exists>a. h q = Some a \<and> q \<noteq> 0 \<and> va_base a = b \<and> va_size a = z \<and> va_flags a = f"
  by (induction h p as e rule: area_seg.induct) auto

text \<open>
  \<open>vmm_get_vm_area\<close> returns the one area that contains the address, and \<open>NULL\<close> exactly when
  no area does.
\<close>

theorem vmm_get_vm_area_finds:
  assumes "vm_inv root K s space as"
  shows "\<exists>p. vmm_get_vm_area s space v = Ok p \<and> (p = 0 \<longleftrightarrow> \<not> (\<exists>a\<in>set as. contains a v)) \<and>
    (\<forall>a\<in>set as. contains a v \<longrightarrow> p = fst a)"
proof -
  have core: "vm_core root K s space as" and ly: "laid (unat (fst (search_bounds s space))) as"
    using assms by (auto simp: vm_inv_def vm_core_def)
  obtain sp :: vm_address_space where seg: "area_seg (vm_areas s) (region_list sp) as 0" using core by (auto simp: vm_core_def)
  show ?thesis
  proof (cases "find (\<lambda>a. contains a v) as")
    case None
    then have "\<forall>a\<in>set as. \<not> contains a v" by (auto simp: find_None_iff)
    then show ?thesis using get_area_list [OF core, of v] None by simp
  next
    case (Some a)
    then have a: "a \<in> set as" "contains a v" by (auto simp: find_Some_iff)
    then have "fst a \<noteq> 0" using area_seg_mem [OF seg, of "fst a"] by auto
    moreover have "vmm_get_vm_area s space v = Ok (fst a)" using get_area_list [OF core, of v] Some by simp
    moreover have "\<forall>b\<in>set as. contains b v \<longrightarrow> fst a = fst b" using laid_unique [OF ly _ a(1) _ a(2)] by blast
    ultimately show ?thesis using a by blast
  qed
qed

lemma page_fault_result:
  assumes "t = (if cr2 \<ge> VMM_KERNEL_START then kernel_vas s else current_vas s)"
    and "vm_inv root K s t as" and "map_option pml4_phys (vm_spaces s t) = Some (page_to_phys root)"
    and "heap_env (vm_heap s) root R A"
    and "(q, b, z, fl) \<in> set as" and "contains (q, b, z, fl) cr2" and "error_code AND PAGE_FAULT_PRESENT = 0"
    and "\<forall>e. translate (vm_pg s) root cr2 \<noteq> Some (e, True)"
  shows "(card R < 4 \<and> vmm_page_fault_handler s cr2 error_code = Halt) \<or>
    (\<exists>s' R' A' p. vmm_page_fault_handler s cr2 error_code = Ok s' \<and> vm_inv root K s' t as \<and> heap_env (vm_heap s') root R' A' \<and>
    p \<in> R \<and> (p, 0) \<in> A' \<and> (\<forall>i<512. cell (vm_pg s') p i = 0) \<and>
    translate (vm_pg s') root cr2 = Some (page_to_phys p OR vmm_generic_to_x86_flags fl OR PTE_FLAG_PRESENT, False) \<and>
    (\<forall>w. unat w div 4096 mod 2 ^ 36 \<noteq> unat cr2 div 4096 mod 2 ^ 36 \<longrightarrow> translate (vm_pg s') root w = translate (vm_pg s) root w))"
proof -
  let ?rf = "kh_rflags (vm_heap s)"
  let ?pf = "vmm_generic_to_x86_flags fl"
  from vas_acquire_inv [OF assms(2)] obtain s1 l where
    acq: "vas_acquire t s = Ok (?rf, s1)" and held: "vm_held root K s1 t as"
    and s1: "s1 = s\<lparr>vm_spaces := (vm_spaces s)(t \<mapsto> (the (vm_spaces s t))\<lparr>vas_lock := l\<rparr>),
           vm_heap := set_kh_rflags (?rf AND NOT RFLAGS_IF) (vm_heap s)\<rparr>"
    by blast
  obtain sp where sp: "vm_spaces s1 t = Some sp" "t \<noteq> 0" "area_seg (vm_areas s1) (region_list sp) as 0"
    and ly: "laid (unat (fst (search_bounds s1 t))) as" and core: "vm_core root K s1 t as"
    using held by (auto simp: vm_held_def vm_core_def)
  have root: "pml4_phys sp = page_to_phys root" using assms(3) sp(1) by (auto simp: s1)
  have at: "space_at s1 t = Ok sp" using sp(1,2) by (simp add: space_at_def)
  have pg1: "vm_pg s1 = (vm_pg s)\<lparr>pg_pmm := (pg_pmm (vm_pg s))\<lparr>cpu_rflags := ?rf AND NOT RFLAGS_IF\<rparr>\<rparr>"
    by (simp add: s1 set_kh_rflags_def)
  have env: "space_inv (vm_pg s) root R A" "to_virt (vm_pg s) (page_to_phys root) \<noteq> 0"
    using assms(4) by (simp_all add: heap_env_def)
  have inv1: "space_inv (vm_pg s1) root R A" using env(1) unfolding pg1 by simp
  have tr1: "translate (vm_pg s1) = translate (vm_pg s)" unfolding pg1 by simp
  have rv1: "to_virt (vm_pg s1) = to_virt (vm_pg s)" unfolding pg1 by simp
  have get: "vmm_get_vm_area s1 t cr2 = Ok q"
    using get_area_list [OF core, of cr2] find_contains [OF ly assms(5,6)] by simp
  obtain a where a: "vm_areas s1 q = Some a" "q \<noteq> 0" "va_flags a = fl" using area_seg_lookup [OF sp(3) assms(5)] by blast
  have "0 < unat cr2"
  proof -
    have "unat (fst (search_bounds s1 t)) \<le> unat cr2" using laid_bounds [OF ly assms(5,6)] by simp
    then show ?thesis using search_bounds_pos [of s1 t] by simp
  qed
  then have nz: "cr2 \<noteq> 0" by auto
  have rnz: "to_virt (vm_pg s1) (page_to_phys root) \<noteq> 0" using env(2) rv1 by simp
  have nh: "\<And>e. translate (vm_pg s1) root cr2 \<noteq> Some (e, True)" using assms(8) tr1 by simp
  show ?thesis
  proof (cases rule: demand_page [OF inv1 nz rnz nh, where fl = ?pf])
    case 1
    then show ?thesis unfolding vmm_page_fault_handler_def Let_def assms(1) [symmetric]
      using acq get a assms(7) by (simp add: area_at_def PAGING_PAGE_SIZE_def)
  next
    case 2
    then show ?thesis unfolding vmm_page_fault_handler_def Let_def assms(1) [symmetric]
      using acq get a assms(7) at root by (simp add: area_at_def PAGING_PAGE_SIZE_def zero_frame_def)
  next
    case d: (3 p m pg R' A')
  define s2 where "s2 = set_vm_pg pg s1"
  have env1: "heap_env (vm_heap s1) root R A" using assms(4) by (simp add: s1 heap_env_def set_kh_rflags_def)
  have cR: "card R' \<le> card R" using mapsD(3) [OF d(7)] avail_finite [of "pg_pmm (vm_pg s)" R A] env(1) by (simp add: space_inv_def card_mono)
  have env2: "heap_env (vm_heap s2) root R' A'"
    using maps_env [OF env1 d(7,5), of "vm_heap s2" 0] cR by (simp add: s2_def set_vm_pg_def)
  obtain L bs where L: "heap_ok (vm_heap s1) bs" "lives (vm_heap s1) bs L" "fst ` set as \<union> K \<subseteq> dom L"
    using core by (auto simp: vm_core_def heap_live_def)
  have "heap_ok (vm_heap s2) bs" "lives (vm_heap s2) bs L"
    using L(1,2) by (simp_all add: s2_def set_vm_pg_def heap_ok_def heap_rep_def heap_unlocked_def lives_def)
  then have "heap_live root (vm_heap s2) L" using env2 unfolding heap_live_def by blast
  then have "vm_core root K s2 t as"
    using core L(3) search_bounds_cong [of s2 s1 t] by (auto simp: vm_core_def s2_def set_vm_pg_def)
  then have held2: "vm_held root K s2 t as" using held by (simp add: vm_held_def space_lock_def s2_def set_vm_pg_def)
  from vas_release_inv [OF held2, of ?rf] obtain s3 l' where
    s3: "vas_release t ?rf s2 = Ok s3" "vm_inv root K s3 t as"
      "s3 = s2\<lparr>vm_spaces := (vm_spaces s2)(t \<mapsto> (the (vm_spaces s2 t))\<lparr>vas_lock := l'\<rparr>), vm_heap := set_kh_rflags ?rf (vm_heap s2)\<rparr>"
    by blast
  have zf: "zero_frame p ((vm_pg s1)\<lparr>pg_pmm := m\<rparr>) =
      (vm_pg s1)\<lparr>pg_pmm := m, ram := memset (ram (vm_pg s1)) (to_virt (vm_pg s1) (page_to_phys p)) 0 PAGING_PAGE_SIZE\<rparr>"
    by (simp add: zero_frame_def)
  have run: "vmm_page_fault_handler s cr2 error_code = Ok s3"
    unfolding vmm_page_fault_handler_def Let_def assms(1) [symmetric]
    using acq get a assms(7) d(1,2,4) at root s3(1) zf by (simp add: area_at_def PAGING_PAGE_SIZE_def s2_def)
  have pg3: "vm_pg s3 = pg\<lparr>pg_pmm := (pg_pmm pg)\<lparr>cpu_rflags := ?rf\<rparr>\<rparr>" by (simp add: s3(3) s2_def set_vm_pg_def set_kh_rflags_def)
  have "heap_env (vm_heap s3) root R' A'" using env2 by (simp add: s3(3) heap_env_def set_kh_rflags_def)
  moreover have "translate (vm_pg s3) root w = translate (vm_pg s) root w"
    if "unat w div 4096 mod 2 ^ 36 \<noteq> unat cr2 div 4096 mod 2 ^ 36" for w
  proof -
    have "vm_index w \<notin> {vm_index cr2}" using that by (simp only: vm_index_eq singleton_iff not_False_eq_True)
    from translate_same [OF mapsD(2) [OF d(7)] this] show ?thesis unfolding pg3 by (simp add: tr1)
  qed
  moreover have "translate (vm_pg s3) root cr2 = Some (page_to_phys p OR ?pf OR PTE_FLAG_PRESENT, False)" "\<forall>i<512. cell (vm_pg s3) p i = 0"
    using d(8,9) unfolding pg3 by simp_all
  ultimately show ?thesis using run s3(2) d(3,6) by blast
  qed
qed

text \<open>
  C10: a fault on a missing page inside an area is resolved: the page then maps, with the
  permissions of the area, a frame that was free and is filled with zeros, and no other page
  changes.
\<close>

theorem vmm_page_fault_resolves:
  assumes "t = (if cr2 \<ge> VMM_KERNEL_START then kernel_vas s else current_vas s)"
    and "vm_inv root K s t as" and "map_option pml4_phys (vm_spaces s t) = Some (page_to_phys root)"
    and "heap_env (vm_heap s) root R A" and "4 \<le> card R"
    and "(q, b, z, fl) \<in> set as" and "contains (q, b, z, fl) cr2" and "error_code AND PAGE_FAULT_PRESENT = 0"
    and "\<forall>e. translate (vm_pg s) root cr2 \<noteq> Some (e, True)"
  shows "\<exists>s' R' A' p. vmm_page_fault_handler s cr2 error_code = Ok s' \<and> vm_inv root K s' t as \<and> heap_env (vm_heap s') root R' A' \<and>
    p \<in> R \<and> (p, 0) \<in> A' \<and> (\<forall>i<512. cell (vm_pg s') p i = 0) \<and>
    translate (vm_pg s') root cr2 = Some (page_to_phys p OR vmm_generic_to_x86_flags fl OR PTE_FLAG_PRESENT, False) \<and>
    (\<forall>w. unat w div 4096 mod 2 ^ 36 \<noteq> unat cr2 div 4096 mod 2 ^ 36 \<longrightarrow> translate (vm_pg s') root w = translate (vm_pg s) root w)"
  using page_fault_result [OF assms(1-4,6-9)] assms(5) by auto

lemma page_fault_stops:
  assumes "t = (if cr2 \<ge> VMM_KERNEL_START then kernel_vas s else current_vas s)" and "vm_inv root K s t as"
    and "(\<forall>a\<in>set as. \<not> contains a cr2) \<or> error_code AND PAGE_FAULT_PRESENT \<noteq> 0"
  shows "vmm_page_fault_handler s cr2 error_code = Halt"
proof -
  from vas_acquire_inv [OF assms(2)] obtain s1 where
    acq: "vas_acquire t s = Ok (kh_rflags (vm_heap s), s1)" and core: "vm_core root K s1 t as"
    by (auto simp: vm_held_def)
  obtain sp :: vm_address_space where seg: "area_seg (vm_areas s1) (region_list sp) as 0" using core by (auto simp: vm_core_def)
  show ?thesis
  proof (cases "find (\<lambda>a. contains a cr2) as")
    case None
    then have "vmm_get_vm_area s1 t cr2 = Ok 0" using get_area_list [OF core, of cr2] by simp
    then show ?thesis unfolding vmm_page_fault_handler_def Let_def assms(1) [symmetric] using acq by simp
  next
    case (Some a)
    then have mem: "a \<in> set as" "contains a cr2" by (auto simp: find_Some_iff)
    then have pr: "error_code AND PAGE_FAULT_PRESENT \<noteq> 0" using assms(3) by blast
    obtain q b z f where a: "a = (q, b, z, f)" by (cases a)
    have "vmm_get_vm_area s1 t cr2 = Ok q" using get_area_list [OF core, of cr2] Some a by simp
    moreover obtain va where "vm_areas s1 q = Some va" "q \<noteq> 0" using area_seg_lookup [OF seg] mem(1) a by blast
    ultimately show ?thesis
      unfolding vmm_page_fault_handler_def Let_def assms(1) [symmetric] using acq pr by (simp add: area_at_def)
  qed
qed

text \<open>
  A fault outside of every area and a violation of the permissions of a present page stop
  the kernel.
\<close>

theorem vmm_page_fault_halts:
  assumes "t = (if cr2 \<ge> VMM_KERNEL_START then kernel_vas s else current_vas s)" and "vm_inv root K s t as"
    and "(\<forall>a\<in>set as. \<not> contains a cr2) \<or> error_code AND PAGE_FAULT_PRESENT \<noteq> 0"
  shows "vmm_page_fault_handler s cr2 error_code = Halt"
  by (rule page_fault_stops [OF assms])

section \<open>A small kernel address space\<close>

text \<open>One anonymous area of four pages, whose structure is the first block of the heap.\<close>

definition vmm_heap_demo :: kheap where
  "vmm_heap_demo = kheap_demo\<lparr>kh_nodes :=
     [0xFFFFFFFF80200000 \<mapsto> \<lparr>nd_size = 32, isFree = False, nd_next = 0xFFFFFFFF80200038\<rparr>,
      0xFFFFFFFF80200038 \<mapsto> \<lparr>nd_size = 4016, isFree = True, nd_next = 0\<rparr>]\<rparr>"

definition vmm_demo :: vmm where
  "vmm_demo = \<lparr>vm_heap = vmm_heap_demo,
     vm_areas = [0xFFFFFFFF80200018 \<mapsto> \<lparr>va_base = 0xFFFFC00000000000, va_size = 0x4000, va_flags = 0x13, va_next = 0\<rparr>],
     vm_spaces = [0x5000 \<mapsto> \<lparr>pml4_phys = 0x1000, region_list = 0xFFFFFFFF80200018, vas_lock = SPINLOCK_IRQ_INIT\<rparr>],
     kernel_vas = 0x5000, current_vas = 0x5000\<rparr>"

abbreviation demo_areas :: "area list" where
  "demo_areas \<equiv> [(0xFFFFFFFF80200018, 0xFFFFC00000000000, 0x4000, 0x13)]"

lemma vmm_demo_env: "heap_env (vm_heap vmm_demo) 1 {2..<8} {(1, 0)}"
  using kheap_demo_env by (simp add: vmm_demo_def vmm_heap_demo_def heap_env_def)

lemma vmm_demo_heap: "heap_ok (vm_heap vmm_demo) [(32, False), (4016, True)]"
  using kheap_demo_ok
  by (simp add: vmm_demo_def vmm_heap_demo_def heap_ok_def heap_rep_def heap_unlocked_def kheap_demo_def first_at_def)

lemma vmm_demo_live: "heap_live 1 (vm_heap vmm_demo) [0xFFFFFFFF80200018 \<mapsto> 32]"
proof -
  have "lives (vm_heap vmm_demo) [(32, False), (4016, True)] [0xFFFFFFFF80200018 \<mapsto> 32]"
    by (auto simp: lives_def vmm_demo_def vmm_heap_demo_def kheap_demo_def)
  then show ?thesis using vmm_demo_heap vmm_demo_env unfolding heap_live_def by blast
qed

lemma vmm_demo_inv: "vm_inv 1 {} vmm_demo 0x5000 demo_areas"
proof -
  have "search_bounds vmm_demo 0x5000 = (VMM_KERNEL_START, VMM_KERNEL_END)" by (simp add: search_bounds_def vmm_demo_def)
  then have "laid (unat (fst (search_bounds vmm_demo 0x5000))) demo_areas" by (simp add: VMM_KERNEL_START_def)
  moreover have "\<exists>L. heap_live 1 (vm_heap vmm_demo) L \<and> fst ` set demo_areas \<subseteq> dom L"
    using vmm_demo_live by (intro exI [of _ "[0xFFFFFFFF80200018 \<mapsto> 32]"]) simp
  ultimately show ?thesis by (simp add: vm_inv_def vm_core_def space_lock_def) (simp add: vmm_demo_def)
qed

theorem vmm_alloc_inserts_area_witness:
  "\<exists>p s' as. vmm_alloc vmm_demo 0x5000 100 0x13 0 = Ok (p, s') \<and> vm_inv 1 {} s' 0x5000 as \<and>
     p \<in> (\<lambda>(q, b, z, f). b) ` set as \<and> VMM_KERNEL_START \<le> p \<and> p + 0x1000 \<le> VMM_KERNEL_END"
proof -
  have z: "page_round 100 = 4096" by (simp add: page_round_def PAGING_PAGE_SIZE_def)
  have b: "fst (search_bounds vmm_demo 0x5000) = VMM_KERNEL_START" by (simp add: search_bounds_def vmm_demo_def)
  have bs: "search_bounds vmm_demo 0x5000 = (VMM_KERNEL_START, VMM_KERNEL_END)" by (simp add: search_bounds_def vmm_demo_def)
  have "page_round 100 \<noteq> 0" "anonymous 0x13"
    "top_of (unat (fst (search_bounds vmm_demo 0x5000))) demo_areas + unat (page_round 100) < 2 ^ 64"
    unfolding z b by (simp_all add: anonymous_def VMM_FLAGS_MMIO_def VMM_FLAGS_ANON_def)
  note alloc = vmm_alloc_inserts_area [OF vmm_demo_inv this, of 0]
  have "unat (round_size sizeof_vm_area) = 32" by (simp add: round_size_def KHEAP_BLOCK_SIZE_def sizeof_vm_area_def)
  then have "\<not> exhausted [(32, False), (4016, True)] (card {2..<8 :: nat}) (unat (round_size sizeof_vm_area))"
    by (simp add: exhausted_def)
  then have "heap_room 1 (vm_heap vmm_demo) sizeof_vm_area"
    using vmm_demo_heap vmm_demo_env unfolding heap_room_def by blast
  moreover have "\<not> unat (snd (search_bounds vmm_demo 0x5000)) \<le> top_of (unat (fst (search_bounds vmm_demo 0x5000))) demo_areas"
    unfolding b by (simp add: search_bounds_def vmm_demo_def VMM_KERNEL_END_def)
  ultimately obtain p s' xs ys new where "vmm_alloc vmm_demo 0x5000 100 0x13 0 = Ok (p, s')"
      "vm_inv 1 {} s' 0x5000 (xs @ (new, p, 4096, area_flags vmm_demo 0x5000 0x13) # ys)"
      "hole_at (unat VMM_KERNEL_START) (unat VMM_KERNEL_END) demo_areas ys p 4096"
    using alloc unfolding z bs fst_conv snd_conv by blast
  moreover from this(3) have "VMM_KERNEL_START \<le> p" "p + 0x1000 \<le> VMM_KERNEL_END"
    by (auto simp: hole_at_def word_le_nat_alt unat_plus_if' VMM_KERNEL_START_def VMM_KERNEL_END_def)
  ultimately show ?thesis
    by (intro exI [of _ p] exI [of _ s'] exI [of _ "xs @ (new, p, 4096, area_flags vmm_demo 0x5000 0x13) # ys"]) force
qed

theorem vmm_get_vm_area_finds_witness:
  "vmm_get_vm_area vmm_demo 0x5000 0xFFFFC00000001008 = Ok 0xFFFFFFFF80200018"
proof -
  have "contains (0xFFFFFFFF80200018, 0xFFFFC00000000000, 0x4000, 0x13) 0xFFFFC00000001008" by (simp add: contains_def)
  then show ?thesis using vmm_get_vm_area_finds [OF vmm_demo_inv, of "0xFFFFC00000001008"] by auto
qed

theorem vmm_page_fault_resolves_witness:
  "\<exists>s' p. vmm_page_fault_handler vmm_demo 0xFFFFC00000001008 2 = Ok s' \<and> p \<in> {2..<8} \<and>
    translate (vm_pg s') 1 0xFFFFC00000001008 =
      Some (page_to_phys p OR vmm_generic_to_x86_flags 0x13 OR PTE_FLAG_PRESENT, False)"
proof -
  have t: "0x5000 = (if VMM_KERNEL_START \<le> 0xFFFFC00000001008 then kernel_vas vmm_demo else current_vas vmm_demo)"
    by (simp add: vmm_demo_def)
  have "map_option pml4_phys (vm_spaces vmm_demo 0x5000) = Some (page_to_phys 1)"
    by (simp add: vmm_demo_def page_to_phys_def PMM_PAGE_SIZE_def)
  moreover have "4 \<le> card {2..<8 :: nat}" by simp
  moreover have "(0xFFFFFFFF80200018, 0xFFFFC00000000000, 0x4000, 0x13) \<in> set demo_areas"
    "contains (0xFFFFFFFF80200018, 0xFFFFC00000000000, 0x4000, 0x13) 0xFFFFC00000001008" by (simp_all add: contains_def)
  moreover have "(2 :: u64) AND PAGE_FAULT_PRESENT = 0" by (simp add: PAGE_FAULT_PRESENT_def)
  moreover have "\<forall>e. translate (vm_pg vmm_demo) 1 0xFFFFC00000001008 \<noteq> Some (e, True)"
    using demo_translate by (simp add: vmm_demo_def vmm_heap_demo_def kheap_demo_def)
  ultimately show ?thesis using vmm_page_fault_resolves [OF t vmm_demo_inv _ vmm_demo_env, of _ _ _ _ 2] by blast
qed

theorem vmm_page_fault_halts_witness: "vmm_page_fault_handler vmm_demo 0x1234 0 = Halt"
proof -
  have t: "0x5000 = (if VMM_KERNEL_START \<le> 0x1234 then kernel_vas vmm_demo else current_vas vmm_demo)"
    by (simp add: vmm_demo_def)
  have "(\<forall>a\<in>set demo_areas. \<not> contains a 0x1234) \<or> (0 :: u64) AND PAGE_FAULT_PRESENT \<noteq> 0" by (simp add: contains_def)
  then show ?thesis by (rule vmm_page_fault_halts [OF t vmm_demo_inv])
qed

end
