(* ===== verification/Vmm_Free.thy ===== *)
theory Vmm_Free
  imports Vmm_Props
begin

text \<open>
  Freeing an area: the pages of the area are unmapped one by one, the frames behind them go
  back to the frame allocator, the area leaves the list and its structure is freed.
\<close>

section \<open>Pages that an area owns\<close>

text \<open>An absent page whose entry is clear, or a page mapped to a frame of its own.\<close>

definition leaf_clear :: "paging \<Rightarrow> nat \<Rightarrow> u64 \<Rightarrow> bool" where
  "leaf_clear s root v = (case vm_index v of (i, j, k, l) \<Rightarrow>
     \<forall>pt. walk s 0 root [i, j, k] = Some pt \<longrightarrow> cell s pt l AND PAGING_PTE_ADDR_MASK = 0)"

definition owned :: "paging \<Rightarrow> nat \<Rightarrow> (nat \<times> nat) set \<Rightarrow> u64 \<Rightarrow> nat option \<Rightarrow> bool" where
  "owned s root A v fo = (case fo of
     None \<Rightarrow> translate s root v = None \<and> leaf_clear s root v
   | Some p \<Rightarrow> (\<exists>e. translate s root v = Some (e, False) \<and> e AND PAGING_PTE_ADDR_MASK = page_to_phys p) \<and>
       (p, 0) \<in> A \<and> pmm_refs (pg_pmm s) p = 1 \<and> \<not> table_at s root p)"

definition drop_blocks :: "(nat \<times> nat) set \<Rightarrow> nat set \<Rightarrow> (nat \<times> nat) set" where
  "drop_blocks A P = A - (\<lambda>p. (p, 0)) ` P"

lemma drop_blocks_simps [simp]: "drop_blocks A {} = A" "drop_blocks (drop_blocks A P) Q = drop_blocks A (P \<union> Q)"
  by (auto simp: drop_blocks_def)

lemma leaf_clear_pmm [simp]: "leaf_clear (s\<lparr>pg_pmm := m\<rparr>) = leaf_clear s"
  by (simp add: fun_eq_iff leaf_clear_def)

lemma owned_rflags: "owned (s\<lparr>pg_pmm := (pg_pmm s)\<lparr>cpu_rflags := r\<rparr>\<rparr>) root A v fo = owned s root A v fo"
  by (cases fo) (simp_all add: owned_def)

text \<open>What unmapping one page keeps.\<close>

definition unmaps :: "paging \<Rightarrow> paging \<Rightarrow> nat \<Rightarrow> (nat \<times> nat) set \<Rightarrow> (nat \<times> nat \<times> nat \<times> nat) set \<Rightarrow> bool" where
  "unmaps s s' root A X \<longleftrightarrow> same_regs s s' \<and> same_translation s s' root X \<and>
     (\<forall>w. vm_index w \<in> X \<longrightarrow> translate s' root w = None) \<and>
     (\<forall>w. vm_index w \<notin> X \<longrightarrow> leaf_clear s root w \<longrightarrow> leaf_clear s' root w) \<and>
     (\<forall>(q, k)\<in>A. pmm_refs (pg_pmm s') q = pmm_refs (pg_pmm s) q) \<and>
     (\<forall>q. table_at s' root q = table_at s root q)"

lemma unmaps_owned:
  assumes u: "unmaps s s' root A' X" and o: "owned s root A w fo" and w: "vm_index w \<notin> X"
    and A': "\<And>p. fo = Some p \<Longrightarrow> (p, 0) \<in> A'"
  shows "owned s' root A' w fo"
proof -
  have "translate s' root w = translate s root w" using u w by (intro translate_same) (auto simp: unmaps_def)
  then show ?thesis using u o w A' by (auto simp: owned_def unmaps_def split: option.splits)
qed

lemma unmaps_trans:
  assumes 1: "unmaps s s1 root A1 X" and 2: "unmaps s1 s2 root A2 Y" and sub: "A2 \<subseteq> A1"
  shows "unmaps s s2 root A2 (X \<union> Y)"
  unfolding unmaps_def
proof (intro conjI allI impI)
  show "same_regs s s2" using 1 2 same_regs_trans by (auto simp: unmaps_def)
  show "same_translation s s2 root (X \<union> Y)"
    using 1 2 same_translation_mono [of s s1 root X "X \<union> Y"] same_translation_mono [of s1 s2 root Y "X \<union> Y"]
    by (auto simp: unmaps_def intro: same_translation_trans)
  show "translate s2 root w = None" if "vm_index w \<in> X \<union> Y" for w
  proof (cases "vm_index w \<in> Y")
    case True
    then show ?thesis using 2 by (simp add: unmaps_def)
  next
    case False
    then have "translate s2 root w = translate s1 root w" using 2 by (intro translate_same) (auto simp: unmaps_def)
    then show ?thesis using that False 1 by (simp add: unmaps_def)
  qed
  show "leaf_clear s2 root w" if "vm_index w \<notin> X \<union> Y" "leaf_clear s root w" for w
    using that 1 2 by (auto simp: unmaps_def)
  show "\<forall>(q, k)\<in>A2. pmm_refs (pg_pmm s2) q = pmm_refs (pg_pmm s) q" using 1 2 sub by (fastforce simp: unmaps_def)
  show "table_at s2 root q = table_at s root q" for q using 1 2 by (simp add: unmaps_def)
qed

lemma clear_leaf_unmaps:
  assumes inv: "space_inv s root R A" and vi: "vm_index v = (i, j, k, l)" and w: "walk s 0 root [i, j, k] = Some pt"
    and s': "s' = write_entry (cell_addr s pt l) 0 s"
  shows "unmaps s (s'\<lparr>pg_pmm := m\<rparr>) root {} {vm_index v}"
proof -
  have lt: "i < 512" "j < 512" "k < 512" "l < 512" using vm_index_lt [OF vi] by auto
  note leaf = set_leaf [OF inv w lt s']
  have tree: "pt_tree s root A" using inv by (simp add: space_inv_def)
  have pt: "pt < 2 ^ 40" by (rule pt_treeD(2) [OF tree path3 [OF lt(1-3)] w])
  have clear: "leaf_clear s' root u" if u: "vm_index u \<noteq> vm_index v" "leaf_clear s root u" for u
  proof -
    obtain i' j' k' l' where ui: "vm_index u = (i', j', k', l')" by (cases "vm_index u") auto
    have lt': "i' < 512" "j' < 512" "k' < 512" "l' < 512" using vm_index_lt [OF ui] by auto
    have "cell s' pt' l' AND PAGING_PTE_ADDR_MASK = 0" if q: "walk s' 0 root [i', j', k'] = Some pt'" for pt'
    proof -
      have q': "walk s 0 root [i', j', k'] = Some pt'" using q leaf(5) [OF path3 [OF lt'(1-3)]] by simp
      have b: "pt' < 2 ^ 40" by (rule pt_treeD(2) [OF tree path3 [OF lt'(1-3)] q'])
      have "(pt', l') \<noteq> (pt, l)"
        using pt_treeD(3) [OF tree path3 [OF lt(1-3)] w path3 [OF lt'(1-3)]] q' u(1) ui vi by auto
      then have "cell s' pt' l' = cell s pt' l'" unfolding s' using b pt lt(4) lt'(4) by (subst cell_write) auto
      then show ?thesis using u(2) q' by (simp add: leaf_clear_def ui)
    qed
    then show ?thesis by (simp add: leaf_clear_def ui)
  qed
  have tr: "translate s' root u = None" if "vm_index u = vm_index v" for u
    using leaf(4) that by (simp add: translate_def vi)
  have "same_regs s (s'\<lparr>pg_pmm := m\<rparr>)" using leaf(3) by (simp add: same_regs_def)
  then show ?thesis using leaf(2,5) clear tr by (auto simp: unmaps_def vi table_at_def)
qed

lemma unmap_owned_page:
  assumes inv: "space_inv s root R A" and v: "v \<noteq> 0" and root: "to_virt s (page_to_phys root) \<noteq> 0"
    and ow: "owned s root A v fo"
  shows "\<exists>s'. paging_unmap_page s (to_virt s (page_to_phys root)) v False True = Ok s' \<and>
    space_inv s' root (R \<union> set_option fo) (drop_blocks A (set_option fo)) \<and>
    unmaps s s' root (drop_blocks A (set_option fo)) {vm_index v}"
proof -
  obtain i j k l where vi: "vm_index v = (i, j, k, l)" by (cases "vm_index v") auto
  have lt: "i < 512" "j < 512" "k < 512" "l < 512" using vm_index_lt [OF vi] by auto
  have nohuge: "\<And>e. translate s root v \<noteq> Some (e, True)" using ow by (auto simp: owned_def split: option.splits)
  note find = get_pte_find [OF vi nohuge]
  have av: "pmm_avail (pg_pmm s) R A" using inv by (simp add: space_inv_def)
  show ?thesis
  proof (cases fo)
    case (Some p)
    then obtain e where e: "translate s root v = Some (e, False)" "e AND PAGING_PTE_ADDR_MASK = page_to_phys p"
      and p: "(p, 0) \<in> A" "pmm_refs (pg_pmm s) p = 1" "\<not> table_at s root p"
      using ow by (auto simp: owned_def)
    obtain pt where pt: "walk s 0 root [i, j, k] = Some pt" "cell s pt l = e"
      using e(1) translate_at_leafD [of s root i j k l e] by (auto simp: translate_def vi)
    define s1 where "s1 = write_entry (cell_addr s pt l) 0 s"
    note leaf = set_leaf [OF inv pt(1) lt s1_def]
    from pmm_frames.drop_last [OF av p(1,2)] obtain m where
      m: "pmm_page_dec_ref (pg_pmm s) (page_to_phys p) = Ok m" "pmm_avail m (R \<union> block p 0) (A - {(p, 0)})"
        "\<forall>q j. (q, j) \<in> A - {(p, 0)} \<longrightarrow> pmm_refs m q = pmm_refs (pg_pmm s) q"
      by blast
    have run: "paging_unmap_page s (to_virt s (page_to_phys root)) v False True = Ok (s1\<lparr>pg_pmm := m\<rparr>)"
      using find v root e(2) pt m(1) leaf(6)
      by (simp add: paging_unmap_page_def cell_def [symmetric] s1_def [symmetric])
    have "pt_tree s1 root A" "\<not> table_at s1 root p" using leaf(1,5) p(3) by (auto simp: space_inv_def table_at_def)
    then have "pt_tree s1 root (A - {(p, 0)})" by (rule pt_tree_drop)
    then have "space_inv (s1\<lparr>pg_pmm := m\<rparr>) root (R \<union> {p}) (A - {(p, 0)})"
      using m(2) by (simp add: space_inv_def block_single)
    moreover have "unmaps s (s1\<lparr>pg_pmm := m\<rparr>) root (A - {(p, 0)}) {vm_index v}"
      using clear_leaf_unmaps [OF inv vi pt(1) s1_def, of m] m(3) by (auto simp: unmaps_def)
    ultimately show ?thesis using run Some by (auto simp: drop_blocks_def)
  next
    case None
    then have tr: "translate s root v = None" and cl: "leaf_clear s root v" using ow by (simp_all add: owned_def)
    show ?thesis
    proof (cases "walk s 0 root [i, j, k]")
      case None
      then have "paging_unmap_page s (to_virt s (page_to_phys root)) v False True = Ok s"
        using find v root by (simp add: paging_unmap_page_def)
      moreover have "translate s root w = None" if "vm_index w = vm_index v" for w
        using tr translate_index [OF that, of s root] by simp
      then have "unmaps s s root A {vm_index v}" by (simp add: unmaps_def)
      ultimately show ?thesis using inv \<open>fo = None\<close> by auto
    next
      case (Some pt)
      define s1 where "s1 = write_entry (cell_addr s pt l) 0 s"
      note leaf = set_leaf [OF inv Some lt s1_def]
      from pmm_frames.drop_null [OF av] obtain m where
        m: "pmm_page_dec_ref (pg_pmm s) 0 = Ok m" "pmm_avail m R A" "pmm_refs m = pmm_refs (pg_pmm s)" by blast
      have "cell s pt l AND PAGING_PTE_ADDR_MASK = 0" using cl Some by (simp add: leaf_clear_def vi)
      then have run: "paging_unmap_page s (to_virt s (page_to_phys root)) v False True = Ok (s1\<lparr>pg_pmm := m\<rparr>)"
        using find v root Some m(1) leaf(6)
        by (simp add: paging_unmap_page_def cell_def [symmetric] s1_def [symmetric])
      moreover have "space_inv (s1\<lparr>pg_pmm := m\<rparr>) root R A" using leaf(1) m(2) by (simp add: space_inv_def)
      moreover have "unmaps s (s1\<lparr>pg_pmm := m\<rparr>) root A {vm_index v}"
        using clear_leaf_unmaps [OF inv vi Some s1_def, of m] m(3) by (auto simp: unmaps_def)
      ultimately show ?thesis using \<open>fo = None\<close> by auto
    qed
  qed
qed

section \<open>Unmapping an area\<close>

definition freed :: "(nat \<Rightarrow> nat option) \<Rightarrow> nat \<Rightarrow> nat set" where
  "freed f n = (\<Union>m<n. set_option (f m))"

lemma freed_0 [simp]: "freed f 0 = {}"
  by (simp add: freed_def)

lemma freed_Suc: "freed f (Suc n) = set_option (f 0) \<union> freed (\<lambda>m. f (Suc m)) n"
  unfolding freed_def lessThan_Suc_eq_insert_0 by (simp add: image_image)

lemma same_regs_to_virt: "same_regs s s' \<Longrightarrow> to_virt s' = to_virt s"
  by (simp add: same_regs_def fun_eq_iff)

lemma unmap_loop_pages:
  assumes "space_inv s root R A" "unat v + 4096 * n < 2 ^ 64" "v \<noteq> 0" "n \<le> 2 ^ 36" "to_virt s (page_to_phys root) \<noteq> 0"
    and "\<forall>m<n. owned s root A (v + of_nat (4096 * m)) (f m)"
    and "\<forall>m m' p. m < m' \<longrightarrow> m' < n \<longrightarrow> f m = Some p \<longrightarrow> f m' \<noteq> Some p"
  shows "\<exists>s'. unmap_loop s (to_virt s (page_to_phys root)) v (v + of_nat (4096 * n)) False True = Some (Ok s') \<and>
    space_inv s' root (R \<union> freed f n) (drop_blocks A (freed f n)) \<and>
    unmaps s s' root (drop_blocks A (freed f n)) (page_indices v n)"
  using assms
proof (induction n arbitrary: s R A v f)
  case 0
  have "unmap_loop s (to_virt s (page_to_phys root)) v (v + of_nat (4096 * 0)) False True = Some (Ok s)"
    by (subst unmap_loop.simps) simp
  then show ?case using 0(1) by (simp add: unmaps_def page_indices_def)
next
  case (Suc n)
  let ?rv = "to_virt s (page_to_phys root)"
  let ?P = "set_option (f 0)"
  let ?g = "\<lambda>m. f (Suc m)"
  have "unat v + 4096 * 1 < 2 ^ 64" using Suc.prems(2) by simp
  from unat_page_offset [OF this] have v1: "unat (v + 4096) = unat v + 4096" by simp
  have "owned s root A (v + of_nat (4096 * 0)) (f 0)" using Suc.prems(6) by blast
  then have "owned s root A v (f 0)" by simp
  from unmap_owned_page [OF Suc.prems(1,3,5) this] obtain s1 where
    s1: "paging_unmap_page s ?rv v False True = Ok s1" "space_inv s1 root (R \<union> ?P) (drop_blocks A ?P)"
      "unmaps s s1 root (drop_blocks A ?P) {vm_index v}" by blast
  have off: "v + 4096 + of_nat (4096 * m) = v + of_nat (4096 * Suc m)" for m by (simp add: algebra_simps)
  have rv: "to_virt s1 (page_to_phys root) = ?rv" using s1(3) same_regs_to_virt [of s s1] by (simp add: unmaps_def)
  have own: "owned s1 root (drop_blocks A ?P) (v + 4096 + of_nat (4096 * m)) (?g m)" if "m < n" for m
    unfolding off
  proof (rule unmaps_owned [OF s1(3)])
    show ow: "owned s root A (v + of_nat (4096 * Suc m)) (f (Suc m))" using Suc.prems(6) that by blast
    have "vm_index (v + of_nat (4096 * Suc m)) \<noteq> vm_index v" using that Suc.prems(2,4) by (intro page_index_apart) simp_all
    then show "vm_index (v + of_nat (4096 * Suc m)) \<notin> {vm_index v}" by simp
    show "(p, 0) \<in> drop_blocks A ?P" if p: "f (Suc m) = Some p" for p
    proof -
      have "(p, 0) \<in> A" using ow p by (simp add: owned_def)
      moreover have "f 0 \<noteq> Some p" using Suc.prems(7) p \<open>m < n\<close> by (metis Suc_mono zero_less_Suc)
      ultimately show ?thesis by (auto simp: drop_blocks_def)
    qed
  qed
  have "\<exists>s'. unmap_loop s1 (to_virt s1 (page_to_phys root)) (v + 4096) (v + 4096 + of_nat (4096 * n)) False True = Some (Ok s') \<and>
    space_inv s' root (R \<union> ?P \<union> freed ?g n) (drop_blocks (drop_blocks A ?P) (freed ?g n)) \<and>
    unmaps s1 s' root (drop_blocks (drop_blocks A ?P) (freed ?g n)) (page_indices (v + 4096) n)"
  proof (rule Suc.IH [OF s1(2)])
    show "unat (v + 4096) + 4096 * n < 2 ^ 64" using v1 Suc.prems(2) by simp
    show "v + 4096 \<noteq> 0" using v1 by (auto simp: unat_eq_zero)
    show "n \<le> 2 ^ 36" "to_virt s1 (page_to_phys root) \<noteq> 0" using Suc.prems(4,5) rv by simp_all
    show "\<forall>m<n. owned s1 root (drop_blocks A ?P) (v + 4096 + of_nat (4096 * m)) (?g m)" using own by blast
    show "\<forall>m m' p. m < m' \<longrightarrow> m' < n \<longrightarrow> ?g m = Some p \<longrightarrow> ?g m' \<noteq> Some p" using Suc.prems(7) by (metis Suc_mono)
  qed
  then obtain s' where s': "unmap_loop s1 ?rv (v + 4096) (v + of_nat (4096 * Suc n)) False True = Some (Ok s')"
    "space_inv s' root (R \<union> freed f (Suc n)) (drop_blocks A (freed f (Suc n)))"
    "unmaps s1 s' root (drop_blocks A (freed f (Suc n))) (page_indices (v + 4096) n)"
    unfolding off rv freed_Suc drop_blocks_simps Un_assoc by blast
  have less: "v < v + of_nat (4096 * Suc n)"
    unfolding word_less_nat_alt unat_page_offset [OF Suc.prems(2)] by simp
  have "unmap_loop s ?rv v (v + of_nat (4096 * Suc n)) False True = Some (Ok s')"
    by (subst unmap_loop.simps) (use less s1(1) s'(1) in \<open>simp add: page_step_def PAGING_PAGE_SIZE_def del: of_nat_Suc of_nat_mult\<close>)
  moreover have "drop_blocks A (freed f (Suc n)) \<subseteq> drop_blocks A ?P" by (auto simp: drop_blocks_def freed_Suc)
  from unmaps_trans [OF s1(3) s'(3) this] have "unmaps s s' root (drop_blocks A (freed f (Suc n))) (page_indices v (Suc n))"
    by (simp add: page_indices_Suc)
  ultimately show ?case using s'(2) by blast
qed

section \<open>Removing the area\<close>

lemma unlink_area_core:
  assumes held: "vm_held root K s space (xs @ (q, b, z, f) # ys)" and a: "vm_areas s q = Some a"
  shows "\<exists>s'. (if xs = [] then set_space space (region_list_update (\<lambda>_. va_next a)) s
      else set_area (fst (last xs)) (va_next_update (\<lambda>_. va_next a)) s) = Ok s' \<and> vm_heap s' = vm_heap s \<and>
    (\<forall>h L. heap_live root h L \<longrightarrow> fst ` set (xs @ ys) \<union> K \<subseteq> dom L \<longrightarrow>
       vm_held root K (s'\<lparr>vm_heap := h, vm_areas := (vm_areas s')(q := None)\<rparr>) space (xs @ ys)) \<and>
    kernel_vas s' = kernel_vas s \<and> current_vas s' = current_vas s"
proof -
  obtain sp where sp: "vm_spaces s space = Some sp" "space \<noteq> 0"
      "area_seg (vm_areas s) (region_list sp) (xs @ (q, b, z, f) # ys) 0"
    and d: "distinct (map fst (xs @ (q, b, z, f) # ys))" and lk: "lock_held (vas_lock sp)"
    and ly: "laid (unat (fst (search_bounds s space))) (xs @ (q, b, z, f) # ys)"
    using held by (auto simp: vm_held_def vm_core_def space_lock_def)
  obtain m where m: "area_seg (vm_areas s) (region_list sp) xs m" "area_seg (vm_areas s) (va_next a) ys 0" "m = q"
    using sp(3) a unfolding area_seg_append by auto
  have ly': "laid (unat (fst (search_bounds s space))) (xs @ ys)" using ly by (rule laid_delete)
  have fresh: "q \<notin> fst ` set xs" "q \<notin> fst ` set ys" and d': "distinct (map fst (xs @ ys))" using d by auto
  have dis: "fst ` set (xs @ ys) \<inter> K = {}" using held by (auto simp: vm_held_def vm_core_def)
  show ?thesis
  proof (cases "xs = []")
    case True
    let ?t = "s\<lparr>vm_spaces := (vm_spaces s)(space \<mapsto> sp\<lparr>region_list := va_next a\<rparr>)\<rparr>"
    have run: "set_space space (region_list_update (\<lambda>_. va_next a)) s = Ok ?t" using sp by (simp add: set_space_def space_at_def)
    have seg: "area_seg ((vm_areas s)(q := None)) (va_next a) (xs @ ys) 0"
    proof -
      have "\<forall>r\<in>fst ` set ys. ((vm_areas s)(q := None)) r = vm_areas s r" using fresh(2) by (metis fun_upd_other)
      from area_seg_cong [OF this] m(2) True show ?thesis by (metis append_Nil)
    qed
    have "vm_held root K (?t\<lparr>vm_heap := h, vm_areas := (vm_areas s)(q := None)\<rparr>) space (xs @ ys)"
      if hL: "heap_live root h L" "fst ` set (xs @ ys) \<union> K \<subseteq> dom L" for h L
    proof -
      let ?u = "?t\<lparr>vm_heap := h, vm_areas := (vm_areas s)(q := None)\<rparr>"
      have "search_bounds ?u space = search_bounds s space" by (rule search_bounds_cong) simp
      then show ?thesis using sp(2) seg d' ly' hL lk dis unfolding vm_held_def vm_core_def space_lock_def by simp blast
    qed
    then show ?thesis using True run by auto
  next
    case False
    let ?p = "fst (last xs)"
    have p: "?p \<in> fst ` set xs" using False by simp
    obtain al where al: "vm_areas s ?p = Some al" "?p \<noteq> 0" using area_seg_mem [OF m(1) p] by auto
    have ne: "?p \<noteq> q" using p fresh by auto
    let ?h = "(vm_areas s)(?p \<mapsto> al\<lparr>va_next := va_next a\<rparr>)"
    let ?t = "s\<lparr>vm_areas := ?h\<rparr>"
    have run: "set_area ?p (va_next_update (\<lambda>_. va_next a)) s = Ok ?t" using al by (simp add: set_area_def area_at_def)
    have "area_seg ?h (region_list sp) xs (va_next a)"
      using m(1) False d al(1) by (intro area_seg_relink [of _ _ _ m]) auto
    then have x: "area_seg (?h(q := None)) (region_list sp) xs (va_next a)"
      using fresh(1) area_seg_cong [of xs "?h(q := None)" ?h] by (metis fun_upd_other)
    have "?p \<notin> fst ` set ys" using p d by auto
    then have "\<forall>r\<in>fst ` set ys. (?h(q := None)) r = vm_areas s r" using fresh(2) by (metis fun_upd_other)
    from area_seg_cong [OF this] m(2) have "area_seg (?h(q := None)) (va_next a) ys 0" by blast
    then have seg: "area_seg (?h(q := None)) (region_list sp) (xs @ ys) 0" using x unfolding area_seg_append by blast
    have "vm_held root K (?t\<lparr>vm_heap := h, vm_areas := ?h(q := None)\<rparr>) space (xs @ ys)"
      if hL: "heap_live root h L" "fst ` set (xs @ ys) \<union> K \<subseteq> dom L" for h L
    proof -
      let ?u = "?t\<lparr>vm_heap := h, vm_areas := ?h(q := None)\<rparr>"
      have "search_bounds ?u space = search_bounds s space" by (rule search_bounds_cong) simp
      then show ?thesis using sp(1,2) seg d' ly' hL lk dis unfolding vm_held_def vm_core_def space_lock_def by simp blast
    qed
    then show ?thesis using False run by auto
  qed
qed

lemma heap_live_pg:
  assumes "heap_live root h L" "heap_env (h\<lparr>kh_pg := pg\<rparr>) root R A"
  shows "heap_live root (h\<lparr>kh_pg := pg\<rparr>) L"
proof -
  obtain bs where "heap_ok h bs" "lives h bs L" using assms(1) by (auto simp: heap_live_def)
  then have "heap_ok (h\<lparr>kh_pg := pg\<rparr>) bs" "lives (h\<lparr>kh_pg := pg\<rparr>) bs L"
    by (simp_all add: heap_ok_def heap_rep_def heap_unlocked_def lives_def)
  then show ?thesis using assms(2) unfolding heap_live_def by blast
qed

lemma kfree_keeps_env:
  assumes "heap_live root h L" "L p = Some n" "heap_env h root R A"
  shows "\<exists>h'. kfree h p = Ok h' \<and> heap_live root h' (L(p := None)) \<and> heap_env h' root R A \<and> kh_pg h' = kh_pg h"
proof -
  from kernel_blocks.free_live [OF assms(1,2)] obtain h' where h': "kfree h p = Ok h'" "heap_live root h' (L(p := None))" by blast
  obtain bs where bs: "heap_ok h bs" "lives h bs L" using assms(1) by (auto simp: heap_live_def)
  then obtain off where off: "(off, n) \<in> used 0 bs" "p = of_nat (unat (kheap_start h) + off + 24)"
    using assms(2) unfolding lives_def by blast
  from kfree_live [OF bs(1) off(1)] h'(1) have "same_heap h h'" unfolding off(2) by auto
  then show ?thesis using h' heap_env_same [OF assms(3)] by (auto simp: same_heap_def)
qed

lemma unmaps_env:
  assumes env: "heap_env h root R A" and u: "unmaps (kh_pg h) pg root A' X"
    and inv: "space_inv pg root (R \<union> P) A'" and fin: "unat (kheap_end h) + 4096 * (card (R \<union> P) + 256) < 2 ^ 64"
  shows "heap_env (h\<lparr>kh_pg := pg\<rparr>) root (R \<union> P) A'"
proof -
  have regs: "same_regs (kh_pg h) pg" using u by (simp add: unmaps_def)
  have "translate pg root v \<noteq> Some (e, True)" if "kernel_base \<le> unat v" for v e
  proof (cases "vm_index v \<in> X")
    case True
    then show ?thesis using u by (simp add: unmaps_def)
  next
    case False
    then have "translate pg root v = translate (kh_pg h) root v" using u by (intro translate_same) (auto simp: unmaps_def)
    then show ?thesis using env that by (simp add: heap_env_def)
  qed
  then show ?thesis using env inv fin same_regs_to_virt [OF regs] regs by (auto simp: heap_env_def same_regs_def)
qed

lemma card_freed: "card (freed f n) \<le> n"
proof (induction n arbitrary: f)
  case (Suc n)
  have "card (set_option (f 0)) \<le> 1" by (cases "f 0") auto
  then show ?case using card_Un_le [of "set_option (f 0)" "freed (\<lambda>m. f (Suc m)) n"] Suc [of "\<lambda>m. f (Suc m)"]
    by (simp add: freed_Suc)
qed simp

lemma page_indices_iff:
  assumes "unat v + 4096 * n < 2 ^ 64"
  shows "vm_index w \<in> page_indices v n \<longleftrightarrow> (\<exists>m<n. unat w div 4096 mod 2 ^ 36 = (unat v div 4096 + m) mod 2 ^ 36)"
proof -
  have "unat (v + of_nat (4096 * m)) div 4096 = unat v div 4096 + m" if "m < n" for m
    using unat_page_offset [of v m] assms that by simp
  then show ?thesis unfolding page_indices_def image_iff vm_index_eq by (metis lessThan_iff)
qed

lemma release_pages:
  assumes live: "heap_live root h L" "L q = Some k" and env: "heap_env h root R A"
    and fin: "unat (kheap_end h) + 4096 * (card R + n + 256) < 2 ^ 64"
    and b: "unat b + 4096 * n < 2 ^ 64" "b \<noteq> 0" "n \<le> 2 ^ 36"
    and own: "\<forall>m<n. owned (kh_pg h) root A (b + of_nat (4096 * m)) (f m)"
      "\<forall>m m' p. m < m' \<longrightarrow> m' < n \<longrightarrow> f m = Some p \<longrightarrow> f m' \<noteq> Some p"
  shows "\<exists>pg h'. unmap_loop (kh_pg h) (to_virt (kh_pg h) (page_to_phys root)) b (b + of_nat (4096 * n)) False True = Some (Ok pg) \<and>
    unmaps (kh_pg h) pg root (drop_blocks A (freed f n)) (page_indices b n) \<and>
    kfree (h\<lparr>kh_pg := pg\<rparr>) q = Ok h' \<and> heap_live root h' (L(q := None)) \<and>
    heap_env h' root (R \<union> freed f n) (drop_blocks A (freed f n)) \<and> kh_pg h' = pg"
proof -
  let ?P = "freed f n"
  have sinv: "space_inv (kh_pg h) root R A" "to_virt (kh_pg h) (page_to_phys root) \<noteq> 0" using env by (simp_all add: heap_env_def)
  from unmap_loop_pages [OF sinv(1) b sinv(2) own] obtain pg where
    pg: "unmap_loop (kh_pg h) (to_virt (kh_pg h) (page_to_phys root)) b (b + of_nat (4096 * n)) False True = Some (Ok pg)"
      "space_inv pg root (R \<union> ?P) (drop_blocks A ?P)" "unmaps (kh_pg h) pg root (drop_blocks A ?P) (page_indices b n)"
    by blast
  let ?h = "h\<lparr>kh_pg := pg\<rparr>"
  have "card (R \<union> ?P) \<le> card R + n" using card_Un_le [of R ?P] card_freed [of f n] by simp
  then have "unat (kheap_end h) + 4096 * (card (R \<union> ?P) + 256) < 2 ^ 64" using fin by simp
  from unmaps_env [OF env pg(3,2) this] have envh: "heap_env ?h root (R \<union> ?P) (drop_blocks A ?P)" .
  from kfree_keeps_env [OF heap_live_pg [OF live(1) envh] live(2) envh] show ?thesis using pg(1,3) by auto
qed

lemma find_free_area_at:
  assumes held: "vm_held root K s space (xs @ (q, b, z, fl) # ys)" and c: "contains (q, b, z, fl) v"
    and sp: "vm_spaces s space = Some sp"
  shows "loop_outcome (find_free_area (vm_areas s) (region_list sp) 0 v) = Ok (if xs = [] then 0 else fst (last xs), q)"
proof -
  let ?as = "xs @ (q, b, z, fl) # ys"
  have seg: "area_seg (vm_areas s) (region_list sp) ?as 0" and ly: "laid (unat (fst (search_bounds s space))) ?as"
    and d: "distinct (map fst ?as)" using held sp by (auto simp: vm_held_def vm_core_def)
  have mem: "(q, b, z, fl) \<in> set ?as" by simp
  then have "\<exists>a\<in>set ?as. contains a v" using c by blast
  with find_free_area_list [OF seg ly, of v 0] obtain xs' a ys' where
    f: "?as = xs' @ a # ys'" "contains a v" "find_free_area (vm_areas s) (region_list sp) 0 v = Some (Ok (if xs' = [] then 0 else fst (last xs'), fst a))"
    by blast
  have "a \<in> set ?as" using f(1) by simp
  from laid_unique [OF ly this mem f(2) c] have a: "a = (q, b, z, fl)" .
  have "(q, b, z, fl) \<notin> set xs" "(q, b, z, fl) \<notin> set ys" using d by (auto simp: image_iff)
  from append_Cons_eq_iff [OF this, of xs' ys'] f(1) have "xs' = xs" unfolding a by simp
  then show ?thesis using f(3) a by (simp add: loop_outcome_def)
qed

lemma contains_pos: "laid lo as \<Longrightarrow> 0 < lo \<Longrightarrow> a \<in> set as \<Longrightarrow> contains a v \<Longrightarrow> v \<noteq> 0"
  using laid_bounds [of lo as a v] by auto

lemma vmm_free_result:
  assumes "vm_inv root K s space (xs @ (q, b, z, fl) # ys)" and "contains (q, b, z, fl) addr" and "fl AND VMM_FLAGS_MMIO = 0"
    and "map_option pml4_phys (vm_spaces s space) = Some (page_to_phys root)"
    and "heap_env (vm_heap s) root R A" and "unat z = 4096 * n" and "n \<le> 2 ^ 36"
    and "unat (kheap_end (vm_heap s)) + 4096 * (card R + n + 256) < 2 ^ 64"
    and "\<forall>m<n. owned (vm_pg s) root A (b + of_nat (4096 * m)) (f m)"
    and "\<forall>m m' p. m < m' \<longrightarrow> m' < n \<longrightarrow> f m = Some p \<longrightarrow> f m' \<noteq> Some p"
  shows "\<exists>s'. vmm_free s space addr = Ok s' \<and> vm_inv root K s' space (xs @ ys) \<and>
    heap_env (vm_heap s') root (R \<union> freed f n) (drop_blocks A (freed f n)) \<and>
    (\<forall>w. translate (vm_pg s') root w =
       (if \<exists>m<n. unat w div 4096 mod 2 ^ 36 = (unat b div 4096 + m) mod 2 ^ 36 then None else translate (vm_pg s) root w))"
proof -
  let ?rf = "kh_rflags (vm_heap s)"
  let ?as = "xs @ (q, b, z, fl) # ys"
  let ?P = "freed f n"
  from vas_acquire_inv [OF assms(1)] obtain s1 l where
    acq: "vas_acquire space s = Ok (?rf, s1)" and held: "vm_held root K s1 space ?as"
    and s1: "s1 = s\<lparr>vm_spaces := (vm_spaces s)(space \<mapsto> (the (vm_spaces s space))\<lparr>vas_lock := l\<rparr>),
           vm_heap := set_kh_rflags (?rf AND NOT RFLAGS_IF) (vm_heap s)\<rparr>"
    by blast
  obtain sp where sp: "vm_spaces s1 space = Some sp" "space \<noteq> 0" "area_seg (vm_areas s1) (region_list sp) ?as 0"
    and ly: "laid (unat (fst (search_bounds s1 space))) ?as"
    using held by (auto simp: vm_held_def vm_core_def)
  obtain L where L: "heap_live root (vm_heap s1) L" "fst ` set ?as \<union> K \<subseteq> dom L" using held by (auto simp: vm_held_def vm_core_def)
  have root: "pml4_phys sp = page_to_phys root" using assms(4) sp(1) s1 by auto
  have at: "space_at s1 space = Ok sp" using sp(1,2) by (simp add: space_at_def)
  have pg1: "vm_pg s1 = (vm_pg s)\<lparr>pg_pmm := (pg_pmm (vm_pg s))\<lparr>cpu_rflags := ?rf AND NOT RFLAGS_IF\<rparr>\<rparr>"
    by (simp add: s1 set_kh_rflags_def)
  have env1: "heap_env (vm_heap s1) root R A" using assms(5) by (simp add: s1 heap_env_def set_kh_rflags_def)
  have mem: "(q, b, z, fl) \<in> set ?as" by simp
  have "addr \<noteq> 0" by (rule contains_pos [OF ly search_bounds_pos mem assms(2)])
  have bz: "unat b + 4096 * n < 2 ^ 64" using ly assms(6) by (simp add: laid_append)
  have "unat (fst (search_bounds s1 space)) \<le> unat b" using ly by (rule laid_base)
  then have "b \<noteq> 0" using search_bounds_pos [of s1 space] by auto
  have zn: "z = of_nat (4096 * n)" by (rule u64_of_unat) (rule assms(6))
  obtain a where a: "vm_areas s1 q = Some a" "q \<noteq> 0" "va_base a = b" "va_size a = z" "va_flags a = fl"
    using area_seg_lookup [OF sp(3) mem] by blast
  from unlink_area_core [OF held a(1)] obtain s2 where
    s2: "(if xs = [] then set_space space (region_list_update (\<lambda>_. va_next a)) s1
      else set_area (fst (last xs)) (va_next_update (\<lambda>_. va_next a)) s1) = Ok s2" "vm_heap s2 = vm_heap s1"
    and out: "\<forall>h L. heap_live root h L \<longrightarrow> fst ` set (xs @ ys) \<union> K \<subseteq> dom L \<longrightarrow>
       vm_held root K (s2\<lparr>vm_heap := h, vm_areas := (vm_areas s2)(q := None)\<rparr>) space (xs @ ys)"
    by blast
  have prev: "xs \<noteq> [] \<Longrightarrow> fst (last xs) \<noteq> 0" using area_seg_mem [OF sp(3), of "fst (last xs)"] by auto
  have own1: "\<forall>m<n. owned (vm_pg s1) root A (b + of_nat (4096 * m)) (f m)" using assms(9) unfolding pg1 owned_rflags .
  have "unat (kheap_end (vm_heap s1)) + 4096 * (card R + n + 256) < 2 ^ 64" using assms(8) by (simp add: s1 set_kh_rflags_def)
  moreover obtain k where "L q = Some k" using L(2) by auto
  ultimately obtain pg h' where
    pg: "unmap_loop (vm_pg s1) (to_virt (vm_pg s1) (page_to_phys root)) b (b + z) False True = Some (Ok pg)"
      "unmaps (vm_pg s1) pg root (drop_blocks A ?P) (page_indices b n)"
    and h': "kfree ((vm_heap s1)\<lparr>kh_pg := pg\<rparr>) q = Ok h'" "heap_live root h' (L(q := None))"
      "heap_env h' root (R \<union> ?P) (drop_blocks A ?P)" "kh_pg h' = pg"
    using release_pages [OF L(1) _ env1 _ bz \<open>b \<noteq> 0\<close> assms(7) own1 assms(10), of q k] unfolding zn by blast
  define s3 where "s3 = s2\<lparr>vm_heap := h', vm_areas := (vm_areas s2)(q := None)\<rparr>"
  have "distinct (map fst ?as)" using held by (simp add: vm_held_def vm_core_def)
  moreover have "q \<notin> K" using held by (auto simp: vm_held_def vm_core_def)
  ultimately have "fst ` set (xs @ ys) \<union> K \<subseteq> dom (L(q := None))" using L(2) by auto
  then have held3: "vm_held root K s3 space (xs @ ys)" using out h'(2) unfolding s3_def by blast
  from vas_release_inv [OF held3, of ?rf] obtain s4 l' where
    s4: "vas_release space ?rf s3 = Ok s4" "vm_inv root K s4 space (xs @ ys)"
      "s4 = s3\<lparr>vm_spaces := (vm_spaces s3)(space \<mapsto> (the (vm_spaces s3 space))\<lparr>vas_lock := l'\<rparr>), vm_heap := set_kh_rflags ?rf (vm_heap s3)\<rparr>"
    by blast
  have "vm_kfree (set_vm_pg pg s2) q = Ok (s2\<lparr>vm_heap := h'\<rparr>)"
    using h'(1) s2(2) by (simp add: vm_kfree_def set_vm_pg_def)
  moreover have "paging_unmap_region (vm_pg s2) (to_virt (vm_pg s2) (pml4_phys sp)) b z False True = Ok pg"
    using pg(1) s2(2) root by (simp add: paging_unmap_region_def loop_outcome_def)
  moreover have "(if (if xs = [] then 0 else fst (last xs)) = 0 then set_space space (region_list_update (\<lambda>_. va_next a)) s1
      else set_area (if xs = [] then 0 else fst (last xs)) (va_next_update (\<lambda>_. va_next a)) s1) = Ok s2" using s2(1) prev by auto
  ultimately have run: "vmm_free s space addr = Ok s4"
    unfolding vmm_free_def
    using acq at find_free_area_at [OF held assms(2) sp(1)] a sp(2) \<open>addr \<noteq> 0\<close> assms(3) s4(1)
    by (simp add: area_at_def s3_def)
  have pg4: "vm_pg s4 = pg\<lparr>pg_pmm := (pg_pmm pg)\<lparr>cpu_rflags := ?rf\<rparr>\<rparr>" using h'(4) by (simp add: s4(3) s3_def set_kh_rflags_def)
  have "heap_env (vm_heap s4) root (R \<union> ?P) (drop_blocks A ?P)" using h'(3) by (simp add: s4(3) s3_def heap_env_def set_kh_rflags_def)
  moreover have "translate (vm_pg s4) root w = (if vm_index w \<in> page_indices b n then None else translate (vm_pg s) root w)" for w
    using pg(2) translate_same [of "vm_pg s1" pg root "page_indices b n" w] unfolding pg4 by (auto simp: unmaps_def pg1)
  ultimately show ?thesis using run s4(2) unfolding page_indices_iff [OF bz] by blast
qed

text \<open>
  C17: \<open>vmm_free\<close> of an address inside an anonymous area removes exactly that area from the list,
  leaves none of its pages mapped and every other page as it was, and gives the frames that
  backed its pages back to the frame allocator. Pages that were never touched have no frame.
\<close>

theorem vmm_free_releases_area:
  assumes "vm_inv root K s space (xs @ (q, b, z, fl) # ys)" and "contains (q, b, z, fl) addr" and "fl AND VMM_FLAGS_MMIO = 0"
    and "map_option pml4_phys (vm_spaces s space) = Some (page_to_phys root)"
    and "heap_env (vm_heap s) root R A" and "unat z = 4096 * n" and "n \<le> 2 ^ 36"
    and "unat (kheap_end (vm_heap s)) + 4096 * (card R + n + 256) < 2 ^ 64"
    and "\<forall>m<n. owned (vm_pg s) root A (b + of_nat (4096 * m)) (f m)"
    and "\<forall>m m' p. m < m' \<longrightarrow> m' < n \<longrightarrow> f m = Some p \<longrightarrow> f m' \<noteq> Some p"
  shows "\<exists>s'. vmm_free s space addr = Ok s' \<and> vm_inv root K s' space (xs @ ys) \<and>
    heap_env (vm_heap s') root (R \<union> freed f n) (drop_blocks A (freed f n)) \<and>
    (\<forall>w. translate (vm_pg s') root w =
       (if \<exists>m<n. unat w div 4096 mod 2 ^ 36 = (unat b div 4096 + m) mod 2 ^ 36 then None else translate (vm_pg s) root w))"
  by (rule vmm_free_result [OF assms])

theorem vmm_free_releases_area_witness:
  "\<exists>s'. vmm_free vmm_demo 0x5000 0xFFFFC00000001008 = Ok s' \<and> vm_inv 1 {} s' 0x5000 [] \<and>
     translate (vm_pg s') 1 0xFFFFC00000001008 = None"
proof -
  have pg: "vm_pg vmm_demo = paging_demo" by (simp add: vmm_demo_def vmm_heap_demo_def kheap_demo_def)
  have "leaf_clear paging_demo 1 v" for v unfolding leaf_clear_def demo_walk by (simp split: prod.splits)
  then have own: "\<forall>m<4. owned (vm_pg vmm_demo) 1 {(1, 0)} (0xFFFFC00000000000 + of_nat (4096 * m)) None"
    unfolding pg using demo_translate by (simp add: owned_def)
  have "\<exists>s'. vmm_free vmm_demo 0x5000 0xFFFFC00000001008 = Ok s' \<and> vm_inv 1 {} s' 0x5000 ([] @ []) \<and>
    heap_env (vm_heap s') 1 ({2..<8} \<union> freed (\<lambda>_. None) 4) (drop_blocks {(1, 0)} (freed (\<lambda>_. None) 4)) \<and>
    (\<forall>w. translate (vm_pg s') 1 w = (if \<exists>m<4. unat w div 4096 mod 2 ^ 36 = (unat (0xFFFFC00000000000 :: u64) div 4096 + m) mod 2 ^ 36
       then None else translate (vm_pg vmm_demo) 1 w))"
  proof (rule vmm_free_releases_area [OF _ _ _ _ vmm_demo_env _ _ _ own])
    show "vm_inv 1 {} vmm_demo 0x5000 ([] @ (0xFFFFFFFF80200018, 0xFFFFC00000000000, 0x4000, 0x13) # [])" using vmm_demo_inv by simp
    show "map_option pml4_phys (vm_spaces vmm_demo 0x5000) = Some (page_to_phys 1)"
      by (simp add: vmm_demo_def page_to_phys_def PMM_PAGE_SIZE_def)
    show "unat (kheap_end (vm_heap vmm_demo)) + 4096 * (card {2..<8 :: nat} + 4 + 256) < 2 ^ 64"
      by (simp add: vmm_demo_def vmm_heap_demo_def kheap_demo_def)
  qed (simp_all add: contains_def VMM_FLAGS_MMIO_def)
  then show ?thesis using demo_translate unfolding pg by auto
qed

end
