(* ===== verification/Kern_Frame.thy ===== *)
theory Kern_Frame
  imports Vmm_Free
begin

text \<open>
  What the memory managers leave alone, whatever they do: the control registers, the root tables
  of the address spaces, and the tasks and threads as long as no thread waits for the heap.
\<close>

lemma obind_OkE:
  assumes "obind m f = Ok y"
  obtains x where "m = Ok x" "f x = Ok y"
  using assms by (cases m) simp_all

lemma loop_outcome_Ok: "loop_outcome r = Ok x \<longleftrightarrow> r = Some (Ok x)"
  by (cases r) (simp_all add: loop_outcome_def)

lemmas run_splits = prod.split_asm option.split_asm if_split_asm outcome.split_asm

section \<open>Page tables\<close>

lemma next_table_regs: "next_table s tab i al = Ok (r, s') \<Longrightarrow> same_regs s s'"
  unfolding next_table_def Let_def
  by (auto simp: same_regs_def write_entry_def elim!: obind_OkE split: run_splits)

lemma vmm_get_pte_regs:
  assumes "vmm_get_pte s root v al huge = Ok (r, s')"
  shows "same_regs s s'"
  using assms unfolding vmm_get_pte_def Let_def
  by (auto simp: same_regs_def elim!: obind_OkE split: run_splits dest!: next_table_regs)

lemma paging_map_page_regs: "paging_map_page s root v p fl huge = Ok s' \<Longrightarrow> same_regs s s'"
  unfolding paging_map_page_def Let_def
  by (auto simp: write_entry_def same_regs_def elim!: obind_OkE split: run_splits dest!: vmm_get_pte_regs)

lemma paging_unmap_page_regs: "paging_unmap_page s root v huge fr = Ok s' \<Longrightarrow> same_regs s s'"
  unfolding paging_unmap_page_def Let_def
  by (auto simp: write_entry_def same_regs_def elim!: obind_OkE split: run_splits dest!: vmm_get_pte_regs)

lemma map_loop_regs:
  assumes "map_loop s root v p fin fl huge = Some (Ok s')"
  shows "same_regs s s'"
proof -
  have "\<forall>s'. r = Ok s' \<longrightarrow> same_regs s s'" if "map_loop s root v p fin fl huge = Some r" for r
  proof (induction rule: map_loop.raw_induct [OF _ that, of "\<lambda>s root v p fin fl huge r. \<forall>s'. r = Ok s' \<longrightarrow> same_regs s s'"])
    case (1 f s root v p fin fl huge r)
    from 1(2) show ?case using 1(1) by (auto split: run_splits dest!: paging_map_page_regs intro: same_regs_trans)
  qed
  then show ?thesis using assms by blast
qed

lemma unmap_loop_regs:
  assumes "unmap_loop s root v fin huge fr = Some (Ok s')"
  shows "same_regs s s'"
proof -
  have "\<forall>s'. r = Ok s' \<longrightarrow> same_regs s s'" if "unmap_loop s root v fin huge fr = Some r" for r
  proof (induction rule: unmap_loop.raw_induct [OF _ that, of "\<lambda>s root v fin huge fr r. \<forall>s'. r = Ok s' \<longrightarrow> same_regs s s'"])
    case (1 f s root v fin huge fr r)
    from 1(2) show ?case using 1(1) by (auto split: run_splits dest!: paging_unmap_page_regs intro: same_regs_trans)
  qed
  then show ?thesis using assms by blast
qed

section \<open>The heap\<close>

definition heap_frame :: "kheap \<Rightarrow> kheap \<Rightarrow> bool" where
  "heap_frame h h' \<longleftrightarrow> same_regs (kh_pg h) (kh_pg h') \<and>
     (waiting_queue_head (kheap_lock h) = 0 \<longrightarrow> waiting_queue_head (kheap_lock h') = 0 \<and> kh_procs h' = kh_procs h)"

lemma heap_frame_refl [simp]: "heap_frame h h"
  by (simp add: heap_frame_def)

lemma heap_frame_trans: "heap_frame h h' \<Longrightarrow> heap_frame h' h'' \<Longrightarrow> heap_frame h h''"
  by (auto simp: heap_frame_def intro: same_regs_trans)

lemma heap_frame_rflags [simp]: "heap_frame h (set_kh_rflags rf h)"
  by (simp add: heap_frame_def set_kh_rflags_def same_regs_def)

lemma heap_frame_pg: "same_regs (kh_pg h) pg \<Longrightarrow> heap_frame h (h\<lparr>kh_pg := pg\<rparr>)"
  by (simp add: heap_frame_def)

lemma heap_frame_nodes [simp]: "heap_frame h (h'\<lparr>kh_nodes := n\<rparr>) = heap_frame h h'" "heap_frame h (h'\<lparr>kheap_head := p\<rparr>) = heap_frame h h'"
  "heap_frame h (h'\<lparr>kheap_end := p\<rparr>) = heap_frame h h'"
  by (simp_all add: heap_frame_def)

lemma kheap_mutex_acquire_frame: "kheap_mutex_acquire h = Ok h' \<Longrightarrow> heap_frame h h'"
  unfolding kheap_mutex_acquire_def mutex_acquire_def Let_def lock_acquire_def
  by (auto simp: heap_frame_def set_kh_rflags_def same_regs_def elim!: obind_OkE split: run_splits)

lemma kheap_mutex_release_frame: "kheap_mutex_release h = Ok h' \<Longrightarrow> heap_frame h h'"
  unfolding kheap_mutex_release_def mutex_release_def Let_def
  by (auto simp: heap_frame_def set_kh_rflags_def same_regs_def elim!: obind_OkE split: run_splits)

lemma extend_loop_regs:
  assumes "extend_loop s root v fin = Some (Ok (ok, s'))"
  shows "same_regs s s'"
proof -
  have "\<forall>ok s'. r = Ok (ok, s') \<longrightarrow> same_regs s s'" if "extend_loop s root v fin = Some r" for r
  proof (induction rule: extend_loop.raw_induct [OF _ that, of "\<lambda>s root v fin r. \<forall>ok s'. r = Ok (ok, s') \<longrightarrow> same_regs s s'"])
    case (1 f s root v fin r)
    from 1(2) show ?case using 1(1)
      by (auto simp: same_regs_def split: run_splits dest!: paging_map_page_regs)
  qed
  then show ?thesis using assms by blast
qed

lemma append_pages_frame: "append_pages h n = Ok h' \<Longrightarrow> heap_frame h h'"
  unfolding append_pages_def Let_def by (auto elim!: obind_OkE split: run_splits)

lemma kheap_extend_frame: "kheap_extend h z = Ok (ok, h') \<Longrightarrow> heap_frame h h'"
  unfolding kheap_extend_def Let_def
  by (auto simp: loop_outcome_Ok elim!: obind_OkE split: run_splits dest!: extend_loop_regs heap_frame_pg append_pages_frame
      intro: heap_frame_trans)

lemma take_block_frame: "take_block h p z = Ok h' \<Longrightarrow> heap_frame h h'"
  unfolding take_block_def Let_def by (auto elim!: obind_OkE split: run_splits)

lemma kmalloc_loop_frame:
  assumes "kmalloc_loop h z = Some (Ok (p, h'))"
  shows "heap_frame h h'"
proof -
  have "\<forall>p h'. r = Ok (p, h') \<longrightarrow> heap_frame h h'" if "kmalloc_loop h z = Some r" for r
  proof (induction rule: kmalloc_loop.raw_induct [OF _ that, of "\<lambda>h z r. \<forall>p h'. r = Ok (p, h') \<longrightarrow> heap_frame h h'"])
    case (1 f h z r)
    from 1(2) show ?case using 1(1)
      by (auto split: run_splits elim!: obind_OkE intro: heap_frame_trans
          dest!: take_block_frame kheap_mutex_release_frame kheap_extend_frame)
  qed
  then show ?thesis using assms by blast
qed

lemma kmalloc_frame: "kmalloc h z = Ok (p, h') \<Longrightarrow> heap_frame h h'"
  unfolding kmalloc_def Let_def
  by (auto simp: loop_outcome_Ok elim!: obind_OkE dest!: kheap_mutex_acquire_frame kmalloc_loop_frame intro: heap_frame_trans)

lemma kfree_frame: "kfree h p = Ok h' \<Longrightarrow> heap_frame h h'"
  unfolding kfree_def Let_def
  by (auto simp: loop_outcome_Ok heap_frame_def same_regs_def elim!: obind_OkE split: run_splits
      dest!: kheap_mutex_acquire_frame kheap_mutex_release_frame)

section \<open>Address spaces\<close>

definition vm_frame :: "vmm \<Rightarrow> vmm \<Rightarrow> bool" where
  "vm_frame s s' \<longleftrightarrow> heap_frame (vm_heap s) (vm_heap s') \<and> kernel_vas s' = kernel_vas s \<and> current_vas s' = current_vas s \<and>
     (\<forall>p. map_option pml4_phys (vm_spaces s' p) = map_option pml4_phys (vm_spaces s p))"

lemma vm_frame_refl [simp]: "vm_frame s s"
  by (simp add: vm_frame_def)

lemma vm_frame_trans: "vm_frame s s' \<Longrightarrow> vm_frame s' s'' \<Longrightarrow> vm_frame s s''"
  by (auto simp: vm_frame_def intro: heap_frame_trans)

lemma vm_frame_areas [simp]: "vm_frame s (s'\<lparr>vm_areas := a\<rparr>) = vm_frame s s'" "vm_frame (s\<lparr>vm_areas := a\<rparr>) s' = vm_frame s s'"
  by (simp_all add: vm_frame_def)

lemma vm_frame_heap: "heap_frame (vm_heap s) h \<Longrightarrow> vm_frame s (s\<lparr>vm_heap := h\<rparr>)"
  by (simp add: vm_frame_def)

lemma vm_frame_pg: "same_regs (vm_pg s) pg \<Longrightarrow> vm_frame s (set_vm_pg pg s)"
  by (simp add: vm_frame_def set_vm_pg_def heap_frame_pg)

lemma vas_acquire_frame: "vas_acquire space s = Ok (f, s') \<Longrightarrow> vm_frame s s'"
  unfolding vas_acquire_def space_at_def
  by (auto simp: vm_frame_def elim!: obind_OkE split: run_splits)

lemma vas_release_frame: "vas_release space f s = Ok s' \<Longrightarrow> vm_frame s s'"
  unfolding vas_release_def space_at_def Let_def
  by (auto simp: vm_frame_def elim!: obind_OkE split: run_splits)

lemma vm_kmalloc_frame: "vm_kmalloc s z = Ok (p, s') \<Longrightarrow> vm_frame s s'"
  unfolding vm_kmalloc_def by (auto elim!: obind_OkE dest!: kmalloc_frame vm_frame_heap)

lemma vm_kfree_frame: "vm_kfree s p = Ok s' \<Longrightarrow> vm_frame s s'"
  unfolding vm_kfree_def by (auto elim!: obind_OkE dest!: kfree_frame vm_frame_heap)

lemma set_area_frame: "set_area p f s = Ok s' \<Longrightarrow> vm_frame s s'"
  unfolding set_area_def by (auto elim!: obind_OkE)

lemma set_space_frame: "set_space p (region_list_update f) s = Ok s' \<Longrightarrow> vm_frame s s'"
  unfolding set_space_def space_at_def by (auto simp: vm_frame_def elim!: obind_OkE split: run_splits)

lemma insert_area_frame: "insert_area s space prev p a = Ok s' \<Longrightarrow> vm_frame s s'"
  unfolding insert_area_def Let_def
  by (auto split: run_splits dest!: set_area_frame set_space_frame simp: vm_frame_def)

lemma back_area_frame: "back_area s space c z fl arg = Ok s' \<Longrightarrow> vm_frame s s'"
  unfolding back_area_def paging_map_region_def Let_def
  by (auto simp: loop_outcome_Ok elim!: obind_OkE split: run_splits dest!: map_loop_regs vm_frame_pg)

lemma alloc_at_frame: "alloc_at s space f z fl arg hole = Ok (p, s') \<Longrightarrow> vm_frame s s'"
  unfolding alloc_at_def
  by (auto elim!: obind_OkE split: run_splits
      dest!: vm_kmalloc_frame insert_area_frame back_area_frame vas_release_frame) (metis vm_frame_trans)+

lemma vmm_alloc_frame: "vmm_alloc s space z fl arg = Ok (p, s') \<Longrightarrow> vm_frame s s'"
  unfolding vmm_alloc_def Let_def
  by (auto elim!: obind_OkE split: run_splits dest!: vas_acquire_frame alloc_at_frame) (metis vm_frame_trans)

lemma vmm_free_frame: "vmm_free s space v = Ok s' \<Longrightarrow> vm_frame s s'"
  unfolding vmm_free_def paging_unmap_region_def Let_def
  by (auto simp: loop_outcome_Ok elim!: obind_OkE split: run_splits
      dest!: vas_acquire_frame vas_release_frame set_area_frame set_space_frame unmap_loop_regs vm_frame_pg vm_kfree_frame)
    (metis vm_frame_trans)+

lemma vmm_page_fault_frame:
  assumes "vmm_page_fault_handler s v e = Ok s'"
  shows "vm_frame s s'"
proof -
  have chain: "vm_frame s s'"
    if "vm_frame s s1" "same_regs ((vm_pg s1)\<lparr>pg_pmm := m, ram := r\<rparr>) pg" "vm_frame (set_vm_pg pg s1) s'" for s1 m r pg
  proof -
    have "vm_frame s1 (set_vm_pg pg s1)" using that(2) by (intro vm_frame_pg) (simp add: same_regs_def)
    then show ?thesis using that(1,3) vm_frame_trans by blast
  qed
  show ?thesis
    using assms unfolding vmm_page_fault_handler_def Let_def
    by (auto elim!: obind_OkE split: run_splits dest!: vas_acquire_frame vas_release_frame paging_map_page_regs) (erule (2) chain)+
qed

end
