(* ===== verification/Task_Props.thy ===== *)
theory Task_Props
  imports Task_Lists Kern_Frame
begin

text \<open>
  The invariant of the running kernel, over memory, tasks and threads together: the scheduler
  starts in it, and creating tasks and threads keeps it.
\<close>

section \<open>The invariant\<close>

text \<open>
  The lists of tasks and threads are as the scheduler needs them, every structure in them is a
  live block of the heap, and the processor uses the page tables of the kernel's address space.
\<close>

definition kern_mem :: "nat \<Rightarrow> u64 set \<Rightarrow> kern \<Rightarrow> area list \<Rightarrow> bool" where
  "kern_mem root K s as \<longleftrightarrow> vm_inv root K (kn_vm s) (kernel_vas (kn_vm s)) as \<and>
     map_option pml4_phys (vm_spaces (kn_vm s) (kernel_vas (kn_vm s))) = Some (page_to_phys root) \<and>
     frame_of (cr3 (kn_pg s)) = root \<and> lock_free (scheduler_lock (kn_procs s))"

definition kern_inv :: "nat \<Rightarrow> u64 set \<Rightarrow> kern \<Rightarrow> area list \<Rightarrow> layout \<Rightarrow> bool" where
  "kern_inv root K s as ts \<longleftrightarrow> kern_mem root K s as \<and> sched_inv (kn_procs s) ts \<and>
     fst ` set ts \<union> set (threads_of ts) \<subseteq> K \<and> fst ` set ts \<inter> set (threads_of ts) = {}"

lemma heap_live_procs [simp]: "heap_live root (h\<lparr>kh_procs := p\<rparr>) L = heap_live root h L"
  unfolding heap_live_def heap_ok_def heap_rep_def heap_unlocked_def heap_env_def lives_def mutex_queue_def by simp

lemma heap_room_procs [simp]: "heap_room root (h\<lparr>kh_procs := p\<rparr>) z = heap_room root h z"
  unfolding heap_room_def heap_ok_def heap_rep_def heap_unlocked_def heap_env_def mutex_queue_def by simp

lemma vm_inv_heap:
  assumes "vm_inv root K vm space as" "\<And>L. heap_live root (vm_heap vm) L \<Longrightarrow> fst ` set as \<union> K \<subseteq> dom L \<Longrightarrow>
      \<exists>L'. heap_live root h L' \<and> fst ` set as \<union> K' \<subseteq> dom L'" "fst ` set as \<inter> K' = {}"
  shows "vm_inv root K' (vm\<lparr>vm_heap := h\<rparr>) space as"
  using assms by (fastforce simp: vm_inv_def vm_core_def space_lock_def search_bounds_def)

lemma vm_inv_procs [simp]: "vm_inv root K (vm\<lparr>vm_heap := (vm_heap vm)\<lparr>kh_procs := p\<rparr>\<rparr>) space as = vm_inv root K vm space as"
  by (simp add: vm_inv_def vm_core_def space_lock_def search_bounds_def)

lemma vm_inv_rflags [simp]: "vm_inv root K (vm\<lparr>vm_heap := set_kh_rflags rf (vm_heap vm)\<rparr>) space as = vm_inv root K vm space as"
  by (simp add: vm_inv_def vm_core_def space_lock_def search_bounds_def)

lemma vm_inv_unqueued: "vm_inv root K vm space as \<Longrightarrow> waiting_queue_head (kheap_lock (vm_heap vm)) = 0"
  by (auto simp: vm_inv_def vm_core_def heap_live_def heap_ok_def heap_unlocked_def mutex_queue_def)

lemma vm_frame_procs:
  "vm_inv root K vm space as \<Longrightarrow> vm_frame vm vm' \<Longrightarrow> kh_procs (vm_heap vm') = kh_procs (vm_heap vm)"
  using vm_inv_unqueued by (auto simp: vm_frame_def heap_frame_def)

lemma vm_frame_root:
  "vm_frame vm vm' \<Longrightarrow> kernel_vas vm' = kernel_vas vm \<and> cr3 (vm_pg vm') = cr3 (vm_pg vm) \<and>
     map_option pml4_phys (vm_spaces vm' p) = map_option pml4_phys (vm_spaces vm p)"
  by (auto simp: vm_frame_def heap_frame_def same_regs_def)

section \<open>Memory for the kernel\<close>

text \<open>A memory operation keeps the invariant when it keeps the one of the address space.\<close>

lemma kern_mem_vm:
  assumes "kern_mem root K s as" "vm_frame (kn_vm s) vm" "vm_inv root K' vm (kernel_vas vm) as'"
  shows "kern_mem root K' (s\<lparr>kn_vm := vm\<rparr>) as' \<and> kh_procs (vm_heap vm) = kn_procs s"
  using assms vm_frame_root [OF assms(2)] vm_frame_procs [OF _ assms(2)] by (auto simp: kern_mem_def)

lemma set_kn_procs_twice [simp]: "set_kn_procs p (set_kn_procs q s) = set_kn_procs p s"
  by (simp add: set_kn_procs_def)

lemma kern_mem_procs:
  assumes "kern_mem root K s as" "lock_free (scheduler_lock p)"
  shows "kern_mem root K (set_kn_procs p s) as"
  using assms by (simp add: kern_mem_def set_kn_procs_def)

lemma kern_mem_rflags [simp]: "kern_mem root K (set_kn_rflags rf s) as = kern_mem root K s as"
proof -
  have "kh_procs (set_kh_rflags rf (kn_heap s)) = kn_procs s" "cr3 (kh_pg (set_kh_rflags rf (kn_heap s))) = cr3 (kn_pg s)"
    by (simp_all add: set_kh_rflags_def)
  then show ?thesis by (simp add: kern_mem_def set_kn_rflags_def)
qed

lemma kern_mem_fields [simp]: "kern_mem root K (s\<lparr>kn_contexts := c\<rparr>) as = kern_mem root K s as"
  "kern_mem root K (s\<lparr>kn_words := w\<rparr>) as = kern_mem root K s as" "kern_mem root K (s\<lparr>kn_machine := m\<rparr>) as = kern_mem root K s as"
  "kern_mem root K (s\<lparr>kn_cr2 := v\<rparr>) as = kern_mem root K s as" "kern_mem root K (s\<lparr>kn_timer := tm\<rparr>) as = kern_mem root K s as"
  by (simp_all add: kern_mem_def)

lemma kern_malloc:
  assumes "kern_mem root K s as"
  shows "(in_vm (\<lambda>vm. vm_kmalloc vm z) s = Halt \<and> \<not> heap_room root (kn_heap s) z) \<or>
    (\<exists>p vm. in_vm (\<lambda>vm. vm_kmalloc vm z) s = Ok (p, s\<lparr>kn_vm := vm\<rparr>) \<and> kernel_vas vm = kernel_vas (kn_vm s) \<and> kh_procs (vm_heap vm) = kn_procs s \<and>
       (p = 0 \<and> \<not> heap_room root (kn_heap s) z \<and> kern_mem root K (s\<lparr>kn_vm := vm\<rparr>) as \<or>
        p \<noteq> 0 \<and> p \<notin> K \<and> kern_mem root (insert p K) (s\<lparr>kn_vm := vm\<rparr>) as))"
proof -
  let ?vm = "kn_vm s"
  have inv: "vm_inv root K ?vm (kernel_vas ?vm) as" using assms by (simp add: kern_mem_def)
  then obtain L where L: "heap_live root (vm_heap ?vm) L" "fst ` set as \<union> K \<subseteq> dom L" "fst ` set as \<inter> K = {}"
    by (auto simp: vm_inv_def vm_core_def)
  have room: "p \<noteq> 0" if "heap_room root (vm_heap ?vm) z" "kmalloc (vm_heap ?vm) z = Ok (p, h)" for p h
    using kernel_blocks.alloc_room [OF that(1)] that(2) by auto
  have fr: "vm_frame ?vm (?vm\<lparr>vm_heap := h\<rparr>)" if "kmalloc (vm_heap ?vm) z = Ok (p, h)" for p h
    using kmalloc_frame [OF that] by (rule vm_frame_heap)
  from kernel_blocks.alloc_result [OF L(1), of z] show ?thesis
  proof (elim disjE exE conjE)
    assume "kmalloc (vm_heap ?vm) z = Halt"
    then show ?thesis using kernel_blocks.alloc_room [of root "vm_heap ?vm" z] by (auto simp: in_vm_def vm_kmalloc_def)
  next
    fix h assume h: "kmalloc (vm_heap ?vm) z = Ok (0, h)" "heap_live root h L"
    have "vm_inv root K (?vm\<lparr>vm_heap := h\<rparr>) (kernel_vas ?vm) as" using inv h(2) L by (intro vm_inv_heap [OF inv]) auto
    then show ?thesis using kern_mem_vm [OF assms fr [OF h(1)]] room [OF _ h(1)] h(1) by (auto simp: in_vm_def vm_kmalloc_def)
  next
    fix p h n assume h: "kmalloc (vm_heap ?vm) z = Ok (p, h)" "p \<noteq> 0" "p \<notin> dom L" "heap_live root h (L(p \<mapsto> n))"
    have "vm_inv root (insert p K) (?vm\<lparr>vm_heap := h\<rparr>) (kernel_vas ?vm) as"
      using h L by (intro vm_inv_heap [OF inv] exI [of _ "L(p \<mapsto> n)"]) auto
    then show ?thesis using kern_mem_vm [OF assms fr [OF h(1)]] h L(2) by (auto simp: in_vm_def vm_kmalloc_def)
  qed
qed

lemma kern_free:
  assumes "kern_mem root (insert p K) s as" "p \<notin> K"
  shows "\<exists>vm. on_vm (\<lambda>vm. vm_kfree vm p) s = Ok (s\<lparr>kn_vm := vm\<rparr>) \<and> kern_mem root K (s\<lparr>kn_vm := vm\<rparr>) as \<and>
    kh_procs (vm_heap vm) = kn_procs s \<and> kernel_vas vm = kernel_vas (kn_vm s)"
proof -
  let ?vm = "kn_vm s"
  have inv: "vm_inv root (insert p K) ?vm (kernel_vas ?vm) as" using assms(1) by (simp add: kern_mem_def)
  then obtain L where L: "heap_live root (vm_heap ?vm) L" "fst ` set as \<union> insert p K \<subseteq> dom L" "fst ` set as \<inter> insert p K = {}"
    by (auto simp: vm_inv_def vm_core_def)
  then obtain n where "L p = Some n" by auto
  from kernel_blocks.free_live [OF L(1) this] obtain h where h: "kfree (vm_heap ?vm) p = Ok h" "heap_live root h (L(p := None))" by blast
  have "vm_inv root K (?vm\<lparr>vm_heap := h\<rparr>) (kernel_vas ?vm) as"
    using h(2) L assms(2) by (intro vm_inv_heap [OF inv] exI [of _ "L(p := None)"]) auto
  then show ?thesis
    using kern_mem_vm [OF assms(1) vm_frame_heap [OF kfree_frame [OF h(1)]]] h(1) by (auto simp: on_vm_def vm_kfree_def)
qed

text \<open>
  Writing to an area of the kernel brings the page in, unless fewer frames are free than a page
  and its tables may need.
\<close>

lemma kernel_area_bounds:
  assumes "kern_mem root K s as" "a \<in> set as" "contains a v"
  shows "v \<ge> VMM_KERNEL_START" "kernel_base \<le> unat v"
proof -
  have "laid (unat VMM_KERNEL_START) as" using assms(1) by (simp add: kern_mem_def vm_inv_def vm_core_def search_bounds_def)
  from laid_bounds [OF this assms(2,3)] have "unat VMM_KERNEL_START \<le> unat v" by simp
  then show "v \<ge> VMM_KERNEL_START" "kernel_base \<le> unat v"
    by (simp_all add: word_le_nat_alt kernel_base_def VMM_KERNEL_START_def)
qed

definition starved :: "nat \<Rightarrow> kern \<Rightarrow> bool" where
  "starved root s \<longleftrightarrow> (\<forall>R A. heap_env (kn_heap s) root R A \<longrightarrow> card R < 4)"

lemma kern_touch:
  assumes mem: "kern_mem root K s as" and a: "a \<in> set as" "contains a v"
  shows "touch_page v s = Halt \<and> starved root s \<or> (\<exists>vm c. touch_page v s = Ok (s\<lparr>kn_vm := vm, kn_cr2 := c\<rparr>) \<and> kern_mem root K (s\<lparr>kn_vm := vm\<rparr>) as \<and>
    kh_procs (vm_heap vm) = kn_procs s \<and> kernel_vas vm = kernel_vas (kn_vm s) \<and> page_present (vm_pg vm) v)"
proof (cases "page_present (kn_pg s) v")
  case True
  then have "touch_page v s = Ok (s\<lparr>kn_vm := kn_vm s, kn_cr2 := kn_cr2 s\<rparr>)"
    unfolding touch_page_def by (subst touch_loop.simps) (simp add: loop_outcome_def)
  then show ?thesis using mem True by (intro disjI2 exI [of _ "kn_vm s"] exI [of _ "kn_cr2 s"]) simp
next
  case False
  let ?vm = "kn_vm s" let ?t = "kernel_vas (kn_vm s)"
  obtain q b z fl where q: "a = (q, b, z, fl)" by (cases a)
  have bounds: "v \<ge> VMM_KERNEL_START" "kernel_base \<le> unat v" using kernel_area_bounds [OF mem a] by blast+
  have inv: "vm_inv root K ?vm ?t as" and root: "map_option pml4_phys (vm_spaces ?vm ?t) = Some (page_to_phys root)"
    and cr: "frame_of (cr3 (kn_pg s)) = root" using mem by (simp_all add: kern_mem_def)
  obtain R A where env: "heap_env (vm_heap ?vm) root R A" using inv by (auto simp: vm_inv_def vm_core_def heap_live_def)
  have nohuge: "\<forall>e. translate (vm_pg ?vm) root v \<noteq> Some (e, True)" using env bounds(2) by (simp add: heap_env_def)
  have t: "?t = (if v \<ge> VMM_KERNEL_START then kernel_vas ?vm else current_vas ?vm)" using bounds(1) by simp
  have "PAGE_FAULT_WRITE AND PAGE_FAULT_PRESENT = 0" by (simp add: PAGE_FAULT_WRITE_def PAGE_FAULT_PRESENT_def)
  note res = page_fault_result [OF t inv root _ a [unfolded q] this nohuge]
  consider "vmm_page_fault_handler ?vm v PAGE_FAULT_WRITE = Halt" |
    vm e where "vmm_page_fault_handler ?vm v PAGE_FAULT_WRITE = Ok vm" "vm_inv root K vm ?t as" "translate (vm_pg vm) root v = Some e"
    using res [OF env] by (elim disjE exE conjE) blast+
  then show ?thesis
  proof cases
    case 1
    then have "starved root s" using res by (auto simp: starved_def)
    moreover have "touch_page v s = Halt" using 1 False unfolding touch_page_def by (subst touch_loop.simps) (simp add: loop_outcome_def on_vm_def)
    ultimately show ?thesis by blast
  next
    case (2 vm e)
    note fr = vmm_page_fault_frame [OF 2(1)]
    have pres: "page_present (vm_pg vm) v" using 2(3) vm_frame_root [OF fr] cr by (simp add: page_present_def)
    have m: "kern_mem root K (s\<lparr>kn_vm := vm\<rparr>) as \<and> kh_procs (vm_heap vm) = kn_procs s"
      using 2(2) vm_frame_root [OF fr] by (intro kern_mem_vm [OF mem fr]) simp
    have "touch_page v s = Ok (s\<lparr>kn_vm := vm, kn_cr2 := v\<rparr>)"
      using False 2(1) pres unfolding touch_page_def
      by (subst touch_loop.simps, simp add: on_vm_def, subst touch_loop.simps) (simp add: loop_outcome_def)
    then show ?thesis using m pres vm_frame_root [OF fr] by blast
  qed
qed

section \<open>Working under the lock of the scheduler\<close>

lemma sched_acquire_free:
  assumes "lock_free (scheduler_lock (kn_procs s))"
  shows "sched_acquire s = Ok (kn_rflags s, set_kn_rflags (kn_rflags s AND NOT RFLAGS_IF) (set_kn_procs
    ((kn_procs s)\<lparr>scheduler_lock := (scheduler_lock (kn_procs s))\<lparr>ticket := ticket (scheduler_lock (kn_procs s)) + 1\<rparr>\<rparr>) s))"
  using lock_acquire_free [OF assms, of "kn_rflags s"] by (simp add: sched_acquire_def)

lemma sched_release_acquired:
  assumes "scheduler_lock p = (scheduler_lock (kn_procs s))\<lparr>ticket := ticket (scheduler_lock (kn_procs s)) + 1\<rparr>"
  shows "sched_release (kn_rflags s) (set_kn_procs p (set_kn_rflags rf (set_kn_procs q s))) =
    set_kn_procs (p\<lparr>scheduler_lock := lock_advance (scheduler_lock (kn_procs s))\<rparr>) s"
  using lock_release_acquired [of "scheduler_lock (kn_procs s)" "kn_rflags s"] assms
  by (simp add: sched_release_def) (simp add: set_kn_procs_def set_kn_rflags_def set_kh_rflags_def)

lemma locked_run:
  assumes "lock_free (scheduler_lock (kn_procs s))"
    and "f ((kn_procs s)\<lparr>scheduler_lock := (scheduler_lock (kn_procs s))\<lparr>ticket := ticket (scheduler_lock (kn_procs s)) + 1\<rparr>\<rparr>) = Ok p"
    and "scheduler_lock p = (scheduler_lock (kn_procs s))\<lparr>ticket := ticket (scheduler_lock (kn_procs s)) + 1\<rparr>"
  shows "obind (sched_acquire s) (\<lambda>(irq_flags, s). obind (in_procs f s) (\<lambda>s. Ok (x, sched_release irq_flags s))) =
    Ok (x, set_kn_procs (p\<lparr>scheduler_lock := lock_advance (scheduler_lock (kn_procs s))\<rparr>) s)"
  using sched_acquire_free [OF assms(1)] sched_release_acquired [OF assms(3)] assms(2) by (simp add: in_procs_def)

section \<open>Creating a task\<close>

lemma sched_rep_new_task: "p \<notin> fst ` set ts \<Longrightarrow> sched_rep (new_task p tk s) ts = sched_rep s ts"
  unfolding sched_rep_def new_task_def using task_seg_local [of ts "s\<lparr>task_heap := (task_heap s)(p \<mapsto> tk)\<rparr>" s "task_list s"]
  by (simp add: image_iff) metis

lemma sched_rep_new_thread: "p \<notin> set (threads_of ts) \<Longrightarrow> sched_rep (new_thread p th s) ts = sched_rep s ts"
  unfolding new_thread_def by (rule sched_rep_cong) auto

lemma sched_rep_counters [simp]: "sched_rep (s\<lparr>next_pid := n\<rparr>) ts = sched_rep s ts" "sched_rep (s\<lparr>next_tid := n\<rparr>) ts = sched_rep s ts"
  by (rule sched_rep_cong; simp)+

text \<open>The invariant of the scheduler when the lists change by threads that do not run.\<close>

lemma sched_inv_change:
  assumes inv: "sched_inv s ts" and rep: "sched_rep s' ts'" and lock: "lock_free (scheduler_lock s')"
    and cur: "current s' = current s" "thread_current s \<noteq> 0 \<Longrightarrow> current s \<in> set (slots ts) \<Longrightarrow> current s \<in> set (slots ts')"
    and states: "\<And>h. h \<in> set (threads_of ts) \<Longrightarrow> map_option th_state (thread_heap s' h) = map_option th_state (thread_heap s h)"
      "\<And>h. h \<in> set (threads_of ts') \<Longrightarrow> h \<notin> set (threads_of ts) \<Longrightarrow> map_option th_state (thread_heap s' h) \<noteq> Some THREAD_RUNNING"
  shows "sched_inv s' ts'"
proof -
  have c: "current s \<in> set (slots ts)" "thread_current s \<noteq> 0" using inv by (simp_all add: sched_inv_def)
  then have "current s' \<in> set (slots ts')" "thread_current s' \<noteq> 0" using cur by auto
  moreover have "h = thread_current s'" if h: "h \<in> set (threads_of ts')" "thread_heap s' h = Some th" "th_state th = THREAD_RUNNING" for h th
  proof -
    have "h \<in> set (threads_of ts)" using states(2) [OF h(1)] h(2,3) by auto
    moreover have "map_option th_state (thread_heap s h) = Some THREAD_RUNNING" using states(1) [OF calculation] h(2,3) by simp
    then obtain th' where "thread_heap s h = Some th'" "th_state th' = THREAD_RUNNING" by (cases "thread_heap s h") auto
    ultimately have "h = thread_current s" using inv by (auto simp: sched_inv_def)
    then show ?thesis using cur(1) by simp
  qed
  ultimately show ?thesis using rep lock by (auto simp: sched_inv_def)
qed

lemma slots_append [simp]: "slots (xs @ ys) = slots xs @ slots ys"
  by (simp add: slots_def)

lemma task_create_result:
  assumes "kern_inv root K s as ts" and "length nm < 32"
  shows "(task_create (Some nm) s = Halt \<and> \<not> heap_room root (kn_heap s) sizeof_task) \<or>
    (\<exists>p s'. task_create (Some nm) s = Ok (p, s') \<and>
      (p = 0 \<and> \<not> heap_room root (kn_heap s) sizeof_task \<and> kern_inv root K s' as ts \<and> kn_procs s' = kn_procs s \<or>
       p \<noteq> 0 \<and> p \<notin> K \<and> kern_inv root (insert p K) s' as (ts @ [(p, [])]) \<and>
       thread_heap (kn_procs s') = thread_heap (kn_procs s) \<and> next_pid (kn_procs s') = next_pid (kn_procs s) + 1 \<and>
       task_heap (kn_procs s') p = Some \<lparr>tk_pid = next_pid (kn_procs s), tk_name = nm @ replicate (32 - length nm) 0,
         tk_vas = kernel_vas (kn_vm s), tk_threads = 0, tk_next = task_list (kn_procs s)\<rparr>))"
proof -
  let ?m = "in_vm (\<lambda>vm. vm_kmalloc vm sizeof_task) s"
  have mem: "kern_mem root K s as" and inv: "sched_inv (kn_procs s) ts"
    and sub: "fst ` set ts \<union> set (threads_of ts) \<subseteq> K" "fst ` set ts \<inter> set (threads_of ts) = {}"
    using assms(1) by (simp_all add: kern_inv_def)
  from kern_malloc [OF mem, of sizeof_task] consider (halt) "?m = Halt" "\<not> heap_room root (kn_heap s) sizeof_task"
    | (full) vm where "?m = Ok (0, s\<lparr>kn_vm := vm\<rparr>)" "\<not> heap_room root (kn_heap s) sizeof_task" "kern_mem root K (s\<lparr>kn_vm := vm\<rparr>) as"
        "kh_procs (vm_heap vm) = kn_procs s"
    | (new) p vm where "?m = Ok (p, s\<lparr>kn_vm := vm\<rparr>)" "p \<noteq> 0" "p \<notin> K" "kern_mem root (insert p K) (s\<lparr>kn_vm := vm\<rparr>) as"
        "kh_procs (vm_heap vm) = kn_procs s" "kernel_vas vm = kernel_vas (kn_vm s)"
    by blast
  then show ?thesis
  proof cases
    case halt
    then show ?thesis by (simp add: task_create_def)
  next
    case full
    then show ?thesis using inv sub by (simp add: task_create_def kern_inv_def)
  next
    case new
    let ?s1 = "s\<lparr>kn_vm := vm\<rparr>" let ?ps = "kn_procs s"
    let ?tk = "\<lparr>tk_pid = next_pid ?ps, tk_name = nm @ replicate (32 - length nm) 0, tk_vas = kernel_vas (kn_vm s), tk_threads = 0, tk_next = 0\<rparr>"
    let ?p2 = "(new_task p ?tk ?ps)\<lparr>next_pid := next_pid ?ps + 1\<rparr>"
    let ?s2 = "set_kn_procs ?p2 ?s1"
    let ?l = "(scheduler_lock ?ps)\<lparr>ticket := ticket (scheduler_lock ?ps) + 1\<rparr>"
    have pn: "p \<notin> fst ` set ts" using new(3) sub by blast
    have free: "lock_free (scheduler_lock ?ps)" "sched_rep ?ps ts" using inv by (simp_all add: sched_inv_def)
    have "sched_rep (?p2\<lparr>scheduler_lock := ?l\<rparr>) ts" using free(2) sched_rep_new_task [OF pn] by simp
    from append_task_rep [OF this, of p ?tk] new(2) pn obtain p3 where
      p3: "append_task p (?p2\<lparr>scheduler_lock := ?l\<rparr>) = Ok p3" "sched_rep p3 (ts @ [(p, [])])"
        "same_threads (?p2\<lparr>scheduler_lock := ?l\<rparr>) p3" "thread_heap p3 = thread_heap ?ps"
        "task_heap p3 p = Some (?tk\<lparr>tk_next := task_list ?ps\<rparr>)"
      by (auto simp: new_task_def)
    let ?p4 = "p3\<lparr>scheduler_lock := lock_advance (scheduler_lock ?ps)\<rparr>"
    have "obind (sched_acquire ?s2) (\<lambda>(irq_flags, s). obind (in_procs (append_task p) s) (\<lambda>s. Ok (p, sched_release irq_flags s))) =
        Ok (p, set_kn_procs ?p4 ?s2)"
      using locked_run [of ?s2 "append_task p" p3 p] free(1) p3(1,3) by (simp add: new_task_def same_threads_def)
    then have run: "task_create (Some nm) s = Ok (p, set_kn_procs ?p4 ?s2)"
      using new(1,2,5,6) assms(2)
      by (simp add: task_create_def copy_name_def TASK_NAME_MAX_LENGTH_def zero_task_def vmm_get_kernel_vas_def new_task_def Let_def)
    have "lock_free (scheduler_lock ?p4)" using free(1) by simp
    then have mem4: "kern_mem root (insert p K) (set_kn_procs ?p4 ?s2) as"
      using new(4) free(1) by (intro kern_mem_procs) (simp_all add: new_task_def)
    have "sched_inv ?p4 (ts @ [(p, [])])"
      using p3(2-4) free(1) by (intro sched_inv_change [OF inv]) (auto simp: same_threads_def new_task_def)
    then have "kern_inv root (insert p K) (set_kn_procs ?p4 ?s2) as (ts @ [(p, [])])"
      using mem4 sub new(3) by (auto simp: kern_inv_def)
    then show ?thesis using run new(2,3) p3(3-5) by (auto simp: same_threads_def new_task_def)
  qed
qed

text \<open>
  C27: \<open>task_create\<close> appends a task without threads to the list, with the next free process
  number, its name and the kernel's address space, in a block of its own. Only when the heap has
  no room for it does it return \<open>NULL\<close> or the heap stops the kernel. With \<open>NULL\<close> the invariant,
  the tasks, the threads and the areas are kept; the heap may have grown by some pages.
\<close>

theorem task_create_appends:
  assumes "kern_inv root K s as ts" and "length nm < 32"
  shows "(task_create (Some nm) s = Halt \<and> \<not> heap_room root (kn_heap s) sizeof_task) \<or>
    (\<exists>p s'. task_create (Some nm) s = Ok (p, s') \<and>
      (p = 0 \<and> \<not> heap_room root (kn_heap s) sizeof_task \<and> kern_inv root K s' as ts \<and> kn_procs s' = kn_procs s \<or>
       p \<noteq> 0 \<and> p \<notin> K \<and> kern_inv root (insert p K) s' as (ts @ [(p, [])]) \<and>
       thread_heap (kn_procs s') = thread_heap (kn_procs s) \<and> next_pid (kn_procs s') = next_pid (kn_procs s) + 1 \<and>
       task_heap (kn_procs s') p = Some \<lparr>tk_pid = next_pid (kn_procs s), tk_name = nm @ replicate (32 - length nm) 0,
         tk_vas = kernel_vas (kn_vm s), tk_threads = 0, tk_next = task_list (kn_procs s)\<rparr>))"
  using assms by (rule task_create_result)

end
