(* ===== verification/Vmm_Align.thy ===== *)
theory Vmm_Align
  imports Kern_Frame
begin

text \<open>
  More facts on \<open>vmm_alloc\<close>: areas start on a page when the areas before them do and at most
  where the last area ends, and an anonymous area takes no memory but the block of its structure.
\<close>

section \<open>Alignment\<close>

definition page_areas :: "area list \<Rightarrow> bool" where
  "page_areas as \<longleftrightarrow> (\<forall>(q, b, z, f)\<in>set as. 4096 dvd unat b \<and> 4096 dvd unat z)"

lemma page_areas_simps [simp]: "page_areas []" "page_areas ((q, b, z, f) # as) \<longleftrightarrow> 4096 dvd unat b \<and> 4096 dvd unat z \<and> page_areas as"
  "page_areas (as @ bs) \<longleftrightarrow> page_areas as \<and> page_areas bs"
  by (simp_all add: page_areas_def ball_Un)

lemma find_hole_aligned:
  assumes "area_seg h cur as 0" "laid lo as" "page_areas as" "4096 dvd unat cand"
    and "find_hole h sz fin cur prev cand = Some (Ok (Some (p, q, c)))"
  shows "4096 dvd unat c"
  using assms
proof (induction as arbitrary: cur prev cand lo)
  case Nil
  then show ?case by (subst (asm) find_hole.simps) simp
next
  case (Cons x as)
  obtain q b z f where x: "x = (q, b, z, f)" by (cases x)
  obtain a where a: "cur = q" "q \<noteq> 0" "h q = Some a" "va_base a = b" "va_size a = z" "area_seg h (va_next a) as 0"
    using Cons.prems(1) x by auto
  have l: "unat b + unat z < 2 ^ 64" "laid (unat b + unat z) as" "4096 dvd unat b" "4096 dvd unat z" "page_areas as"
    using Cons.prems(2,3) x by auto
  have "unat (b + z) = unat b + unat z" using l(1) by (simp add: unat_plus_if_size word_size)
  then have "4096 dvd unat (b + z)" using l(3,4) by simp
  note next_hole = Cons.IH [OF a(6) l(2,5) this]
  show ?case using Cons.prems(4,5) a next_hole
    by (subst (asm) find_hole.simps) (auto simp: Let_def split: if_splits)
qed

lemma search_start_aligned: "4096 dvd unat (fst (search_bounds s space))"
  by (simp add: search_bounds_def VMM_KERNEL_START_def VMM_USER_START_def)

section \<open>Bounds\<close>

lemma find_hole_below:
  assumes "area_seg h cur as 0" "laid (unat cand) as" "find_hole h sz fin cur prev cand = Some (Ok (Some (p, q, c)))"
  shows "unat c \<le> top_of (unat cand) as"
  using assms
proof (induction as arbitrary: cur prev cand)
  case Nil
  then show ?case by (subst (asm) find_hole.simps) simp
next
  case (Cons x as)
  obtain r b z f where x: "x = (r, b, z, f)" by (cases x)
  obtain a where a: "cur = r" "r \<noteq> 0" "h r = Some a" "va_base a = b" "va_size a = z" "area_seg h (va_next a) as 0"
    using Cons.prems(1) x by auto
  have l: "unat b + unat z < 2 ^ 64" "laid (unat b + unat z) as" using Cons.prems(2) x by auto
  have e: "unat (b + z) = unat b + unat z" using l(1) by (simp add: unat_plus_if_size word_size)
  have "unat cand \<le> top_of (unat cand) (x # as)" using laid_top [OF Cons.prems(2)] .
  moreover have "find_hole h sz fin (va_next a) cur (b + z) = Some (Ok (Some (p, q, c))) \<Longrightarrow> unat c \<le> top_of (unat cand) (x # as)"
    using Cons.IH [OF a(6), of "b + z"] l(2) e x by simp
  ultimately show ?case using Cons.prems(3) a
    by (subst (asm) find_hole.simps) (auto simp: Let_def split: if_splits)
qed

lemma alloc_hole:
  assumes inv: "vm_inv root K s space as" and run: "vmm_alloc s space sz fl arg = Ok (b, s')" and b: "b \<noteq> 0"
  obtains s1 and sp :: vm_address_space and p q where "vm_held root K s1 space as" "area_seg (vm_areas s1) (region_list sp) as 0" "search_bounds s1 space = search_bounds s space"
    "find_hole (vm_areas s1) (page_round sz) (snd (search_bounds s1 space)) (region_list sp) 0 (fst (search_bounds s1 space)) =
      Some (Ok (Some (p, q, b)))"
proof -
  from vas_acquire_inv [OF inv] obtain s1 l where acq: "vas_acquire space s = Ok (kh_rflags (vm_heap s), s1)" and held: "vm_held root K s1 space as"
    and s1: "s1 = s\<lparr>vm_spaces := (vm_spaces s)(space \<mapsto> (the (vm_spaces s space))\<lparr>vas_lock := l\<rparr>),
           vm_heap := set_kh_rflags (kh_rflags (vm_heap s) AND NOT RFLAGS_IF) (vm_heap s)\<rparr>" by blast
  obtain sp where sp: "vm_spaces s1 space = Some sp" "space \<noteq> 0" "area_seg (vm_areas s1) (region_list sp) as 0"
    using held by (auto simp: vm_held_def vm_core_def)
  have h: "\<exists>p q. hole = Some (p, q, b)" if "alloc_at s1 space f z fl' arg hole = Ok (b, s')" for f z fl' hole
    using that b unfolding alloc_at_def by (auto elim!: obind_OkE split: run_splits)
  have ex: "\<exists>p q. find_hole (vm_areas s1) (page_round sz) (snd (search_bounds s1 space)) (region_list sp) 0 (fst (search_bounds s1 space)) =
      Some (Ok (Some (p, q, b)))"
    using run b acq sp(1,2) unfolding vmm_alloc_def Let_def
    by (auto simp: space_at_def loop_outcome_Ok elim!: obind_OkE split: run_splits prod.splits dest!: h)
  have sb: "search_bounds s1 space = search_bounds s space" by (simp add: s1 search_bounds_def)
  from ex show ?thesis by (elim exE) (rule that [OF held sp(3) sb])
qed

lemma vmm_alloc_aligned:
  assumes inv: "vm_inv root K s space as" and al: "page_areas as" and run: "vmm_alloc s space sz fl arg = Ok (b, s')"
  shows "4096 dvd unat b"
proof (cases "b = 0")
  case False
  obtain s1 and sp :: vm_address_space and p q where h: "vm_held root K s1 space as" "area_seg (vm_areas s1) (region_list sp) as 0" "search_bounds s1 space = search_bounds s space"
    "find_hole (vm_areas s1) (page_round sz) (snd (search_bounds s1 space)) (region_list sp) 0 (fst (search_bounds s1 space)) = Some (Ok (Some (p, q, b)))"
    by (rule alloc_hole [OF inv run False])
  show ?thesis using find_hole_aligned [OF h(2) vm_held_bounds [OF h(1)] al search_start_aligned h(4)] .
qed simp

lemma vmm_alloc_below:
  assumes inv: "vm_inv root K s space as" and run: "vmm_alloc s space sz fl arg = Ok (b, s')" and b: "b \<noteq> 0"
  shows "unat b \<le> top_of (unat (fst (search_bounds s space))) as"
proof -
  obtain s1 and sp :: vm_address_space and p q where h: "vm_held root K s1 space as" "area_seg (vm_areas s1) (region_list sp) as 0" "search_bounds s1 space = search_bounds s space"
    "find_hole (vm_areas s1) (page_round sz) (snd (search_bounds s1 space)) (region_list sp) 0 (fst (search_bounds s1 space)) = Some (Ok (Some (p, q, b)))"
    by (rule alloc_hole [OF assms])
  show ?thesis using find_hole_below [OF h(2) vm_held_bounds [OF h(1)] h(4)] h(3) by simp
qed

section \<open>Anonymous areas\<close>

lemma heap_env_rflags [simp]: "heap_env (set_kh_rflags rf h) root R A = heap_env h root R A"
  by (simp add: heap_env_def set_kh_rflags_def)

lemma vas_release_env: "vas_release space f s = Ok s' \<Longrightarrow> heap_env (vm_heap s') root R A = heap_env (vm_heap s) root R A"
  unfolding vas_release_def space_at_def Let_def by (auto elim!: obind_OkE split: run_splits)

lemma insert_area_env: "insert_area s space prev p a = Ok s' \<Longrightarrow> vm_heap s' = vm_heap s"
  unfolding insert_area_def Let_def set_space_def set_area_def by (auto elim!: obind_OkE split: run_splits)

lemma vmm_alloc_env:
  assumes inv: "vm_inv root K s space as" and run: "vmm_alloc s space sz fl arg = Ok (b, s')" and an: "anonymous (area_flags s space fl)"
    and env: "heap_env (vm_heap s) root R A"
    and quiet: "\<And>q h. kmalloc (set_kh_rflags (kh_rflags (vm_heap s) AND NOT RFLAGS_IF) (vm_heap s)) sizeof_vm_area = Ok (q, h) \<Longrightarrow> heap_env h root R A"
  shows "heap_env (vm_heap s') root R A"
proof -
  from vas_acquire_inv [OF inv] obtain s1 l where acq: "vas_acquire space s = Ok (kh_rflags (vm_heap s), s1)"
    and s1: "s1 = s\<lparr>vm_spaces := (vm_spaces s)(space \<mapsto> (the (vm_spaces s space))\<lparr>vas_lock := l\<rparr>),
           vm_heap := set_kh_rflags (kh_rflags (vm_heap s) AND NOT RFLAGS_IF) (vm_heap s)\<rparr>" by blast
  have h1: "vm_heap s1 = set_kh_rflags (kh_rflags (vm_heap s) AND NOT RFLAGS_IF) (vm_heap s)" "area_flags s1 space fl = area_flags s space fl"
    by (simp_all add: s1 area_flags_def)
  have at: "heap_env (vm_heap s') root R A" if r: "alloc_at s1 space f z (area_flags s space fl) arg hole = Ok (b, s')" for f z hole
  proof (cases hole)
    case None
    then show ?thesis using r env h1 unfolding alloc_at_def by (auto elim!: obind_OkE dest!: vas_release_env)
  next
    case (Some x)
    have k: "heap_env (vm_heap s2) root R A" if "vm_kmalloc s1 sizeof_vm_area = Ok (q, s2)" for q s2
      using that quiet h1 unfolding vm_kmalloc_def by (auto elim!: obind_OkE)
    have ba: "back_area s3 space c z (area_flags s space fl) arg = Ok s4 \<Longrightarrow> s4 = s3" for s3 s4 c
      using an by (simp add: back_area_def anonymous_def split: if_splits)
    show ?thesis using r Some unfolding alloc_at_def
      by (auto elim!: obind_OkE split: run_splits dest!: vas_release_env insert_area_env ba k)
  qed
  show ?thesis
    using run acq env at unfolding vmm_alloc_def Let_def h1(2) [symmetric]
    by (auto elim!: obind_OkE split: run_splits prod.splits simp: h1)
qed

end
