(* ===== verification/Thread_Props.thy ===== *)
theory Thread_Props
  imports Task_Props Vmm_Align
begin

text \<open>
  The first task and thread, the creation of threads with their stacks, and the reaper.
\<close>

section \<open>The start of the scheduler\<close>

lemma scheduler_init_result:
  assumes "kern_mem root K s as"
  shows "(scheduler_init s = Halt \<and> (\<not> heap_room root (kn_heap s) sizeof_task \<or>
      (\<exists>p s1. in_vm (\<lambda>vm. vm_kmalloc vm sizeof_task) s = Ok (p, s1) \<and> \<not> heap_room root (kn_heap s1) sizeof_thread))) \<or>
    (\<exists>idle th s'. scheduler_init s = Ok s' \<and> kern_inv root ({idle, th} \<union> K) s' as [(idle, [th])] \<and>
       {idle, th} \<inter> K = {} \<and> idle \<noteq> th \<and> current (kn_procs s') = (idle, th) \<and>
       map_option (\<lambda>t. (th_state t, th_ticks_remaining t)) (thread_heap (kn_procs s') th) = Some (THREAD_RUNNING, THREAD_INITIAL_TICKS))"
proof -
  let ?m = "in_vm (\<lambda>vm. vm_kmalloc vm sizeof_task) s"
  from kern_malloc [OF assms, of sizeof_task] consider
      "?m = Halt" "\<not> heap_room root (kn_heap s) sizeof_task"
    | vm where "?m = Ok (0, s\<lparr>kn_vm := vm\<rparr>)" "\<not> heap_room root (kn_heap s) sizeof_task"
    | p vm where "?m = Ok (p, s\<lparr>kn_vm := vm\<rparr>)" "p \<noteq> 0" "p \<notin> K" "kern_mem root (insert p K) (s\<lparr>kn_vm := vm\<rparr>) as"
        "kh_procs (vm_heap vm) = kn_procs s" "kernel_vas vm = kernel_vas (kn_vm s)"
    by blast
  then show ?thesis
  proof cases
    case (3 p vm)
    let ?s1 = "s\<lparr>kn_vm := vm\<rparr>" let ?ps = "kn_procs s"
    let ?nm = "[0x49, 0x64, 0x6C, 0x65] @ replicate 28 0 :: u8 list"
    let ?tk = "\<lparr>tk_pid = 0, tk_name = ?nm, tk_vas = kernel_vas vm, tk_threads = 0, tk_next = p\<rparr>"
    let ?p2 = "?ps\<lparr>task_current := p, task_heap := (task_heap ?ps)(p \<mapsto> ?tk), task_list := p\<rparr>"
    let ?s2 = "set_kn_procs ?p2 ?s1"
    let ?m2 = "in_vm (\<lambda>vm. vm_kmalloc vm sizeof_thread) ?s2"
    have nm: "copy_name (Some [0x49, 0x64, 0x6C, 0x65]) = Ok ?nm" by (simp add: copy_name_def TASK_NAME_MAX_LENGTH_def)
    have lf: "lock_free (scheduler_lock ?ps)" using assms by (simp add: kern_mem_def)
    have mem2: "kern_mem root (insert p K) ?s2 as" using 3(4) lf by (intro kern_mem_procs) simp_all
    have start: "scheduler_init s = create_idle_thread p ?s2"
      using 3(1,2,5) nm unfolding scheduler_init_def
      by (simp add: Let_def zero_task_def vmm_get_kernel_vas_def new_task_def in_procs_def set_task_def task_at_def set_kn_procs_def)
    have room: "heap_room root (kn_heap ?s2) z = heap_room root (kn_heap ?s1) z" for z by (simp add: set_kn_procs_def)
    from kern_malloc [OF mem2, of sizeof_thread] consider
        "?m2 = Halt" "\<not> heap_room root (kn_heap ?s1) sizeof_thread"
      | vm2 where "?m2 = Ok (0, ?s2\<lparr>kn_vm := vm2\<rparr>)" "\<not> heap_room root (kn_heap ?s1) sizeof_thread"
          "kern_mem root (insert p K) (?s2\<lparr>kn_vm := vm2\<rparr>) as"
      | h vm2 where "?m2 = Ok (h, ?s2\<lparr>kn_vm := vm2\<rparr>)" "h \<noteq> 0" "h \<notin> insert p K" "kern_mem root (insert h (insert p K)) (?s2\<lparr>kn_vm := vm2\<rparr>) as"
          "kh_procs (vm_heap vm2) = kn_procs ?s2"
      unfolding room by blast
    then show ?thesis
    proof cases
      case 1
      then show ?thesis using start 3(1) by (auto simp: create_idle_thread_def)
    next
      case (2 vm2)
      have "\<exists>s'. on_vm (\<lambda>vm. vm_kfree vm p) (?s2\<lparr>kn_vm := vm2\<rparr>) = Ok s'" using kern_free [OF 2(3) 3(3)] by blast
      then show ?thesis using start 2(1,2) 3(1) by (auto simp: create_idle_thread_def)
    next
      case h: (3 h vm2)
      let ?th = "\<lparr>th_tid = 0, th_context = 0, th_state = THREAD_RUNNING, th_ticks_remaining = THREAD_INITIAL_TICKS, th_wake_time = 0,
        th_next = h, th_next_waiter = 0\<rparr>"
      let ?p3 = "?p2\<lparr>task_heap := (task_heap ?ps)(p \<mapsto> ?tk\<lparr>tk_threads := h\<rparr>), thread_heap := (thread_heap ?ps)(h \<mapsto> ?th), thread_current := h\<rparr>"
      let ?s3 = "set_kn_procs ?p3 (?s2\<lparr>kn_vm := vm2\<rparr>)"
      have "scheduler_init s = Ok ?s3"
        unfolding start create_idle_thread_def h(1) using h(2,5) 3(2)
        by (simp add: Let_def zero_thread_def new_thread_def in_procs_def set_task_def task_at_def set_thread_def thread_at_def)
      moreover have "kern_mem root (insert h (insert p K)) ?s3 as" using h(4) lf by (intro kern_mem_procs) simp_all
      moreover have "sched_inv ?p3 [(p, [h])]"
        using 3(2) h(2) lf by (simp add: sched_inv_def sched_rep_def threads_of_def task_slots_def)
      ultimately have "scheduler_init s = Ok ?s3" "kern_inv root ({p, h} \<union> K) ?s3 as [(p, [h])]"
        using h(3) by (auto simp: kern_inv_def insert_commute)
      then show ?thesis using 3(3) h(3) by (intro disjI2 exI [of _ p] exI [of _ h] exI [of _ ?s3]) auto
    qed
  qed (simp_all add: scheduler_init_def)
qed

text \<open>
  C26: \<open>scheduler_init\<close> establishes the invariant: the idle task with the idle thread is the only
  task, its thread is the running one with a full quantum, and both structures are blocks of
  their own. It stops the kernel only when the heap has no room for them.
\<close>

theorem scheduler_init_establishes:
  assumes "kern_mem root K s as"
  shows "(scheduler_init s = Halt \<and> (\<not> heap_room root (kn_heap s) sizeof_task \<or>
      (\<exists>p s1. in_vm (\<lambda>vm. vm_kmalloc vm sizeof_task) s = Ok (p, s1) \<and> \<not> heap_room root (kn_heap s1) sizeof_thread))) \<or>
    (\<exists>idle th s'. scheduler_init s = Ok s' \<and> kern_inv root ({idle, th} \<union> K) s' as [(idle, [th])] \<and>
       {idle, th} \<inter> K = {} \<and> idle \<noteq> th \<and> current (kn_procs s') = (idle, th) \<and>
       map_option (\<lambda>t. (th_state t, th_ticks_remaining t)) (thread_heap (kn_procs s') th) = Some (THREAD_RUNNING, THREAD_INITIAL_TICKS))"
  using assms by (rule scheduler_init_result)

section \<open>Creating a thread\<close>

text \<open>There is no room in the heap for the structure of an area, or none behind the last area.\<close>

definition no_area :: "nat \<Rightarrow> kern \<Rightarrow> area list \<Rightarrow> bool" where
  "no_area root s as \<longleftrightarrow> \<not> heap_room root (kn_heap s) sizeof_vm_area \<or> unat VMM_KERNEL_END \<le> top_of (unat VMM_KERNEL_START) as"

lemma kern_alloc:
  assumes mem: "kern_mem root K s as" and "top_of (unat VMM_KERNEL_START) as + unat (page_round z) < 2 ^ 64"
    and "page_round z \<noteq> 0" "anonymous fl" "fl AND VMM_FLAGS_USER = 0"
  shows "(let r = in_vm (\<lambda>vm. vmm_alloc vm (vmm_get_kernel_vas vm) z fl arg) s in r = Halt \<and> no_area root s as \<or>
    (\<exists>b vm. r = Ok (b, s\<lparr>kn_vm := vm\<rparr>) \<and> kernel_vas vm = kernel_vas (kn_vm s) \<and> kh_procs (vm_heap vm) = kn_procs s \<and>
      (b = 0 \<and> no_area root s as \<and> kern_mem root K (s\<lparr>kn_vm := vm\<rparr>) as \<or>
       (\<exists>as1 as2 new. b \<noteq> 0 \<and> (page_areas as \<longrightarrow> 4096 dvd unat b) \<and> unat b \<le> top_of (unat VMM_KERNEL_START) as \<and> as = as1 @ as2 \<and>
         kern_mem root K (s\<lparr>kn_vm := vm\<rparr>) (as1 @ (new, b, page_round z, fl) # as2)))))"
proof -
  let ?vm = "kn_vm s" let ?t = "kernel_vas (kn_vm s)"
  have inv: "vm_inv root K ?vm ?t as" using mem by (simp add: kern_mem_def)
  have fl: "area_flags ?vm ?t fl = fl" using assms(5) by (simp add: area_flags_def)
  have "top_of (unat (fst (search_bounds ?vm ?t))) as + unat (page_round z) < 2 ^ 64" using assms(2) by (simp add: search_bounds_def)
  note res = vmm_alloc_result [OF inv assms(3,4) this, of arg, unfolded fl]
  have sb: "search_bounds ?vm ?t = (VMM_KERNEL_START, VMM_KERNEL_END)" by (simp add: search_bounds_def)
  have fr: "kernel_vas vm = ?t" "kern_mem root K (s\<lparr>kn_vm := vm\<rparr>) as' \<and> kh_procs (vm_heap vm) = kn_procs s"
    if "vmm_alloc ?vm ?t z fl arg = Ok (b, vm)" "vm_inv root K vm ?t as'" for b vm as'
    using kern_mem_vm [OF mem vmm_alloc_frame [OF that(1)]] that(2) vm_frame_root [OF vmm_alloc_frame [OF that(1)]] by simp_all
  show ?thesis
    unfolding Let_def in_vm_def vmm_get_kernel_vas_def using res
  proof (elim disjE exE conjE)
    fix b vm as1 as2 new
    assume a: "vmm_alloc ?vm ?t z fl arg = Ok (b, vm)" "b \<noteq> 0" "as = as1 @ as2" "vm_inv root K vm ?t (as1 @ (new, b, page_round z, fl) # as2)"
    show "obind (vmm_alloc ?vm ?t z fl arg) (\<lambda>(r, vm). Ok (r, s\<lparr>kn_vm := vm\<rparr>)) = Halt \<and> no_area root s as \<or>
      (\<exists>b vm. obind (vmm_alloc ?vm ?t z fl arg) (\<lambda>(r, vm). Ok (r, s\<lparr>kn_vm := vm\<rparr>)) = Ok (b, s\<lparr>kn_vm := vm\<rparr>) \<and>
        kernel_vas vm = ?t \<and> kh_procs (vm_heap vm) = kn_procs s \<and> (b = 0 \<and> no_area root s as \<and> kern_mem root K (s\<lparr>kn_vm := vm\<rparr>) as \<or>
        (\<exists>as1 as2 new. b \<noteq> 0 \<and> (page_areas as \<longrightarrow> 4096 dvd unat b) \<and> unat b \<le> top_of (unat VMM_KERNEL_START) as \<and> as = as1 @ as2 \<and>
           kern_mem root K (s\<lparr>kn_vm := vm\<rparr>) (as1 @ (new, b, page_round z, fl) # as2))))"
      using fr [OF a(1,4)] a(1-3) vmm_alloc_aligned [OF inv _ a(1)] vmm_alloc_below [OF inv a(1,2)] sb by (intro disjI2 exI [of _ b] exI [of _ vm] conjI) auto
  qed (use fr in \<open>auto simp: no_area_def sb\<close>)
qed

lemma kern_stack:
  assumes mem: "kern_mem root K s as" and a: "(q, b, 0x4000, fl) \<in> set as" and b: "unat b + 0x4000 < 2 ^ 64" "4096 dvd unat b"
  shows "build_stack exit_fn entry b s = Halt \<and> starved root s \<or> (\<exists>vm c. build_stack exit_fn entry b s =
      Ok (b + 0x3F40, s\<lparr>kn_words := (kn_words s)(b + 0x3FF8 \<mapsto> exit_fn), kn_vm := vm, kn_cr2 := c,
        kn_contexts := (kn_contexts s)(b + 0x3F40 \<mapsto> initial_status entry (b + 0x3FF8))\<rparr>) \<and>
      kern_mem root K (s\<lparr>kn_vm := vm\<rparr>) as \<and> kh_procs (vm_heap vm) = kn_procs s \<and> page_present (vm_pg vm) (b + 0x3F40))"
proof -
  have off: "unat (b + 0x3FF8) = unat b + 0x3FF8" "unat (b + 0x3F40) = unat b + 0x3F40"
    using b by (simp_all add: unat_plus_simple [THEN iffD1] unat_plus_if_size word_size)
  have c1: "contains (q, b, 0x4000, fl) (b + 0x3FF8)" using off by (simp add: contains_def)
  have top: "b + THREAD_INITIAL_STACK_SIZE - 8 = b + 0x3FF8" "b + 0x3FF8 - sizeof_cpu_status = b + 0x3F40"
    by (simp_all add: THREAD_INITIAL_STACK_SIZE_def PAGING_PAGE_SIZE_def sizeof_cpu_status_def)
  obtain k where "unat b = 4096 * k" using b(2) by (elim dvdE)
  then have "vm_index (b + 0x3F40) = vm_index (b + 0x3FF8)" unfolding vm_index_eq off by simp
  then have same: "page_present pg (b + 0x3F40) = page_present pg (b + 0x3FF8)" for pg
    using translate_index [of "b + 0x3F40" "b + 0x3FF8"] by (simp add: page_present_def)
  have stay: "touch_page v u = Ok u" if "page_present (kn_pg u) v" for v u
    using that unfolding touch_page_def by (subst touch_loop.simps) (simp add: loop_outcome_def)
  from kern_touch [OF mem a c1] consider "touch_page (b + 0x3FF8) s = Halt" "starved root s"
    | vm c where "touch_page (b + 0x3FF8) s = Ok (s\<lparr>kn_vm := vm, kn_cr2 := c\<rparr>)" "kern_mem root K (s\<lparr>kn_vm := vm\<rparr>) as"
        "kh_procs (vm_heap vm) = kn_procs s" "page_present (vm_pg vm) (b + 0x3FF8)"
    by blast
  then show ?thesis
  proof cases
    case 1
    then show ?thesis by (simp add: build_stack_def top)
  next
    case (2 vm c)
    then show ?thesis
      by (intro disjI2 exI [of _ vm] exI [of _ c]) (simp add: build_stack_def top Let_def stay same)
  qed
qed

lemma slots_add_thread:
  "snd x \<noteq> 0 \<Longrightarrow> x \<in> set (slots (xs @ (t, hs) # ys)) \<Longrightarrow> x \<in> set (slots (xs @ (t, hs @ [p]) # ys))"
  by (auto simp: task_slots_def split: if_splits)

text \<open>The part of \<open>task_create_thread\<close> behind the construction of the stack.\<close>

lemma add_thread_inv:
  assumes mem: "kern_mem root (insert p K) s as'" and inv: "sched_inv (kn_procs s) (xs @ (t, hs) # ys)"
    and sub: "fst ` set (xs @ (t, hs) # ys) \<union> set (threads_of (xs @ (t, hs) # ys)) \<subseteq> K"
      "fst ` set (xs @ (t, hs) # ys) \<inter> set (threads_of (xs @ (t, hs) # ys)) = {}" "p \<notin> K" "p \<noteq> 0"
    and th: "th_state th \<noteq> THREAD_RUNNING"
  shows "\<exists>ps. obind (sched_acquire (set_kn_procs ((new_thread p th (kn_procs s))\<lparr>next_tid := n\<rparr>) s))
        (\<lambda>(irq_flags, s). obind (in_procs (append_thread t p) s) (\<lambda>s. Ok (p, sched_release irq_flags s))) =
      Ok (p, set_kn_procs ps s) \<and>
    kern_inv root (insert p K) (set_kn_procs ps s) as' (xs @ (t, hs @ [p]) # ys) \<and>
    thread_heap ps p = Some (th\<lparr>th_next := first_thread (hs @ [p])\<rparr>) \<and> next_tid ps = n \<and>
    (\<forall>h. h \<noteq> p \<longrightarrow> map_option (th_next_update (\<lambda>_. 0)) (thread_heap ps h) = map_option (th_next_update (\<lambda>_. 0)) (thread_heap (kn_procs s) h))"
proof -
  let ?ts = "xs @ (t, hs) # ys" let ?ps = "kn_procs s"
  let ?p2 = "(new_thread p th ?ps)\<lparr>next_tid := n\<rparr>"
  let ?l = "(scheduler_lock ?ps)\<lparr>ticket := ticket (scheduler_lock ?ps) + 1\<rparr>"
  have pn: "p \<notin> set (threads_of ?ts)" using sub by blast
  have free: "lock_free (scheduler_lock ?ps)" "sched_rep ?ps ?ts" using inv by (simp_all add: sched_inv_def)
  have "sched_rep (?p2\<lparr>scheduler_lock := ?l\<rparr>) ?ts" using free(2) sched_rep_new_thread [OF pn] by simp
  from append_thread_rep [OF this _ sub(4) pn, of th] obtain p3 where
    p3: "append_thread t p (?p2\<lparr>scheduler_lock := ?l\<rparr>) = Ok p3" "sched_rep p3 (xs @ (t, hs @ [p]) # ys)"
      "same_threads (?p2\<lparr>scheduler_lock := ?l\<rparr>) p3" "thread_heap p3 p = Some (th\<lparr>th_next := first_thread (hs @ [p])\<rparr>)"
    by (auto simp: new_thread_def)
  let ?p4 = "p3\<lparr>scheduler_lock := lock_advance (scheduler_lock ?ps)\<rparr>"
  have run: "obind (sched_acquire (set_kn_procs ?p2 s))
      (\<lambda>(irq_flags, s). obind (in_procs (append_thread t p) s) (\<lambda>s. Ok (p, sched_release irq_flags s))) =
      Ok (p, set_kn_procs ?p4 s)"
    using locked_run [of "set_kn_procs ?p2 s" "append_thread t p" p3 p] free(1) p3(1,3) by (simp add: new_thread_def same_threads_def)
  have others: "map_option f (thread_heap p3 h) = map_option f (thread_heap ?ps h)"
    if "h \<noteq> p" "\<And>t. f (t\<lparr>th_next := 0\<rparr>) = f t" for h and f :: "thread \<Rightarrow> 'a"
    using same_threads_field [OF p3(3), of f h, OF that(2)] that(1) by (simp add: new_thread_def)
  have "kern_mem root (insert p K) (set_kn_procs ?p4 s) as'" using mem free(1) by (intro kern_mem_procs) simp_all
  moreover have "sched_inv ?p4 (xs @ (t, hs @ [p]) # ys)"
  proof (rule sched_inv_change [OF inv])
    show "sched_rep ?p4 (xs @ (t, hs @ [p]) # ys)" "lock_free (scheduler_lock ?p4)" using p3(2) free(1) by simp_all
    show "current ?p4 = current ?ps" using p3(3) by (simp add: same_threads_def new_thread_def)
    show "current ?ps \<in> set (slots (xs @ (t, hs @ [p]) # ys))" if "thread_current ?ps \<noteq> 0" "current ?ps \<in> set (slots ?ts)"
      using slots_add_thread [of "current ?ps"] that by simp
    show "map_option th_state (thread_heap ?p4 h) = map_option th_state (thread_heap ?ps h)" if "h \<in> set (threads_of ?ts)" for h
      using others [of h th_state] pn that by (cases "h = p") auto
    show "map_option th_state (thread_heap ?p4 h) \<noteq> Some THREAD_RUNNING"
      if "h \<in> set (threads_of (xs @ (t, hs @ [p]) # ys))" "h \<notin> set (threads_of ?ts)" for h
      using that p3(4) th by auto
  qed
  ultimately have "kern_inv root (insert p K) (set_kn_procs ?p4 s) as' (xs @ (t, hs @ [p]) # ys)"
    using sub by (auto simp: kern_inv_def)
  moreover have "next_tid ?p4 = n" using p3(3) by (simp add: same_threads_def)
  ultimately show ?thesis using run p3(4) others [of _ "th_next_update (\<lambda>_. 0)"] by (intro exI [of _ ?p4]) auto
qed

definition thread_started :: "nat \<Rightarrow> u64 set \<Rightarrow> kern \<Rightarrow> layout \<Rightarrow> u64 \<Rightarrow> u64 list \<Rightarrow> layout \<Rightarrow> u64 \<Rightarrow> u64 \<Rightarrow> u64 \<Rightarrow> u64 \<Rightarrow> area list \<Rightarrow> kern \<Rightarrow> bool" where
  "thread_started root K s xs t hs ys p entry_point exit_fn base as s' \<longleftrightarrow>
     kern_inv root (insert p K) s' as (xs @ (t, hs @ [p]) # ys) \<and>
     thread_heap (kn_procs s') p = Some \<lparr>th_tid = next_tid (kn_procs s), th_context = base + 0x3F40, th_state = THREAD_READY,
       th_ticks_remaining = THREAD_INITIAL_TICKS, th_wake_time = 0, th_next = first_thread (hs @ [p]), th_next_waiter = 0\<rparr> \<and>
     kn_contexts s' (base + 0x3F40) = Some (initial_status entry_point (base + 0x3FF8)) \<and>
     kn_words s' (base + 0x3FF8) = Some exit_fn \<and> page_present (kn_pg s') (base + 0x3F40) \<and>
     next_tid (kn_procs s') = next_tid (kn_procs s) + 1 \<and>
     (\<forall>h. h \<noteq> p \<longrightarrow> map_option (th_next_update (\<lambda>_. 0)) (thread_heap (kn_procs s') h) =
        map_option (th_next_update (\<lambda>_. 0)) (thread_heap (kn_procs s) h))"

lemma start_thread_appends:
  assumes mem: "kern_mem root (insert p K) s as" and inv: "sched_inv (kn_procs s) (xs @ (t, hs) # ys)"
    and sub: "fst ` set (xs @ (t, hs) # ys) \<union> set (threads_of (xs @ (t, hs) # ys)) \<subseteq> K"
      "fst ` set (xs @ (t, hs) # ys) \<inter> set (threads_of (xs @ (t, hs) # ys)) = {}" "p \<notin> K" "p \<noteq> 0"
    and a: "as = as1 @ (q, b, 0x4000, fl) # as2" "4096 dvd unat b"
  shows "start_thread exit_fn t p entry_point b s = Halt \<and> starved root s \<or>
    (\<exists>s'. start_thread exit_fn t p entry_point b s = Ok (p, s') \<and> thread_started root K s xs t hs ys p entry_point exit_fn b as s')"
proof -
  have "laid (unat VMM_KERNEL_START) as" using mem by (simp add: kern_mem_def vm_inv_def vm_core_def search_bounds_def)
  then have "unat b + 0x4000 < 2 ^ 64" by (simp add: a(1) laid_append)
  moreover have "(q, b, 0x4000, fl) \<in> set as" by (simp add: a(1))
  ultimately consider (halt) "build_stack exit_fn entry_point b s = Halt"
        "starved root s"
    | (built) vm c where "build_stack exit_fn entry_point b s =
        Ok (b + 0x3F40, s\<lparr>kn_words := (kn_words s)(b + 0x3FF8 \<mapsto> exit_fn), kn_vm := vm, kn_cr2 := c,
          kn_contexts := (kn_contexts s)(b + 0x3F40 \<mapsto> initial_status entry_point (b + 0x3FF8))\<rparr>)"
        "kern_mem root (insert p K) (s\<lparr>kn_vm := vm\<rparr>) as" "kh_procs (vm_heap vm) = kn_procs s" "page_present (vm_pg vm) (b + 0x3F40)"
    using kern_stack [OF mem, of q b fl exit_fn entry_point] a(2) by blast
  then show ?thesis
  proof cases
    case halt
    then show ?thesis by (simp add: start_thread_def)
  next
    case built
    let ?s = "s\<lparr>kn_words := (kn_words s)(b + 0x3FF8 \<mapsto> exit_fn), kn_vm := vm, kn_cr2 := c,
          kn_contexts := (kn_contexts s)(b + 0x3F40 \<mapsto> initial_status entry_point (b + 0x3FF8))\<rparr>"
    let ?th = "\<lparr>th_tid = next_tid (kn_procs s), th_context = b + 0x3F40, th_state = THREAD_READY,
        th_ticks_remaining = THREAD_INITIAL_TICKS, th_wake_time = 0, th_next = 0, th_next_waiter = 0\<rparr>"
    have "kern_mem root (insert p K) ?s as" using built(2) by (simp add: kern_mem_def)
    from add_thread_inv [OF this _ sub, of ?th "next_tid (kn_procs s) + 1"] inv built(3) obtain ps where
      ps: "obind (sched_acquire (set_kn_procs ((new_thread p ?th (kn_procs s))\<lparr>next_tid := next_tid (kn_procs s) + 1\<rparr>) ?s))
          (\<lambda>(irq_flags, s). obind (in_procs (append_thread t p) s) (\<lambda>s. Ok (p, sched_release irq_flags s))) = Ok (p, set_kn_procs ps ?s)"
        "kern_inv root (insert p K) (set_kn_procs ps ?s) as (xs @ (t, hs @ [p]) # ys)"
        "thread_heap ps p = Some (?th\<lparr>th_next := first_thread (hs @ [p])\<rparr>)" "next_tid ps = next_tid (kn_procs s) + 1"
        "\<forall>h. h \<noteq> p \<longrightarrow> map_option (th_next_update (\<lambda>_. 0)) (thread_heap ps h) = map_option (th_next_update (\<lambda>_. 0)) (thread_heap (kn_procs s) h)"
      by auto
    have "start_thread exit_fn t p entry_point b s = Ok (p, set_kn_procs ps ?s)"
      using built(1,3) ps(1) by (simp add: start_thread_def Let_def zero_thread_def new_thread_def)
    moreover have "kn_contexts (set_kn_procs ps ?s) (b + 0x3F40) = Some (initial_status entry_point (b + 0x3FF8))"
      "kn_words (set_kn_procs ps ?s) (b + 0x3FF8) = Some exit_fn" "page_present (kn_pg (set_kn_procs ps ?s)) (b + 0x3F40)"
      using built(4) by (simp_all add: set_kn_procs_def)
    ultimately show ?thesis using ps(2-5) by (auto simp: thread_started_def)
  qed
qed

text \<open>The memory runs out at one of the steps of \<open>task_create_thread\<close>: the thread, the area of its stack, the page of its frame.\<close>

definition thread_memory_short :: "nat \<Rightarrow> kern \<Rightarrow> area list \<Rightarrow> bool" where
  "thread_memory_short root s as \<longleftrightarrow> \<not> heap_room root (kn_heap s) sizeof_thread \<or>
     (\<exists>p s1. in_vm (\<lambda>vm. vm_kmalloc vm sizeof_thread) s = Ok (p, s1) \<and> (no_area root s1 as \<or>
       (\<exists>b s2. in_vm (\<lambda>vm. vmm_alloc vm (vmm_get_kernel_vas vm) THREAD_INITIAL_STACK_SIZE 0x13 0) s1 = Ok (b, s2) \<and> starved root s2)))"

lemma task_create_thread_result:
  assumes "kern_inv root K s as (xs @ (t, hs) # ys)" and "page_areas as" and "entry_point \<noteq> 0"
    and "top_of (unat VMM_KERNEL_START) as + 0x4000 < 2 ^ 64"
  shows "task_create_thread exit_fn t entry_point s = Halt \<and> thread_memory_short root s as \<or>
    (\<exists>p s'. task_create_thread exit_fn t entry_point s = Ok (p, s') \<and>
      (p = 0 \<and> thread_memory_short root s as \<and> kern_inv root K s' as (xs @ (t, hs) # ys) \<and> kn_procs s' = kn_procs s \<or>
       (\<exists>as1 as2 new base. p \<noteq> 0 \<and> p \<notin> K \<and> 4096 dvd unat base \<and> unat base \<le> top_of (unat VMM_KERNEL_START) as \<and> as = as1 @ as2 \<and>
          thread_started root K s xs t hs ys p entry_point exit_fn base (as1 @ (new, base, 0x4000, 0x13) # as2) s')))"
proof -
  let ?ts = "xs @ (t, hs) # ys" let ?r = "task_create_thread exit_fn t entry_point s"
  let ?m = "in_vm (\<lambda>vm. vm_kmalloc vm sizeof_thread) s"
  have mem: "kern_mem root K s as" and inv: "sched_inv (kn_procs s) ?ts" 
    and sub: "fst ` set ?ts \<union> set (threads_of ?ts) \<subseteq> K" "fst ` set ?ts \<inter> set (threads_of ?ts) = {}"
    using assms(1) by (simp_all add: kern_inv_def)
  have tz: "t \<noteq> 0" using inv by (auto simp: sched_inv_def sched_rep_def task_seg_append)
  have fl: "VMM_FLAGS_READ OR VMM_FLAGS_WRITE OR VMM_FLAGS_ANON = 0x13" by (simp add: VMM_FLAGS_READ_def VMM_FLAGS_WRITE_def VMM_FLAGS_ANON_def)
  have pr: "page_round THREAD_INITIAL_STACK_SIZE = 0x4000" by (simp add: page_round_def THREAD_INITIAL_STACK_SIZE_def PAGING_PAGE_SIZE_def)
  have an: "anonymous 0x13" "(0x13 :: u64) AND VMM_FLAGS_USER = 0"
    by (simp_all add: anonymous_def VMM_FLAGS_MMIO_def VMM_FLAGS_ANON_def VMM_FLAGS_USER_def)
  from kern_malloc [OF mem, of sizeof_thread] consider (halt) "?m = Halt" "\<not> heap_room root (kn_heap s) sizeof_thread"
    | (full) vm where "?m = Ok (0, s\<lparr>kn_vm := vm\<rparr>)" "\<not> heap_room root (kn_heap s) sizeof_thread" "kern_mem root K (s\<lparr>kn_vm := vm\<rparr>) as" "kh_procs (vm_heap vm) = kn_procs s"
    | (new) p vm where "?m = Ok (p, s\<lparr>kn_vm := vm\<rparr>)" "p \<noteq> 0" "p \<notin> K" "kern_mem root (insert p K) (s\<lparr>kn_vm := vm\<rparr>) as"
        "kh_procs (vm_heap vm) = kn_procs s"
    by blast
  then show ?thesis
  proof cases
    case halt
    then show ?thesis using tz assms(3) by (simp add: task_create_thread_def thread_memory_short_def)
  next
    case full
    then show ?thesis using inv sub tz assms(3) by (simp add: task_create_thread_def kern_inv_def thread_memory_short_def)
  next
    case new
    let ?s1 = "s\<lparr>kn_vm := vm\<rparr>"
    let ?a = "in_vm (\<lambda>vm. vmm_alloc vm (vmm_get_kernel_vas vm) THREAD_INITIAL_STACK_SIZE 0x13 0) ?s1"
    have "top_of (unat VMM_KERNEL_START) as + unat (page_round THREAD_INITIAL_STACK_SIZE) < 2 ^ 64" "page_round THREAD_INITIAL_STACK_SIZE \<noteq> 0"
      using assms(4) unfolding pr by simp_all
    from kern_alloc [OF new(4) this an, of 0, unfolded Let_def pr] consider (halt) "?a = Halt" "no_area root ?s1 as"
      | (full) vm2 where "?a = Ok (0, ?s1\<lparr>kn_vm := vm2\<rparr>)" "no_area root ?s1 as" "kern_mem root (insert p K) (?s1\<lparr>kn_vm := vm2\<rparr>) as" "kh_procs (vm_heap vm2) = kn_procs s"
      | (area) b vm2 as1 as2 q where "?a = Ok (b, ?s1\<lparr>kn_vm := vm2\<rparr>)" "b \<noteq> 0" "as = as1 @ as2" "kh_procs (vm_heap vm2) = kn_procs s"
          "kern_mem root (insert p K) (?s1\<lparr>kn_vm := vm2\<rparr>) (as1 @ (q, b, 0x4000, 0x13) # as2)" "4096 dvd unat b"
          "unat b \<le> top_of (unat VMM_KERNEL_START) as"
      using new(5) assms(2) by fastforce
    then show ?thesis
    proof cases
      case halt
      then have "thread_memory_short root s as" using new(1) unfolding thread_memory_short_def by blast
      then show ?thesis using halt tz assms(3) new(1,2) by (simp add: task_create_thread_def fl)
    next
      case full
      then have short: "thread_memory_short root s as" using new(1) unfolding thread_memory_short_def by blast
      from kern_free [OF full(3) new(3)] obtain vm3 where "on_vm (\<lambda>vm. vm_kfree vm p) (?s1\<lparr>kn_vm := vm2\<rparr>) = Ok (s\<lparr>kn_vm := vm3\<rparr>)"
        "kern_mem root K (s\<lparr>kn_vm := vm3\<rparr>) as" "kh_procs (vm_heap vm3) = kn_procs s" using full(4) by auto
      then show ?thesis using full(1) short inv sub tz assms(3) new(1,2) by (simp add: task_create_thread_def kern_inv_def fl)
    next
      case area
      let ?s2 = "?s1\<lparr>kn_vm := vm2\<rparr>"
      have "?r = start_thread exit_fn t p entry_point b ?s2"
        using area(1,2) tz assms(3) new(1,2) by (simp add: task_create_thread_def fl)
      moreover have "thread_started root K ?s2 xs t hs ys p entry_point exit_fn b (as1 @ (q, b, 0x4000, 0x13) # as2) s' =
          thread_started root K s xs t hs ys p entry_point exit_fn b (as1 @ (q, b, 0x4000, 0x13) # as2) s'" for s'
        using area(4) by (simp add: thread_started_def)
      moreover have "thread_memory_short root s as" if "starved root ?s2"
        using new(1) area(1) that unfolding thread_memory_short_def by blast
      ultimately show ?thesis
        using start_thread_appends [OF area(5) _ sub new(3,2) refl area(6), of exit_fn entry_point] inv area(3,4,6,7) new(2,3) by (simp del: split_paired_Ex) blast
    qed
  qed
qed

text \<open>
  C13: \<open>task_create_thread\<close> appends a ready thread with a full quantum and the next free thread
  number to the task and leaves the other threads alone. Its stack is a new area of four pages in
  the kernel's address space, on a page boundary; at its top lie the address of the exit function
  and below it, on a present page, the frame from which the scheduler starts the thread: entry
  point, kernel segments, interrupts enabled, and a stack pointer at the return address. Only if
  memory runs out does the kernel stop or \<open>NULL\<close> come back with tasks, threads and areas as they
  were.
\<close>

theorem task_create_thread_appends:
  assumes "kern_inv root K s as (xs @ (t, hs) # ys)" and "page_areas as" and "entry_point \<noteq> 0"
    and "top_of (unat VMM_KERNEL_START) as + 0x4000 < 2 ^ 64"
  shows "task_create_thread exit_fn t entry_point s = Halt \<and> thread_memory_short root s as \<or>
    (\<exists>p s'. task_create_thread exit_fn t entry_point s = Ok (p, s') \<and>
      (p = 0 \<and> thread_memory_short root s as \<and> kern_inv root K s' as (xs @ (t, hs) # ys) \<and> kn_procs s' = kn_procs s \<or>
       (\<exists>as1 as2 new base. p \<noteq> 0 \<and> p \<notin> K \<and> 4096 dvd unat base \<and> unat base \<le> top_of (unat VMM_KERNEL_START) as \<and> as = as1 @ as2 \<and>
          thread_started root K s xs t hs ys p entry_point exit_fn base (as1 @ (new, base, 0x4000, 0x13) # as2) s')))"
  using assms by (rule task_create_thread_result)

section \<open>The reaper\<close>

lemma find_app: "find P (xs @ ys) = (case find P xs of None \<Rightarrow> find P ys | Some x \<Rightarrow> Some x)"
  by (induction xs) simp_all

lemma find_concat_split:
  assumes "find P (concat (map f ts)) = Some z"
  obtains xs x ys bs post where "ts = xs @ x # ys" "\<forall>u\<in>set xs. \<forall>h\<in>set (f u). \<not> P h" "f x = bs @ z # post" "\<forall>h\<in>set bs. \<not> P h" "P z"
  using assms
proof (induction ts arbitrary: thesis)
  case (Cons u ts)
  show ?case
  proof (cases "find P (f u)")
    case None
    then have n: "\<forall>h\<in>set (f u). \<not> P h" by (auto simp: find_None_iff)
    then have "find P (concat (map f ts)) = Some z" using Cons.prems(2) by (auto simp: find_app None split: option.splits)
    from Cons.IH [OF _ this] obtain xs x ys bs post where
      "ts = xs @ x # ys" "\<forall>u\<in>set xs. \<forall>h\<in>set (f u). \<not> P h" "f x = bs @ z # post" "\<forall>h\<in>set bs. \<not> P h" "P z" by metis
    then show ?thesis using Cons.prems(1) [of "u # xs" x ys bs post] n by simp
  next
    case (Some w)
    then have "w = z" using Cons.prems(2) by (simp add: find_app)
    moreover from Some obtain i where "i < length (f u)" "P (f u ! i)" "w = f u ! i" "\<forall>j<i. \<not> P (f u ! j)"
      by (auto simp: find_Some_iff)
    ultimately have "f u = take i (f u) @ z # drop (Suc i) (f u)" "\<forall>h\<in>set (take i (f u)). \<not> P h" "P z"
      using id_take_nth_drop [of i "f u"] by (auto simp: in_set_conv_nth)
    then show ?thesis using Cons.prems(1) [of "[]" u ts] by simp
  qed
qed simp

definition reap_candidates :: "layout \<Rightarrow> u64 list" where
  "reap_candidates ts = concat (map (\<lambda>x. reap_order (snd x)) ts)"

lemma candidates_simps [simp]: "reap_candidates [] = []" "reap_candidates ((t, hs) # ts) = reap_order hs @ reap_candidates ts"
  "reap_candidates (xs @ ys) = reap_candidates xs @ reap_candidates ys"
  by (simp_all add: reap_candidates_def)

lemma candidates_threads: "set (reap_candidates ts) \<subseteq> set (threads_of ts)"
proof (induction ts)
  case (Cons x ts)
  have "set (reap_order hs) \<subseteq> set hs" for hs by (cases hs) (auto simp: reap_order_def)
  then show ?case using Cons by (cases x) auto
qed simp

lemma reaper_finds:
  assumes rep: "sched_rep s ts"
  shows "case find (zombie s) (reap_candidates ts) of
      None \<Rightarrow> loop_outcome (reap_tasks s (task_list s)) = Ok (0, 0, s)
    | Some z \<Rightarrow> \<exists>xs t hs ys s' tk. ts = xs @ (t, hs) # ys \<and> z \<in> set hs \<and> zombie s z \<and> task_heap s t = Some tk \<and>
        loop_outcome (reap_tasks s (task_list s)) = Ok (z, tk_vas tk, s') \<and>
        sched_rep s' (xs @ (t, remove1 z hs) # ys) \<and> same_threads s s'"
proof -
  have seg: "task_seg s ts (task_list s)" "ts \<noteq> []" "task_list s = fst (hd ts)" "task_list s \<notin> fst ` set (tl ts)"
    using rep by (cases ts; auto simp: sched_rep_def)+
  show ?thesis
  proof (cases "find (zombie s) (reap_candidates ts)")
    case None
    then have "\<forall>x\<in>set ts. \<forall>h\<in>set (reap_order (snd x)). \<not> zombie s h" by (auto simp: find_None_iff reap_candidates_def)
    then show ?thesis using reap_tasks_none [OF seg(1,2,4)] None seg(3) by (simp add: loop_outcome_def)
  next
    case (Some z)
    from find_concat_split [OF Some [unfolded reap_candidates_def]] obtain xs x ys bs post where
      sp: "ts = xs @ x # ys" "\<forall>u\<in>set xs. \<forall>h\<in>set (reap_order (snd u)). \<not> zombie s h" "reap_order (snd x) = bs @ z # post"
        "\<forall>h\<in>set bs. \<not> zombie s h" "zombie s z" by metis
    obtain t hs where x: "x = (t, hs)" by (cases x)
    have rep': "sched_rep s (xs @ (t, hs) # ys)" using rep sp(1) x by simp
    from reap_task_some [OF rep' _ sp(4,5)] sp(3) x obtain s' where
      s': "reap_task s t = Ok (z, s')" "sched_rep s' (xs @ (t, remove1 z hs) # ys)" "same_threads s s'"
        "map_option tk_vas (task_heap s' t) = map_option tk_vas (task_heap s t)" "z \<in> set hs" "z \<noteq> 0" by auto
    obtain tk tk' where tk: "task_heap s t = Some tk" "task_heap s' t = Some tk'" "t \<noteq> 0" "tk_vas tk' = tk_vas tk"
      using rep' s'(2,4) by (auto simp: sched_rep_def task_seg_append)
    have "reap_tasks s (task_list s) = Some (Ok (z, tk_vas tk', s'))"
      using reap_tasks_some [OF s'(1,6), of tk' xs hs ys] tk(2,3) seg sp(1,2) x by (simp add: task_at_def)
    then show ?thesis unfolding Some option.case using sp(1,5) x s'(2,3,5) tk(1,4)
      by (intro exI [of _ xs] exI [of _ t] exI [of _ hs] exI [of _ ys] exI [of _ s'] exI [of _ tk]) (simp add: loop_outcome_def)
  qed
qed

lemma slots_remove_thread:
  "snd x \<noteq> 0 \<Longrightarrow> snd x \<noteq> z \<Longrightarrow> x \<in> set (slots (xs @ (t, hs) # ys)) \<Longrightarrow> x \<in> set (slots (xs @ (t, remove1 z hs) # ys))"
  by (auto simp: task_slots_def split: if_splits) (metis emptyE in_set_remove1 set_empty)+

lemma zombie_lock [simp]: "zombie (s\<lparr>scheduler_lock := l\<rparr>) = zombie s"
  by (simp add: zombie_def fun_eq_iff)

lemma rep_task_list: "sched_rep s ts \<Longrightarrow> task_list s \<noteq> 0"
  by (cases ts) (auto simp: sched_rep_def)

lemma idle_round_none:
  assumes inv: "sched_inv (kn_procs s) ts" and none: "find (zombie (kn_procs s)) (reap_candidates ts) = None"
  shows "idle_round s = Ok (0, set_kn_procs ((kn_procs s)\<lparr>scheduler_lock := lock_advance (scheduler_lock (kn_procs s))\<rparr>) s)"
proof -
  let ?ps = "kn_procs s"
  let ?p0 = "?ps\<lparr>scheduler_lock := (scheduler_lock ?ps)\<lparr>ticket := ticket (scheduler_lock ?ps) + 1\<rparr>\<rparr>"
  have lf: "lock_free (scheduler_lock ?ps)" and rep: "sched_rep ?p0 ts" using inv by (simp_all add: sched_inv_def)
  have "loop_outcome (reap_tasks ?p0 (task_list ?p0)) = Ok (0, 0, ?p0)" using reaper_finds [OF rep] none by simp
  then show ?thesis
    using sched_acquire_free [OF lf] sched_release_acquired [of ?p0 s] rep_task_list [OF rep] by (simp add: idle_round_def)
qed

lemma idle_round_some:
  assumes inv: "sched_inv (kn_procs s) ts" and some: "find (zombie (kn_procs s)) (reap_candidates ts) = Some z"
    and cur: "thread_current (kn_procs s) \<noteq> z"
  shows "\<exists>xs t hs ys ps tk. ts = xs @ (t, hs) # ys \<and> z \<in> set hs \<and> z \<noteq> 0 \<and> task_heap (kn_procs s) t = Some tk \<and>
    idle_round s = reap_thread z (tk_vas tk) (set_kn_procs ps s) \<and> sched_inv ps (xs @ (t, remove1 z hs) # ys) \<and>
    lock_free (scheduler_lock ps) \<and> map_option th_context (thread_heap ps z) = map_option th_context (thread_heap (kn_procs s) z)"
proof -
  let ?ps = "kn_procs s"
  let ?p0 = "?ps\<lparr>scheduler_lock := (scheduler_lock ?ps)\<lparr>ticket := ticket (scheduler_lock ?ps) + 1\<rparr>\<rparr>"
  have lf: "lock_free (scheduler_lock ?ps)" and rep: "sched_rep ?p0 ts" using inv by (simp_all add: sched_inv_def)
  from reaper_finds [OF rep] some obtain xs t hs ys p1 tk where
    f: "ts = xs @ (t, hs) # ys" "z \<in> set hs" "task_heap ?ps t = Some tk" "loop_outcome (reap_tasks ?p0 (task_list ?p0)) = Ok (z, tk_vas tk, p1)"
      "sched_rep p1 (xs @ (t, remove1 z hs) # ys)" "same_threads ?p0 p1" by auto
  have z: "z \<noteq> 0" using f(1,2) task_seg_threads [of ?p0 ts "task_list ?p0" z] rep by (auto simp: sched_rep_def)
  let ?p2 = "p1\<lparr>scheduler_lock := lock_advance (scheduler_lock ?ps)\<rparr>"
  have "idle_round s = reap_thread z (tk_vas tk) (set_kn_procs ?p2 s)"
    using sched_acquire_free [OF lf] sched_release_acquired [of p1 s] rep_task_list [OF rep] f(4,6) z
    by (simp add: idle_round_def same_threads_def)
  moreover have "sched_inv ?p2 (xs @ (t, remove1 z hs) # ys)"
  proof (rule sched_inv_change [OF inv])
    show "sched_rep ?p2 (xs @ (t, remove1 z hs) # ys)" "lock_free (scheduler_lock ?p2)" using f(5) lf by simp_all
    show "current ?p2 = current ?ps" using f(6) by (simp add: same_threads_def)
    show "current ?ps \<in> set (slots (xs @ (t, remove1 z hs) # ys))" if "thread_current ?ps \<noteq> 0" "current ?ps \<in> set (slots ts)"
      using slots_remove_thread [of "current ?ps" z xs t hs ys] that f(1) cur by simp
    show "map_option th_state (thread_heap ?p2 h) = map_option th_state (thread_heap ?ps h)" for h
      using same_threads_field [OF f(6), of th_state h] by simp
  qed (use f(1) notin_set_remove1 in auto)
  moreover have "map_option th_context (thread_heap ?p2 z) = map_option th_context (thread_heap ?ps z)"
    using same_threads_field [OF f(6), of th_context z] by simp
  ultimately show ?thesis using f(1-3) z lf
    by (intro exI [of _ xs] exI [of _ t] exI [of _ hs] exI [of _ ys] exI [of _ ?p2] exI [of _ tk]) simp
qed

text \<open>
  What \<open>vmm_free\<close> needs to know of the area of a stack with \<open>n\<close> pages: page \<open>m\<close> is backed by the
  frame \<open>f m\<close>, which nobody else uses, or has never been touched.
\<close>

definition stack_pages :: "nat \<Rightarrow> kern \<Rightarrow> area \<Rightarrow> nat set \<Rightarrow> (nat \<times> nat) set \<Rightarrow> (nat \<Rightarrow> nat option) \<Rightarrow> nat \<Rightarrow> bool" where
  "stack_pages root s a R A f n \<longleftrightarrow> (case a of (q, b, z, fl) \<Rightarrow>
     fl AND VMM_FLAGS_MMIO = 0 \<and> heap_env (kn_heap s) root R A \<and> unat z = 4096 * n \<and> n \<le> 2 ^ 36 \<and>
     unat (kheap_end (kn_heap s)) + 4096 * (card R + n + 256) < 2 ^ 64 \<and>
     (\<forall>m<n. owned (kn_pg s) root A (b + of_nat (4096 * m)) (f m)) \<and>
     (\<forall>m m' p. m < m' \<longrightarrow> m' < n \<longrightarrow> f m = Some p \<longrightarrow> f m' \<noteq> Some p))"

lemma heap_env_procs [simp]: "heap_env (h\<lparr>kh_procs := p\<rparr>) root R A = heap_env h root R A"
  by (simp add: heap_env_def)

lemma reap_thread_frees:
  assumes mem: "kern_mem root K s (as1 @ a # as2)" and z: "z \<in> K" "z \<noteq> 0"
    and th: "thread_heap (kn_procs s) z = Some th" "th_context th \<noteq> 0" "kn_contexts s (th_context th) = Some c"
    and a: "contains a (rsp c)" "stack_pages root s a R A f n"
  shows "\<exists>s'. reap_thread z (kernel_vas (kn_vm s)) s = Ok (z, s') \<and> kern_mem root (K - {z}) s' (as1 @ as2) \<and>
    kn_procs s' = (kn_procs s)\<lparr>thread_heap := (thread_heap (kn_procs s))(z := None)\<rparr> \<and>
    heap_env (kn_heap s') root (R \<union> freed f n) (drop_blocks A (freed f n))"
proof -
  obtain q b w fl where q: "a = (q, b, w, fl)" by (cases a)
  let ?vm = "kn_vm s" let ?t = "kernel_vas (kn_vm s)"
  have inv: "vm_inv root K ?vm ?t (as1 @ (q, b, w, fl) # as2)" and root: "map_option pml4_phys (vm_spaces ?vm ?t) = Some (page_to_phys root)"
    using mem q by (simp_all add: kern_mem_def)
  have sp: "fl AND VMM_FLAGS_MMIO = 0" "heap_env (vm_heap ?vm) root R A" "unat w = 4096 * n" "n \<le> 2 ^ 36"
    "unat (kheap_end (vm_heap ?vm)) + 4096 * (card R + n + 256) < 2 ^ 64" "\<forall>m<n. owned (vm_pg ?vm) root A (b + of_nat (4096 * m)) (f m)"
    "\<forall>m m' p. m < m' \<longrightarrow> m' < n \<longrightarrow> f m = Some p \<longrightarrow> f m' \<noteq> Some p"
    using a(2) unfolding stack_pages_def q by simp_all
  from vmm_free_result [OF inv a(1) [unfolded q] sp(1) root sp(2-7)] obtain vm where
    vm: "vmm_free ?vm ?t (rsp c) = Ok vm" "vm_inv root K vm ?t (as1 @ as2)" "heap_env (vm_heap vm) root (R \<union> freed f n) (drop_blocks A (freed f n))"
    by blast
  have kv: "kernel_vas vm = ?t" using vm_frame_root [OF vmm_free_frame [OF vm(1)]] by simp
  let ?s1 = "s\<lparr>kn_vm := vm\<rparr>"
  have m1: "kern_mem root K ?s1 (as1 @ as2) \<and> kh_procs (vm_heap vm) = kn_procs s"
    using kern_mem_vm [OF mem vmm_free_frame [OF vm(1)]] vm(2) kv by simp
  have ins: "insert z (K - {z}) = K" using z(1) by auto
  have "kern_mem root (insert z (K - {z})) ?s1 (as1 @ as2)" using m1 unfolding ins by blast
  from kern_free [OF this] obtain vm2 where
    vm2: "on_vm (\<lambda>vm. vm_kfree vm z) ?s1 = Ok (?s1\<lparr>kn_vm := vm2\<rparr>)" "kern_mem root (K - {z}) (?s1\<lparr>kn_vm := vm2\<rparr>) (as1 @ as2)"
      "kh_procs (vm_heap vm2) = kn_procs s" using m1 by auto
  obtain L where L: "heap_live root (vm_heap vm) L" "K \<subseteq> dom L" using vm(2) by (auto simp: vm_inv_def vm_core_def)
  then obtain k where "L z = Some k" using z(1) by blast
  from kfree_keeps_env [OF L(1) this vm(3)] obtain h where
    h: "kfree (vm_heap vm) z = Ok h" "heap_env h root (R \<union> freed f n) (drop_blocks A (freed f n))" by blast
  have "?s1\<lparr>kn_vm := vm\<lparr>vm_heap := h\<rparr>\<rparr> = ?s1\<lparr>kn_vm := vm2\<rparr>" using vm2(1) h(1) by (simp add: on_vm_def vm_kfree_def)
  from arg_cong [OF this, of kn_vm] have env: "heap_env (vm_heap vm2) root (R \<union> freed f n) (drop_blocks A (freed f n))"
    using h(2) by auto
  let ?p = "(kn_procs s)\<lparr>thread_heap := (thread_heap (kn_procs s))(z := None)\<rparr>"
  let ?s2 = "set_kn_procs ?p (s\<lparr>kn_vm := vm2\<rparr>)"
  have "on_vm (\<lambda>vm. vmm_free vm ?t (rsp c)) s = Ok ?s1" using vm(1) by (simp add: on_vm_def)
  then have "reap_thread z ?t s = Ok (z, ?s2)"
    using th z(2) vm2(1,3) by (simp add: reap_thread_def thread_at_def context_at_def Let_def)
  moreover have "kern_mem root (K - {z}) ?s2 (as1 @ as2)" using vm2(2) mem by (intro kern_mem_procs) (simp_all add: kern_mem_def)
  moreover have "heap_env (kn_heap ?s2) root (R \<union> freed f n) (drop_blocks A (freed f n))" using env by (simp add: set_kn_procs_def)
  ultimately show ?thesis by auto
qed

text \<open>
  C14: one round of the reaper frees the first dead thread it finds: the thread is taken out of its
  task, its structure goes back to the heap, the area of its stack is removed from the kernel's
  address space and the frames behind the stack become free.
\<close>

theorem idle_round_reaps:
  assumes "kern_inv root K s (as1 @ a # as2) ts" and "find (zombie (kn_procs s)) (reap_candidates ts) = Some z"
    and "thread_current (kn_procs s) \<noteq> z" and "\<forall>t\<in>fst ` set ts. map_option tk_vas (task_heap (kn_procs s) t) = Some (kernel_vas (kn_vm s))"
    and "thread_heap (kn_procs s) z = Some th" and "th_context th \<noteq> 0" and "kn_contexts s (th_context th) = Some c"
    and "contains a (rsp c)" and "stack_pages root s a R A f n"
  shows "\<exists>s' xs t hs ys. idle_round s = Ok (z, s') \<and> ts = xs @ (t, hs) # ys \<and> z \<in> set hs \<and>
    kern_inv root (K - {z}) s' (as1 @ as2) (xs @ (t, remove1 z hs) # ys) \<and> thread_heap (kn_procs s') z = None \<and>
    heap_env (kn_heap s') root (R \<union> freed f n) (drop_blocks A (freed f n))"
proof -
  have mem: "kern_mem root K s (as1 @ a # as2)" and inv: "sched_inv (kn_procs s) ts" 
    and sub: "fst ` set ts \<union> set (threads_of ts) \<subseteq> K" "fst ` set ts \<inter> set (threads_of ts) = {}"
    using assms(1) by (simp_all add: kern_inv_def)
  from idle_round_some [OF inv assms(2,3)] obtain xs t hs ys ps tk where
    r: "ts = xs @ (t, hs) # ys" "z \<in> set hs" "z \<noteq> 0" "task_heap (kn_procs s) t = Some tk"
      "idle_round s = reap_thread z (tk_vas tk) (set_kn_procs ps s)" "sched_inv ps (xs @ (t, remove1 z hs) # ys)"
      "lock_free (scheduler_lock ps)" "map_option th_context (thread_heap ps z) = Some (th_context th)"
    using assms(5) by auto
  let ?s = "set_kn_procs ps s" let ?ts = "xs @ (t, remove1 z hs) # ys"
  obtain th' where th': "thread_heap ps z = Some th'" "th_context th' = th_context th" using r(8) by (cases "thread_heap ps z") auto
  have "tk_vas tk = kernel_vas (kn_vm s)" using assms(4) r(1,4) by auto
  then have vas: "tk_vas tk = kernel_vas (kn_vm ?s)" by (simp add: set_kn_procs_def)
  have mem': "kern_mem root K ?s (as1 @ a # as2)" using kern_mem_procs [OF mem r(7)] .
  have zK: "z \<in> K" using sub r(1,2) by auto
  have "stack_pages root ?s a R A f n" using assms(9) by (simp add: stack_pages_def set_kn_procs_def)
  moreover have "kn_contexts ?s (th_context th') = Some c" using assms(7) th'(2) by (simp add: set_kn_procs_def)
  ultimately obtain s' where s': "reap_thread z (kernel_vas (kn_vm ?s)) ?s = Ok (z, s')" "kern_mem root (K - {z}) s' (as1 @ as2)"
      "kn_procs s' = ps\<lparr>thread_heap := (thread_heap ps)(z := None)\<rparr>" "heap_env (kn_heap s') root (R \<union> freed f n) (drop_blocks A (freed f n))"
    using reap_thread_frees [OF mem' zK r(3), of th' c R A f n] th' assms(6,8) by auto
  have d: "distinct (threads_of ts)" "z \<notin> set (threads_of ?ts)" using inv r(1,2) by (auto simp: sched_inv_def sched_rep_def)
  have "sched_inv (kn_procs s') ?ts"
    using r(6) d(2) sched_rep_cong [of "kn_procs s'" ps ?ts] unfolding s'(3) sched_inv_def by auto
  moreover have th_sub: "set (threads_of ?ts) \<subseteq> set (threads_of ts)" using r(1) notin_set_remove1 by fastforce
  then have "fst ` set ?ts \<union> set (threads_of ?ts) \<subseteq> K - {z}" "fst ` set ?ts \<inter> set (threads_of ?ts) = {}"
    using sub r(1,2) d(2) by auto
  ultimately have "kern_inv root (K - {z}) s' (as1 @ as2) ?ts" using s'(2) by (simp add: kern_inv_def)
  then show ?thesis using r(1,2,5) s'(1,3,4) vas by (intro exI [of _ s'] exI [of _ xs] exI [of _ t] exI [of _ hs] exI [of _ ys]) simp
qed

text \<open>
  C35: a round of the reaper does not look at the first thread of a task that has several: when
  it is dead and no other thread is, the round reports that there is nothing to do and leaves
  every thread as it is.
\<close>

theorem idle_round_misses_first:
  assumes "sched_inv (kn_procs s) (xs @ (t, h # k # hs) # ys)" and "zombie (kn_procs s) h"
    and "\<forall>h'\<in>set (threads_of (xs @ (t, h # k # hs) # ys)) - {h}. \<not> zombie (kn_procs s) h'"
  shows "\<exists>s'. idle_round s = Ok (0, s') \<and> thread_heap (kn_procs s') = thread_heap (kn_procs s) \<and> zombie (kn_procs s') h"
proof -
  let ?ts = "xs @ (t, h # k # hs) # ys"
  have d: "distinct (threads_of ?ts)" using assms(1) by (simp add: sched_inv_def sched_rep_def)
  have "h' \<in> set (threads_of ?ts) - {h}" if "h' \<in> set (reap_candidates ?ts)" for h'
  proof -
    have "h' \<in> set (threads_of xs) \<or> h' \<in> set (threads_of ys) \<or> h' \<in> set (k # hs)"
      using that candidates_threads [of xs] candidates_threads [of ys] by (auto simp: reap_order_def)
    then show ?thesis using d by auto
  qed
  then have "find (zombie (kn_procs s)) (reap_candidates ?ts) = None" using assms(3) by (auto simp: find_None_iff)
  from idle_round_none [OF assms(1) this] show ?thesis using assms(2) by (simp add: zombie_def)
qed

text \<open>
  A task cannot be created without a name: with \<open>NULL\<close> the copy of the name faults.
\<close>

theorem task_create_null_name:
  assumes "kern_mem root K s as" and "heap_room root (kn_heap s) sizeof_task"
  shows "task_create None s = Fault"
  using kern_malloc [OF assms(1), of sizeof_task] assms(2) by (auto simp: task_create_def copy_name_def)

end
