(* ===== verification/Switch_Props.thy ===== *)
theory Switch_Props
  imports Thread_Props
begin

text \<open>
  Leaving the processor: a thread that ends or goes to sleep raises the interrupt that runs the
  scheduler, and another thread continues from its saved frame.
\<close>

section \<open>Slots of different threads\<close>

lemma slot_threads: "\<forall>h\<in>set (threads_of ts). h \<noteq> 0 \<Longrightarrow> filter (\<lambda>h. h \<noteq> 0) (map snd (slots ts)) = threads_of ts"
proof (induction ts)
  case (Cons x ts)
  obtain t hs where x: "x = (t, hs)" by (cases x)
  have "filter (\<lambda>h. h \<noteq> 0) hs = hs" using Cons.prems x by (auto simp: filter_id_conv)
  then show ?case using Cons x by (cases "hs = []") (simp_all add: task_slots_def comp_def)
qed simp

lemma slot_unique:
  assumes rep: "sched_rep s ts" and sl: "slots ts = xs @ c # ys" and x: "x \<in> set xs \<union> set ys" and c: "snd c \<noteq> 0"
  shows "snd x \<noteq> snd c"
proof -
  have "\<forall>h\<in>set (threads_of ts). h \<noteq> 0" using rep task_seg_threads unfolding sched_rep_def by blast
  from slot_threads [OF this] rep have "distinct (filter (\<lambda>h. h \<noteq> 0) (map snd (slots ts)))" by (simp add: sched_rep_def)
  then have "snd c \<notin> set (filter (\<lambda>h. h \<noteq> 0) (map snd xs)) \<union> set (filter (\<lambda>h. h \<noteq> 0) (map snd ys))"
    using c unfolding sl by simp
  then have "snd c \<notin> snd ` set xs" "snd c \<notin> snd ` set ys" using c by auto
  then show ?thesis using x by (metis UnE imageI)
qed

section \<open>Yielding\<close>

text \<open>The current thread with a new state that is neither ready nor running.\<close>

definition retired :: "(thread \<Rightarrow> thread) \<Rightarrow> procs \<Rightarrow> procs" where
  "retired g ps = ps\<lparr>thread_heap := (thread_heap ps)(thread_current ps := map_option g (thread_heap ps (thread_current ps))),
     scheduler_lock := lock_advance (scheduler_lock ps)\<rparr>"

lemma yield_schedules:
  assumes "sched_inv ps ts" "kn_procs s = ps" "scheduler_schedule ps (kn_rflags s AND NOT RFLAGS_IF) frame = Ok (ctx, kn_rflags s AND NOT RFLAGS_IF, ps')"
    and "frame \<noteq> 0" "ctx \<noteq> 0" "ctx \<noteq> frame" "kn_contexts s ctx = Some c'"
  shows "\<exists>s'. scheduler_yield frame c s = Ok (ctx, s') \<and> kn_procs s' = ps' \<and> kn_rflags s' = st_rflags c'"
proof -
  have v: "YIELD_VECTOR \<noteq> PAGE_FAULT_VECTOR" "YIELD_VECTOR \<noteq> LAPIC_TIMER_VECTOR"
    by (simp_all add: YIELD_VECTOR_def PAGE_FAULT_VECTOR_def LAPIC_TIMER_VECTOR_def)
  let ?c = "c\<lparr>vector_number := YIELD_VECTOR, error_code := 0, st_rflags := kn_rflags s\<rparr>"
  let ?s = "set_kn_rflags (kn_rflags s AND NOT RFLAGS_IF) (s\<lparr>kn_contexts := (kn_contexts s)(frame \<mapsto> ?c)\<rparr>)"
  have ctxs: "kn_contexts (set_kn_rflags r (set_kn_procs q u)) = kn_contexts u" "kn_contexts (set_kn_rflags r u) = kn_contexts u"
    "kn_contexts (set_kn_procs q u) = kn_contexts u" for r q u
    by (simp_all add: set_kn_rflags_def set_kn_procs_def)
  have "interrupt_handler frame ?s = kn_schedule frame ?s"
    using assms(4) v by (simp add: interrupt_handler_def context_at_def ctxs)
  moreover have "kn_schedule frame ?s = Ok (ctx, set_kn_rflags (kn_rflags s AND NOT RFLAGS_IF) (set_kn_procs ps' ?s))"
    using assms(2,3) by (simp add: kn_schedule_def)
  ultimately have "scheduler_yield frame c s =
      Ok (ctx, set_kn_rflags (st_rflags c') (set_kn_rflags (kn_rflags s AND NOT RFLAGS_IF) (set_kn_procs ps' ?s)))"
    using assms(5-7) by (simp add: scheduler_yield_def interrupt_def Let_def context_at_def ctxs)
  then show ?thesis by auto
qed

lemma retired_yield:
  assumes inv: "sched_inv ps ts" and sl: "slots ts = xs @ current ps # ys"
    and g: "\<And>x. th_next (g x) = th_next x" "\<And>x. th_state (g x) \<noteq> THREAD_READY" "\<And>x. th_state (g x) \<noteq> THREAD_RUNNING"
    and next_thread: "find (ready ps) (ys @ xs) = Some (t, h)" "thread_heap ps h = Some th"
  shows "scheduler_schedule (retired g ps) rf frame = Ok (th_context th, rf, resume t h (paused frame (retired g ps)))"
    "sched_inv (retired g ps) ts" "h \<noteq> thread_current ps"
proof -
  let ?p = "retired g ps"
  have rep: "sched_rep ps ts" "lock_free (scheduler_lock ps)" "thread_current ps \<noteq> 0" using inv by (simp_all add: sched_inv_def)
  have rep': "sched_rep ?p ts" using rep(1) g(1)
    by (subst sched_rep_cong [of _ ps]) (auto simp: retired_def option.map_comp comp_def)
  have same: "thread_heap ?p k = thread_heap ps k" if "k \<noteq> thread_current ps" for k using that by (simp add: retired_def)
  obtain cur where cur: "thread_heap ps (thread_current ps) = Some cur"
    using rep_proper [OF rep(1), of "current ps"] inv rep(3) by (auto simp: proper_def sched_inv_def)
  show inv': "sched_inv ?p ts"
    using inv rep' g(3) cur same unfolding sched_inv_def
    by (auto simp: retired_def split: if_splits)
  have uniq: "snd x \<noteq> thread_current ps" if "x \<in> set (ys @ xs)" for x
    using slot_unique [OF rep(1) sl, of x] that rep(3) by auto
  have eq: "ready (paused frame ?p) x = ready ps x" if "x \<in> set (ys @ xs)" for x
    using uniq [OF that] by (cases x) (auto simp: ready_def paused_def retired_def)
  have "find (ready (paused frame ?p)) (ys @ xs) = find (ready ps) (ys @ xs)" using eq by (rule find_cong [OF refl])
  then have f: "find (ready (paused frame ?p)) (ys @ xs @ [current ?p]) = Some (t, h)"
    using next_thread(1) by (simp add: find_app split: option.splits)
  have hm: "(t, h) \<in> set (ys @ xs)" using next_thread(1) by (auto dest: find_SomeD)
  show ne: "h \<noteq> thread_current ps" using uniq [OF hm] by simp
  have "thread_heap (paused frame ?p) h = Some th" using ne next_thread(2) by (simp add: paused_def retired_def)
  moreover have "slots ts = xs @ current ?p # ys" "lock_free (scheduler_lock ?p)" "thread_current ?p \<noteq> 0"
    using sl rep(2,3) by (simp_all add: retired_def)
  ultimately show "scheduler_schedule ?p rf frame = Ok (th_context th, rf, resume t h (paused frame ?p))"
    using scheduler_schedule_run [OF rep', of xs ys rf frame] f by simp
qed

lemma retired_switch:
  assumes inv: "sched_inv (kn_procs s) ts" and sl: "slots ts = xs @ current (kn_procs s) # ys"
    and g: "\<And>x. th_next (g x) = th_next x" "\<And>x. th_state (g x) \<noteq> THREAD_READY" "\<And>x. th_state (g x) \<noteq> THREAD_RUNNING"
    and nxt: "find (ready (kn_procs s)) (ys @ xs) = Some (t, h)" "thread_heap (kn_procs s) h = Some th"
    and frames: "frame \<noteq> 0" "th_context th \<noteq> 0" "th_context th \<noteq> frame" "kn_contexts s (th_context th) = Some c'"
    and s1: "kn_procs s1 = retired g (kn_procs s)" "kn_contexts s1 = kn_contexts s"
  shows "\<exists>s'. scheduler_yield frame c s1 = Ok (th_context th, s') \<and> sched_inv (kn_procs s') ts \<and>
    current (kn_procs s') = (t, h) \<and> kn_rflags s' = st_rflags c' \<and>
    map_option th_state (thread_heap (kn_procs s') h) = Some THREAD_RUNNING \<and>
    thread_heap (kn_procs s') (thread_current (kn_procs s)) =
      map_option (\<lambda>x. (g x)\<lparr>th_context := frame\<rparr>) (thread_heap (kn_procs s) (thread_current (kn_procs s)))"
proof -
  let ?ps = "kn_procs s" let ?p = "retired g ?ps"
  note run = retired_yield [OF inv sl g nxt]
  let ?p' = "resume t h (paused frame ?p)"
  have sch: "scheduler_schedule ?p (kn_rflags s1 AND NOT RFLAGS_IF) frame = Ok (th_context th, kn_rflags s1 AND NOT RFLAGS_IF, ?p')"
    by (rule run(1))
  have "kn_contexts s1 (th_context th) = Some c'" using frames(4) s1(2) by simp
  from yield_schedules [OF run(2) s1(1) sch frames(1-3) this] obtain s' where
    s': "scheduler_yield frame c s1 = Ok (th_context th, s')" "kn_procs s' = ?p'" "kn_rflags s' = st_rflags c'" by blast
  have "sched_inv ?p' ts" using schedule_keeps [OF run(2) sch] by blast
  moreover have "pause_current frame (g x) = (g x)\<lparr>th_context := frame\<rparr>" for x using g(3) [of x] by (simp add: pause_current_def)
  then have "thread_heap ?p' (thread_current ?ps) = map_option (\<lambda>x. (g x)\<lparr>th_context := frame\<rparr>) (thread_heap ?ps (thread_current ?ps))"
    using run(3) by (simp add: resume_def paused_def retired_def option.map_comp comp_def)
  moreover have "map_option th_state (thread_heap ?p' h) = Some THREAD_RUNNING"
    using run(3) nxt(2) by (simp add: resume_def paused_def retired_def)
  ultimately show ?thesis using s' by (simp add: resume_def)
qed

lemma kn_machine_commute:
  "(set_kn_rflags r s)\<lparr>kn_machine := m\<rparr> = set_kn_rflags r (s\<lparr>kn_machine := m\<rparr>)"
  "(set_kn_procs p s)\<lparr>kn_machine := m\<rparr> = set_kn_procs p (s\<lparr>kn_machine := m\<rparr>)"
  by (simp_all add: set_kn_rflags_def set_kn_procs_def)

lemma kn_parts [simp]:
  "kn_machine (set_kn_rflags r s) = kn_machine s" "kn_machine (set_kn_procs p s) = kn_machine s"
  "kn_timer (set_kn_rflags r s) = kn_timer s" "kn_timer (set_kn_procs p s) = kn_timer s"
  "kn_contexts (set_kn_rflags r s) = kn_contexts s" "kn_contexts (set_kn_procs p s) = kn_contexts s"
  by (simp_all add: set_kn_rflags_def set_kn_procs_def)

lemma current_thread:
  assumes "sched_inv ps ts"
  obtains th where "thread_heap ps (thread_current ps) = Some th" "thread_current ps \<noteq> 0"
proof -
  have "proper ps (current ps)" "thread_current ps \<noteq> 0" using assms rep_proper by (auto simp: sched_inv_def)
  then show thesis using that by (auto simp: proper_def)
qed

section \<open>Ending and sleeping\<close>

text \<open>
  C23: a thread that ends becomes a zombie with its last frame saved, and the next ready thread in
  round-robin order continues from its own frame with its own interrupt flag; the invariant of
  the scheduler is kept.
\<close>

theorem thread_exit_switches:
  assumes "sched_inv (kn_procs s) ts" and "slots ts = xs @ current (kn_procs s) # ys"
    and "find (ready (kn_procs s)) (ys @ xs) = Some (t, h)" and "thread_heap (kn_procs s) h = Some th"
    and "frame \<noteq> 0" and "th_context th \<noteq> 0" and "th_context th \<noteq> frame" and "kn_contexts s (th_context th) = Some c'"
  shows "\<exists>s'. task_current_thread_exit frame c s = Ok (th_context th, s') \<and> sched_inv (kn_procs s') ts \<and>
    current (kn_procs s') = (t, h) \<and> kn_rflags s' = st_rflags c' \<and>
    map_option th_state (thread_heap (kn_procs s') h) = Some THREAD_RUNNING \<and>
    thread_heap (kn_procs s') (thread_current (kn_procs s)) =
      map_option (\<lambda>x. x\<lparr>th_state := THREAD_ZOMBIE, th_context := frame\<rparr>) (thread_heap (kn_procs s) (thread_current (kn_procs s)))"
proof -
  let ?ps = "kn_procs s" let ?g = "\<lambda>x :: thread. x\<lparr>th_state := THREAD_ZOMBIE\<rparr>"
  let ?p0 = "?ps\<lparr>scheduler_lock := (scheduler_lock ?ps)\<lparr>ticket := ticket (scheduler_lock ?ps) + 1\<rparr>\<rparr>"
  obtain cur where cur: "thread_heap ?ps (thread_current ?ps) = Some cur" "thread_current ?ps \<noteq> 0" using current_thread [OF assms(1)] .
  let ?p1 = "?p0\<lparr>thread_heap := (thread_heap ?ps)(thread_current ?ps \<mapsto> ?g cur)\<rparr>"
  have lf: "lock_free (scheduler_lock ?ps)" using assms(1) by (simp add: sched_inv_def)
  have "task_current_thread_exit frame c s = scheduler_yield frame c (set_kn_procs (?p1\<lparr>scheduler_lock := lock_advance (scheduler_lock ?ps)\<rparr>) s)"
    using sched_acquire_free [OF lf] sched_release_acquired [of ?p1 s] cur
    by (simp add: task_current_thread_exit_def in_procs_def set_thread_def thread_at_def)
  moreover have "?p1\<lparr>scheduler_lock := lock_advance (scheduler_lock ?ps)\<rparr> = retired ?g ?ps" using cur(1) by (simp add: retired_def)
  ultimately have "task_current_thread_exit frame c s = scheduler_yield frame c (set_kn_procs (retired ?g ?ps) s)" by simp
  then show ?thesis using retired_switch [OF assms(1,2) _ _ _ assms(3-8), of ?g "set_kn_procs (retired ?g ?ps) s" c] by simp
qed

text \<open>
  C24: a thread that sleeps is due when the uptime has grown by the requested milliseconds; until
  then the next ready thread in round-robin order has the processor.
\<close>

theorem thread_sleep_switches:
  assumes "sched_inv (kn_procs s) ts" and "slots ts = xs @ current (kn_procs s) # ys"
    and "find (ready (kn_procs s)) (ys @ xs) = Some (t, h)" and "thread_heap (kn_procs s) h = Some th"
    and "frame \<noteq> 0" and "th_context th \<noteq> 0" and "th_context th \<noteq> frame" and "kn_contexts s (th_context th) = Some c'"
    and "timer_get_uptime_ms (kn_timer s) (fst (read_tsc (kn_machine s))) = Ok now"
  shows "\<exists>s'. thread_sleep frame c ms s = Ok (th_context th, s') \<and> sched_inv (kn_procs s') ts \<and>
    current (kn_procs s') = (t, h) \<and> kn_rflags s' = st_rflags c' \<and>
    map_option th_state (thread_heap (kn_procs s') h) = Some THREAD_RUNNING \<and>
    thread_heap (kn_procs s') (thread_current (kn_procs s)) = map_option
      (\<lambda>x. x\<lparr>th_wake_time := now + ms, th_state := THREAD_SLEEPING, th_context := frame\<rparr>) (thread_heap (kn_procs s) (thread_current (kn_procs s)))"
proof -
  let ?ps = "kn_procs s" let ?g = "\<lambda>x :: thread. x\<lparr>th_wake_time := now + ms, th_state := THREAD_SLEEPING\<rparr>"
  let ?p0 = "?ps\<lparr>scheduler_lock := (scheduler_lock ?ps)\<lparr>ticket := ticket (scheduler_lock ?ps) + 1\<rparr>\<rparr>"
  obtain cur where cur: "thread_heap ?ps (thread_current ?ps) = Some cur" "thread_current ?ps \<noteq> 0" using current_thread [OF assms(1)] .
  obtain tsc m where tsc: "read_tsc (kn_machine s) = (tsc, m)" by (cases "read_tsc (kn_machine s)")
  let ?p1 = "?p0\<lparr>thread_heap := (thread_heap ?ps)(thread_current ?ps \<mapsto> ?g cur)\<rparr>" let ?s = "s\<lparr>kn_machine := m\<rparr>"
  have lf: "lock_free (scheduler_lock ?ps)" using assms(1) by (simp add: sched_inv_def)
  have "thread_sleep frame c ms s = scheduler_yield frame c (set_kn_procs (?p1\<lparr>scheduler_lock := lock_advance (scheduler_lock ?ps)\<rparr>) ?s)"
    using sched_acquire_free [OF lf] sched_release_acquired [of ?p1 ?s] cur assms(9) tsc
    by (simp add: thread_sleep_def in_procs_def set_thread_def thread_at_def uptime_ms_def kn_machine_commute)
  moreover have "?p1\<lparr>scheduler_lock := lock_advance (scheduler_lock ?ps)\<rparr> = retired ?g ?ps" using cur(1) by (simp add: retired_def)
  ultimately have "thread_sleep frame c ms s = scheduler_yield frame c (set_kn_procs (retired ?g ?ps) ?s)" by simp
  then show ?thesis using retired_switch [OF assms(1,2) _ _ _ assms(3-8), of ?g "set_kn_procs (retired ?g ?ps) ?s" c] by simp
qed

end
