(* ===== verification/Timer_Props.thy ===== *)
theory Timer_Props
  imports Switch_Props
begin

text \<open>
  Calibration of the timer, the quantum of the running thread, and what every interrupt keeps.
\<close>

section \<open>Calibration\<close>

text \<open>
  What the devices deliver in the future: the value and the accesses of a reading of the PIT that
  starts \<open>d\<close> accesses from now, and the two counters at that time.
\<close>

definition pit_value :: "machine \<Rightarrow> nat \<Rightarrow> u16" where
  "pit_value m d = ucast (port_in m PIT_DATA_PORT (io_time m + d + 1)) OR push_bit 8 (ucast (port_in m PIT_DATA_PORT (io_time m + d + 2)))"

definition pit_reading :: "machine \<Rightarrow> nat \<Rightarrow> io_event list" where
  "pit_reading m d = [Outb 0x43 0, Inb 0x40 (port_in m PIT_DATA_PORT (io_time m + d + 1)), Inb 0x40 (port_in m PIT_DATA_PORT (io_time m + d + 2))]"

definition tsc_value :: "machine \<Rightarrow> nat \<Rightarrow> u64" where
  "tsc_value m d = (let (lo, hi) = tsc_in m (io_time m + d) in rdtsc lo hi)"

definition lapic_value :: "u64 \<Rightarrow> machine \<Rightarrow> nat \<Rightarrow> u32" where
  "lapic_value base m d = mmio_in m (base + 0x390) (io_time m + d)"

definition elapsed :: "u16 \<Rightarrow> machine \<Rightarrow> nat \<Rightarrow> bool" where
  "elapsed start_pit m d \<longleftrightarrow> start_pit - pit_value m d \<ge> 11931"

definition io_logs :: "io_event list \<Rightarrow> machine \<Rightarrow> machine" where
  "io_logs es m = m\<lparr>io_trace := io_trace m @ es\<rparr>"

lemma io_logs_simps [simp]:
  "io_logs es (io_logs ds m) = io_logs (ds @ es) m" "io_log e m = io_logs [e] m" "io_time (io_logs es m) = io_time m + length es"
  "io_trace (io_logs es m) = io_trace m @ es" "port_in (io_logs es m) = port_in m" "mmio_in (io_logs es m) = mmio_in m" "tsc_in (io_logs es m) = tsc_in m"
  by (simp_all add: io_logs_def io_log_def io_time_def)

lemma later_values [simp]:
  "pit_value (io_logs es m) d = pit_value m (length es + d)" "pit_reading (io_logs es m) d = pit_reading m (length es + d)"
  "tsc_value (io_logs es m) d = tsc_value m (length es + d)" "lapic_value b (io_logs es m) d = lapic_value b m (length es + d)"
  "elapsed p (io_logs es m) d = elapsed p m (length es + d)"
  by (simp_all add: pit_value_def pit_reading_def tsc_value_def lapic_value_def elapsed_def add.assoc)

lemma length_pit_reading [simp]: "length (pit_reading m d) = 3"
  by (simp add: pit_reading_def)

lemma read_tsc_value: "read_tsc m = (tsc_value m 0, io_logs [Rdtsc (tsc_value m 0)] m)"
  by (simp add: read_tsc_def tsc_value_def Let_def split: prod.splits)

lemma pit_read_count_value: "pit_read_count m = (pit_value m 0, io_logs (pit_reading m 0) m)"
  by (simp add: pit_read_count_def inb_def outb_def Let_def pit_value_def pit_reading_def PIT_CMD_PORT_def PIT_DATA_PORT_def)

text \<open>The accesses of \<open>Suc k\<close> readings one after the other.\<close>

definition pit_readings :: "machine \<Rightarrow> nat \<Rightarrow> nat \<Rightarrow> io_event list" where
  "pit_readings m d k = concat (map (\<lambda>j. pit_reading m (d + 3 * j)) [0..<Suc k])"

lemma pit_readings_simps:
  "pit_readings m d 0 = pit_reading m d" "pit_readings m d (Suc k) = pit_reading m d @ pit_readings m (d + 3) k"
proof -
  have "[0..<Suc (Suc k)] = 0 # map Suc [0..<Suc k]" by (simp add: map_Suc_upt upt_conv_Cons del: upt_Suc)
  then show "pit_readings m d (Suc k) = pit_reading m d @ pit_readings m (d + 3) k"
    by (simp add: pit_readings_def comp_def add.assoc del: upt_Suc)
qed (simp add: pit_readings_def)

lemma length_pit_readings [simp]: "length (pit_readings m d k) = 3 * Suc k"
  by (induction k arbitrary: d) (simp_all add: pit_readings_simps)

lemma pit_readings_later: "pit_readings (io_logs es m) d k = pit_readings m (length es + d) k"
  by (simp add: pit_readings_def add.assoc)

lemma pit_wait_step: "pit_wait start m =
    (if elapsed start m 0 then Some (io_logs (pit_reading m 0) m) else pit_wait start (io_logs (pit_reading m 0) m))"
  by (subst pit_wait.simps) (simp add: pit_read_count_value elapsed_def ticks_to_wait_def Let_def)

lemma pit_wait_returns:
  assumes "elapsed start m (3 * k)" "\<And>j. j < k \<Longrightarrow> \<not> elapsed start m (3 * j)"
  shows "pit_wait start m = Some (io_logs (pit_readings m 0 k) m)"
  using assms
proof (induction k arbitrary: m)
  case 0
  then show ?case by (subst pit_wait_step) (simp add: pit_readings_simps)
next
  case (Suc k)
  let ?m = "io_logs (pit_reading m 0) m"
  have "elapsed start ?m (3 * k)" using Suc.prems(1) by simp
  moreover have "\<not> elapsed start ?m (3 * j)" if "j < k" for j using Suc.prems(2) [of "Suc j"] that by simp
  ultimately have "pit_wait start ?m = Some (io_logs (pit_readings ?m 0 k) ?m)" by (rule Suc.IH)
  moreover have "\<not> elapsed start m 0" using Suc.prems(2) [of 0] by simp
  ultimately show ?case by (subst pit_wait_step) (simp add: pit_readings_simps pit_readings_later)
qed

lemma pit_wait_elapsed:
  assumes "pit_wait start m = Some m'"
  shows "\<exists>k. elapsed start m (3 * k)"
proof (induction rule: pit_wait.raw_induct [OF _ assms, of "\<lambda>start m r. \<exists>k. elapsed start m (3 * k)"])
  case (1 f start m r)
  show ?case
  proof (cases "elapsed start m 0")
    case True
    then show ?thesis by (intro exI [of _ 0]) simp
  next
    case False
    then have "f start (io_logs (pit_reading m 0) m) = Some r" using 1(2) by (simp add: pit_read_count_value elapsed_def ticks_to_wait_def Let_def)
    from 1(1) [OF this] obtain k where "elapsed start m (3 + 3 * k)" by auto
    then show ?thesis by (intro exI [of _ "Suc k"]) simp
  qed
qed

lemma pit_prepare_writes: "pit_prepare_sleep 0xFFFF m = io_logs [Outb 0x43 0x30, Outb 0x40 0x57, Outb 0x40 0xFB] m"
proof -
  have c: "(ucast (PIT_BASE_FREQ div 1000 * 0xFFFF) :: u16) = 0xFB57" unfolding PIT_BASE_FREQ_def by simp
  have "(ucast ((0xFB57 :: u16) AND 0xFF) :: u8) = 0x57" "(ucast (drop_bit 8 (0xFB57 :: u16) AND 0xFF) :: u8) = 0xFB" by simp_all
  then show ?thesis unfolding pit_prepare_sleep_def c by (simp add: outb_def Let_def PIT_CMD_PORT_def PIT_DATA_PORT_def)
qed

lemma lapic_accesses:
  "lapic_write r v s = s\<lparr>kn_machine := io_logs [Mmio_write (lapic_MMIO s + ucast r) v] (kn_machine s)\<rparr>"
  "lapic_read LAPIC_CURRENT_COUNT_REG s =
     (let v = lapic_value (lapic_MMIO s) (kn_machine s) 0 in (v, s\<lparr>kn_machine := io_logs [Mmio_read (lapic_MMIO s + 0x390) v] (kn_machine s)\<rparr>))"
  by (simp_all add: lapic_write_def lapic_read_def mmio_write_def mmio_read_def lapic_value_def LAPIC_CURRENT_COUNT_REG_def Let_def)

lemma lapic_registers:
  "ucast LAPIC_DIVIDE_REG = (0x3E0 :: u64)" "ucast LAPIC_INITIAL_COUNT_REG = (0x380 :: u64)" "ucast LAPIC_LVT_TIMER_REG = (0x320 :: u64)"
  "LAPIC_LVT_VECTOR OR LAPIC_LVT_PERIODIC = 0x20020" "1000 div TIMER_FREQUENCY_HZ = 10"
  by (simp_all add: LAPIC_DIVIDE_REG_def LAPIC_INITIAL_COUNT_REG_def LAPIC_LVT_TIMER_REG_def LAPIC_LVT_VECTOR_def LAPIC_LVT_PERIODIC_def
      TIMER_FREQUENCY_HZ_def)

text \<open>
  The state behind a calibration that needs \<open>Suc k\<close> readings of the PIT after the first one:
  the accesses to the devices are, in this order, the start of the local timer at its greatest value, the
  programming of the PIT with 0xFB57, the first snapshot, the readings of the PIT, the second
  snapshot with the local timer masked, and the start of the periodic interrupt.
\<close>

definition calibrated :: "nat \<Rightarrow> kern \<Rightarrow> kern" where
  "calibrated k s =
     (let m = kn_machine s; b = lapic_MMIO s; e = 13 + 3 * k;
          start_lapic = lapic_value b m 5; end_lapic = lapic_value b m (e + 1);
          start_tsc = tsc_value m 6; end_tsc = tsc_value m (e + 2);
          per_ms = ucast ((start_lapic - end_lapic) div 10)
      in s\<lparr>kn_timer := (kn_timer s)\<lparr>lapic_ticks_per_ms := per_ms, tsc_freq_hz := (end_tsc - start_tsc) * 100, tsc_boot_time := end_tsc\<rparr>,
           kn_machine := io_logs (
             [Mmio_write (b + 0x3E0) 3, Mmio_write (b + 0x380) 0xFFFFFFFF, Outb 0x43 0x30, Outb 0x40 0x57, Outb 0x40 0xFB,
              Mmio_read (b + 0x390) start_lapic, Rdtsc start_tsc] @
             pit_reading m 7 @ pit_readings m 10 k @
             [Mmio_write (b + 0x320) 0x10000, Mmio_read (b + 0x390) end_lapic, Rdtsc end_tsc,
              Mmio_write (b + 0x320) 0x20020, Mmio_write (b + 0x3E0) 3, Mmio_write (b + 0x380) (ucast (per_ms * 10))]) m\<rparr>)"

text \<open>
  C36: \<open>timer_init\<close> returns exactly when the PIT ever counts 11931 steps, modulo 2 ^ 16, below its first
  value, and it stops at the first reading at which this is so. Then the frequency of the time
  stamp counter and the steps of the local timer per millisecond come from the two snapshots
  before and behind the readings, the timer is programmed for periodic interrupts, and the
  accesses to the devices and their order are exactly those of \<^const>\<open>calibrated\<close>.
\<close>

theorem timer_init_calibrates:
  "timer_init s =
     (if \<exists>k. elapsed (pit_value (kn_machine s) 7) (kn_machine s) (10 + 3 * k)
      then Ok (calibrated (LEAST k. elapsed (pit_value (kn_machine s) 7) (kn_machine s) (10 + 3 * k)) s)
      else Spin)"
proof -
  let ?m = "kn_machine s" let ?P = "\<lambda>k. elapsed (pit_value ?m 7) ?m (10 + 3 * k)"
  let ?es = "[Mmio_write (lapic_MMIO s + 0x3E0) 3, Mmio_write (lapic_MMIO s + 0x380) 0xFFFFFFFF, Outb 0x43 0x30, Outb 0x40 0x57, Outb 0x40 0xFB,
      Mmio_read (lapic_MMIO s + 0x390) (lapic_value (lapic_MMIO s) ?m 5), Rdtsc (tsc_value ?m 6)] @ pit_reading ?m 7"
  note evals = numeral_2_eq_2 [symmetric] timer_init_def Let_def lapic_accesses lapic_registers pit_prepare_writes read_tsc_value pit_read_count_value
  show ?thesis
  proof (cases "\<exists>k. ?P k")
    case False
    then have "pit_wait (pit_value ?m 7) (io_logs ?es ?m) = None"
      using pit_wait_elapsed [of "pit_value ?m 7" "io_logs ?es ?m"] by (cases "pit_wait (pit_value ?m 7) (io_logs ?es ?m)") auto
    then show ?thesis using False by (simp add: evals)
  next
    case True
    let ?k = "LEAST k. ?P k"
    have "?P ?k" using True by (rule LeastI_ex)
    moreover have "\<not> ?P j" if "j < ?k" for j using that by (rule not_less_Least)
    ultimately have "pit_wait (pit_value ?m 7) (io_logs ?es ?m) = Some (io_logs (pit_readings ?m 10 ?k) (io_logs ?es ?m))"
      by (subst pit_wait_returns [of _ _ ?k]) (simp_all add: pit_readings_later)
    then show ?thesis using True by (simp add: evals calibrated_def)
  qed
qed

end
