(* ===== verification/Interrupt_Props.thy ===== *)
theory Interrupt_Props
  imports Timer_Props
begin

text \<open>
  The quantum of the running thread, and what every interrupt keeps: the invariant of the kernel,
  the quanta of the threads and the frames that they continue from.
\<close>

section \<open>The tick\<close>

text \<open>What a tick does to the threads: due sleepers wake, and the running thread uses up its quantum.\<close>

definition tick :: "u64 \<Rightarrow> thread \<Rightarrow> thread" where
  "tick now th = wake_thread now th\<lparr>th_ticks_remaining :=
     (if th_ticks_remaining th = 1 then THREAD_INITIAL_TICKS else th_ticks_remaining th - 1)\<rparr>"

definition ticked :: "u64 \<Rightarrow> layout \<Rightarrow> procs \<Rightarrow> procs \<Rightarrow> bool" where
  "ticked now ts ps ps' \<longleftrightarrow> current ps' = current ps \<and> (\<forall>h. thread_heap ps' h =
     (if h = thread_current ps then map_option (tick now) (thread_heap ps h)
      else if h \<in> set (threads_of ts) then map_option (wake_thread now) (thread_heap ps h) else thread_heap ps h))"

lemma wake_thread_ticks [simp]: "th_ticks_remaining (wake_thread now t) = th_ticks_remaining t" "th_context (wake_thread now t) = th_context t"
  "th_state (wake_thread now t) = THREAD_RUNNING \<longleftrightarrow> th_state t = THREAD_RUNNING"
  by (simp_all add: wake_thread_def)

lemma tick_simps [simp]: "th_next (tick now t) = th_next t" "th_context (tick now t) = th_context t"
  "th_state (tick now t) = THREAD_RUNNING \<longleftrightarrow> th_state t = THREAD_RUNNING"
  by (simp_all add: tick_def)

lemma current_in_threads: "sched_inv ps ts \<Longrightarrow> thread_current ps \<in> set (threads_of ts)"
  using slots_threads by (auto simp: sched_inv_def)

lemma sched_invI:
  assumes "sched_rep s ts" "lock_free (scheduler_lock s)" "current s \<in> set (slots ts)" "thread_current s \<noteq> 0"
    and "\<And>h th. h \<in> set (threads_of ts) \<Longrightarrow> thread_heap s h = Some th \<Longrightarrow> th_state th = THREAD_RUNNING \<Longrightarrow> h = thread_current s"
  shows "sched_inv s ts"
  unfolding sched_inv_def using assms by blast

lemma timer_handler_result:
  assumes inv: "sched_inv (kn_procs s) ts" and now: "timer_get_uptime_ms (kn_timer s) (tsc_value (kn_machine s) 1) = Ok now"
    and cur: "thread_heap (kn_procs s) (thread_current (kn_procs s)) = Some th"
  shows "\<exists>p m. timer_handler context s =
      (let s' = set_kn_procs p (s\<lparr>kn_timer := (kn_timer s)\<lparr>system_ticks := system_ticks (kn_timer s) + 1\<rparr>, kn_machine := m\<rparr>)
       in if th_ticks_remaining th = 1 then kn_schedule context s' else Ok (context, s')) \<and>
    io_trace m = io_trace (kn_machine s) @ [Mmio_write (lapic_MMIO s + 0xB0) 0, Rdtsc (tsc_value (kn_machine s) 1)] \<and> sched_inv p ts \<and> ticked now ts (kn_procs s) p"
proof -
  let ?ps = "kn_procs s" let ?c = "thread_current ?ps"
  let ?tm = "(kn_timer s)\<lparr>system_ticks := system_ticks (kn_timer s) + 1\<rparr>"
  let ?m = "mmio_write (lapic_MMIO s + 0xB0) 0 (kn_machine s)"
  let ?m' = "io_logs [Rdtsc (tsc_value (kn_machine s) 1)] ?m"
  have tsc: "read_tsc ?m = (tsc_value (kn_machine s) 1, ?m')"
    by (simp add: read_tsc_value mmio_write_def)
  have now': "timer_get_uptime_ms ?tm (tsc_value (kn_machine s) 1) = Ok now" using now by (simp add: timer_get_uptime_ms_def)
  have c0: "?c \<noteq> 0" "?c \<in> set (threads_of ts)" "task_list ?ps \<noteq> 0" and rep: "sched_rep ?ps ts" "lock_free (scheduler_lock ?ps)"
    using inv current_in_threads [OF inv] rep_task_list by (auto simp: sched_inv_def)
  from wake_result [OF rep now', of "kn_rflags s"] obtain w where
    w: "scheduler_wake_sleeping_threads ?tm (tsc_value (kn_machine s) 1) ?ps (kn_rflags s) = Ok (kn_rflags s, w)" "sched_rep w ts"
      "lock_free (scheduler_lock w)" "current w = current ?ps"
      "\<forall>h. thread_heap w h = (if h \<in> set (threads_of ts) then map_option (wake_thread now) (thread_heap ?ps h) else thread_heap ?ps h)"
    by auto
  let ?s1 = "s\<lparr>kn_timer := ?tm, kn_machine := ?m'\<rparr>"
  let ?p = "w\<lparr>thread_heap := (thread_heap w)(?c \<mapsto> tick now th)\<rparr>"
  have wake: "kn_wake (lapic_send_EOI (s\<lparr>kn_timer := ?tm\<rparr>)) = Ok (set_kn_procs w ?s1)"
    using c0(3) tsc w(1) by (simp add: kn_wake_def lapic_send_EOI_def lapic_write_def LAPIC_REG_EOI_def set_kn_procs_def set_kn_rflags_def set_kh_rflags_def)
  have wc: "thread_heap w ?c = Some (wake_thread now th)" "thread_current w = ?c" using w(4,5) c0(2) cur by auto
  have run: "timer_handler context s =
      (let s' = set_kn_procs ?p ?s1 in if th_ticks_remaining th = 1 then kn_schedule context s' else Ok (context, s'))"
    using wake wc c0(1)
    by (simp add: timer_handler_def Let_def in_procs_def set_thread_def thread_at_def tick_def)
  have rep': "sched_rep ?p ts" using w(2) wc(1) by (subst sched_rep_cong [of _ w]) auto
  have only: "h = ?c" if h: "h \<in> set (threads_of ts)" "thread_heap ?p h = Some x" "th_state x = THREAD_RUNNING" for h x
  proof (rule ccontr)
    assume ne: "h \<noteq> ?c"
    then have "map_option (wake_thread now) (thread_heap ?ps h) = Some x" using h(1,2) w(5) by simp
    then obtain y where "thread_heap ?ps h = Some y" "th_state y = THREAD_RUNNING" using h(3) by auto
    then show False using h(1) ne inv by (simp add: sched_inv_def)
  qed
  have cur': "current ?p = current ?ps" using w(4) by simp
  have parts: "lock_free (scheduler_lock ?p)" "current ?p \<in> set (slots ts)" "thread_current ?p \<noteq> 0" "thread_current ?p = ?c"
    using w(3) cur' inv by (simp_all add: sched_inv_def)
  have "sched_inv ?p ts" by (rule sched_invI [OF rep' parts(1-3)], subst parts(4), rule only)
  moreover have "ticked now ts ?ps ?p" using w(4,5) cur by (auto simp: ticked_def)
  ultimately show ?thesis using run by (intro exI [of _ ?p] exI [of _ ?m'] conjI) (simp_all add: mmio_write_def)
qed

text \<open>
  C25: a tick of the timer counts, is acknowledged, wakes exactly the due sleepers and uses up one
  of the ticks of the running thread; when that was its last one, its quantum starts anew and the
  scheduler chooses who continues, otherwise the interrupted thread does.
\<close>

theorem timer_handler_quantum:
  assumes "sched_inv (kn_procs s) ts" and "timer_get_uptime_ms (kn_timer s) (tsc_value (kn_machine s) 1) = Ok now"
    and "thread_heap (kn_procs s) (thread_current (kn_procs s)) = Some th"
  shows "\<exists>p m. timer_handler context s =
      (let s' = set_kn_procs p (s\<lparr>kn_timer := (kn_timer s)\<lparr>system_ticks := system_ticks (kn_timer s) + 1\<rparr>, kn_machine := m\<rparr>)
       in if th_ticks_remaining th = 1 then kn_schedule context s' else Ok (context, s')) \<and>
    io_trace m = io_trace (kn_machine s) @ [Mmio_write (lapic_MMIO s + 0xB0) 0, Rdtsc (tsc_value (kn_machine s) 1)] \<and> sched_inv p ts \<and> ticked now ts (kn_procs s) p"
  by (rule timer_handler_result [OF assms])

section \<open>Every interrupt\<close>

text \<open>
  The running kernel: every thread has between one tick and a full quantum left, every thread
  that does not run has a frame to continue from, and the clock is calibrated.
\<close>

definition thread_ok :: "(u64 \<rightharpoonup> cpu_status) \<Rightarrow> u64 \<Rightarrow> u64 \<Rightarrow> thread \<Rightarrow> bool" where
  "thread_ok fs cur h th \<longleftrightarrow> 1 \<le> th_ticks_remaining th \<and> th_ticks_remaining th \<le> THREAD_INITIAL_TICKS \<and>
     (h \<noteq> cur \<longrightarrow> th_context th \<noteq> 0 \<and> th_context th \<in> dom fs)"

definition threads_ok :: "kern \<Rightarrow> layout \<Rightarrow> bool" where
  "threads_ok s ts \<longleftrightarrow> (\<forall>h\<in>set (threads_of ts). \<forall>th. thread_heap (kn_procs s) h = Some th \<longrightarrow>
     thread_ok (kn_contexts s) (thread_current (kn_procs s)) h th)"

definition kern_ok :: "nat \<Rightarrow> u64 set \<Rightarrow> kern \<Rightarrow> area list \<Rightarrow> layout \<Rightarrow> bool" where
  "kern_ok root K s as ts \<longleftrightarrow> kern_inv root K s as ts \<and> threads_ok s ts \<and> tsc_freq_hz (kn_timer s) div 1000 \<noteq> 0 \<and>
     current_vas (kn_vm s) = kernel_vas (kn_vm s)"

lemma kern_ok_procs:
  assumes "kern_ok root K s as ts" "sched_inv p ts" "threads_ok (set_kn_procs p s) ts"
  shows "kern_ok root K (set_kn_procs p s) as ts"
  using assms kern_mem_procs [of root K s as p]
  by (auto simp: kern_ok_def kern_inv_def sched_inv_def) (simp add: set_kn_procs_def)

lemma kern_ok_fields [simp]:
  "kern_ok root K (s\<lparr>kn_machine := m\<rparr>) as ts = kern_ok root K s as ts"
  "kern_ok root K (s\<lparr>kn_timer := (kn_timer s)\<lparr>system_ticks := n\<rparr>\<rparr>) as ts = kern_ok root K s as ts"
  "kern_ok root K (set_kn_rflags rf s) as ts = kern_ok root K s as ts"
  by (simp_all add: kern_ok_def kern_inv_def threads_ok_def) (simp add: set_kn_rflags_def)

lemma kern_ok_frame:
  assumes "kern_ok root K s as ts"
  shows "kern_ok root K (s\<lparr>kn_contexts := (kn_contexts s)(frame \<mapsto> c)\<rparr>) as ts"
  using assms by (auto simp: kern_ok_def kern_inv_def threads_ok_def thread_ok_def)

text \<open>A switch to the next thread.\<close>

definition continues :: "kern \<Rightarrow> u64 \<Rightarrow> bool" where
  "continues s context \<longleftrightarrow> (\<exists>th. thread_heap (kn_procs s) (thread_current (kn_procs s)) = Some th \<and>
     th_state th = THREAD_RUNNING \<and> th_context th = context)"

definition running :: "procs \<Rightarrow> bool" where
  "running ps \<longleftrightarrow> map_option th_state (thread_heap ps (thread_current ps)) = Some THREAD_RUNNING"

lemma kn_schedule_keeps:
  assumes ok: "kern_ok root K s as ts" and frame: "frame \<noteq> 0" "frame \<in> dom (kn_contexts s)"
  shows "(kn_schedule frame s = Spin \<and> \<not> running (kn_procs s)) \<or>
    (\<exists>context s'. kn_schedule frame s = Ok (context, s') \<and> kern_ok root K s' as ts \<and> kn_contexts s' = kn_contexts s \<and>
       context \<noteq> 0 \<and> context \<in> dom (kn_contexts s) \<and> continues s' context)"
proof -
  let ?ps = "kn_procs s" let ?p = "paused frame ?ps"
  have inv: "sched_inv ?ps ts" using ok by (simp add: kern_ok_def kern_inv_def)
  then obtain xs ys where sl: "slots ts = xs @ current ?ps # ys" by (auto simp: sched_inv_def dest: split_list)
  have rep: "sched_rep ?ps ts" "lock_free (scheduler_lock ?ps)" "thread_current ?ps \<noteq> 0" using inv by (simp_all add: sched_inv_def)
  note run = scheduler_schedule_run [OF rep(1,2) sl rep(3), of "kn_rflags s" frame]
  show ?thesis
  proof (cases "find (ready ?p) (ys @ xs @ [current ?ps])")
    case None
    then have "\<not> ready ?p (current ?ps)" by (auto simp: find_None_iff)
    then have "\<not> running ?ps" using rep(3) by (auto simp: ready_def running_def paused_heap pause_current_def)
    then show ?thesis using run None by (simp add: kn_schedule_def)
  next
    case (Some x)
    obtain t h where x: "x = (t, h)" by (cases x)
    let ?q = "resume t h ?p"
    let ?ctx = "th_context (the (thread_heap ?p h))"
    have sch: "scheduler_schedule ?ps (kn_rflags s) frame = Ok (?ctx, kn_rflags s, ?q)" using run Some x by simp
    note keeps = schedule_keeps [OF inv sch]
    have cont: "kn_schedule frame s = Ok (?ctx, set_kn_rflags (kn_rflags s) (set_kn_procs ?q s))"
      using sch by (simp add: kn_schedule_def)
    have hin: "h \<in> set (threads_of ts)" using keeps current_in_threads [of ?q ts] by (simp add: resume_def)
    have tok: "thread_ok (kn_contexts s) (thread_current ?ps) k th" if "k \<in> set (threads_of ts)" "thread_heap ?ps k = Some th" for k th
      using ok that by (simp add: kern_ok_def threads_ok_def)
    have sleepers: "thread_ok (kn_contexts s) h' k th \<and> th_context th \<noteq> 0 \<and> th_context th \<in> dom (kn_contexts s)" if k: "k \<in> set (threads_of ts)" "thread_heap ?p k = Some th" for h' k th
    proof -
      obtain th0 where th0: "thread_heap ?ps k = Some th0" "th = (if k = thread_current ?ps then pause_current frame th0 else th0)"
        using k(2) by (auto simp: paused_heap split: if_splits)
      then show ?thesis using tok [OF k(1) th0(1)] frame by (auto simp: thread_ok_def pause_current_def)
    qed
    obtain hh where hh: "thread_heap ?p h = Some hh" "h \<noteq> 0" using find_SomeD [OF Some] x by (auto simp: ready_def)
    have "thread_ok (kn_contexts s) h k th" if k: "k \<in> set (threads_of ts)" "thread_heap ?q k = Some th" for k th
    proof (cases "k = h")
      case True
      then show ?thesis using k(2) hh(1) sleepers [OF hin hh(1)] by (auto simp: resume_def thread_ok_def)
    next
      case False
      then show ?thesis using sleepers [OF k(1)] k(2) by (simp add: resume_def)
    qed
    then have "threads_ok (set_kn_procs ?q s) ts" unfolding threads_ok_def by (simp add: resume_def)
    then have "kern_ok root K (set_kn_procs ?q s) as ts" using keeps by (intro kern_ok_procs [OF ok]) auto
    moreover have "?ctx \<noteq> 0 \<and> ?ctx \<in> dom (kn_contexts s)" using sleepers [OF hin hh(1)] hh by simp
    moreover have "continues (set_kn_procs ?q s) ?ctx" using keeps by (simp add: continues_def)
    ultimately show ?thesis using cont by (auto simp: continues_def)
  qed
qed

lemma quantum_step:
  assumes "1 \<le> (n :: u64)" "n \<le> THREAD_INITIAL_TICKS"
  shows "1 \<le> (if n = 1 then THREAD_INITIAL_TICKS else n - 1) \<and> (if n = 1 then THREAD_INITIAL_TICKS else n - 1) \<le> THREAD_INITIAL_TICKS"
proof -
  have "n = 1 \<or> n = 2 \<or> n = 3 \<or> n = 4"
    using assms by (simp add: THREAD_INITIAL_TICKS_def word_le_nat_alt word_unat_eq_iff) arith
  then show ?thesis by (auto simp: THREAD_INITIAL_TICKS_def)
qed

lemma ticked_threads_ok:
  assumes ok: "threads_ok s ts" and tick: "ticked now ts (kn_procs s) p"
  shows "threads_ok (set_kn_procs p s) ts"
proof -
  have "thread_ok (kn_contexts s) (thread_current p) h th" if h: "h \<in> set (threads_of ts)" "thread_heap p h = Some th" for h th
  proof -
    let ?c = "thread_current (kn_procs s)"
    have cur: "thread_current p = ?c" using tick by (simp add: ticked_def)
    have "map_option (if h = ?c then tick now else wake_thread now) (thread_heap (kn_procs s) h) = Some th"
      using tick h by (simp add: ticked_def split: if_splits)
    then obtain u where u: "thread_heap (kn_procs s) h = Some u" "th = (if h = ?c then tick now u else wake_thread now u)" by auto
    have "thread_ok (kn_contexts s) ?c h u" using ok h(1) u(1) by (simp add: threads_ok_def)
    then show ?thesis using u(2) quantum_step [of "th_ticks_remaining u"] unfolding cur thread_ok_def by (simp add: tick_def)
  qed
  then show ?thesis by (simp add: threads_ok_def)
qed

lemma ticked_running: "ticked now ts ps p \<Longrightarrow> running p = running ps"
  by (cases "thread_heap ps (thread_current ps)") (simp_all add: ticked_def running_def)

lemma kern_page_fault:
  assumes mem: "kern_mem root K s as" and cur: "current_vas (kn_vm s) = kernel_vas (kn_vm s)"
  shows "on_vm (\<lambda>vm. vmm_page_fault_handler vm v e) s = Halt \<or>
    (\<exists>vm. on_vm (\<lambda>vm. vmm_page_fault_handler vm v e) s = Ok (s\<lparr>kn_vm := vm\<rparr>) \<and> kern_mem root K (s\<lparr>kn_vm := vm\<rparr>) as \<and>
       kh_procs (vm_heap vm) = kn_procs s \<and> current_vas vm = kernel_vas vm)"
proof -
  let ?vm = "kn_vm s" let ?t = "kernel_vas (kn_vm s)"
  have t: "?t = (if v \<ge> VMM_KERNEL_START then kernel_vas ?vm else current_vas ?vm)" using cur by simp
  have inv: "vm_inv root K ?vm ?t as" and root: "map_option pml4_phys (vm_spaces ?vm ?t) = Some (page_to_phys root)"
    using mem by (simp_all add: kern_mem_def)
  show ?thesis
  proof (cases "(\<forall>a\<in>set as. \<not> contains a v) \<or> e AND PAGE_FAULT_PRESENT \<noteq> 0")
    case True
    then show ?thesis using page_fault_stops [OF t inv] by (simp add: on_vm_def)
  next
    case False
    then obtain q b z fl where a: "(q, b, z, fl) \<in> set as" "contains (q, b, z, fl) v" "e AND PAGE_FAULT_PRESENT = 0" by force
    obtain R A where env: "heap_env (vm_heap ?vm) root R A" using inv by (auto simp: vm_inv_def vm_core_def heap_live_def)
    have "\<forall>x. translate (vm_pg ?vm) root v \<noteq> Some (x, True)"
      using env kernel_area_bounds(2) [OF mem a(1,2)] by (simp add: heap_env_def)
    note res = page_fault_result [OF t inv root env a this]
    consider "vmm_page_fault_handler ?vm v e = Halt" | vm where "vmm_page_fault_handler ?vm v e = Ok vm" "vm_inv root K vm ?t as"
      using res by (elim disjE exE conjE) blast+
    then show ?thesis
    proof cases
      case 1
      then show ?thesis by (simp add: on_vm_def)
    next
      case (2 vm)
      note fr = vmm_page_fault_frame [OF 2(1)]
      have "kern_mem root K (s\<lparr>kn_vm := vm\<rparr>) as \<and> kh_procs (vm_heap vm) = kn_procs s"
        using 2(2) vm_frame_root [OF fr] by (intro kern_mem_vm [OF mem fr]) simp
      then show ?thesis
        using 2(1) vm_frame_root [OF fr] fr cur by (intro disjI2 exI [of _ vm]) (simp add: on_vm_def vm_frame_def)
    qed
  qed
qed

text \<open>What a handler may return for the frame it was called with.\<close>

definition handled :: "nat \<Rightarrow> u64 set \<Rightarrow> area list \<Rightarrow> layout \<Rightarrow> u64 \<Rightarrow> kern \<Rightarrow> (u64 \<times> kern) outcome \<Rightarrow> bool" where
  "handled root K as ts frame s r \<longleftrightarrow> (\<exists>context s'. r = Ok (context, s') \<and> kern_ok root K s' as ts \<and> kn_contexts s' = kn_contexts s \<and>
     running (kn_procs s') \<and> context \<noteq> 0 \<and> context \<in> dom (kn_contexts s) \<and>
     (context = frame \<and> current (kn_procs s') = current (kn_procs s) \<or> continues s' context))"

lemma handled_schedule:
  assumes "kern_ok root K s as ts" "frame \<noteq> 0" "frame \<in> dom (kn_contexts s)" "running (kn_procs s)"
  shows "handled root K as ts frame s (kn_schedule frame s)"
  using kn_schedule_keeps [OF assms(1-3)] assms(4) by (auto simp: handled_def continues_def running_def)

lemma handled_timer:
  assumes ok: "kern_ok root K s as ts" and frame: "frame \<noteq> 0" "frame \<in> dom (kn_contexts s)" and run: "running (kn_procs s)"
  shows "handled root K as ts frame s (timer_handler frame s)"
proof -
  have inv: "sched_inv (kn_procs s) ts" and cal: "tsc_freq_hz (kn_timer s) div 1000 \<noteq> 0" and th: "threads_ok s ts"
    using ok by (simp_all add: kern_ok_def kern_inv_def)
  obtain now where now: "timer_get_uptime_ms (kn_timer s) (tsc_value (kn_machine s) 1) = Ok now" using uptime_Ok [OF cal] by blast
  obtain cur where cur: "thread_heap (kn_procs s) (thread_current (kn_procs s)) = Some cur" using current_thread [OF inv] .
  from timer_handler_result [OF inv now cur, of frame] obtain p m where
    res: "timer_handler frame s =
      (let s' = set_kn_procs p (s\<lparr>kn_timer := (kn_timer s)\<lparr>system_ticks := system_ticks (kn_timer s) + 1\<rparr>, kn_machine := m\<rparr>)
       in if th_ticks_remaining cur = 1 then kn_schedule frame s' else Ok (frame, s'))"
    and p: "sched_inv p ts" "ticked now ts (kn_procs s) p" by blast
  let ?s = "s\<lparr>kn_timer := (kn_timer s)\<lparr>system_ticks := system_ticks (kn_timer s) + 1\<rparr>, kn_machine := m\<rparr>"
  have "kern_ok root K ?s as ts" using ok by simp
  moreover have "threads_ok (set_kn_procs p ?s) ts" using ticked_threads_ok [OF _ p(2)] th by (simp add: threads_ok_def)
  ultimately have ok': "kern_ok root K (set_kn_procs p ?s) as ts" using p(1) by (intro kern_ok_procs)
  have run': "running p" "current p = current (kn_procs s)" using ticked_running [OF p(2)] run p(2) by (simp_all add: ticked_def)
  then show ?thesis
    using res handled_schedule [OF ok', of frame] ok' frame by (auto simp: Let_def handled_def split: if_splits)
qed

lemma handled_dispatch:
  assumes ok: "kern_ok root K s as ts" and frame: "frame \<noteq> 0" "kn_contexts s frame = Some c" and run: "running (kn_procs s)"
  shows "(interrupt_handler frame s = Halt \<and> vector_number c = PAGE_FAULT_VECTOR) \<or>
    handled root K as ts frame s (interrupt_handler frame s)"
proof -
  have dom: "frame \<in> dom (kn_contexts s)" using frame(2) by blast
  note at = interrupt_handler_def context_at_def
  have same: "handled root K as ts frame s (Ok (frame, s))" using ok frame dom run by (simp add: handled_def)
  show ?thesis
  proof (cases "vector_number c = PAGE_FAULT_VECTOR")
    case True
    have "kern_mem root K s as" "current_vas (kn_vm s) = kernel_vas (kn_vm s)" using ok by (simp_all add: kern_ok_def kern_inv_def)
    from kern_page_fault [OF this, of "kn_cr2 s" "error_code c"] consider
      "on_vm (\<lambda>vm. vmm_page_fault_handler vm (kn_cr2 s) (error_code c)) s = Halt"
      | vm where "on_vm (\<lambda>vm. vmm_page_fault_handler vm (kn_cr2 s) (error_code c)) s = Ok (s\<lparr>kn_vm := vm\<rparr>)"
        "kern_mem root K (s\<lparr>kn_vm := vm\<rparr>) as" "kh_procs (vm_heap vm) = kn_procs s" "current_vas vm = kernel_vas vm"
      by blast
    then show ?thesis
    proof cases
      case 1
      then show ?thesis using True frame by (simp add: at)
    next
      case (2 vm)
      have "kern_ok root K (s\<lparr>kn_vm := vm\<rparr>) as ts" using ok 2(2-4) by (simp add: kern_ok_def kern_inv_def threads_ok_def)
      then show ?thesis using True frame dom run 2(1,3) by (simp add: at handled_def)
    qed
  next
    case False
    then show ?thesis
      using handled_timer [OF ok frame(1) dom run] handled_schedule [OF ok frame(1) dom run] same frame
      by (simp add: at lapic_spurious_isr_def)
  qed
qed

text \<open>
  C8: the running kernel stays well-formed under every interrupt: memory, tasks and threads keep
  their invariant, every thread keeps between one tick and a full quantum, every thread that does
  not run has a frame to continue from, and the processor continues either the interrupted
  thread from the frame that was pushed or the thread that the scheduler made running from the
  frame it had saved, with the flags of that frame. Only a page fault can stop the kernel.
\<close>

theorem interrupt_keeps_kernel:
  assumes "kern_ok root K s as ts" and "frame \<noteq> 0" and "running (kn_procs s)"
  shows "(interrupt frame c s = Halt \<and> vector_number c = PAGE_FAULT_VECTOR) \<or>
    (\<exists>context s' c'. interrupt frame c s = Ok (context, s') \<and> kern_ok root K s' as ts \<and> running (kn_procs s') \<and>
       kn_contexts s' = (kn_contexts s)(frame \<mapsto> c) \<and> kn_contexts s' context = Some c' \<and> kn_rflags s' = st_rflags c' \<and>
       (context = frame \<and> current (kn_procs s') = current (kn_procs s) \<or> continues s' context))"
proof -
  let ?s = "set_kn_rflags (kn_rflags s AND NOT RFLAGS_IF) (s\<lparr>kn_contexts := (kn_contexts s)(frame \<mapsto> c)\<rparr>)"
  have ok: "kern_ok root K ?s as ts" using kern_ok_frame [OF assms(1)] by simp
  have ctx: "kn_contexts ?s frame = Some c" and procs: "kn_procs ?s = kn_procs s" by simp_all
  from handled_dispatch [OF ok assms(2) ctx] assms(3) procs consider
    "interrupt_handler frame ?s = Halt" "vector_number c = PAGE_FAULT_VECTOR"
    | "handled root K as ts frame ?s (interrupt_handler frame ?s)" by auto
  then show ?thesis
  proof cases
    case 1
    then show ?thesis by (simp add: interrupt_def Let_def)
  next
    case 2
    then obtain k s' where res: "interrupt_handler frame ?s = Ok (k, s')" "kern_ok root K s' as ts"
        "kn_contexts s' = (kn_contexts s)(frame \<mapsto> c)" "running (kn_procs s')" "k \<noteq> 0" "k \<in> dom (kn_contexts s')"
        "k = frame \<and> current (kn_procs s') = current (kn_procs s) \<or> continues s' k"
      by (auto simp: handled_def)
    then obtain c' where c': "kn_contexts s' k = Some c'" by blast
    have "interrupt frame c s = Ok (k, set_kn_rflags (st_rflags c') s')"
      using res(1,5) c' by (simp add: interrupt_def Let_def context_at_def)
    then show ?thesis using res(2-4,7) c' by (auto simp: continues_def)
  qed
qed

end
