(* ===== verification/Kern_Demo.thy ===== *)
theory Kern_Demo
  imports Interrupt_Props
begin

text \<open>
  A small running kernel on which the properties of tasks, threads and interrupts are evaluated:
  the idle task with its running thread and a second task with two threads, whose stacks are two
  areas of the kernel's address space. All structures are blocks of the heap.
\<close>

section \<open>The kernel\<close>

abbreviation idle_addr :: u64 where "idle_addr \<equiv> 0xFFFFFFFF80200088"
abbreviation idle_thread_addr :: u64 where "idle_thread_addr \<equiv> 0xFFFFFFFF802000E0"
abbreviation task_addr :: u64 where "task_addr \<equiv> 0xFFFFFFFF80200138"
abbreviation first_addr :: u64 where "first_addr \<equiv> 0xFFFFFFFF80200190"
abbreviation second_addr :: u64 where "second_addr \<equiv> 0xFFFFFFFF802001E8"

abbreviation live_layout :: layout where
  "live_layout \<equiv> [(idle_addr, [idle_thread_addr]), (task_addr, [first_addr, second_addr])]"

abbreviation live_areas :: "area list" where
  "live_areas \<equiv> [(0xFFFFFFFF80200018, 0xFFFFC00000000000, 0x4000, 0x13), (0xFFFFFFFF80200050, 0xFFFFC00000004000, 0x4000, 0x13)]"

abbreviation live_blocks :: "u64 set" where
  "live_blocks \<equiv> {idle_addr, idle_thread_addr, task_addr, first_addr, second_addr}"

definition live_thread :: "u64 \<Rightarrow> u64 \<Rightarrow> thread_state \<Rightarrow> u64 \<Rightarrow> u64 \<Rightarrow> thread" where
  "live_thread tid frame st n nx = \<lparr>th_tid = tid, th_context = frame, th_state = st, th_ticks_remaining = n, th_wake_time = 0,
     th_next = nx, th_next_waiter = 0\<rparr>"

text \<open>The states of the two threads, and the ticks that the idle thread has left.\<close>

definition live_procs :: "thread_state \<Rightarrow> thread_state \<Rightarrow> u64 \<Rightarrow> procs" where
  "live_procs st1 st2 n = \<lparr>
     thread_heap = [idle_thread_addr \<mapsto> live_thread 0 0 THREAD_RUNNING n idle_thread_addr,
       first_addr \<mapsto> live_thread 1 0xFFFFC00000003F40 st1 4 second_addr,
       second_addr \<mapsto> live_thread 2 0xFFFFC00000007F40 st2 4 first_addr],
     task_heap = [idle_addr \<mapsto> \<lparr>tk_pid = 0, tk_name = [], tk_vas = 0x5000, tk_threads = idle_thread_addr, tk_next = task_addr\<rparr>,
       task_addr \<mapsto> \<lparr>tk_pid = 1, tk_name = [], tk_vas = 0x5000, tk_threads = first_addr, tk_next = idle_addr\<rparr>],
     task_current = idle_addr, thread_current = idle_thread_addr, task_list = idle_addr, scheduler_lock = SPINLOCK_IRQ_INIT,
     next_pid = 2, next_tid = 3\<rparr>"

definition live_heap :: "procs \<Rightarrow> kheap" where
  "live_heap ps = kheap_demo\<lparr>kh_procs := ps, kh_nodes :=
     [0xFFFFFFFF80200000 \<mapsto> \<lparr>nd_size = 32, isFree = False, nd_next = 0xFFFFFFFF80200038\<rparr>,
      0xFFFFFFFF80200038 \<mapsto> \<lparr>nd_size = 32, isFree = False, nd_next = 0xFFFFFFFF80200070\<rparr>,
      0xFFFFFFFF80200070 \<mapsto> \<lparr>nd_size = 64, isFree = False, nd_next = 0xFFFFFFFF802000C8\<rparr>,
      0xFFFFFFFF802000C8 \<mapsto> \<lparr>nd_size = 64, isFree = False, nd_next = 0xFFFFFFFF80200120\<rparr>,
      0xFFFFFFFF80200120 \<mapsto> \<lparr>nd_size = 64, isFree = False, nd_next = 0xFFFFFFFF80200178\<rparr>,
      0xFFFFFFFF80200178 \<mapsto> \<lparr>nd_size = 64, isFree = False, nd_next = 0xFFFFFFFF802001D0\<rparr>,
      0xFFFFFFFF802001D0 \<mapsto> \<lparr>nd_size = 64, isFree = False, nd_next = 0xFFFFFFFF80200228\<rparr>,
      0xFFFFFFFF80200228 \<mapsto> \<lparr>nd_size = 3520, isFree = True, nd_next = 0\<rparr>]\<rparr>"

definition live_vmm :: "procs \<Rightarrow> vmm" where
  "live_vmm ps = \<lparr>vm_heap = live_heap ps,
     vm_areas = [0xFFFFFFFF80200018 \<mapsto> \<lparr>va_base = 0xFFFFC00000000000, va_size = 0x4000, va_flags = 0x13, va_next = 0xFFFFFFFF80200050\<rparr>,
       0xFFFFFFFF80200050 \<mapsto> \<lparr>va_base = 0xFFFFC00000004000, va_size = 0x4000, va_flags = 0x13, va_next = 0\<rparr>],
     vm_spaces = [0x5000 \<mapsto> \<lparr>pml4_phys = 0x1000, region_list = 0xFFFFFFFF80200018, vas_lock = SPINLOCK_IRQ_INIT\<rparr>],
     kernel_vas = 0x5000, current_vas = 0x5000\<rparr>"

definition kern_demo :: "thread_state \<Rightarrow> thread_state \<Rightarrow> u64 \<Rightarrow> kern" where
  "kern_demo st1 st2 n = \<lparr>kn_vm = live_vmm (live_procs st1 st2 n), kn_timer = timer_demo, kn_machine = machine_demo,
     kn_contexts = [0xFFFFC00000003F40 \<mapsto> initial_status 0x1000 0xFFFFC00000003FF8,
       0xFFFFC00000007F40 \<mapsto> initial_status 0x1000 0xFFFFC00000007FF8],
     kn_words = Map.empty, kn_cr2 = 0, lapic_MMIO = 0xFFFFC00000008000\<rparr>"

section \<open>Its invariant\<close>

abbreviation live_list :: blocks where
  "live_list \<equiv> [(32, False), (32, False), (64, False), (64, False), (64, False), (64, False), (64, False), (3520, True)]"

lemma live_heap_ok: "heap_ok (live_heap ps) live_list"
  by (simp add: live_heap_def heap_ok_def heap_rep_def heap_unlocked_def mutex_queue_def kheap_demo_def MUTEX_INIT_def first_at_def)

lemma live_heap_env: "heap_env (live_heap ps) 1 {2..<8} {(1, 0)}"
  using kheap_demo_env by (simp add: live_heap_def heap_env_def)

abbreviation live_offsets :: "(nat \<times> nat) list" where
  "live_offsets \<equiv> [(0, 32), (56, 32), (112, 64), (200, 64), (288, 64), (376, 64), (464, 64)]"

abbreviation live_sizes :: "u64 \<rightharpoonup> nat" where
  "live_sizes \<equiv> map_of (map (\<lambda>(off, n). (of_nat (0xFFFFFFFF80200018 + off), n)) live_offsets)"

lemma pair_in_map: "(p, n) \<in> set (map (\<lambda>(off, n). (g off, n)) ys) \<longleftrightarrow> (\<exists>off. (off, n) \<in> set ys \<and> p = g off)"
  by force

lemma live_heap_live: "heap_live 1 (live_heap ps) live_sizes"
proof -
  have used: "used 0 live_list = set live_offsets" by (simp, fast)
  have start: "of_nat (unat (kheap_start (live_heap ps)) + off + 24) = (of_nat (0xFFFFFFFF80200018 + off) :: u64)" for off
    by (simp add: live_heap_def kheap_demo_def)
  have "distinct (map fst (map (\<lambda>(off, n). (of_nat (0xFFFFFFFF80200018 + off) :: u64, n)) live_offsets))" by simp
  from map_of_eq_Some_iff [OF this] have "lives (live_heap ps) live_list live_sizes"
    unfolding lives_def used start pair_in_map by (intro allI)
  then show ?thesis using live_heap_ok live_heap_env unfolding heap_live_def by blast
qed

lemma live_vmm_inv: "vm_inv 1 live_blocks (live_vmm ps) 0x5000 live_areas"
proof -
  have "search_bounds (live_vmm ps) 0x5000 = (VMM_KERNEL_START, VMM_KERNEL_END)" by (simp add: search_bounds_def live_vmm_def)
  then have "laid (unat (fst (search_bounds (live_vmm ps) 0x5000))) live_areas" by (simp add: VMM_KERNEL_START_def)
  moreover have "\<exists>L. heap_live 1 (live_heap ps) L \<and> fst ` set live_areas \<union> live_blocks \<subseteq> dom L"
    using live_heap_live by (intro exI [of _ live_sizes]) auto
  ultimately show ?thesis by (simp add: vm_inv_def vm_core_def space_lock_def) (simp add: live_vmm_def)
qed

lemma live_slots: "slots live_layout = [] @ (idle_addr, idle_thread_addr) # [(task_addr, first_addr), (task_addr, second_addr)]"
  by (simp add: task_slots_def)

lemma live_sched:
  assumes "st1 \<noteq> THREAD_RUNNING" "st2 \<noteq> THREAD_RUNNING"
  shows "sched_inv (live_procs st1 st2 n) live_layout"
proof (rule sched_invI)
  show "sched_rep (live_procs st1 st2 n) live_layout" by (simp add: sched_rep_def live_procs_def threads_of_def live_thread_def)
  show "h = thread_current (live_procs st1 st2 n)"
    if "h \<in> set (threads_of live_layout)" "thread_heap (live_procs st1 st2 n) h = Some th" "th_state th = THREAD_RUNNING" for h th
    using that assms by (auto simp: live_procs_def threads_of_def live_thread_def split: if_splits)
qed (simp_all add: live_procs_def task_slots_def lock_free_def SPINLOCK_IRQ_INIT_def)

lemma kern_demo_fields [simp]:
  "kn_procs (kern_demo st1 st2 n) = live_procs st1 st2 n" "kn_vm (kern_demo st1 st2 n) = live_vmm (live_procs st1 st2 n)"
  "kn_heap (kern_demo st1 st2 n) = live_heap (live_procs st1 st2 n)" "kernel_vas (live_vmm ps) = 0x5000" "kn_pg (kern_demo st1 st2 n) = paging_demo"
  "kn_timer (kern_demo st1 st2 n) = timer_demo" "kn_machine (kern_demo st1 st2 n) = machine_demo"
  "vm_heap (live_vmm ps) = live_heap ps" "kh_pg (live_heap ps) = paging_demo" "kh_procs (live_heap ps) = ps" "current_vas (live_vmm ps) = 0x5000"
  by (simp_all add: kern_demo_def live_vmm_def live_heap_def kheap_demo_def)

lemma kern_demo_mem: "kern_mem 1 live_blocks (kern_demo st1 st2 n) live_areas"
proof -
  have "frame_of (cr3 paging_demo) = 1" by (simp add: paging_demo_def frame_of_def PAGING_PTE_ADDR_MASK_def PAGING_PAGE_SIZE_def)
  moreover have "lock_free (scheduler_lock (live_procs st1 st2 n))" by (simp add: live_procs_def lock_free_def SPINLOCK_IRQ_INIT_def)
  moreover have "map_option pml4_phys (vm_spaces (live_vmm (live_procs st1 st2 n)) 0x5000) = Some (page_to_phys 1)"
    by (simp add: live_vmm_def page_to_phys_def PMM_PAGE_SIZE_def)
  ultimately show ?thesis using live_vmm_inv by (simp add: kern_mem_def)
qed

lemma kern_demo_inv:
  assumes "st1 \<noteq> THREAD_RUNNING" "st2 \<noteq> THREAD_RUNNING"
  shows "kern_inv 1 live_blocks (kern_demo st1 st2 n) live_areas live_layout"
  using kern_demo_mem live_sched [OF assms] by (simp add: kern_inv_def threads_of_def)

lemma kern_demo_ok:
  assumes "st1 \<noteq> THREAD_RUNNING" "st2 \<noteq> THREAD_RUNNING" "1 \<le> n" "n \<le> 4"
  shows "kern_ok 1 live_blocks (kern_demo st1 st2 n) live_areas live_layout"
proof -
  have "threads_ok (kern_demo st1 st2 n) live_layout"
    using assms(3,4) by (simp add: threads_ok_def thread_ok_def threads_of_def live_procs_def live_thread_def kern_demo_def THREAD_INITIAL_TICKS_def
        live_vmm_def live_heap_def kheap_demo_def)
  then show ?thesis using kern_demo_inv [OF assms(1,2)] by (simp add: kern_ok_def timer_demo_def)
qed

section \<open>Its memory\<close>

lemma fit_room:
  assumes "heap_ok h bs" "heap_env h root R A" "first_fit (unat (round_size z)) bs \<noteq> None"
  shows "heap_room root h z"
  unfolding heap_room_def exhausted_def using assms by (intro exI [of _ bs] exI [of _ R] exI [of _ A]) simp

lemma fit_malloc:
  assumes "heap_ok h bs" "heap_env h root R A" "first_fit (unat (round_size z)) bs = Some (off, bs')" "kmalloc h z = Ok (p, h')"
  shows "heap_ok h' bs'" "heap_env h' root R A"
  using kmalloc_fit [OF assms(1,3)] assms(2,4) by (auto simp: same_heap_def heap_env_def)

lemma round_sizes:
  "unat (round_size sizeof_task) = 64" "unat (round_size sizeof_thread) = 64" "unat (round_size sizeof_vm_area) = 32"
  by (simp_all add: round_size_def KHEAP_BLOCK_SIZE_def sizeof_task_def sizeof_thread_def sizeof_vm_area_def)

abbreviation live_rest :: blocks where
  "live_rest \<equiv> [(32, False), (32, False), (64, False), (64, False), (64, False), (64, False), (64, False), (64, False), (3432, True)]"

lemma live_fits: "first_fit 64 live_list = Some (552, live_rest)" "first_fit 32 live_rest \<noteq> None" "first_fit 64 live_rest \<noteq> None"
  "\<exists>off bs. first_fit 32 live_rest = Some (off, bs)"
  by (simp_all add: split_free_def)

lemma live_room: "heap_room 1 (live_heap ps) sizeof_task" "heap_room 1 (live_heap ps) sizeof_thread"
  by (rule fit_room [OF live_heap_ok live_heap_env], simp add: round_sizes live_fits)+

text \<open>Behind a first block of 64 bytes there is room for another one and for the structure of an area.\<close>

lemma live_malloc:
  assumes "in_vm (\<lambda>vm. vm_kmalloc vm z) (kern_demo st1 st2 n) = Ok (p, s1)" "unat (round_size z) = 64"
  shows "heap_ok (kn_heap s1) live_rest" "heap_env (kn_heap s1) 1 {2..<8} {(1, 0)}"
    "heap_room 1 (kn_heap s1) sizeof_thread" "heap_room 1 (kn_heap s1) sizeof_vm_area"
proof -
  obtain h where h: "kmalloc (live_heap (live_procs st1 st2 n)) z = Ok (p, h)" "kn_heap s1 = h"
    using assms(1) by (auto simp: in_vm_def vm_kmalloc_def elim!: obind_OkE)
  note fit = fit_malloc [OF live_heap_ok live_heap_env _ h(1), unfolded assms(2), OF live_fits(1)]
  show "heap_ok (kn_heap s1) live_rest" "heap_env (kn_heap s1) 1 {2..<8} {(1, 0)}" using fit h(2) by simp_all
  show "heap_room 1 (kn_heap s1) sizeof_thread" "heap_room 1 (kn_heap s1) sizeof_vm_area"
    unfolding h(2) by (rule fit_room [OF fit], unfold round_sizes, rule live_fits)+
qed

section \<open>Creating tasks and threads\<close>

theorem task_create_appends_witness:
  "\<exists>p s'. task_create (Some [0x41]) (kern_demo THREAD_READY THREAD_READY 4) = Ok (p, s') \<and> p \<notin> live_blocks \<and>
     kern_inv 1 (insert p live_blocks) s' live_areas (live_layout @ [(p, [])]) \<and> map_option tk_pid (task_heap (kn_procs s') p) = Some 2"
proof -
  have inv: "kern_inv 1 live_blocks (kern_demo THREAD_READY THREAD_READY 4) live_areas live_layout" by (rule kern_demo_inv) simp_all
  have nm: "length [0x41 :: u8] < 32" by simp
  have pid: "next_pid (live_procs THREAD_READY THREAD_READY 4) = 2" by (simp add: live_procs_def)
  have room: "heap_room 1 (kn_heap (kern_demo THREAD_READY THREAD_READY 4)) sizeof_task" using live_room(1) by simp
  from task_create_appends [OF inv nm] obtain p s' where
    "task_create (Some [0x41]) (kern_demo THREAD_READY THREAD_READY 4) = Ok (p, s')" "p \<notin> live_blocks"
    "kern_inv 1 (insert p live_blocks) s' live_areas (live_layout @ [(p, [])])"
    "map_option tk_pid (task_heap (kn_procs s') p) = Some 2"
    using room pid by (elim disjE exE conjE) auto
  then show ?thesis by blast
qed

theorem task_create_null_name_witness: "task_create None (kern_demo THREAD_READY THREAD_READY 4) = Fault"
  by (rule task_create_null_name [OF kern_demo_mem], unfold kern_demo_fields, rule live_room)

lemma live_scheduler_memory:
  "heap_room 1 (kn_heap (kern_demo st1 st2 n)) sizeof_task"
  "in_vm (\<lambda>vm. vm_kmalloc vm sizeof_task) (kern_demo st1 st2 n) = Ok (p, s1) \<Longrightarrow> heap_room 1 (kn_heap s1) sizeof_thread"
  unfolding kern_demo_fields by (rule live_room, erule live_malloc(3) [OF _ round_sizes(1)])

theorem scheduler_init_establishes_witness:
  "\<exists>idle th s'. scheduler_init (kern_demo THREAD_READY THREAD_READY 4) = Ok s' \<and>
     kern_inv 1 ({idle, th} \<union> live_blocks) s' live_areas [(idle, [th])] \<and> current (kn_procs s') = (idle, th)"
proof -
  let ?s = "kern_demo THREAD_READY THREAD_READY 4"
  show ?thesis
    using scheduler_init_establishes [OF kern_demo_mem, of THREAD_READY THREAD_READY 4]
  proof (elim disjE exE conjE)
    fix idle th s'
    assume "scheduler_init ?s = Ok s'" "kern_inv 1 ({idle, th} \<union> live_blocks) s' live_areas [(idle, [th])]" "current (kn_procs s') = (idle, th)"
    then show ?thesis by (intro exI [of _ idle] exI [of _ th] exI [of _ s'] conjI)
  next
    fix p s1 assume "in_vm (\<lambda>vm. vm_kmalloc vm sizeof_task) ?s = Ok (p, s1)" "\<not> heap_room 1 (kn_heap s1) sizeof_thread"
    then show ?thesis using live_scheduler_memory(2) by (elim notE)
  qed (use live_scheduler_memory(1) in \<open>elim notE\<close>)
qed

lemma live_thread_memory: "\<not> thread_memory_short 1 (kern_demo st1 st2 n) live_areas"
proof -
  let ?s = "kern_demo st1 st2 n"
  have fl: "area_flags vm space 0x13 = 0x13" "anonymous 0x13" for vm space
    by (simp_all add: area_flags_def anonymous_def VMM_FLAGS_USER_def VMM_FLAGS_MMIO_def VMM_FLAGS_ANON_def)
  have later: "\<not> no_area 1 s1 live_areas \<and> (\<forall>b s2. in_vm (\<lambda>vm. vmm_alloc vm (vmm_get_kernel_vas vm) THREAD_INITIAL_STACK_SIZE 0x13 0) s1 = Ok (b, s2) \<longrightarrow>
      \<not> starved 1 s2)" if m: "in_vm (\<lambda>vm. vm_kmalloc vm sizeof_thread) ?s = Ok (p, s1)" for p s1
  proof (intro conjI allI impI)
    note mal = live_malloc [OF m round_sizes(2)]
    show "\<not> no_area 1 s1 live_areas" using mal(4) by (simp add: no_area_def VMM_KERNEL_END_def)
    fix b s2 assume a: "in_vm (\<lambda>vm. vmm_alloc vm (vmm_get_kernel_vas vm) THREAD_INITIAL_STACK_SIZE 0x13 0) s1 = Ok (b, s2)"
    obtain K where "kern_mem 1 K s1 live_areas" using kern_malloc [OF kern_demo_mem, of sizeof_thread st1 st2 n] m by auto
    then have inv: "vm_inv 1 K (kn_vm s1) (kernel_vas (kn_vm s1)) live_areas" by (simp add: kern_mem_def)
    obtain vm where vm: "vmm_alloc (kn_vm s1) (kernel_vas (kn_vm s1)) THREAD_INITIAL_STACK_SIZE 0x13 0 = Ok (b, vm)" "kn_vm s2 = vm"
      using a by (auto simp: in_vm_def vmm_get_kernel_vas_def elim!: obind_OkE)
    have "heap_env (vm_heap vm) 1 {2..<8} {(1, 0)}"
    proof (rule vmm_alloc_env [OF inv vm(1) _ mal(2)])
      show "anonymous (area_flags (kn_vm s1) (kernel_vas (kn_vm s1)) 0x13)" using fl by simp
      fix q h assume k: "kmalloc (set_kh_rflags (kn_rflags s1 AND NOT RFLAGS_IF) (kn_heap s1)) sizeof_vm_area = Ok (q, h)"
      have ok: "heap_ok (set_kh_rflags (kn_rflags s1 AND NOT RFLAGS_IF) (kn_heap s1)) live_rest"
        using mal(1) by (simp add: heap_ok_def heap_rep_def heap_unlocked_def set_kh_rflags_def)
      from live_fits(4) obtain off bs where "first_fit (unat (round_size sizeof_vm_area)) live_rest = Some (off, bs)" unfolding round_sizes by blast
      from fit_malloc(2) [OF ok _ this k] show "heap_env h 1 {2..<8} {(1, 0)}" using mal(2) by simp
    qed
    moreover have "\<not> card {2..<8 :: nat} < 4" by simp
    ultimately show "\<not> starved 1 s2" using vm(2) unfolding starved_def by blast
  qed
  have "heap_room 1 (kn_heap ?s) sizeof_thread" using live_room(2) by simp
  then show ?thesis unfolding thread_memory_short_def using later by blast
qed

theorem task_create_thread_appends_witness:
  "\<exists>p s' as base. task_create_thread 0x2000 task_addr 0x1000 (kern_demo THREAD_READY THREAD_READY 4) = Ok (p, s') \<and> p \<noteq> 0 \<and>
     thread_started 1 live_blocks (kern_demo THREAD_READY THREAD_READY 4) [(idle_addr, [idle_thread_addr])] task_addr [first_addr, second_addr] []
       p 0x1000 0x2000 base as s'"
proof -
  let ?s = "kern_demo THREAD_READY THREAD_READY 4"
  have "kern_inv 1 live_blocks ?s live_areas ([(idle_addr, [idle_thread_addr])] @ (task_addr, [first_addr, second_addr]) # [])"
    using kern_demo_inv [of THREAD_READY THREAD_READY 4] by simp
  moreover have "page_areas live_areas" "(0x1000 :: u64) \<noteq> 0" "top_of (unat VMM_KERNEL_START) live_areas + 0x4000 < 2 ^ 64" by simp_all
  note created = task_create_thread_appends [OF calculation this, of "0x2000"]
  then show ?thesis
  proof (elim disjE exE conjE)
    fix p s' as1 as2 new base
    assume "task_create_thread 0x2000 task_addr 0x1000 ?s = Ok (p, s')" "p \<noteq> 0"
      "thread_started 1 live_blocks ?s [(idle_addr, [idle_thread_addr])] task_addr [first_addr, second_addr] [] p 0x1000 0x2000 base
        (as1 @ (new, base, 0x4000, 0x13) # as2) s'"
    then show ?thesis by (intro exI [of _ p] exI [of _ s'] exI [of _ "as1 @ (new, base, 0x4000, 0x13) # as2"] exI [of _ base] conjI)
  qed (use live_thread_memory [of THREAD_READY THREAD_READY 4] in \<open>iprover+\<close>)
qed

section \<open>Reaping\<close>

lemma live_threads:
  "thread_heap (live_procs st1 st2 n) first_addr = Some (live_thread 1 0xFFFFC00000003F40 st1 4 second_addr)"
  "thread_heap (live_procs st1 st2 n) second_addr = Some (live_thread 2 0xFFFFC00000007F40 st2 4 first_addr)"
  "thread_heap (live_procs st1 st2 n) idle_thread_addr = Some (live_thread 0 0 THREAD_RUNNING n idle_thread_addr)"
  "current (live_procs st1 st2 n) = (idle_addr, idle_thread_addr)" "thread_current (live_procs st1 st2 n) = idle_thread_addr"
  by (simp_all add: live_procs_def)

lemma live_frames:
  "kn_contexts (kern_demo st1 st2 n) 0xFFFFC00000003F40 = Some (initial_status 0x1000 0xFFFFC00000003FF8)"
  "kn_contexts (kern_demo st1 st2 n) 0xFFFFC00000007F40 = Some (initial_status 0x1000 0xFFFFC00000007FF8)"
  by (simp_all add: kern_demo_def)

lemma live_stack:
  "stack_pages 1 (kern_demo st1 st2 n) (0xFFFFFFFF80200050, 0xFFFFC00000004000, 0x4000, 0x13) {2..<8} {(1, 0)} (\<lambda>_. None) 4"
proof -
  have "leaf_clear paging_demo 1 v" for v unfolding leaf_clear_def demo_walk by (simp split: prod.splits)
  then have "owned paging_demo 1 {(1, 0)} v None" for v using demo_translate by (simp add: owned_def)
  moreover have "unat (kheap_end (live_heap ps)) + 4096 * (card {2..<8 :: nat} + 4 + 256) < 2 ^ 64" for ps
    by (simp add: live_heap_def kheap_demo_def)
  ultimately show ?thesis using live_heap_env unfolding stack_pages_def kern_demo_fields by (simp add: VMM_FLAGS_MMIO_def)
qed

theorem idle_round_reaps_witness:
  "\<exists>s'. idle_round (kern_demo THREAD_READY THREAD_ZOMBIE 4) = Ok (second_addr, s') \<and>
     kern_inv 1 (live_blocks - {second_addr}) s' [(0xFFFFFFFF80200018, 0xFFFFC00000000000, 0x4000, 0x13)]
       [(idle_addr, [idle_thread_addr]), (task_addr, [first_addr])]"
proof -
  let ?s = "kern_demo THREAD_READY THREAD_ZOMBIE 4" let ?ps = "live_procs THREAD_READY THREAD_ZOMBIE 4"
  have inv: "kern_inv 1 live_blocks ?s ([(0xFFFFFFFF80200018, 0xFFFFC00000000000, 0x4000, 0x13)] @ (0xFFFFFFFF80200050, 0xFFFFC00000004000, 0x4000, 0x13) # [])
      live_layout" using kern_demo_inv [of THREAD_READY THREAD_ZOMBIE 4] by simp
  have z: "find (zombie (kn_procs ?s)) (reap_candidates live_layout) = Some second_addr" "thread_current (kn_procs ?s) \<noteq> second_addr"
    by (simp_all add: zombie_def reap_order_def live_threads live_thread_def)
  have vas: "\<forall>t\<in>fst ` set live_layout. map_option tk_vas (task_heap (kn_procs ?s) t) = Some (kernel_vas (kn_vm ?s))"
    by (simp add: live_procs_def)
  have th: "thread_heap (kn_procs ?s) second_addr = Some (live_thread 2 0xFFFFC00000007F40 THREAD_ZOMBIE 4 first_addr)"
      "th_context (live_thread 2 0xFFFFC00000007F40 THREAD_ZOMBIE 4 first_addr) \<noteq> 0"
      "kn_contexts ?s (th_context (live_thread 2 0xFFFFC00000007F40 THREAD_ZOMBIE 4 first_addr)) = Some (initial_status 0x1000 0xFFFFC00000007FF8)"
    by (simp_all add: live_threads live_frames) (simp_all add: live_thread_def live_frames)
  have st: "contains (0xFFFFFFFF80200050, 0xFFFFC00000004000, 0x4000, 0x13) (rsp (initial_status 0x1000 0xFFFFC00000007FF8))"
    by (simp add: contains_def initial_status_def)
  from idle_round_reaps [OF inv z vas th st live_stack] obtain s' xs t hs ys where
    s': "idle_round ?s = Ok (second_addr, s')" "live_layout = xs @ (t, hs) # ys" "second_addr \<in> set hs"
      "kern_inv 1 (live_blocks - {second_addr}) s' ([(0xFFFFFFFF80200018, 0xFFFFC00000000000, 0x4000, 0x13)] @ []) (xs @ (t, remove1 second_addr hs) # ys)"
    by blast
  have "xs @ (t, remove1 second_addr hs) # ys = [(idle_addr, [idle_thread_addr]), (task_addr, [first_addr])]"
    using s'(2,3) by (cases xs; cases "tl xs") auto
  then show ?thesis using s'(1,4) by (intro exI [of _ s']) simp
qed

theorem idle_round_misses_first_witness:
  "\<exists>s'. idle_round (kern_demo THREAD_ZOMBIE THREAD_READY 4) = Ok (0, s') \<and> zombie (kn_procs s') first_addr"
proof -
  let ?s = "kern_demo THREAD_ZOMBIE THREAD_READY 4"
  have "sched_inv (kn_procs ?s) ([(idle_addr, [idle_thread_addr])] @ (task_addr, [first_addr, second_addr]) # [])"
    using live_sched [of THREAD_ZOMBIE THREAD_READY 4] by simp
  moreover have "zombie (kn_procs ?s) first_addr" by (simp add: zombie_def live_threads live_thread_def)
  moreover have "\<forall>h\<in>set (threads_of ([(idle_addr, [idle_thread_addr])] @ (task_addr, [first_addr, second_addr]) # [])) - {first_addr}.
      \<not> zombie (kn_procs ?s) h" by (auto simp: zombie_def threads_of_def live_threads live_thread_def)
  ultimately show ?thesis using idle_round_misses_first [of ?s "[(idle_addr, [idle_thread_addr])]"] by blast
qed

section \<open>Leaving the processor\<close>

lemma live_next:
  "find (ready (live_procs THREAD_SLEEPING THREAD_READY n)) ([(task_addr, first_addr), (task_addr, second_addr)] @ []) = Some (task_addr, second_addr)"
  by (simp add: ready_def live_threads live_thread_def)

theorem thread_exit_switches_witness:
  "\<exists>s'. task_current_thread_exit 0x8000 (initial_status 0 0) (kern_demo THREAD_SLEEPING THREAD_READY 4) = Ok (0xFFFFC00000007F40, s') \<and>
     current (kn_procs s') = (task_addr, second_addr) \<and> zombie (kn_procs s') idle_thread_addr"
proof -
  let ?s = "kern_demo THREAD_SLEEPING THREAD_READY 4"
  have inv: "sched_inv (kn_procs ?s) live_layout" using live_sched [of THREAD_SLEEPING THREAD_READY 4] by simp
  have sl: "slots live_layout = [] @ current (kn_procs ?s) # [(task_addr, first_addr), (task_addr, second_addr)]"
    using live_slots live_threads(4) by simp
  have th: "find (ready (kn_procs ?s)) ([(task_addr, first_addr), (task_addr, second_addr)] @ []) = Some (task_addr, second_addr)"
      "thread_heap (kn_procs ?s) second_addr = Some (live_thread 2 0xFFFFC00000007F40 THREAD_READY 4 first_addr)"
    using live_next [of 4] live_threads(2) by simp_all
  have cx: "th_context (live_thread 2 0xFFFFC00000007F40 THREAD_READY 4 first_addr) = 0xFFFFC00000007F40" by (simp add: live_thread_def)
  from thread_exit_switches [OF inv sl th, of "0x8000", unfolded cx, OF _ _ _ live_frames(2)] show ?thesis
    by (fastforce simp: zombie_def live_threads)
qed

theorem thread_sleep_switches_witness:
  "\<exists>s'. thread_sleep 0x8000 (initial_status 0 0) 50 (kern_demo THREAD_SLEEPING THREAD_READY 4) = Ok (0xFFFFC00000007F40, s') \<and>
     current (kn_procs s') = (task_addr, second_addr) \<and>
     map_option th_state (thread_heap (kn_procs s') idle_thread_addr) = Some THREAD_SLEEPING"
proof -
  let ?s = "kern_demo THREAD_SLEEPING THREAD_READY 4"
  have inv: "sched_inv (kn_procs ?s) live_layout" using live_sched [of THREAD_SLEEPING THREAD_READY 4] by simp
  have sl: "slots live_layout = [] @ current (kn_procs ?s) # [(task_addr, first_addr), (task_addr, second_addr)]"
    using live_slots live_threads(4) by simp
  have th: "find (ready (kn_procs ?s)) ([(task_addr, first_addr), (task_addr, second_addr)] @ []) = Some (task_addr, second_addr)"
      "thread_heap (kn_procs ?s) second_addr = Some (live_thread 2 0xFFFFC00000007F40 THREAD_READY 4 first_addr)"
    using live_next [of 4] live_threads(2) by simp_all
  have cx: "th_context (live_thread 2 0xFFFFC00000007F40 THREAD_READY 4 first_addr) = 0xFFFFC00000007F40" by (simp add: live_thread_def)
  obtain now where "timer_get_uptime_ms (kn_timer ?s) (fst (read_tsc (kn_machine ?s))) = Ok now"
    using uptime_Ok [of timer_demo] by (simp add: timer_demo_def)
  from thread_sleep_switches [OF inv sl th, of "0x8000", unfolded cx, OF _ _ _ live_frames(2) this] show ?thesis
    by (fastforce simp: live_threads)
qed

section \<open>Calibration and interrupts\<close>

theorem timer_init_calibrates_witness:
  "\<exists>k. timer_init (kern_demo THREAD_READY THREAD_READY 1) = Ok (calibrated k (kern_demo THREAD_READY THREAD_READY 1))"
proof -
  let ?s = "kern_demo THREAD_READY THREAD_READY 1"
  have "elapsed (pit_value machine_demo 7) machine_demo (10 + 3 * 15)"
    by (simp add: elapsed_def pit_value_def machine_demo_def io_time_def PIT_DATA_PORT_def PORT_def)
  then have "\<exists>k. elapsed (pit_value (kn_machine ?s) 7) (kn_machine ?s) (10 + 3 * k)" unfolding kern_demo_fields by (rule exI)
  then show ?thesis by (subst timer_init_calibrates) (simp only: if_True, rule exI, rule refl)
qed


theorem timer_handler_quantum_witness:
  "\<exists>p m. timer_handler 0x8000 (kern_demo THREAD_READY THREAD_READY 3) =
     Ok (0x8000, set_kn_procs p ((kern_demo THREAD_READY THREAD_READY 3)\<lparr>kn_timer := timer_demo\<lparr>system_ticks := 1\<rparr>, kn_machine := m\<rparr>)) \<and>
     map_option th_ticks_remaining (thread_heap p idle_thread_addr) = Some 2"
proof -
  let ?s = "kern_demo THREAD_READY THREAD_READY 3"
  have inv: "sched_inv (kn_procs ?s) live_layout" using live_sched [of THREAD_READY THREAD_READY 3] by simp
  obtain now where now: "timer_get_uptime_ms (kn_timer ?s) (tsc_value (kn_machine ?s) 1) = Ok now"
    using uptime_Ok [of timer_demo] by (simp add: timer_demo_def)
  have cur: "thread_heap (kn_procs ?s) (thread_current (kn_procs ?s)) = Some (live_thread 0 0 THREAD_RUNNING 3 idle_thread_addr)"
    by (simp add: live_threads)
  from timer_handler_quantum [OF inv now cur, of "0x8000"] show ?thesis
    by (fastforce simp: Let_def ticked_def tick_def live_threads live_thread_def timer_demo_def)
qed

theorem interrupt_keeps_kernel_witness:
  "\<exists>context s' c'. interrupt 0x8000 ((initial_status 0 0)\<lparr>vector_number := 32\<rparr>) (kern_demo THREAD_READY THREAD_READY 1) = Ok (context, s') \<and>
     kern_ok 1 live_blocks s' live_areas live_layout \<and> kn_contexts s' context = Some c' \<and> running (kn_procs s')"
proof -
  have ok: "kern_ok 1 live_blocks (kern_demo THREAD_READY THREAD_READY 1) live_areas live_layout" by (rule kern_demo_ok) simp_all
  have run: "running (kn_procs (kern_demo THREAD_READY THREAD_READY 1))" by (simp add: running_def live_threads live_thread_def)
  have frame: "(0x8000 :: u64) \<noteq> 0" by simp
  have vec: "vector_number ((initial_status 0 0)\<lparr>vector_number := 32\<rparr>) \<noteq> PAGE_FAULT_VECTOR" by (simp add: PAGE_FAULT_VECTOR_def)
  from interrupt_keeps_kernel [OF ok frame run, of "(initial_status 0 0)\<lparr>vector_number := 32\<rparr>"] show ?thesis
  proof (elim disjE conjE)
    assume "vector_number ((initial_status 0 0)\<lparr>vector_number := 32\<rparr>) = PAGE_FAULT_VECTOR"
    then show ?thesis using vec by contradiction
  qed blast
qed

end
