(* ===== verification/Acpi.thy ===== *)
theory Acpi
  imports Mem64 Hhdm
begin

text \<open>
  The ACPI tables (\<open>kernel/src/drivers/acpi.c\<close>), read from byte memory at their offsets: the
  structures are packed. The boot loader's pointer to the root descriptor, the offset of the
  direct map and the address of the string literal are arguments.
\<close>

section \<open>Structures\<close>

definition load32 :: "memory \<Rightarrow> u64 \<Rightarrow> u32" where
  "load32 m p = ucast (m p) OR push_bit 8 (ucast (m (p + 1))) OR push_bit 16 (ucast (m (p + 2))) OR push_bit 24 (ucast (m (p + 3)))"

definition sizeof_RSDPDescriptorV1 :: u64 where "sizeof_RSDPDescriptorV1 = 20"
definition sizeof_RSDPDescriptorV2 :: u64 where "sizeof_RSDPDescriptorV2 = 36"
definition sizeof_ACPISDTHeader :: u64 where "sizeof_ACPISDTHeader = 36"

definition rsdp_Revision :: "memory \<Rightarrow> u64 \<Rightarrow> u8" where "rsdp_Revision m p = m (p + 15)"
definition rsdp_RSDTAddress :: "memory \<Rightarrow> u64 \<Rightarrow> u32" where "rsdp_RSDTAddress m p = load32 m (p + 16)"
definition rsdp_XSDTAddress :: "memory \<Rightarrow> u64 \<Rightarrow> u64" where "rsdp_XSDTAddress m p = load64 m (p + 24)"
definition sdt_Length :: "memory \<Rightarrow> u64 \<Rightarrow> u32" where "sdt_Length m p = load32 m (p + 4)"

record acpi =
  useXSDT :: bool
  rsdt :: u64
  xsdt :: u64

definition acpi_start :: acpi where
  "acpi_start = \<lparr>useXSDT = False, rsdt = 0, xsdt = 0\<rparr>"

section \<open>Operations\<close>

primrec checksum_loop :: "memory \<Rightarrow> u64 \<Rightarrow> nat \<Rightarrow> u32" where
  "checksum_loop m p 0 = 0"
| "checksum_loop m p (Suc i) = checksum_loop m p i + ucast (m (p + of_nat i))"

definition validate_checksum :: "memory \<Rightarrow> u64 \<Rightarrow> u64 \<Rightarrow> bool" where
  "validate_checksum m byte_array sz \<longleftrightarrow> checksum_loop m byte_array (unat sz) AND 0xFF = 0"

definition acpi_init :: "memory \<Rightarrow> u64 \<Rightarrow> u64 \<Rightarrow> u64 \<Rightarrow> acpi \<Rightarrow> acpi outcome" where
  "acpi_init m offset RSDP_SIGNATURE rsdp s =
     (if strncmp m rsdp RSDP_SIGNATURE 8 \<noteq> 0 then Halt
      else if \<not> validate_checksum m rsdp sizeof_RSDPDescriptorV1 then Halt
      else if rsdp_Revision m rsdp \<ge> 2 \<and> rsdp_XSDTAddress m rsdp \<noteq> 0 then
        if \<not> validate_checksum m rsdp sizeof_RSDPDescriptorV2 then Halt
        else Ok (s\<lparr>useXSDT := True, xsdt := hhdm_physToVirt offset (rsdp_XSDTAddress m rsdp)\<rparr>)
      else Ok (s\<lparr>useXSDT := False, rsdt := hhdm_physToVirt offset (ucast (rsdp_RSDTAddress m rsdp))\<rparr>))"

text \<open>The entries follow the header: eight bytes each in an XSDT, four in an RSDT.\<close>

definition sdt_entry :: "memory \<Rightarrow> acpi \<Rightarrow> u64 \<Rightarrow> u64" where
  "sdt_entry m s i =
     (if useXSDT s then load64 m (xsdt s + sizeof_ACPISDTHeader + 8 * i)
      else ucast (load32 m (rsdt s + sizeof_ACPISDTHeader + 4 * i)))"

definition num_entries :: "memory \<Rightarrow> acpi \<Rightarrow> u64" where
  "num_entries m s =
     (if useXSDT s then (ucast (sdt_Length m (xsdt s)) - sizeof_ACPISDTHeader) div 8
      else (ucast (sdt_Length m (rsdt s)) - sizeof_ACPISDTHeader) div 4)"

function find_table :: "memory \<Rightarrow> u64 \<Rightarrow> acpi \<Rightarrow> u64 \<Rightarrow> nat \<Rightarrow> nat \<Rightarrow> u64" where
  "find_table m offset s signature i n =
     (if i < n then
        let currentTable = hhdm_physToVirt offset (sdt_entry m s (of_nat i))
        in if strncmp m currentTable signature 4 = 0 then currentTable
           else find_table m offset s signature (i + 1) n
      else 0)"
  by pat_completeness auto
termination
  by (relation "measure (\<lambda>(m, offset, s, signature, i, n). n - i)") auto

declare find_table.simps [simp del]

definition acpi_find_table :: "memory \<Rightarrow> u64 \<Rightarrow> acpi \<Rightarrow> u64 \<Rightarrow> u64" where
  "acpi_find_table m offset s signature =
     (if rsdt s = 0 \<or> xsdt s = 0 then 0
      else find_table m offset s signature 0 (unat (num_entries m s)))"

section \<open>Properties\<close>

lemma checksum_loop_sum: "unat (checksum_loop m p n) mod 256 = (\<Sum>i<n. unat (m (p + of_nat i))) mod 256"
proof (induction n)
  case (Suc n)
  have b: "unat (ucast (m (p + of_nat n)) :: u32) = unat (m (p + of_nat n))"
    by (simp add: unsigned_ucast_eq take_bit_nat_eq_self_iff order.strict_trans [OF unsigned_less])
  have "unat (checksum_loop m p (Suc n)) mod 256 = (unat (checksum_loop m p n) + unat (m (p + of_nat n))) mod 256"
    using b by (simp add: unat_word_ariths mod_mod_cancel)
  also have "\<dots> = (unat (checksum_loop m p n) mod 256 + unat (m (p + of_nat n))) mod 256" by (simp add: mod_add_left_eq)
  also have "\<dots> = ((\<Sum>i<n. unat (m (p + of_nat i))) + unat (m (p + of_nat n))) mod 256" unfolding Suc by (simp add: mod_add_left_eq)
  finally show ?case by simp
qed simp

text \<open>
  \<open>validate_checksum\<close> accepts a block of any length exactly when its bytes add up to a
  multiple of 256: the wrap-around of the 32-bit sum does not matter.
\<close>

theorem validate_checksum_correct:
  "validate_checksum m p n \<longleftrightarrow> 256 dvd (\<Sum>i<unat n. unat (m (p + of_nat i)))"
proof -
  have "(checksum_loop m p (unat n) AND 0xFF = 0) \<longleftrightarrow> unat (checksum_loop m p (unat n)) mod 256 = 0"
  proof -
    have eq: "(0xFF :: u32) = mask 8" by (simp add: mask_numeral)
    have "checksum_loop m p (unat n) AND 0xFF = take_bit 8 (checksum_loop m p (unat n))" unfolding eq by (simp add: take_bit_eq_mask)
    moreover have "unat (take_bit 8 (checksum_loop m p (unat n))) = unat (checksum_loop m p (unat n)) mod 256"
      by (simp only: unsigned_take_bit_eq) (simp add: take_bit_eq_mod)
    ultimately show ?thesis by (metis unat_eq_zero)
  qed
  then show ?thesis by (simp add: validate_checksum_def checksum_loop_sum dvd_eq_mod_eq_0)
qed

text \<open>
  C39: no ACPI table is ever found: \<open>acpi_init\<close> sets one of the two root pointers and
  \<open>acpi_find_table\<close> insists on both.
\<close>

theorem acpi_find_table_after_init:
  assumes "acpi_init m offset lit rsdp acpi_start = Ok s"
  shows "acpi_find_table m' offset' s signature = 0"
  using assms by (auto simp: acpi_init_def acpi_start_def acpi_find_table_def split: if_splits)

text \<open>An RSDP of revision 0 at address 0x100, and the literal at address 0x200.\<close>

definition acpi_memory :: memory where
  "acpi_memory = (\<lambda>_. 0)(0x100 := 0x52, 0x101 := 0x53, 0x102 := 0x44, 0x103 := 0x20, 0x104 := 0x50, 0x105 := 0x54, 0x106 := 0x52, 0x107 := 0x20,
     0x108 := 0xD1, 0x111 := 0x10, 0x200 := 0x52, 0x201 := 0x53, 0x202 := 0x44, 0x203 := 0x20, 0x204 := 0x50, 0x205 := 0x54, 0x206 := 0x52, 0x207 := 0x20)"

theorem acpi_find_table_after_init_witness:
  "\<exists>s. acpi_init acpi_memory 0xFFFF800000000000 0x200 0x100 acpi_start = Ok s \<and> rsdt s = 0xFFFF800000001000 \<and>
     acpi_find_table acpi_memory 0xFFFF800000000000 s 0x300 = 0"
proof -
  have "strncmp acpi_memory 0x100 0x200 8 = 0"
    by code_simp
  moreover have "validate_checksum acpi_memory 0x100 sizeof_RSDPDescriptorV1"
    by code_simp
  moreover have "rsdp_Revision acpi_memory 0x100 = 0" "rsdp_RSDTAddress acpi_memory 0x100 = 0x1000"
    by (simp_all add: rsdp_Revision_def rsdp_RSDTAddress_def load32_def acpi_memory_def)
  ultimately have run: "acpi_init acpi_memory 0xFFFF800000000000 0x200 0x100 acpi_start =
      Ok (acpi_start\<lparr>useXSDT := False, rsdt := 0xFFFF800000001000\<rparr>)"
    by (simp add: acpi_init_def hhdm_physToVirt_def)
  from acpi_find_table_after_init [OF this, of acpi_memory "0xFFFF800000000000" "0x300"] run show ?thesis by simp
qed

end
