(* ===== verification/Npf.thy ===== *)
theory Npf
  imports Prelude
begin

text \<open>
  The formatter behind \<open>printf\<close>, \<open>snprintf\<close> and \<open>log_line\<close>
  (\<open>kernel/include/libk/nanoprintf.h\<close>), as \<open>kernel/src/libk/stdio.c\<close> configures it: field
  widths, precisions, 64-bit and binary conversions; no floating point, no small lengths, no
  write-back and no alternative form. A format is the text up to its terminating null character;
  signed overflow of a width and arguments of the wrong type are the outcome \<open>Fault\<close>.
\<close>

section \<open>Format specifications\<close>

datatype npf_opt = NPF_FMT_SPEC_OPT_NONE | NPF_FMT_SPEC_OPT_LITERAL | NPF_FMT_SPEC_OPT_STAR

datatype npf_len_mod = LEN_MOD_NONE | LEN_MOD_LONG | LEN_MOD_LONG_DOUBLE | LEN_MOD_LARGE_LONG_LONG | LEN_MOD_LARGE_INTMAX
  | LEN_MOD_LARGE_SIZET | LEN_MOD_LARGE_PTRDIFFT

datatype npf_conv = CONV_NONE | CONV_PERCENT | CONV_CHAR | CONV_STRING | CONV_SIGNED_INT | CONV_BINARY | CONV_OCTAL
  | CONV_HEX_INT | CONV_UNSIGNED_INT | CONV_POINTER

record npf_format_spec =
  field_width :: int
  prec :: int
  prec_opt :: npf_opt
  field_width_opt :: npf_opt
  left_justified :: bool
  leading_zero_pad :: bool
  prepend :: "char option"
  case_adjust :: nat
  length_modifier :: npf_len_mod
  conv_spec :: npf_conv

definition npf_spec_start :: npf_format_spec where
  "npf_spec_start = \<lparr>field_width = 0, prec = 0, prec_opt = NPF_FMT_SPEC_OPT_NONE, field_width_opt = NPF_FMT_SPEC_OPT_NONE,
     left_justified = False, leading_zero_pad = False, prepend = None, case_adjust = 32, length_modifier = LEN_MOD_NONE, conv_spec = CONV_NONE\<rparr>"

text \<open>The loop over the flags.\<close>

fun npf_flags :: "npf_format_spec \<Rightarrow> string \<Rightarrow> npf_format_spec \<times> string" where
  "npf_flags fs [] = (fs, [])"
| "npf_flags fs (c # cs) =
     (if c = CHR ''-'' then npf_flags (fs\<lparr>left_justified := True\<rparr>) cs
      else if c = CHR ''0'' then npf_flags (fs\<lparr>leading_zero_pad := True\<rparr>) cs
      else if c = CHR ''+'' then npf_flags (fs\<lparr>prepend := Some (CHR ''+'')\<rparr>) cs
      else if c = CHR '' '' then npf_flags (if prepend fs = None then fs\<lparr>prepend := Some (CHR '' '')\<rparr> else fs) cs
      else (fs, c # cs))"

definition is_digit :: "char \<Rightarrow> bool" where
  "is_digit c \<longleftrightarrow> (of_char (CHR ''0'') :: nat) \<le> of_char c \<and> of_char c \<le> (of_char (CHR ''9'') :: nat)"

definition INT_MAX :: int where "INT_MAX = 2147483647"

text \<open>The loops that read a decimal number into an \<open>int\<close>.\<close>

fun npf_digits :: "int \<Rightarrow> string \<Rightarrow> (int \<times> string) outcome" where
  "npf_digits n [] = Ok (n, [])"
| "npf_digits n (c # cs) =
     (if is_digit c then
        let n = n * 10 + (of_char c - of_char (CHR ''0''))
        in if n > INT_MAX then Fault else npf_digits n cs
      else Ok (n, c # cs))"

definition npf_width :: "npf_format_spec \<Rightarrow> string \<Rightarrow> (npf_format_spec \<times> string) outcome" where
  "npf_width fs cs =
     (case cs of
        [] \<Rightarrow> Ok (fs, cs)
      | c # rest \<Rightarrow>
          if c = CHR ''*'' then Ok (fs\<lparr>field_width_opt := NPF_FMT_SPEC_OPT_STAR\<rparr>, rest)
          else obind (npf_digits 0 cs) (\<lambda>(n, rest).
            Ok (if is_digit c then fs\<lparr>field_width := n, field_width_opt := NPF_FMT_SPEC_OPT_LITERAL\<rparr> else fs, rest)))"

definition npf_prec :: "npf_format_spec \<Rightarrow> string \<Rightarrow> (npf_format_spec \<times> string) outcome" where
  "npf_prec fs cs =
     (case cs of
        [] \<Rightarrow> Ok (fs, cs)
      | c # cs' \<Rightarrow>
          if c = CHR ''.'' then
            (if cs' \<noteq> [] \<and> hd cs' = CHR ''*'' then Ok (fs\<lparr>prec_opt := NPF_FMT_SPEC_OPT_STAR\<rparr>, tl cs')
             else
               let (fs, cs') = (if cs' \<noteq> [] \<and> hd cs' = CHR ''-'' then (fs, tl cs')
                                else (fs\<lparr>prec_opt := NPF_FMT_SPEC_OPT_LITERAL\<rparr>, cs'))
               in obind (npf_digits 0 cs') (\<lambda>(n, rest). Ok (fs\<lparr>prec := n\<rparr>, rest)))
          else Ok (fs, cs))"

fun npf_length :: "npf_format_spec \<Rightarrow> string \<Rightarrow> npf_format_spec \<times> string" where
  "npf_length fs [] = (fs, [])"
| "npf_length fs (c # cs) =
     (if c = CHR ''l'' then
        (if cs \<noteq> [] \<and> hd cs = CHR ''l'' then (fs\<lparr>length_modifier := LEN_MOD_LARGE_LONG_LONG\<rparr>, tl cs)
         else (fs\<lparr>length_modifier := LEN_MOD_LONG\<rparr>, cs))
      else if c = CHR ''j'' then (fs\<lparr>length_modifier := LEN_MOD_LARGE_INTMAX\<rparr>, cs)
      else if c = CHR ''z'' then (fs\<lparr>length_modifier := LEN_MOD_LARGE_SIZET\<rparr>, cs)
      else if c = CHR ''t'' then (fs\<lparr>length_modifier := LEN_MOD_LARGE_PTRDIFFT\<rparr>, cs)
      else (fs, c # cs))"

fun npf_conversion :: "npf_format_spec \<Rightarrow> string \<Rightarrow> (npf_format_spec \<times> string) option" where
  "npf_conversion fs [] = None"
| "npf_conversion fs (c # cs) =
     (if c = CHR ''%'' then Some (fs\<lparr>conv_spec := CONV_PERCENT\<rparr>, cs)
      else if c = CHR ''c'' then Some (fs\<lparr>conv_spec := CONV_CHAR\<rparr>, cs)
      else if c = CHR ''s'' then Some (fs\<lparr>conv_spec := CONV_STRING\<rparr>, cs)
      else if c = CHR ''i'' \<or> c = CHR ''d'' then Some (fs\<lparr>conv_spec := CONV_SIGNED_INT\<rparr>, cs)
      else if c = CHR ''o'' then Some (fs\<lparr>conv_spec := CONV_OCTAL\<rparr>, cs)
      else if c = CHR ''u'' then Some (fs\<lparr>conv_spec := CONV_UNSIGNED_INT\<rparr>, cs)
      else if c = CHR ''X'' then Some (fs\<lparr>case_adjust := 0, conv_spec := CONV_HEX_INT\<rparr>, cs)
      else if c = CHR ''x'' then Some (fs\<lparr>conv_spec := CONV_HEX_INT\<rparr>, cs)
      else if c = CHR ''p'' then Some (fs\<lparr>conv_spec := CONV_POINTER\<rparr>, cs)
      else if c = CHR ''B'' then Some (fs\<lparr>case_adjust := 0, conv_spec := CONV_BINARY\<rparr>, cs)
      else if c = CHR ''b'' then Some (fs\<lparr>conv_spec := CONV_BINARY\<rparr>, cs)
      else None)"

text \<open>
  The text behind the percent sign is read; \<open>None\<close> when it is no specification, otherwise the
  specification and the text behind it.
\<close>

definition npf_parse_format_spec :: "string \<Rightarrow> (npf_format_spec \<times> string) option outcome" where
  "npf_parse_format_spec cs =
     (let (fs, cs) = npf_flags npf_spec_start cs in
      obind (npf_width fs cs) (\<lambda>(fs, cs).
      obind (npf_prec fs cs) (\<lambda>(fs, cs).
      let (fs, cs) = npf_length fs cs
      in Ok (npf_conversion fs cs))))"

section \<open>Numbers\<close>

text \<open>The digits of a number, lowest first, in the order in which they are stored in the buffer.\<close>

definition npf_digit :: "nat \<Rightarrow> nat \<Rightarrow> char" where
  "npf_digit case_adj d = char_of ((if d < 10 then of_char (CHR ''0'') else of_char (CHR ''A'') - 10 + case_adj) + d)"

partial_function (option) npf_utoa_rev :: "u64 \<Rightarrow> string \<Rightarrow> u64 \<Rightarrow> nat \<Rightarrow> string option" where
  [code]: "npf_utoa_rev val buf base case_adj =
     (let buf = buf @ [npf_digit case_adj (unat (val mod base))];
          val = val div base
      in if val \<noteq> 0 then npf_utoa_rev val buf base case_adj else Some buf)"

definition NANOPRINTF_CONVERSION_BUFFER_SIZE :: nat where "NANOPRINTF_CONVERSION_BUFFER_SIZE = 23"

text \<open>The compiler's count of leading zero bits.\<close>

definition clzll :: "u64 \<Rightarrow> nat" where
  "clzll u = length (takeWhile (\<lambda>i. \<not> bit u i) (rev [0..<64]))"

definition npf_bin_len :: "u64 \<Rightarrow> nat" where
  "npf_bin_len u = (if u = 0 then 1 else 64 - clzll u)"

section \<open>Arguments\<close>

text \<open>
  The variable arguments: an \<open>int\<close>, a 64-bit integer or address, or a string (\<open>None\<close> is \<open>NULL\<close>).
  Every integer has a slot of 64 bits, and an \<open>int\<close> is read from its lower half, whatever was
  passed; the upper half of an \<open>int\<close> is not defined.
\<close>

datatype va_arg = VaInt u32 | VaLong u64 | VaStr "string option"

fun va_int :: "va_arg list \<Rightarrow> (u32 \<times> va_arg list) outcome" where
  "va_int (VaInt w # args) = Ok (w, args)"
| "va_int (VaLong w # args) = Ok (ucast w, args)"
| "va_int args = Fault"

fun va_long :: "va_arg list \<Rightarrow> (u64 \<times> va_arg list) outcome" where
  "va_long (VaLong w # args) = Ok (w, args)"
| "va_long args = Fault"

fun va_str :: "va_arg list \<Rightarrow> (string option \<times> va_arg list) outcome" where
  "va_str (VaStr s # args) = Ok (s, args)"
| "va_str args = Fault"

definition npf_star_width :: "npf_format_spec \<Rightarrow> va_arg list \<Rightarrow> (npf_format_spec \<times> va_arg list) outcome" where
  "npf_star_width fs args =
     (if field_width_opt fs = NPF_FMT_SPEC_OPT_STAR then
        obind (va_int args) (\<lambda>(w, args).
        let fw = sint w in
        if fw < 0 then if - fw > INT_MAX then Fault else Ok (fs\<lparr>field_width := - fw, left_justified := True\<rparr>, args)
        else Ok (fs\<lparr>field_width := fw\<rparr>, args))
      else Ok (fs, args))"

definition npf_star_prec :: "npf_format_spec \<Rightarrow> va_arg list \<Rightarrow> (npf_format_spec \<times> va_arg list) outcome" where
  "npf_star_prec fs args =
     (if prec_opt fs = NPF_FMT_SPEC_OPT_STAR then
        obind (va_int args) (\<lambda>(w, args).
        let p = sint w in
        if p < 0 then Ok (fs\<lparr>prec := 0, prec_opt := NPF_FMT_SPEC_OPT_NONE\<rparr>, args) else Ok (fs\<lparr>prec := p\<rparr>, args))
      else Ok (fs, args))"

text \<open>The precision of a pointer, and the zero flag, which a precision of a number switches off.\<close>

definition npf_defaults :: "npf_format_spec \<Rightarrow> npf_format_spec" where
  "npf_defaults fs =
     (let fs = (if prec_opt fs = NPF_FMT_SPEC_OPT_NONE \<and> conv_spec fs = CONV_POINTER then fs\<lparr>prec := 16\<rparr> else fs)
      in if prec_opt fs \<noteq> NPF_FMT_SPEC_OPT_NONE \<and> conv_spec fs \<in> {CONV_SIGNED_INT, CONV_OCTAL, CONV_HEX_INT, CONV_UNSIGNED_INT}
         then fs\<lparr>leading_zero_pad := False\<rparr> else fs)"

section \<open>Conversions\<close>

text \<open>
  The converted argument: its text as the code stores it (numbers lowest digit first, binary
  numbers and strings in the order of printing), its sign and whether it is zero.
\<close>

record npf_text =
  cbuf :: string
  sign_c :: "char option"
  is_zero :: bool

definition npf_signed :: "npf_format_spec \<Rightarrow> va_arg list \<Rightarrow> (npf_text \<times> va_arg list) outcome" where
  "npf_signed fs args =
     obind (if length_modifier fs = LEN_MOD_NONE then obind (va_int args) (\<lambda>(w, args). Ok (scast w :: u64, args))
            else if length_modifier fs = LEN_MOD_LONG_DOUBLE then Ok (0, args) else va_long args) (\<lambda>(val, args).
     let sg = (if sint val < 0 then Some (CHR ''-'') else prepend fs) in
     if val = 0 \<and> prec_opt fs \<noteq> NPF_FMT_SPEC_OPT_NONE \<and> prec fs = 0 then Ok (\<lparr>cbuf = [], sign_c = sg, is_zero = True\<rparr>, args)
     else
       let uval = (if sint val < 0 then 0 - val else val)
       in obind (case npf_utoa_rev uval [] 10 (case_adjust fs) of None \<Rightarrow> Spin | Some ds \<Rightarrow> Ok ds) (\<lambda>ds.
          Ok (\<lparr>cbuf = ds, sign_c = sg, is_zero = val = 0\<rparr>, args)))"

definition npf_unsigned :: "npf_format_spec \<Rightarrow> va_arg list \<Rightarrow> (npf_text \<times> va_arg list) outcome" where
  "npf_unsigned fs args =
     obind (if conv_spec fs = CONV_POINTER then va_long args
            else if length_modifier fs = LEN_MOD_NONE then obind (va_int args) (\<lambda>(w, args). Ok (ucast w :: u64, args))
            else if length_modifier fs = LEN_MOD_LONG_DOUBLE then Ok (0, args) else va_long args) (\<lambda>(val, args).
     if val = 0 \<and> prec_opt fs \<noteq> NPF_FMT_SPEC_OPT_NONE \<and> prec fs = 0 then Ok (\<lparr>cbuf = [], sign_c = None, is_zero = True\<rparr>, args)
     else if conv_spec fs = CONV_BINARY then
       Ok (\<lparr>cbuf = map (\<lambda>i. if bit val i then CHR ''1'' else CHR ''0'') (rev [0..<npf_bin_len val]), sign_c = None, is_zero = val = 0\<rparr>, args)
     else
       let base = (if conv_spec fs = CONV_OCTAL then 8 else if conv_spec fs = CONV_UNSIGNED_INT then 10 else 16)
       in obind (case npf_utoa_rev val [] base (case_adjust fs) of None \<Rightarrow> Spin | Some ds \<Rightarrow> Ok ds) (\<lambda>ds.
          Ok (\<lparr>cbuf = ds, sign_c = None, is_zero = val = 0\<rparr>, args)))"

definition npf_convert :: "npf_format_spec \<Rightarrow> va_arg list \<Rightarrow> (npf_text \<times> va_arg list) outcome" where
  "npf_convert fs args =
     (case conv_spec fs of
        CONV_NONE \<Rightarrow> Ok (\<lparr>cbuf = [], sign_c = None, is_zero = False\<rparr>, args)
      | CONV_PERCENT \<Rightarrow> Ok (\<lparr>cbuf = ''%'', sign_c = None, is_zero = False\<rparr>, args)
      | CONV_CHAR \<Rightarrow>
          obind (va_int args) (\<lambda>(w, args).
          let c = char_of (unat w) in Ok (\<lparr>cbuf = if c = CHR 0x00 then [] else [c], sign_c = None, is_zero = False\<rparr>, args))
      | CONV_STRING \<Rightarrow>
          obind (va_str args) (\<lambda>(s, args).
          let txt = (case s of None \<Rightarrow> [] | Some s \<Rightarrow> takeWhile (\<lambda>c. c \<noteq> CHR 0x00) s)
          in Ok (\<lparr>cbuf = if prec_opt fs = NPF_FMT_SPEC_OPT_NONE then txt else take (nat (prec fs)) txt, sign_c = None, is_zero = False\<rparr>, args))
      | CONV_SIGNED_INT \<Rightarrow> npf_signed fs args
      | _ \<Rightarrow> npf_unsigned fs args)"

section \<open>Padding\<close>

definition npf_pad_char :: "npf_format_spec \<Rightarrow> bool \<Rightarrow> char option" where
  "npf_pad_char fs zero =
     (if field_width_opt fs \<noteq> NPF_FMT_SPEC_OPT_NONE then
        if leading_zero_pad fs \<and> \<not> left_justified fs then
          if prec_opt fs \<noteq> NPF_FMT_SPEC_OPT_NONE \<and> prec fs = 0 \<and> zero then Some (CHR '' '') else Some (CHR ''0'')
        else Some (CHR '' '')
      else None)"

text \<open>The characters that one specification puts out, in order.\<close>

definition npf_layout :: "npf_format_spec \<Rightarrow> npf_text \<Rightarrow> string" where
  "npf_layout fs t =
     (let pad_c = npf_pad_char fs (is_zero t);
          cbuf_len = int (length (cbuf t));
          prec_pad = (if conv_spec fs \<noteq> CONV_STRING then max 0 (prec fs - cbuf_len) else 0);
          field_pad = max 0 (field_width fs - cbuf_len - (if sign_c t = None then 0 else 1) - prec_pad);
          sg = (case sign_c t of None \<Rightarrow> [] | Some c \<Rightarrow> [c]);
          (front, sg) = (case pad_c of
              None \<Rightarrow> ([], sg)
            | Some c \<Rightarrow>
                if left_justified fs then ([], sg)
                else if c = CHR ''0'' then (sg @ replicate (nat field_pad) c, [])
                else (replicate (nat field_pad) c, sg));
          payload = (if conv_spec fs = CONV_STRING then cbuf t
                     else sg @ replicate (nat prec_pad) (CHR ''0'') @ (if conv_spec fs = CONV_BINARY then cbuf t else rev (cbuf t)));
          back_pad = (case pad_c of None \<Rightarrow> [] | Some c \<Rightarrow> if left_justified fs then replicate (nat field_pad) c else [])
      in front @ payload @ back_pad)"

definition npf_print :: "npf_format_spec \<Rightarrow> va_arg list \<Rightarrow> (string \<times> va_arg list) outcome" where
  "npf_print fs args =
     obind (npf_star_width fs args) (\<lambda>(fs, args).
     obind (npf_star_prec fs args) (\<lambda>(fs, args).
     let fs = npf_defaults fs in
     obind (npf_convert fs args) (\<lambda>(t, args).
     Ok (npf_layout fs t, args))))"

section \<open>The loop over the format\<close>

text \<open>Every character goes through the callback, with a count of the characters.\<close>

definition npf_putc_cnt :: "(char \<Rightarrow> 's \<Rightarrow> 's) \<Rightarrow> char \<Rightarrow> u32 \<times> 's \<Rightarrow> u32 \<times> 's" where
  "npf_putc_cnt pc c st = (case st of (n, ctx) \<Rightarrow> (n + 1, pc c ctx))"

lemma npf_flags_length: "length (snd (npf_flags fs cs)) \<le> length cs"
  by (induction fs cs rule: npf_flags.induct) auto

lemma npf_digits_length: "npf_digits n cs = Ok (m, rest) \<Longrightarrow> length rest \<le> length cs"
  by (induction n cs rule: npf_digits.induct) (auto simp: Let_def split: if_splits)

lemma npf_width_length: "npf_width fs cs = Ok (fs', rest) \<Longrightarrow> length rest \<le> length cs"
  by (auto simp: npf_width_def obind_eq_Ok dest!: npf_digits_length split: list.splits if_splits simp del: npf_digits.simps)

lemma npf_prec_length: "npf_prec fs cs = Ok (fs', rest) \<Longrightarrow> length rest \<le> length cs"
  by (auto simp: npf_prec_def Let_def obind_eq_Ok dest!: npf_digits_length split: list.splits if_splits prod.splits simp del: npf_digits.simps)

lemma npf_length_length: "npf_length fs cs = (fs', rest) \<Longrightarrow> length rest \<le> length cs"
  by (cases cs) (auto split: if_splits)

lemma npf_conversion_length: "npf_conversion fs cs = Some (fs', rest) \<Longrightarrow> length rest < length cs"
  by (cases cs) (auto split: if_splits)

lemma npf_parse_shorter:
  assumes "npf_parse_format_spec cs = Ok (Some (fs, rest))"
  shows "length rest < length cs"
proof -
  obtain f1 c1 where c1: "npf_flags npf_spec_start cs = (f1, c1)" by (cases "npf_flags npf_spec_start cs")
  obtain f2 c2 where c2: "npf_width f1 c1 = Ok (f2, c2)" using assms c1 by (auto simp: npf_parse_format_spec_def obind_eq_Ok)
  obtain f3 c3 where c3: "npf_prec f2 c2 = Ok (f3, c3)" using assms c1 c2 by (auto simp: npf_parse_format_spec_def obind_eq_Ok)
  obtain f4 c4 where c4: "npf_length f3 c3 = (f4, c4)" by (cases "npf_length f3 c3")
  have "npf_conversion f4 c4 = Some (fs, rest)" using assms c1 c2 c3 c4 by (simp add: npf_parse_format_spec_def)
  then show ?thesis
    using npf_flags_length [of npf_spec_start cs] npf_width_length [OF c2] npf_prec_length [OF c3] npf_length_length [OF c4]
      npf_conversion_length c1 by fastforce
qed

function (sequential) npf_loop :: "(char \<Rightarrow> 's \<Rightarrow> 's) \<Rightarrow> string \<Rightarrow> va_arg list \<Rightarrow> u32 \<times> 's \<Rightarrow> (u32 \<times> 's) outcome" where
  "npf_loop pc [] args st = Ok st"
| "npf_loop pc (c # cs) args st =
     (if c = CHR 0x00 then Ok st
      else case (if c = CHR ''%'' then npf_parse_format_spec cs else Ok None) of
        Ok None \<Rightarrow> npf_loop pc cs args (npf_putc_cnt pc c st)
      | Ok (Some (fs, rest)) \<Rightarrow>
          (case npf_print fs args of
             Ok (out, args) \<Rightarrow> npf_loop pc rest args (fold (npf_putc_cnt pc) out st)
           | Halt \<Rightarrow> Halt | Spin \<Rightarrow> Spin | Block \<Rightarrow> Block | Fault \<Rightarrow> Fault)
      | Halt \<Rightarrow> Halt | Spin \<Rightarrow> Spin | Block \<Rightarrow> Block | Fault \<Rightarrow> Fault)"
  by pat_completeness auto
termination
  by (relation "measure (\<lambda>(pc, cs, args, st). length cs)") (auto split: if_splits dest: npf_parse_shorter)

declare npf_loop.simps [simp del]

definition npf_vpprintf :: "(char \<Rightarrow> 's \<Rightarrow> 's) \<Rightarrow> 's \<Rightarrow> string \<Rightarrow> va_arg list \<Rightarrow> (u32 \<times> 's) outcome" where
  "npf_vpprintf pc pc_ctx format args = npf_loop pc format args (0, pc_ctx)"

section \<open>Printing to a buffer\<close>

text \<open>The buffer at \<open>dst\<close> is a list of the characters from there on; a store behind its end is a fault.\<close>

record npf_bufputc_ctx =
  dst :: string
  len :: u64
  cur :: u64

definition npf_bufputc :: "char \<Rightarrow> npf_bufputc_ctx \<Rightarrow> npf_bufputc_ctx" where
  "npf_bufputc c bpc = (if cur bpc < len bpc then bpc\<lparr>dst := (dst bpc)[unat (cur bpc) := c], cur := cur bpc + 1\<rparr> else bpc)"

definition npf_bufputc_nop :: "char \<Rightarrow> npf_bufputc_ctx \<Rightarrow> npf_bufputc_ctx" where
  "npf_bufputc_nop c bpc = bpc"

definition npf_vsnprintf :: "string option \<Rightarrow> u64 \<Rightarrow> string \<Rightarrow> va_arg list \<Rightarrow> (u32 \<times> string option) outcome" where
  "npf_vsnprintf buffer bufsz format args =
     (case buffer of
        None \<Rightarrow> obind (npf_vpprintf npf_bufputc_nop \<lparr>dst = [], len = bufsz, cur = 0\<rparr> format args) (\<lambda>(n, _). Ok (n, None))
      | Some buf \<Rightarrow>
          if length buf < unat bufsz then Fault
          else
            obind (npf_vpprintf npf_bufputc \<lparr>dst = buf, len = bufsz, cur = 0\<rparr> format args) (\<lambda>(n, bpc).
            if bufsz \<noteq> 0 then
              Ok (n, Some ((dst bpc)[unat (if sint n < 0 then 0 else min (ucast n) (bufsz - 1)) := CHR 0x00]))
            else Ok (n, Some (dst bpc))))"

text \<open>The two functions with their own lists of arguments.\<close>

definition npf_pprintf :: "(char \<Rightarrow> 's \<Rightarrow> 's) \<Rightarrow> 's \<Rightarrow> string \<Rightarrow> va_arg list \<Rightarrow> (u32 \<times> 's) outcome" where
  "npf_pprintf pc pc_ctx format args = npf_vpprintf pc pc_ctx format args"

definition npf_snprintf :: "string option \<Rightarrow> u64 \<Rightarrow> string \<Rightarrow> va_arg list \<Rightarrow> (u32 \<times> string option) outcome" where
  "npf_snprintf buffer bufsz format args = npf_vsnprintf buffer bufsz format args"

end
