(* ===== verification/Npf_Props.thy ===== *)
theory Npf_Props
  imports Npf
begin

text \<open>
  Correctness of the formatter: digits are those of the number and fit into the conversion
  buffer, printed numbers can be read back, a field is at least as wide as requested, printing
  into a buffer stores the longest prefix that fits, and every format is processed to its end.
\<close>

section \<open>Digits\<close>

definition digits_value :: "nat \<Rightarrow> nat list \<Rightarrow> nat" where
  "digits_value b ds = foldr (\<lambda>d v. d + b * v) ds 0"

lemma digits_value_simps [simp]: "digits_value b [] = 0" "digits_value b (d # ds) = d + b * digits_value b ds"
  by (simp_all add: digits_value_def)

definition numeral_of :: "nat \<Rightarrow> nat \<Rightarrow> nat list \<Rightarrow> bool" where
  "numeral_of b n ds \<longleftrightarrow> ds \<noteq> [] \<and> (\<forall>d\<in>set ds. d < b) \<and> digits_value b ds = n \<and> (last ds = 0 \<longrightarrow> length ds = 1)"

lemma npf_utoa_rev_digits:
  assumes "2 \<le> unat base"
  shows "\<exists>ds. npf_utoa_rev val buf base adj = Some (buf @ map (npf_digit adj) ds) \<and> numeral_of (unat base) (unat val) ds"
proof (induction "unat val" arbitrary: val buf rule: less_induct)
  case less
  let ?b = "unat base" let ?d = "unat (val mod base)"
  have nz: "base \<noteq> 0" using assms by auto
  have d: "?d = unat val mod ?b" and q: "unat (val div base) = unat val div ?b" by (simp_all add: unat_mod unat_div)
  show ?case
  proof (cases "val div base = 0")
    case True
    then have "unat val div ?b = 0" using q by (metis unat_0)
    then have "unat val < ?b" using assms by (simp add: div_eq_0_iff)
    then have "numeral_of ?b (unat val) [?d]" using d by (simp add: numeral_of_def)
    moreover have "npf_utoa_rev val buf base adj = Some (buf @ map (npf_digit adj) [?d])"
      using True by (subst npf_utoa_rev.simps) simp
    ultimately show ?thesis by blast
  next
    case False
    then have pos: "0 < unat val div ?b" using q by (metis unat_gt_0)
    then have "unat (val div base) < unat val" unfolding q using assms by (intro div_less_dividend) (auto intro: Nat.gr0I)
    from less.hyps [OF this, of "buf @ [npf_digit adj ?d]"] obtain ds where
      ds: "npf_utoa_rev (val div base) (buf @ [npf_digit adj ?d]) base adj = Some ((buf @ [npf_digit adj ?d]) @ map (npf_digit adj) ds)"
        "numeral_of ?b (unat (val div base)) ds" by blast
    have "npf_utoa_rev val buf base adj = Some (buf @ map (npf_digit adj) (?d # ds))"
      using False ds(1) by (subst npf_utoa_rev.simps) simp
    moreover have "digits_value ?b (?d # ds) = unat val" using ds(2) d q by (simp add: numeral_of_def)
    moreover have "last ds \<noteq> 0"
    proof
      assume "last ds = 0"
      then have "ds = [0]" using ds(2) by (auto simp: numeral_of_def length_Suc_conv)
      then show False using ds(2) pos q by (simp add: numeral_of_def)
    qed
    moreover have "?d < ?b" "\<forall>x\<in>set ds. x < ?b" "ds \<noteq> []" using ds(2) d assms by (simp_all add: numeral_of_def)
    ultimately show ?thesis by (intro exI [of _ "?d # ds"]) (simp add: numeral_of_def)
  qed
qed

lemma digits_value_bound:
  assumes "ds \<noteq> []" "last ds \<noteq> 0" "0 < b"
  shows "b ^ (length ds - 1) \<le> digits_value b ds"
  using assms
proof (induction ds)
  case (Cons d ds)
  show ?case
  proof (cases "ds = []")
    case False
    then have "b ^ (length ds - 1) \<le> digits_value b ds" using Cons by simp
    then have "b * b ^ (length ds - 1) \<le> b * digits_value b ds" by simp
    moreover have "b * b ^ (length ds - 1) = b ^ length ds" using False by (cases ds) auto
    ultimately have "b ^ length ds \<le> b * digits_value b ds" by linarith
    then show ?thesis by simp
  qed (use Cons in simp)
qed simp

lemma numeral_length:
  assumes "numeral_of b n ds" "8 \<le> b" "n < 2 ^ 64"
  shows "length ds \<le> 22"
proof (rule ccontr)
  assume long: "\<not> length ds \<le> 22"
  then have "last ds \<noteq> 0" "ds \<noteq> []" using assms(1) by (auto simp: numeral_of_def)
  from digits_value_bound [OF this(2,1), of b] have "b ^ (length ds - 1) \<le> n" using assms(1,2) by (simp add: numeral_of_def)
  moreover have "(8 :: nat) ^ 22 \<le> 8 ^ (length ds - 1)" using long by (intro power_increasing) auto
  moreover have "(8 :: nat) ^ (length ds - 1) \<le> b ^ (length ds - 1)" using assms(2) by (rule power_mono) simp
  ultimately have "(8 :: nat) ^ 22 < 2 ^ 64" using assms(3) by linarith
  then show False by simp
qed

text \<open>
  The conversion of a number ends, for every base from two on; the digits in the buffer are
  those of the number, without superfluous zeros, and in the bases that the formatter uses they
  fit into the conversion buffer, with room for the leading zero of an octal number.
\<close>

theorem npf_utoa_rev_correct:
  assumes "2 \<le> unat base"
  shows "\<exists>ds. npf_utoa_rev val [] base adj = Some (map (npf_digit adj) ds) \<and> numeral_of (unat base) (unat val) ds \<and>
    (8 \<le> unat base \<longrightarrow> length ds + 1 \<le> NANOPRINTF_CONVERSION_BUFFER_SIZE)"
proof -
  obtain ds where ds: "npf_utoa_rev val [] base adj = Some (map (npf_digit adj) ds)" "numeral_of (unat base) (unat val) ds"
    using npf_utoa_rev_digits [OF assms, of val "[]"] by auto
  have "unat val < 2 ^ 64" using unsigned_less [of val, where ?'a = nat] by simp
  then show ?thesis using ds numeral_length [OF ds(2)] by (auto simp: NANOPRINTF_CONVERSION_BUFFER_SIZE_def)
qed

theorem npf_utoa_rev_correct_witness:
  "\<exists>ds. npf_utoa_rev 0xFFFFFFFFFFFFFFFF [] 8 32 = Some (map (npf_digit 32) ds) \<and> numeral_of 8 0xFFFFFFFFFFFFFFFF ds \<and> length ds \<le> 22"
  using npf_utoa_rev_correct [of 8 "0xFFFFFFFFFFFFFFFF" 32] by (auto simp: NANOPRINTF_CONVERSION_BUFFER_SIZE_def)

section \<open>The text of a format\<close>

text \<open>What a format stands for, without callback and count.\<close>

function (sequential) npf_text_of :: "string \<Rightarrow> va_arg list \<Rightarrow> string outcome" where
  "npf_text_of [] args = Ok []"
| "npf_text_of (c # cs) args =
     (if c = CHR 0x00 then Ok []
      else case (if c = CHR ''%'' then npf_parse_format_spec cs else Ok None) of
        Ok None \<Rightarrow> obind (npf_text_of cs args) (\<lambda>txt. Ok (c # txt))
      | Ok (Some (fs, rest)) \<Rightarrow>
          obind (npf_print fs args) (\<lambda>(out, args). obind (npf_text_of rest args) (\<lambda>txt. Ok (out @ txt)))
      | Halt \<Rightarrow> Halt | Spin \<Rightarrow> Spin | Block \<Rightarrow> Block | Fault \<Rightarrow> Fault)"
  by pat_completeness auto
termination
  by (relation "measure (\<lambda>(cs, args). length cs)") (auto split: if_splits dest: npf_parse_shorter)

declare npf_text_of.simps [simp del]

lemma put_all: "fold (npf_putc_cnt pc) out (n, ctx) = (n + of_nat (length out), fold pc out ctx)"
  by (induction out arbitrary: n ctx) (simp_all add: npf_putc_cnt_def)

lemma parse_cases:
  fixes p :: "(npf_format_spec \<times> string) option outcome"
  obtains (plain) "p = Ok None" | (spec) fs rest where "p = Ok (Some (fs, rest))" | (bad) "p = Halt \<or> p = Spin \<or> p = Block \<or> p = Fault"
  by (metis outcome.exhaust option.exhaust surj_pair)

lemma npf_loop_text:
  "npf_loop pc cs args (n, ctx) = obind (npf_text_of cs args) (\<lambda>out. Ok (n + of_nat (length out), fold pc out ctx))"
proof (induction cs args arbitrary: n ctx rule: npf_text_of.induct)
  case (1 args)
  then show ?case by (simp add: npf_loop.simps npf_text_of.simps)
next
  case (2 c cs args)
  show ?case
  proof (cases "c = CHR 0x00")
    case True
    then show ?thesis by (simp add: npf_loop.simps npf_text_of.simps)
  next
    case nz: False
    let ?p = "if c = CHR ''%'' then npf_parse_format_spec cs else Ok None"
    show ?thesis
    proof (cases ?p rule: parse_cases)
      case plain
      then show ?thesis using 2(1) [OF nz plain] nz
        by (simp add: npf_loop.simps npf_text_of.simps npf_putc_cnt_def obind_assoc algebra_simps)
    next
      case (spec fs rest)
      show ?thesis
      proof (cases "npf_print fs args")
        case (Ok r)
        obtain out args' where r: "r = (out, args')" by (cases r)
        show ?thesis using 2(2) [OF nz spec refl] spec nz Ok r
          by (simp add: npf_loop.simps npf_text_of.simps put_all obind_assoc algebra_simps)
      qed (use spec nz in \<open>simp_all add: npf_loop.simps npf_text_of.simps\<close>)
    next
      case bad
      then show ?thesis using nz by (auto simp: npf_loop.simps npf_text_of.simps)
    qed
  qed
qed

section \<open>Termination\<close>

definition settles :: "'a outcome \<Rightarrow> bool" where
  "settles m \<longleftrightarrow> m \<noteq> Halt \<and> m \<noteq> Spin \<and> m \<noteq> Block"

lemma settles_simps [simp]: "settles (Ok x)" "settles Fault"
  by (simp_all add: settles_def)

lemma settles_obind: "settles m \<Longrightarrow> (\<And>x. m = Ok x \<Longrightarrow> settles (f x)) \<Longrightarrow> settles (obind m f)"
  by (cases m) (simp_all add: settles_def)

lemma settles_digits: "settles (npf_digits n cs)"
  by (induction n cs rule: npf_digits.induct) (simp_all add: Let_def)

lemma settles_width: "settles (npf_width fs cs)"
  unfolding npf_width_def
  by (cases cs) (auto intro!: settles_obind settles_digits simp del: npf_digits.simps)

lemma settles_prec: "settles (npf_prec fs cs)"
proof (cases cs)
  case (Cons c cs')
  have "settles (obind (npf_digits 0 ds) (\<lambda>(n, rest). Ok (g n, rest)))" for ds and g :: "int \<Rightarrow> npf_format_spec"
    by (rule settles_obind [OF settles_digits]) auto
  then show ?thesis using Cons by (simp add: npf_prec_def Let_def del: npf_digits.simps)
qed (simp add: npf_prec_def)

lemma settles_parse: "settles (npf_parse_format_spec cs)"
  unfolding npf_parse_format_spec_def Let_def
  by (auto intro!: settles_obind settles_width settles_prec split: prod.splits)

lemma settles_va_int: "settles (va_int args)"
  by (cases args rule: va_int.cases) simp_all

lemma settles_va_long: "settles (va_long args)"
  by (cases args rule: va_long.cases) simp_all

lemma settles_va_str: "settles (va_str args)"
  by (cases args rule: va_str.cases) simp_all

lemmas settles_args = settles_va_int settles_va_long settles_va_str

lemma settles_utoa:
  assumes "b = 8 \<or> b = 10 \<or> b = 16"
  shows "settles (case npf_utoa_rev val [] b adj of None \<Rightarrow> Spin | Some ds \<Rightarrow> Ok ds)"
proof -
  have "2 \<le> unat b" using assms by auto
  from npf_utoa_rev_digits [OF this, of val "[]" adj] show ?thesis by auto
qed

lemma settles_signed: "settles (npf_signed fs args)"
  unfolding npf_signed_def Let_def by (auto intro!: settles_obind settles_args settles_utoa)

lemma settles_unsigned: "settles (npf_unsigned fs args)"
  unfolding npf_unsigned_def Let_def by (auto intro!: settles_obind settles_args settles_utoa simp del: upt.simps)

lemma settles_convert: "settles (npf_convert fs args)"
  unfolding npf_convert_def Let_def
  by (cases "conv_spec fs") (auto intro!: settles_obind settles_args settles_signed settles_unsigned)

lemma settles_print: "settles (npf_print fs args)"
  unfolding npf_print_def npf_star_width_def npf_star_prec_def Let_def
  by (auto intro!: settles_obind settles_args settles_convert)

lemma settles_text: "settles (npf_text_of cs args)"
proof (induction cs args rule: npf_text_of.induct)
  case (2 c cs args)
  let ?p = "if c = CHR ''%'' then npf_parse_format_spec cs else Ok None"
  show ?case
  proof (cases "c = CHR 0x00")
    case nz: False
    show ?thesis
    proof (cases ?p rule: parse_cases)
      case plain
      then show ?thesis using 2(1) [OF nz plain] nz by (simp add: npf_text_of.simps settles_obind)
    next
      case (spec fs rest)
      then show ?thesis using 2(2) [OF nz spec refl] nz settles_print
        by (auto simp: npf_text_of.simps intro!: settles_obind)
    next
      case bad
      then have "?p = Fault" using settles_parse [of cs] by (auto simp: settles_def split: if_splits)
      then show ?thesis using nz by (simp add: npf_text_of.simps)
    qed
  qed (simp add: npf_text_of.simps)
qed (simp add: npf_text_of.simps)

text \<open>
  \<open>npf_vpprintf\<close> puts out exactly the text of the format, character by character and in
  order, whatever the callback is, and returns its length; the work on a format always ends, with
  the text or with the fault of a wrong argument or a number that is too large.
\<close>

theorem npf_vpprintf_prints_text:
  "npf_vpprintf pc ctx format args = obind (npf_text_of format args) (\<lambda>out. Ok (of_nat (length out), fold pc out ctx)) \<and>
   settles (npf_text_of format args)"
  using npf_loop_text [of pc format args 0 ctx] settles_text by (simp add: npf_vpprintf_def)

section \<open>Buffers\<close>

lemma bufputc_all:
  assumes "unat (cur b) \<le> unat (len b)" "unat (len b) \<le> length (dst b)"
  shows "fold npf_bufputc out b = b\<lparr>dst := take (unat (cur b)) (dst b) @ take (unat (len b) - unat (cur b)) out @
      drop (unat (cur b) + min (length out) (unat (len b) - unat (cur b))) (dst b),
    cur := cur b + of_nat (min (length out) (unat (len b) - unat (cur b)))\<rparr>"
  using assms
proof (induction out arbitrary: b)
  case (Cons c out)
  let ?k = "unat (cur b)" let ?l = "unat (len b)"
  show ?case
  proof (cases "cur b < len b")
    case True
    then have lt: "?k < ?l" by (simp add: word_less_nat_alt)
    let ?b = "b\<lparr>dst := (dst b)[?k := c], cur := cur b + 1\<rparr>"
    have k': "unat (cur b + 1) = Suc ?k"
    proof -
      have "unat (len b) < 2 ^ 64" using unsigned_less [of "len b", where ?'a = nat] by simp
      then have "Suc ?k < 2 ^ 64" using lt by linarith
      then show ?thesis by (simp add: unat_word_ariths)
    qed
    have step: "npf_bufputc c b = ?b" using True by (simp add: npf_bufputc_def)
    have "fold npf_bufputc out ?b = ?b\<lparr>dst := take (Suc ?k) ((dst b)[?k := c]) @ take (?l - Suc ?k) out @
        drop (Suc ?k + min (length out) (?l - Suc ?k)) ((dst b)[?k := c]), cur := cur b + 1 + of_nat (min (length out) (?l - Suc ?k))\<rparr>"
      using Cons.IH [of ?b] lt Cons.prems k' by simp
    moreover have "take (Suc ?k) ((dst b)[?k := c]) = take ?k (dst b) @ [c]" using lt Cons.prems by (simp add: take_Suc_conv_app_nth)
    moreover have "?l - ?k = Suc (?l - Suc ?k)" using lt by simp
    ultimately show ?thesis using step by (simp add: add.commute add.left_commute)
  next
    case False
    then show ?thesis using Cons by (simp add: npf_bufputc_def word_less_nat_alt)
  qed
qed simp

lemma count_in_range:
  assumes "n < 2 ^ 31"
  shows "\<not> sint (of_nat n :: u32) < 0" "unat (ucast (of_nat n :: u32) :: u64) = n"
proof -
  have u: "unat (of_nat n :: u32) = n" using assms by (simp add: unat_of_nat_u32)
  then have "uint (of_nat n :: u32) = int n" by (metis uint_nat)
  then show "\<not> sint (of_nat n :: u32) < 0" using assms by (simp add: sint_uint signed_take_bit_int_eq_self)
  show "unat (ucast (of_nat n :: u32) :: u64) = n" using u assms by (simp add: unsigned_ucast_eq take_bit_nat_eq_self)
qed

lemma vsnprintf_stores:
  assumes "npf_text_of format args = Ok out" and "length out < 2 ^ 31" and "bufsz \<noteq> 0" and "unat bufsz \<le> length buf"
  shows "npf_vsnprintf (Some buf) bufsz format args = Ok (of_nat (length out),
    Some (take (unat bufsz - 1) out @ CHR 0x00 # drop (min (length out) (unat bufsz - 1) + 1) buf))"
proof -
  let ?n = "of_nat (length out) :: u32" let ?m = "min (length out) (unat bufsz - 1)"
  have pos: "0 < unat bufsz" using assms(3) by (simp add: unat_gt_0)
  let ?d = "take (unat bufsz) out @ drop (min (length out) (unat bufsz)) buf"
  have run: "npf_vpprintf npf_bufputc \<lparr>dst = buf, len = bufsz, cur = 0\<rparr> format args =
      Ok (?n, \<lparr>dst = ?d, len = bufsz, cur = of_nat (min (length out) (unat bufsz))\<rparr>)"
    using npf_loop_text [of npf_bufputc format args 0] bufputc_all [of "\<lparr>dst = buf, len = bufsz, cur = 0\<rparr>" out] assms(1,4)
    by (simp add: npf_vpprintf_def)
  have m: "unat (if sint ?n < 0 then 0 else min (ucast ?n) (bufsz - 1)) = ?m"
    using count_in_range [OF assms(2)] unat_minus_one [OF assms(3)] by (simp add: min_def word_le_nat_alt)
  have "?d[?m := CHR 0x00] = take (unat bufsz - 1) out @ CHR 0x00 # drop (?m + 1) buf"
  proof (cases "length out < unat bufsz")
    case True
    then have "length out < length buf" using assms(4) by simp
    then have "drop (length out) buf = buf ! length out # drop (Suc (length out)) buf" by (simp add: Cons_nth_drop_Suc)
    moreover have "length out \<le> unat bufsz - 1" using True by simp
    ultimately show ?thesis using True by (simp add: min_def list_update_append)
  next
    case False
    then have "take (unat bufsz) out = take (unat bufsz - 1) out @ [out ! (unat bufsz - 1)]"
      using pos by (metis Suc_pred' less_le_trans not_less take_Suc_conv_app_nth lessI)
    then show ?thesis using False pos by (simp add: min_def list_update_append)
  qed
  then show ?thesis using assms(3,4) run m by (simp add: npf_vsnprintf_def)
qed

text \<open>
  C19: printing into a buffer stores the longest prefix of the text that leaves room for the
  terminating null character, which follows it; the rest of the buffer and everything behind the
  given size stay as they are, and the length of the whole text is returned.
\<close>

theorem npf_vsnprintf_bounded:
  assumes "npf_text_of format args = Ok out" and "length out < 2 ^ 31" and "bufsz \<noteq> 0" and "unat bufsz \<le> length buf"
  shows "npf_vsnprintf (Some buf) bufsz format args = Ok (of_nat (length out),
    Some (take (unat bufsz - 1) out @ CHR 0x00 # drop (min (length out) (unat bufsz - 1) + 1) buf))"
  using assms by (rule vsnprintf_stores)

theorem npf_vsnprintf_bounded_witness:
  "npf_vsnprintf (Some ''........'') 4 ''hello'' [] = Ok (5, Some (''hel'' @ CHR 0x00 # ''....''))"
proof -
  have "npf_text_of ''hello'' [] = Ok ''hello''" by (simp add: npf_text_of.simps)
  from npf_vsnprintf_bounded [OF this, of 4 "''........''"] show ?thesis by simp
qed

section \<open>Fields and numbers\<close>

lemma layout_width:
  assumes "npf_convert fs args = Ok (t, rest)" and "field_width_opt fs = NPF_FMT_SPEC_OPT_LITERAL"
  shows "field_width fs \<le> int (length (npf_layout fs t))"
proof -
  have "npf_pad_char fs (is_zero t) \<noteq> None" using assms(2) by (simp add: npf_pad_char_def)
  then obtain c where c: "npf_pad_char fs (is_zero t) = Some c" by blast
  have "conv_spec fs = CONV_STRING \<Longrightarrow> sign_c t = None" using assms(1)
    by (auto simp: npf_convert_def obind_eq_Ok Let_def)
  then show ?thesis using c by (cases "sign_c t") (auto simp: npf_layout_def Let_def)
qed

lemma defaults_width [simp]:
  "field_width (npf_defaults fs) = field_width fs" "field_width_opt (npf_defaults fs) = field_width_opt fs"
  by (simp_all add: npf_defaults_def Let_def)

lemma star_prec_width:
  "npf_star_prec fs args = Ok (fs', rest) \<Longrightarrow> field_width fs' = field_width fs \<and> field_width_opt fs' = field_width_opt fs"
  by (auto simp: npf_star_prec_def obind_eq_Ok Let_def split: if_splits)

text \<open>
  A specification with a field width prints at least that many characters.
\<close>

theorem npf_print_width:
  assumes "npf_print fs args = Ok (out, rest)" and "field_width_opt fs = NPF_FMT_SPEC_OPT_LITERAL"
  shows "field_width fs \<le> int (length out)"
proof -
  have "npf_star_width fs args = Ok (fs, args)" using assms(2) by (simp add: npf_star_width_def)
  then obtain f2 a2 t a3 where
    p: "npf_star_prec fs args = Ok (f2, a2)" and t: "npf_convert (npf_defaults f2) a2 = Ok (t, a3)" "out = npf_layout (npf_defaults f2) t"
    using assms(1) by (auto simp: npf_print_def obind_eq_Ok Let_def)
  show ?thesis using layout_width [OF t(1)] star_prec_width [OF p] assms(2) t(2) by simp
qed

theorem npf_print_width_witness:
  "npf_print (npf_spec_start\<lparr>field_width := 8, field_width_opt := NPF_FMT_SPEC_OPT_LITERAL, conv_spec := CONV_STRING\<rparr>)
      [VaStr (Some ''kmap'')] = Ok (''    kmap'', []) \<and> 8 \<le> int (length ''    kmap'')"
proof -
  let ?fs = "npf_spec_start\<lparr>field_width := 8, field_width_opt := NPF_FMT_SPEC_OPT_LITERAL, conv_spec := CONV_STRING\<rparr>"
  have p: "npf_print ?fs [VaStr (Some ''kmap'')] = Ok (''    kmap'', [])"
    by (simp add: npf_print_def npf_star_width_def npf_star_prec_def npf_defaults_def npf_convert_def npf_layout_def npf_pad_char_def
      npf_spec_start_def numeral_eq_Suc)
  show ?thesis using npf_print_width [OF p] p by simp
qed

text \<open>Reading printed numbers.\<close>

definition digit_of :: "char \<Rightarrow> nat" where
  "digit_of c = (if is_digit c then of_char c - of_char (CHR ''0'')
     else if of_char (CHR ''a'') \<le> (of_char c :: nat) then of_char c - of_char (CHR ''a'') + 10
     else of_char c - of_char (CHR ''A'') + 10)"

definition read_number :: "nat \<Rightarrow> string \<Rightarrow> nat" where
  "read_number b s = foldl (\<lambda>v c. b * v + digit_of c) 0 s"

definition read_signed :: "string \<Rightarrow> int" where
  "read_signed s = (if s \<noteq> [] \<and> hd s = CHR ''-'' then - int (read_number 10 (tl s)) else int (read_number 10 s))"

lemma digit_of_digit:
  assumes "d < 16" "adj = 0 \<or> adj = 32"
  shows "digit_of (npf_digit adj d) = d" "npf_digit adj d \<noteq> CHR ''-''"
proof -
  have "d \<in> {..<16}" using assms(1) by simp
  then have "d \<in> {0, 1, 2, 3, 4, 5, 6, 7, 8, 9, 10, 11, 12, 13, 14, 15}" by (auto simp: lessThan_nat_numeral lessThan_Suc)
  then have *: "digit_of (npf_digit adj d) = d \<and> (of_char (npf_digit adj d) :: nat) \<noteq> of_char (CHR ''-'')"
    using assms(2) by (elim insertE disjE) (simp_all add: digit_of_def npf_digit_def is_digit_def)
  then show "digit_of (npf_digit adj d) = d" by simp
  from * show "npf_digit adj d \<noteq> CHR ''-''" by metis
qed

lemma read_digits:
  assumes "\<forall>d\<in>set ds. d < 16" "adj = 0 \<or> adj = 32"
  shows "read_number b (rev (map (npf_digit adj) ds)) = digits_value b ds"
  using assms by (induction ds) (simp_all add: read_number_def digit_of_digit(1))

lemma utoa_reads:
  assumes "base = 8 \<or> base = 10 \<or> base = 16" "adj = 0 \<or> adj = 32"
  obtains ds where "npf_utoa_rev v [] base adj = Some ds" "read_number (unat base) (rev ds) = unat v" "ds \<noteq> []" "rev ds ! 0 \<noteq> CHR ''-''"
proof -
  have "2 \<le> unat base" using assms(1) by auto
  from npf_utoa_rev_digits [OF this, of v "[]" adj] obtain ds where
    ds: "npf_utoa_rev v [] base adj = Some (map (npf_digit adj) ds)" "numeral_of (unat base) (unat v) ds" by auto
  have small: "\<forall>d\<in>set ds. d < 16" using ds(2) assms(1) by (auto simp: numeral_of_def)
  have "npf_digit adj d \<noteq> CHR ''-''" if "d < 16" for d using digit_of_digit(2) [OF that assms(2)] .
  then have none: "CHR ''-'' \<notin> set (rev (map (npf_digit adj) ds))" using small by force
  have "ds \<noteq> []" using ds(2) by (simp add: numeral_of_def)
  then have "rev (map (npf_digit adj) ds) ! 0 \<in> set (rev (map (npf_digit adj) ds))" by (intro nth_mem) simp
  then have "rev (map (npf_digit adj) ds) ! 0 \<noteq> CHR ''-''" using none by metis
  then show ?thesis using that [OF ds(1)] read_digits [OF small assms(2)] ds(2) by (simp add: numeral_of_def)
qed

lemma magnitude: "(if sint v < 0 then - int (unat (0 - v)) else int (unat v)) = sint (v :: u64)"
proof -
  have r: "0 \<le> uint v" "uint v < 2 ^ 64" using unsigned_less [of v, where ?'a = int] by simp_all
  then have "take_bit 64 (uint v) = uint v" by (rule take_bit_int_eq_self)
  then have s: "sint v = uint v - 2 ^ 64 * of_bool (bit (uint v) 63)"
    by (simp add: sint_uint signed_take_bit_eq_take_bit_minus)
  show ?thesis
  proof (cases "bit (uint v) 63")
    case True
    then have sv: "sint v = uint v - 2 ^ 64" using s by simp
    have nz: "uint v \<noteq> 0"
    proof
      assume "uint v = 0"
      then show False using True by (metis bit_0_eq bot_apply bot_bool_def)
    qed
    have "uint (0 - v) = (0 - uint v) mod 2 ^ 64" by (simp add: uint_word_ariths)
    also have "\<dots> = (2 ^ 64 - uint v) mod 2 ^ 64" by (metis minus_mod_self2 mod_diff_left_eq mod_self mod_0)
    also have "\<dots> = 2 ^ 64 - uint v" using nz r by (intro mod_pos_pos_trivial) linarith+
    finally have "int (unat (0 - v)) = 2 ^ 64 - uint v" by (metis uint_nat)
    moreover have "sint v < 0" using sv r(2) by linarith
    ultimately show ?thesis using sv by (simp only: if_True)
  next
    case False
    then have z: "of_bool (bit (uint v) 63) = (0 :: int)" by (simp only: of_bool_def if_False)
    have sv: "sint v = uint v" unfolding s z by (simp only: mult_zero_right diff_zero)
    have i: "int (unat v) = uint v" by (rule uint_nat [symmetric])
    have "\<not> sint v < 0" using sv r(1) by linarith
    then show ?thesis unfolding i sv by (rule if_not_P)
  qed
qed

lemma text_of_spec:
  assumes "npf_parse_format_spec cs = Ok (Some (fs, []))" and "npf_print fs args = Ok (out, rest)"
  shows "npf_text_of (CHR ''%'' # cs) args = Ok out"
  using assms by (simp add: npf_text_of.simps)

definition llspec :: npf_format_spec where
  "llspec = npf_spec_start\<lparr>length_modifier := LEN_MOD_LARGE_LONG_LONG\<rparr>"

lemma parse_numbers:
  "npf_parse_format_spec (CHR ''l'' # CHR ''l'' # CHR ''d'' # cs) = Ok (Some (llspec\<lparr>conv_spec := CONV_SIGNED_INT\<rparr>, cs))"
  "npf_parse_format_spec (CHR ''l'' # CHR ''l'' # CHR ''u'' # cs) = Ok (Some (llspec\<lparr>conv_spec := CONV_UNSIGNED_INT\<rparr>, cs))"
  "npf_parse_format_spec (CHR ''l'' # CHR ''l'' # CHR ''x'' # cs) = Ok (Some (llspec\<lparr>conv_spec := CONV_HEX_INT\<rparr>, cs))"
  "npf_parse_format_spec (CHR ''l'' # CHR ''l'' # CHR ''X'' # cs) = Ok (Some (llspec\<lparr>case_adjust := 0, conv_spec := CONV_HEX_INT\<rparr>, cs))"
  "npf_parse_format_spec (CHR ''d'' # cs) = Ok (Some (npf_spec_start\<lparr>conv_spec := CONV_SIGNED_INT\<rparr>, cs))"
  "npf_parse_format_spec (CHR ''s'' # cs) = Ok (Some (npf_spec_start\<lparr>conv_spec := CONV_STRING\<rparr>, cs))"
  by (simp_all add: npf_parse_format_spec_def npf_width_def npf_prec_def is_digit_def llspec_def)

lemmas npf_number_simps = llspec_def npf_spec_start_def npf_print_def npf_star_width_def npf_star_prec_def npf_defaults_def
  npf_convert_def npf_layout_def npf_pad_char_def npf_signed_def npf_unsigned_def

lemma print_unsigned:
  assumes "npf_utoa_rev v [] 10 32 = Some ds"
  shows "npf_print (llspec\<lparr>conv_spec := CONV_UNSIGNED_INT\<rparr>) (VaLong v # args) = Ok (rev ds, args)"
  using assms by (simp add: npf_number_simps)

lemma print_hex:
  assumes "npf_utoa_rev v [] 16 adj = Some ds"
  shows "npf_print (llspec\<lparr>case_adjust := adj, conv_spec := CONV_HEX_INT\<rparr>) (VaLong v # args) = Ok (rev ds, args)"
  using assms by (simp add: npf_number_simps)

lemma llspec_lower: "llspec\<lparr>case_adjust := 32\<rparr> = llspec"
  by (simp add: llspec_def npf_spec_start_def)

lemma print_signed:
  assumes "npf_utoa_rev (if sint v < 0 then 0 - v else v) [] 10 32 = Some ds"
  shows "npf_print (llspec\<lparr>conv_spec := CONV_SIGNED_INT\<rparr>) (VaLong v # args) = Ok ((if sint v < 0 then ''-'' else []) @ rev ds, args)"
  using assms by (cases "sint v < 0") (simp_all add: npf_number_simps)

lemma print_int:
  assumes "va_int args = Ok (w, rest)" and "npf_utoa_rev (if sint (scast w :: u64) < 0 then 0 - scast w else scast w) [] 10 32 = Some ds"
  shows "npf_print (npf_spec_start\<lparr>conv_spec := CONV_SIGNED_INT\<rparr>) args =
    Ok ((if sint (scast w :: u64) < 0 then ''-'' else []) @ rev ds, rest)"
  using assms by (cases "sint (scast w :: u64) < 0") (simp_all add: npf_number_simps)

lemma print_string:
  "npf_print (npf_spec_start\<lparr>conv_spec := CONV_STRING\<rparr>) (VaStr (Some str) # args) = Ok (takeWhile (\<lambda>c. c \<noteq> CHR 0x00) str, args)"
  by (simp add: npf_number_simps)

text \<open>
  C21: reading a printed number gives the number back: signed and unsigned 64-bit numbers in
  decimal, addresses in hexadecimal in either case of the letters.
\<close>

theorem printed_numbers_read_back:
  "(\<exists>out. npf_text_of ''%lld'' [VaLong v] = Ok out \<and> read_signed out = sint v) \<and>
   (\<exists>out. npf_text_of ''%llu'' [VaLong v] = Ok out \<and> read_number 10 out = unat v) \<and>
   (\<exists>out. npf_text_of ''%llx'' [VaLong v] = Ok out \<and> read_number 16 out = unat v) \<and>
   (\<exists>out. npf_text_of ''%llX'' [VaLong v] = Ok out \<and> read_number 16 out = unat v)"
proof (intro conjI)
  let ?u = "if sint v < 0 then 0 - v else v"
  obtain ds where ds: "npf_utoa_rev ?u [] 10 32 = Some ds" "read_number 10 (rev ds) = unat ?u" "ds \<noteq> []" "rev ds ! 0 \<noteq> CHR ''-''"
    using utoa_reads [of 10 32 ?u] by auto
  have "read_signed ((if sint v < 0 then ''-'' else []) @ rev ds) = sint v"
    using ds(2,3,4) magnitude [of v] by (cases "sint v < 0") (simp_all add: read_signed_def hd_conv_nth)
  then show "\<exists>out. npf_text_of ''%lld'' [VaLong v] = Ok out \<and> read_signed out = sint v"
    using text_of_spec [OF parse_numbers(1) print_signed [OF ds(1)]] by blast
  obtain us where us: "npf_utoa_rev v [] 10 32 = Some us" "read_number 10 (rev us) = unat v" using utoa_reads [of 10 32 v] by auto
  then show "\<exists>out. npf_text_of ''%llu'' [VaLong v] = Ok out \<and> read_number 10 out = unat v"
    using text_of_spec [OF parse_numbers(2) print_unsigned [OF us(1)]] by blast
  obtain xs where xs: "npf_utoa_rev v [] 16 32 = Some xs" "read_number 16 (rev xs) = unat v" using utoa_reads [of 16 32 v] by auto
  show "\<exists>out. npf_text_of ''%llx'' [VaLong v] = Ok out \<and> read_number 16 out = unat v"
    using text_of_spec [OF parse_numbers(3) print_hex [OF xs(1), unfolded llspec_lower]] xs(2) by blast
  obtain ys where ys: "npf_utoa_rev v [] 16 0 = Some ys" "read_number 16 (rev ys) = unat v" using utoa_reads [of 16 0 v] by auto
  then show "\<exists>out. npf_text_of ''%llX'' [VaLong v] = Ok out \<and> read_number 16 out = unat v"
    using text_of_spec [OF parse_numbers(4) print_hex [OF ys(1)]] by blast
qed

section \<open>Lengths of texts\<close>

text \<open>The text of a format with its arguments exists and has at most the given length.\<close>

definition fits :: "string \<Rightarrow> va_arg list \<Rightarrow> nat \<Rightarrow> bool" where
  "fits fmt args n \<longleftrightarrow> (\<exists>out. npf_text_of fmt args = Ok out \<and> length out \<le> n)"

lemma utoa_length:
  assumes "base = 10 \<or> base = 16"
  obtains ds where "npf_utoa_rev v [] base adj = Some ds" "length ds \<le> 22"
proof -
  have b: "2 \<le> unat base" "8 \<le> unat base" using assms by auto
  have "unat v < 2 ^ 64" using unsigned_less [of v, where ?'a = nat] by simp
  then show ?thesis using npf_utoa_rev_digits [OF b(1), of v "[]" adj] numeral_length [OF _ b(2)] that by fastforce
qed

lemma fits_nil: "fits [] args 0"
  by (simp add: fits_def npf_text_of.simps)

lemma fits_char: "c \<noteq> CHR ''%'' \<Longrightarrow> c \<noteq> CHR 0x00 \<Longrightarrow> fits cs args n \<Longrightarrow> fits (c # cs) args (Suc n)"
  by (auto simp: fits_def npf_text_of.simps)

lemma fits_spec:
  assumes "npf_parse_format_spec cs = Ok (Some (fs, cs'))" "npf_print fs args = Ok (out, rest)" "length out \<le> k" "fits cs' rest n"
  shows "fits (CHR ''%'' # cs) args (k + n)"
  using assms by (auto simp: fits_def npf_text_of.simps)

lemma fits_llu: "fits cs args n \<Longrightarrow> fits (CHR ''%'' # CHR ''l'' # CHR ''l'' # CHR ''u'' # cs) (VaLong v # args) (22 + n)"
  by (rule utoa_length [of 10 v 32]) (auto intro!: fits_spec parse_numbers(2) print_unsigned)

lemma fits_llx: "fits cs args n \<Longrightarrow> fits (CHR ''%'' # CHR ''l'' # CHR ''l'' # CHR ''x'' # cs) (VaLong v # args) (22 + n)"
  by (rule utoa_length [of 16 v 32]) (auto intro!: fits_spec parse_numbers(3) print_hex [where adj = 32, unfolded llspec_lower])

lemma fits_d:
  assumes "va_int args = Ok (w, rest)" "fits cs rest n"
  shows "fits (CHR ''%'' # CHR ''d'' # cs) args (23 + n)"
proof -
  let ?v = "scast w :: u64"
  obtain ds where ds: "npf_utoa_rev (if sint ?v < 0 then 0 - ?v else ?v) [] 10 32 = Some ds" "length ds \<le> 22"
    using utoa_length [of 10] by blast
  show ?thesis by (rule fits_spec [OF parse_numbers(5) print_int [OF assms(1) ds(1)] _ assms(2)]) (use ds(2) in simp)
qed

lemma fits_s: "fits cs args n \<Longrightarrow> fits (CHR ''%'' # CHR ''s'' # cs) (VaStr (Some str) # args) (length str + n)"
  using length_takeWhile_le by (intro fits_spec [OF parse_numbers(6) print_string]) auto

lemma fits_le: "fits fmt args m \<Longrightarrow> m \<le> n \<Longrightarrow> fits fmt args n"
  by (auto simp: fits_def)

lemmas fits_rules = fits_nil fits_llu fits_llx fits_s fits_d [OF va_int.simps(1)] fits_d [OF va_int.simps(2)] fits_char

end
