(* ===== verification/Log.thy ===== *)
theory Log
  imports Npf_Props Serial Spinlock
begin

text \<open>
  Formatted output to the devices: \<open>printf\<close> and its relatives (\<open>kernel/src/libk/stdio.c\<close>), the
  logger (\<open>kernel/src/common/logging.c\<close>) and the part of the console that writes
  (\<open>kernel/src/drivers/console.c\<close>). The terminal emulator is not part of the kernel: its state and
  its \<open>flanterm_write\<close>, here \<open>fw\<close>, are parameters.
\<close>

section \<open>Output devices\<close>

record 'ft logger =
  log_buffer :: string
  console_lock :: spinlock_irq
  lg_rflags :: u64
  lg_machine :: machine
  ft_ctx :: "'ft option"

abbreviation bytes :: "string \<Rightarrow> u8 list" where
  "bytes \<equiv> map of_char"

definition console_write_str :: "('ft \<Rightarrow> string \<Rightarrow> 'ft) \<Rightarrow> string \<Rightarrow> 'ft logger \<Rightarrow> 'ft logger" where
  "console_write_str fw str s = (case ft_ctx s of None \<Rightarrow> s | Some ft \<Rightarrow> s\<lparr>ft_ctx := Some (fw ft str)\<rparr>)"

definition serial_out :: "string \<Rightarrow> 'ft logger \<Rightarrow> 'ft logger outcome" where
  "serial_out str s = (case serial_write_str (bytes str) (lg_machine s) of None \<Rightarrow> Spin | Some m \<Rightarrow> Ok (s\<lparr>lg_machine := m\<rparr>))"

section \<open>Formatted output\<close>

definition putchar_callback :: "('ft \<Rightarrow> string \<Rightarrow> 'ft) \<Rightarrow> char \<Rightarrow> 'ft logger outcome \<Rightarrow> 'ft logger outcome" where
  "putchar_callback fw c ctx = obind ctx (\<lambda>s. obind (serial_out [c] s) (\<lambda>s. Ok (console_write_str fw [c] s)))"

text \<open>A format that cannot be processed is a fault, whatever has been written before.\<close>

definition printf :: "('ft \<Rightarrow> string \<Rightarrow> 'ft) \<Rightarrow> string \<Rightarrow> va_arg list \<Rightarrow> 'ft logger \<Rightarrow> (u32 \<times> 'ft logger) outcome" where
  "printf fw format args s =
     obind (npf_vpprintf (putchar_callback fw) (Ok s) format args) (\<lambda>(len, ctx).
     obind ctx (\<lambda>s. Ok (len, s)))"

definition vsnprintf :: "string option \<Rightarrow> u64 \<Rightarrow> string \<Rightarrow> va_arg list \<Rightarrow> (u32 \<times> string option) outcome" where
  "vsnprintf buffer bufsz format args = npf_vsnprintf buffer bufsz format args"

definition snprintf :: "string option \<Rightarrow> u64 \<Rightarrow> string \<Rightarrow> va_arg list \<Rightarrow> (u32 \<times> string option) outcome" where
  "snprintf buffer bufsz format args =
     obind (npf_vsnprintf buffer bufsz format args) (\<lambda>(len, buffer). Ok (len, buffer))"

section \<open>The logger\<close>

datatype logType = LOG_DEBUG | LOG_SUCCESS | LOG_WARN | LOG_ERROR

definition LOG_BUFFER_DIM :: nat where "LOG_BUFFER_DIM = 1024"

fun log_labels :: "logType \<Rightarrow> string" where
  "log_labels LOG_DEBUG = ''DBG''"
| "log_labels LOG_SUCCESS = ''OK''"
| "log_labels LOG_WARN = ''WARN''"
| "log_labels LOG_ERROR = ''ERR''"

fun log_colors :: "logType \<Rightarrow> string" where
  "log_colors LOG_DEBUG = CHR 0x1B # ''[0m''"
| "log_colors LOG_SUCCESS = CHR 0x1B # ''[32m''"
| "log_colors LOG_WARN = CHR 0x1B # ''[33m''"
| "log_colors LOG_ERROR = CHR 0x1B # ''[31m''"

text \<open>Stores into the buffer; one behind its end is a fault. \<open>strcpy\<close> copies the null character as well.\<close>

definition put_chars :: "string \<Rightarrow> nat \<Rightarrow> string \<Rightarrow> string outcome" where
  "put_chars buf p str =
     (if length buf < p + length str then Fault else Ok (take p buf @ str @ drop (p + length str) buf))"

definition put_str :: "string \<Rightarrow> nat \<Rightarrow> string \<Rightarrow> string outcome" where
  "put_str buf p str = put_chars buf p (str @ [CHR 0x00])"

definition log_head :: "logType \<Rightarrow> string \<Rightarrow> (nat \<times> string) outcome" where
  "log_head logLevel buf =
     obind (put_chars buf 0 ''['') (\<lambda>buf.
     let ptr = 1 in
     obind (put_str buf ptr (log_colors logLevel)) (\<lambda>buf.
     let ptr = ptr + length (log_colors logLevel) in
     obind (put_str buf ptr (log_labels logLevel)) (\<lambda>buf.
     let ptr = ptr + length (log_labels logLevel) in
     obind (put_str buf ptr (CHR 0x1B # ''[0m'')) (\<lambda>buf.
     let ptr = ptr + 4 in
     obind (put_str buf ptr (CHR '']'' # [CHR 0x09])) (\<lambda>buf.
     Ok (ptr + 2, buf))))))"

text \<open>
  The message behind the head and the end of the line. The pointer moves by the number that
  \<open>vsnprintf\<close> returns, an \<open>int\<close>.
\<close>

definition log_message :: "string \<Rightarrow> va_arg list \<Rightarrow> nat \<Rightarrow> string \<Rightarrow> (nat \<times> string) outcome" where
  "log_message fmt args ptr buf =
     (let remaining = of_nat LOG_BUFFER_DIM - of_nat ptr - 2 in
      obind (vsnprintf (Some (drop ptr buf)) remaining fmt args) (\<lambda>(written, txt).
      let buf = take ptr buf @ the txt;
          end_ptr = int ptr + sint written
      in if end_ptr < 0 then Fault
         else obind (put_chars buf (nat end_ptr) [CHR 0x0D, CHR 0x0A, CHR 0x00]) (\<lambda>buf. Ok (nat end_ptr + 2, buf))))"

definition log_line :: "('ft \<Rightarrow> string \<Rightarrow> 'ft) \<Rightarrow> logType \<Rightarrow> string \<Rightarrow> va_arg list \<Rightarrow> 'ft logger \<Rightarrow> 'ft logger outcome" where
  "log_line fw logLevel fmt args s =
     obind (lock_acquire (console_lock s) (lg_rflags s)) (\<lambda>(l, irq_flags, rf).
     let s = s\<lparr>console_lock := l, lg_rflags := rf\<rparr>;
         send_to_console = (logLevel \<noteq> LOG_DEBUG)
     in
     obind (log_head logLevel (log_buffer s)) (\<lambda>(ptr, buf).
     obind (log_message fmt args ptr buf) (\<lambda>(ptr, buf).
     let s = s\<lparr>log_buffer := buf\<rparr> in
     obind (serial_out (take ptr buf) s) (\<lambda>s.
     let s = (if send_to_console then console_write_str fw (take ptr buf) s else s);
         (l, rf) = lock_release (console_lock s) irq_flags
     in Ok (s\<lparr>console_lock := l, lg_rflags := rf\<rparr>)))))"

lemma console_write_str_simps [simp]:
  "console_lock (console_write_str fw str s) = console_lock s" "log_buffer (console_write_str fw str s) = log_buffer s"
  "lg_machine (console_write_str fw str s) = lg_machine s" "ft_ctx (console_write_str fw str s) = map_option (\<lambda>ft. fw ft str) (ft_ctx s)"
  by (cases "ft_ctx s"; simp add: console_write_str_def)+

section \<open>What is written\<close>

text \<open>The head of a line as one text, and the room that it leaves for the message.\<close>

definition log_prefix :: "logType \<Rightarrow> string" where
  "log_prefix lv = ''['' @ log_colors lv @ log_labels lv @ (CHR 0x1B # ''[0m'') @ (CHR '']'' # [CHR 0x09])"

definition log_room :: "logType \<Rightarrow> nat" where
  "log_room lv = LOG_BUFFER_DIM - length (log_prefix lv) - 2"

lemma put_chars_prefix:
  assumes "length buf = n" "take p buf = pre" "length pre = p" "p + length str \<le> n"
  obtains buf' where "put_chars buf p str = Ok buf'" "length buf' = n" "take (p + length str) buf' = pre @ str"
  using assms by (auto simp: put_chars_def)

lemma put_str_prefix:
  assumes "length buf = n" "take p buf = pre" "length pre = p" "p + length str < n"
  obtains buf' where "put_str buf p str = Ok buf'" "length buf' = n" "take (p + length str) buf' = pre @ str"
proof -
  obtain buf' where b: "put_chars buf p (str @ [CHR 0x00]) = Ok buf'" "length buf' = n"
      "take (p + length (str @ [CHR 0x00])) buf' = pre @ str @ [CHR 0x00]"
    using put_chars_prefix [of buf n p pre "str @ [CHR 0x00]"] assms by auto
  have "take (p + length str) buf' = take (p + length str) (take (p + length (str @ [CHR 0x00])) buf')" by (simp add: min_def)
  also have "\<dots> = pre @ str" unfolding b(3) using assms(3) by simp
  finally show ?thesis using that b(1,2) by (simp add: put_str_def)
qed

lemma log_prefix_length: "length (log_prefix lv) \<le> 16"
  by (cases lv) (simp_all add: log_prefix_def)

lemma log_head_writes:
  assumes "length buf = LOG_BUFFER_DIM"
  obtains buf' where "log_head lv buf = Ok (length (log_prefix lv), buf')" "length buf' = LOG_BUFFER_DIM"
    "take (length (log_prefix lv)) buf' = log_prefix lv"
proof -
  have l: "length (log_prefix lv) = 1 + length (log_colors lv) + length (log_labels lv) + 4 + 2" by (simp add: log_prefix_def)
  then have fits: "1 + length (log_colors lv) + length (log_labels lv) + 4 + 2 < LOG_BUFFER_DIM"
    using log_prefix_length [of lv] by (simp add: LOG_BUFFER_DIM_def)
  obtain b1 where b1: "put_chars buf 0 ''['' = Ok b1" "length b1 = LOG_BUFFER_DIM" "take 1 b1 = ''[''"
    using put_chars_prefix [of buf LOG_BUFFER_DIM 0 "[]" "''[''"] assms fits by auto
  obtain b2 where b2: "put_str b1 1 (log_colors lv) = Ok b2" "length b2 = LOG_BUFFER_DIM"
      "take (1 + length (log_colors lv)) b2 = ''['' @ log_colors lv"
    by (rule put_str_prefix [OF b1(2,3), of "log_colors lv"]) (use fits in auto)
  obtain b3 where b3: "put_str b2 (1 + length (log_colors lv)) (log_labels lv) = Ok b3" "length b3 = LOG_BUFFER_DIM"
      "take (1 + length (log_colors lv) + length (log_labels lv)) b3 = (''['' @ log_colors lv) @ log_labels lv"
    by (rule put_str_prefix [OF b2(2,3), of "log_labels lv"]) (use fits in auto)
  obtain b4 where b4: "put_str b3 (1 + length (log_colors lv) + length (log_labels lv)) (CHR 0x1B # ''[0m'') = Ok b4"
      "length b4 = LOG_BUFFER_DIM"
      "take (1 + length (log_colors lv) + length (log_labels lv) + 4) b4 = ((''['' @ log_colors lv) @ log_labels lv) @ (CHR 0x1B # ''[0m'')"
    by (rule put_str_prefix [OF b3(2,3), of "CHR 0x1B # ''[0m''"]) (use fits in \<open>auto simp: numeral_eq_Suc\<close>)
  obtain b5 where b5: "put_str b4 (1 + length (log_colors lv) + length (log_labels lv) + 4) (CHR '']'' # [CHR 0x09]) = Ok b5"
      "length b5 = LOG_BUFFER_DIM"
      "take (1 + length (log_colors lv) + length (log_labels lv) + 4 + 2) b5 =
        (((''['' @ log_colors lv) @ log_labels lv) @ (CHR 0x1B # ''[0m'')) @ (CHR '']'' # [CHR 0x09])"
    by (rule put_str_prefix [OF b4(2,3), of "CHR '']'' # [CHR 0x09]"]) (use fits in auto)
  have "log_head lv buf = Ok (length (log_prefix lv), b5)"
    using b1(1) b2(1) b3(1) b4(1) b5(1) unfolding l by (simp add: log_head_def)
  then show ?thesis using that b5(2,3) unfolding l by (simp add: log_prefix_def)
qed

lemma sint_count: "n < 2 ^ 31 \<Longrightarrow> sint (of_nat n :: u32) = int n"
proof -
  assume n: "n < 2 ^ 31"
  then have "unat (of_nat n :: u32) = n" by (simp add: unat_of_nat_u32)
  then have "uint (of_nat n :: u32) = int n" by (metis uint_nat)
  then show ?thesis using n by (simp add: sint_uint signed_take_bit_int_eq_self)
qed

lemma log_vsnprintf:
  assumes "length buf = LOG_BUFFER_DIM" "ptr \<le> 16" "npf_text_of fmt args = Ok out" "length out < 2 ^ 31"
  obtains new where
    "vsnprintf (Some (drop ptr buf)) (of_nat LOG_BUFFER_DIM - of_nat ptr - 2) fmt args = Ok (of_nat (length out), Some new)"
    "length new = LOG_BUFFER_DIM - ptr" "length out < LOG_BUFFER_DIM - ptr - 2 \<Longrightarrow> take (length out) new = out"
proof -
  let ?r = "of_nat LOG_BUFFER_DIM - of_nat ptr - 2 :: u64"
  have e: "?r = of_nat (LOG_BUFFER_DIM - ptr - 2)" using assms(2) by (simp add: LOG_BUFFER_DIM_def of_nat_diff)
  have r: "unat ?r = LOG_BUFFER_DIM - ptr - 2" unfolding e by (rule unat_of_nat_u64) (simp add: LOG_BUFFER_DIM_def)
  then have nz: "?r \<noteq> 0" using assms(2) by (intro notI) (simp add: LOG_BUFFER_DIM_def)
  let ?t = "take (unat ?r - 1) out @ CHR 0x00 # drop (min (length out) (unat ?r - 1) + 1) (drop ptr buf)"
  have "vsnprintf (Some (drop ptr buf)) ?r fmt args = Ok (of_nat (length out), Some ?t)"
    unfolding vsnprintf_def by (rule vsnprintf_stores [OF assms(3,4) nz]) (use r assms(1) in simp)
  moreover have "length ?t = LOG_BUFFER_DIM - ptr" using assms(1,2) unfolding r by (auto simp: LOG_BUFFER_DIM_def min_def)
  moreover have "length out < LOG_BUFFER_DIM - ptr - 2 \<Longrightarrow> take (length out) ?t = out" unfolding r by simp
  ultimately show ?thesis using that by blast
qed

lemma log_message_writes:
  assumes "length buf = LOG_BUFFER_DIM" "take ptr buf = pre" "length pre = ptr" "ptr \<le> 16" "npf_text_of fmt args = Ok out"
    "length out < LOG_BUFFER_DIM - ptr - 2"
  obtains buf' where "log_message fmt args ptr buf = Ok (ptr + length out + 2, buf')" "length buf' = LOG_BUFFER_DIM"
    "take (ptr + length out + 2) buf' = pre @ out @ [CHR 0x0D, CHR 0x0A]"
proof -
  have small: "length out < 2 ^ 31" using assms(6) by (simp add: LOG_BUFFER_DIM_def)
  obtain new where n: "vsnprintf (Some (drop ptr buf)) (of_nat LOG_BUFFER_DIM - of_nat ptr - 2) fmt args = Ok (of_nat (length out), Some new)"
    "length new = LOG_BUFFER_DIM - ptr" "take (length out) new = out"
    using log_vsnprintf [OF assms(1,4,5) small] assms(6) by blast
  let ?b = "take ptr buf @ new" let ?e = "ptr + length out"
  have lb: "length ?b = LOG_BUFFER_DIM" using n(2) assms(1,4) by (simp add: LOG_BUFFER_DIM_def)
  have tb: "take ?e ?b = pre @ out" using assms(2,3) n(3) by simp
  obtain b3 where b3: "put_chars ?b ?e [CHR 0x0D, CHR 0x0A, CHR 0x00] = Ok b3" "length b3 = LOG_BUFFER_DIM"
      "take (?e + length [CHR 0x0D, CHR 0x0A, CHR 0x00]) b3 = (pre @ out) @ [CHR 0x0D, CHR 0x0A, CHR 0x00]"
    by (rule put_chars_prefix [OF lb tb, of "[CHR 0x0D, CHR 0x0A, CHR 0x00]"]) (use assms(3,6) in auto)
  have "take (?e + 2) b3 = take (?e + 2) (take (?e + length [CHR 0x0D, CHR 0x0A, CHR 0x00]) b3)" by (simp add: min_def)
  also have "\<dots> = pre @ out @ [CHR 0x0D, CHR 0x0A]" unfolding b3(3) using assms(3) by simp
  finally have "take (?e + 2) b3 = pre @ out @ [CHR 0x0D, CHR 0x0A]" .
  moreover have "log_message fmt args ptr buf = Ok (?e + 2, b3)"
    using n(1) b3(1) sint_count [OF small] by (simp add: log_message_def nat_add_distrib)
  ultimately show ?thesis using that b3(2) by blast
qed

lemma log_message_overflows:
  assumes "length buf = LOG_BUFFER_DIM" "ptr \<le> 16" "npf_text_of fmt args = Ok out" "LOG_BUFFER_DIM - ptr - 2 \<le> length out" "length out < 2 ^ 31"
  shows "log_message fmt args ptr buf = Fault"
proof -
  obtain new where n: "vsnprintf (Some (drop ptr buf)) (of_nat LOG_BUFFER_DIM - of_nat ptr - 2) fmt args = Ok (of_nat (length out), Some new)"
    "length new = LOG_BUFFER_DIM - ptr"
    using log_vsnprintf [OF assms(1,2,3,5)] by blast
  have "put_chars (take ptr buf @ new) (ptr + length out) [CHR 0x0D, CHR 0x0A, CHR 0x00] = Fault"
    using n(2) assms(1,2,4) by (simp add: put_chars_def LOG_BUFFER_DIM_def)
  then show ?thesis using n(1) sint_count [OF assms(5)] by (simp add: log_message_def nat_add_distrib)
qed

lemma log_room_prefix: "log_room lv = LOG_BUFFER_DIM - length (log_prefix lv) - 2"
  by (simp add: log_room_def)

text \<open>The state of the logger between two calls.\<close>

definition log_ready :: "'ft logger \<Rightarrow> bool" where
  "log_ready s \<longleftrightarrow> length (log_buffer s) = LOG_BUFFER_DIM \<and> lock_free (console_lock s) \<and> drains (lg_machine s)"

text \<open>What the console has received: every write goes to the terminal when there is one.\<close>

lemma serial_out_sends:
  assumes "drains (lg_machine s)"
  obtains m where "serial_out str s = Ok (s\<lparr>lg_machine := m\<rparr>)" "sent (io_trace m) = sent (io_trace (lg_machine s)) @ bytes str" "drains m"
  using write_str_sends [OF assms, of "bytes str"] by (auto simp: serial_out_def)

lemma log_line_result:
  assumes "log_ready s" and "npf_text_of fmt args = Ok out" and "length out < log_room lv"
  shows "\<exists>s'. log_line fw lv fmt args s = Ok s' \<and>
    sent (io_trace (lg_machine s')) = sent (io_trace (lg_machine s)) @ bytes (log_prefix lv @ out @ [CHR 0x0D, CHR 0x0A]) \<and>
    ft_ctx s' = (if lv = LOG_DEBUG then ft_ctx s else map_option (\<lambda>ft. fw ft (log_prefix lv @ out @ [CHR 0x0D, CHR 0x0A])) (ft_ctx s)) \<and>
    lg_rflags s' = lg_rflags s \<and> log_ready s'"
proof -
  let ?line = "log_prefix lv @ out @ [CHR 0x0D, CHR 0x0A]" let ?p = "length (log_prefix lv)"
  have r: "length (log_buffer s) = LOG_BUFFER_DIM" "lock_free (console_lock s)" "drains (lg_machine s)"
    using assms(1) by (simp_all add: log_ready_def)
  obtain b1 where b1: "log_head lv (log_buffer s) = Ok (?p, b1)" "length b1 = LOG_BUFFER_DIM" "take ?p b1 = log_prefix lv"
    using log_head_writes [OF r(1)] by blast
  obtain b2 where b2: "log_message fmt args ?p b1 = Ok (?p + length out + 2, b2)" "length b2 = LOG_BUFFER_DIM"
      "take (?p + length out + 2) b2 = ?line"
    using log_message_writes [OF b1(2,3) refl log_prefix_length assms(2)] assms(3) by (auto simp: log_room_prefix)
  let ?s = "s\<lparr>console_lock := (console_lock s)\<lparr>ticket := ticket (console_lock s) + 1\<rparr>, lg_rflags := lg_rflags s AND NOT RFLAGS_IF, log_buffer := b2\<rparr>"
  obtain m where m: "serial_out ?line ?s = Ok (?s\<lparr>lg_machine := m\<rparr>)" "sent (io_trace m) = sent (io_trace (lg_machine s)) @ bytes ?line" "drains m"
    using serial_out_sends [of ?s ?line] r(3) by auto
  let ?t = "?s\<lparr>lg_machine := m\<rparr>" let ?c = "if lv \<noteq> LOG_DEBUG then console_write_str fw ?line ?t else ?t"
  have "log_line fw lv fmt args s = Ok (?c\<lparr>console_lock := lock_advance (console_lock s), lg_rflags := lg_rflags s\<rparr>)"
    using lock_acquire_free [OF r(2), of "lg_rflags s"] b1(1) b2(1,3) m(1) lock_release_acquired [of "console_lock s" "lg_rflags s"]
    by (cases "lv = LOG_DEBUG") (simp_all add: log_line_def Let_def)
  then show ?thesis using m(2,3) b2(2) r(2) by (simp add: log_ready_def)
qed

text \<open>
  C18: a message that fits is written as one line, its level in front, to the serial port and,
  unless it is a debugging message, to the terminal; interrupts are as before and the logger is
  ready for the next line.
\<close>

theorem log_line_writes:
  assumes "log_ready s" and "npf_text_of fmt args = Ok out" and "length out < log_room lv"
  shows "\<exists>s'. log_line fw lv fmt args s = Ok s' \<and>
    sent (io_trace (lg_machine s')) = sent (io_trace (lg_machine s)) @ bytes (log_prefix lv @ out @ [CHR 0x0D, CHR 0x0A]) \<and>
    ft_ctx s' = (if lv = LOG_DEBUG then ft_ctx s else map_option (\<lambda>ft. fw ft (log_prefix lv @ out @ [CHR 0x0D, CHR 0x0A])) (ft_ctx s)) \<and>
    lg_rflags s' = lg_rflags s \<and> log_ready s'"
  using assms by (rule log_line_result)

text \<open>
  C22: a message that does not fit is cut off by \<open>vsnprintf\<close>, but the end of the line is stored
  behind the whole message: outside of the buffer, already when one character is too much.
\<close>

theorem log_line_overflows:
  assumes "log_ready s" and "npf_text_of fmt args = Ok out" and "log_room lv \<le> length out" and "length out < 2 ^ 31"
  shows "log_line fw lv fmt args s = Fault"
proof -
  have r: "length (log_buffer s) = LOG_BUFFER_DIM" "lock_free (console_lock s)" using assms(1) by (simp_all add: log_ready_def)
  obtain b1 where b1: "log_head lv (log_buffer s) = Ok (length (log_prefix lv), b1)" "length b1 = LOG_BUFFER_DIM"
    using log_head_writes [OF r(1)] by blast
  have "log_message fmt args (length (log_prefix lv)) b1 = Fault"
    by (rule log_message_overflows [OF b1(2) log_prefix_length assms(2) _ assms(4)]) (use assms(3) in \<open>simp add: log_room_prefix\<close>)
  then show ?thesis using lock_acquire_free [OF r(2), of "lg_rflags s"] b1(1) by (simp add: log_line_def Let_def)
qed

text \<open>
  \<open>printf\<close> writes the text of the format to both devices, character by character, and returns
  its length.
\<close>

lemma putchar_all:
  assumes "drains (lg_machine s)"
  shows "\<exists>s'. fold (putchar_callback fw) out (Ok s) = Ok s' \<and> drains (lg_machine s') \<and>
    sent (io_trace (lg_machine s')) = sent (io_trace (lg_machine s)) @ bytes out \<and>
    ft_ctx s' = map_option (fold (\<lambda>c ft. fw ft [c]) out) (ft_ctx s)"
  using assms
proof (induction out arbitrary: s)
  case (Cons c out)
  obtain m where m: "serial_out [c] s = Ok (s\<lparr>lg_machine := m\<rparr>)" "sent (io_trace m) = sent (io_trace (lg_machine s)) @ bytes [c]" "drains m"
    using serial_out_sends [OF Cons.prems] by blast
  let ?s = "console_write_str fw [c] (s\<lparr>lg_machine := m\<rparr>)"
  have "putchar_callback fw c (Ok s) = Ok ?s" using m(1) by (simp add: putchar_callback_def)
  moreover have "drains (lg_machine ?s)" using m(3) by simp
  ultimately show ?case using Cons.IH [of ?s] m(2) by (auto simp: option.map_comp comp_def)
qed (auto simp: option.map_id0)

theorem printf_writes:
  assumes "drains (lg_machine s)" and "npf_text_of format args = Ok out"
  shows "\<exists>s'. printf fw format args s = Ok (of_nat (length out), s') \<and>
    sent (io_trace (lg_machine s')) = sent (io_trace (lg_machine s)) @ bytes out \<and>
    ft_ctx s' = map_option (fold (\<lambda>c ft. fw ft [c]) out) (ft_ctx s)"
  using putchar_all [OF assms(1), of fw out] npf_loop_text [of "putchar_callback fw" format args 0 "Ok s"] assms(2)
  by (auto simp: printf_def npf_vpprintf_def)

section \<open>A logger at work\<close>

definition logger_demo :: "string logger" where
  "logger_demo = \<lparr>log_buffer = replicate LOG_BUFFER_DIM (CHR 0x00), console_lock = SPINLOCK_IRQ_INIT, lg_rflags = RFLAGS_IF,
     lg_machine = machine_demo, ft_ctx = Some []\<rparr>"

lemma logger_demo_ready: "log_ready logger_demo"
  by (simp add: log_ready_def logger_demo_def machine_demo_drains)

theorem log_line_writes_witness:
  "\<exists>s'. log_line (@) LOG_SUCCESS ''ready'' [] logger_demo = Ok s' \<and>
    ft_ctx s' = Some (''['' @ (CHR 0x1B # ''[32m'') @ ''OK'' @ (CHR 0x1B # ''[0m'') @ (CHR '']'' # CHR 0x09 # ''ready'') @ [CHR 0x0D, CHR 0x0A]) \<and>
    lg_rflags s' = RFLAGS_IF \<and> log_ready s'"
proof -
  have "npf_text_of ''ready'' [] = Ok ''ready''" by (simp add: npf_text_of.simps)
  moreover have "length ''ready'' < log_room LOG_SUCCESS" by (simp add: log_room_def log_prefix_def LOG_BUFFER_DIM_def)
  ultimately obtain s' where "log_line (@) LOG_SUCCESS ''ready'' [] logger_demo = Ok s'"
      "ft_ctx s' = map_option (\<lambda>ft. ft @ log_prefix LOG_SUCCESS @ ''ready'' @ [CHR 0x0D, CHR 0x0A]) (ft_ctx logger_demo)"
      "lg_rflags s' = lg_rflags logger_demo" "log_ready s'"
    using log_line_writes [OF logger_demo_ready, of "''ready''" "[]" "''ready''" LOG_SUCCESS "(@)"] by auto
  then show ?thesis by (simp add: logger_demo_def log_prefix_def)
qed

theorem log_line_overflows_witness:
  "log_line (@) LOG_ERROR ''%1100s'' [VaStr None] logger_demo = Fault"
proof -
  let ?fs = "npf_spec_start\<lparr>field_width := 1100, field_width_opt := NPF_FMT_SPEC_OPT_LITERAL, conv_spec := CONV_STRING\<rparr>"
  have "npf_parse_format_spec ''1100s'' = Ok (Some (?fs, []))"
    by (simp add: npf_parse_format_spec_def npf_width_def npf_prec_def is_digit_def npf_spec_start_def INT_MAX_def)
  moreover have "npf_print ?fs [VaStr None] = Ok (replicate 1100 (CHR '' ''), [])"
    by (simp add: npf_print_def npf_star_width_def npf_star_prec_def npf_defaults_def npf_convert_def npf_layout_def npf_pad_char_def
        npf_spec_start_def)
  ultimately have "npf_text_of ''%1100s'' [VaStr None] = Ok (replicate 1100 (CHR '' ''))" by (rule text_of_spec)
  then show ?thesis
    using log_line_overflows [OF logger_demo_ready, of "''%1100s''" "[VaStr None]" "replicate 1100 (CHR '' '')" LOG_ERROR "(@)"]
    by (simp add: log_room_def log_prefix_def LOG_BUFFER_DIM_def)
qed

end
