(* ===== verification/Boot.thy ===== *)
theory Boot
  imports Kern_Demo Acpi Log
begin

text \<open>
  The start of the kernel (\<open>kernel/src/main.c\<close>) with the boot loader's answers
  (\<open>kernel/src/limine_requests.c\<close>), the initialization of the console
  (\<open>kernel/src/drivers/console.c\<close>) and the reports of the physical memory manager. The terminal
  emulator is a parameter: \<open>fw\<close> is its \<open>flanterm_write\<close>, \<open>fb_init\<close> its \<open>flanterm_fb_init\<close>, which
  allocates from the kernel heap.
\<close>

section \<open>The boot loader's answers\<close>

record limine_framebuffer =
  fb_address :: u64
  fb_width :: u64
  fb_height :: u64
  fb_pitch :: u64
  fb_masks :: "u8 list"

text \<open>A response that did not come is \<open>None\<close>; a memory map may come without its entries.\<close>

record limine_responses =
  base_revision_supported :: bool
  rsdp_response :: "u64 option"
  framebuffer_response :: "limine_framebuffer list option"
  hhdm_response :: "u64 option"
  memmap_response :: "memmap_entry list option option"
  executable_addr_response :: "u64 option"

definition limine_verify_requests :: "limine_responses \<Rightarrow> unit outcome" where
  "limine_verify_requests r =
     (if \<not> base_revision_supported r \<or>
         rsdp_response r = None \<or> rsdp_response r = Some 0 \<or>
         framebuffer_response r = None \<or> framebuffer_response r = Some [] \<or>
         hhdm_response r = None \<or>
         memmap_response r = None \<or> memmap_response r = Some None \<or>
         executable_addr_response r = None
      then Halt else Ok ())"

section \<open>Logging in the kernel\<close>

text \<open>A line of the log, written with the kernel's machine and flags.\<close>

definition kn_log :: "('ft \<Rightarrow> string \<Rightarrow> 'ft) \<Rightarrow> logType \<Rightarrow> string \<Rightarrow> va_arg list \<Rightarrow> 'ft logger \<times> kern \<Rightarrow> ('ft logger \<times> kern) outcome" where
  "kn_log fw lv fmt args st =
     (case st of (lg, s) \<Rightarrow>
        obind (log_line fw lv fmt args (lg\<lparr>lg_rflags := kn_rflags s, lg_machine := kn_machine s\<rparr>)) (\<lambda>lg.
        Ok (lg, set_kn_rflags (lg_rflags lg) (s\<lparr>kn_machine := lg_machine lg\<rparr>))))"

fun print_regions :: "('ft \<Rightarrow> string \<Rightarrow> 'ft) \<Rightarrow> u64 \<Rightarrow> memmap_entry list \<Rightarrow> 'ft logger \<times> kern \<Rightarrow> ('ft logger \<times> kern) outcome" where
  "print_regions fw i [] st = Ok st"
| "print_regions fw i (entry # entries) st =
     obind (if me_type entry = LIMINE_MEMMAP_USABLE
            then kn_log fw LOG_DEBUG ''%d) Usable region; Phys range: 0x%llx - 0x%llx; Length: %llu bytes''
                   [VaLong (i + 1), VaLong (me_base entry), VaLong (me_base entry + me_length entry), VaLong (me_length entry)] st
            else Ok st)
       (print_regions fw (i + 1) entries)"

definition pmm_printUsableRegions :: "('ft \<Rightarrow> string \<Rightarrow> 'ft) \<Rightarrow> memmap_entry list \<Rightarrow> 'ft logger \<times> kern \<Rightarrow> ('ft logger \<times> kern) outcome" where
  "pmm_printUsableRegions fw memmap st =
     obind (kn_log fw LOG_DEBUG ''%s: Printing system memory map: '' [VaStr (Some ''pmm_printUsableRegions'')] st)
       (print_regions fw 0 memmap)"

function dump_orders :: "('ft \<Rightarrow> string \<Rightarrow> 'ft) \<Rightarrow> u64 list \<Rightarrow> nat \<Rightarrow> 'ft logger \<times> kern \<Rightarrow> ('ft logger \<times> kern) outcome" where
  "dump_orders fw nr i st =
     (if i < PMM_MAX_ORDER then
        obind (if 0 < nr ! i
               then kn_log fw LOG_DEBUG ''Order %d (%llu KB): %llu blocks free''
                      [VaInt (of_nat i), VaLong (push_bit i 1 * PMM_PAGE_SIZE div 1024), VaLong (nr ! i)] st
               else Ok st)
          (dump_orders fw nr (i + 1))
      else Ok st)"
  by auto
termination
  by (relation "measure (\<lambda>(fw, nr, i, st). PMM_MAX_ORDER - i)") auto

declare dump_orders.simps [simp del]

definition pmm_dump_state :: "('ft \<Rightarrow> string \<Rightarrow> 'ft) \<Rightarrow> pmm \<Rightarrow> 'ft logger \<times> kern \<Rightarrow> ('ft logger \<times> kern) outcome" where
  "pmm_dump_state fw p st =
     obind (kn_log fw LOG_DEBUG ''--- BUDDY ALLOCATOR STATE ---'' [] st) (\<lambda>st.
     obind (dump_orders fw (nr_free p) 0 st) (\<lambda>st.
     obind (kn_log fw LOG_DEBUG ''-----------------------------'' [] st) (\<lambda>st.
     obind (kn_log fw LOG_DEBUG ''Total Memory: %llu MB'' [VaLong (totalPages p * PMM_PAGE_SIZE div 1024 div 1024)] st) (\<lambda>st.
     obind (kn_log fw LOG_DEBUG ''Used Memory:  %llu MB'' [VaLong (used_pages p * PMM_PAGE_SIZE div 1024 div 1024)] st) (\<lambda>st.
     obind (kn_log fw LOG_DEBUG ''Free Memory:  %llu MB'' [VaLong ((totalPages p - used_pages p) * PMM_PAGE_SIZE div 1024 div 1024)] st) (\<lambda>st.
     kn_log fw LOG_DEBUG ''-----------------------------'' [] st))))))"

section \<open>The console\<close>

definition console_init :: "(u64 \<Rightarrow> limine_framebuffer \<Rightarrow> kern \<Rightarrow> ('ft option \<times> kern) outcome) \<Rightarrow> limine_responses \<Rightarrow>
    'ft logger \<times> kern \<Rightarrow> ('ft logger \<times> kern) outcome" where
  "console_init fb_init r st =
     (case (framebuffer_response r, st) of
        (Some (fb # fbs), lg, s) \<Rightarrow>
          let fb_size = fb_height fb * fb_pitch fb;
              fb_size = (if fb_size mod PAGING_PAGE_SIZE \<noteq> 0 then fb_size + (PAGING_PAGE_SIZE - fb_size mod PAGING_PAGE_SIZE) else fb_size)
          in obind (in_vm (\<lambda>vm. vmm_alloc vm (vmm_get_kernel_vas vm) fb_size
                      (VMM_FLAGS_MMIO OR VMM_FLAGS_READ OR VMM_FLAGS_WRITE OR VMM_FLAGS_WC)
                      (hhdm_virtToPhys (hhdm_offset (kn_pg s)) (fb_address fb))) s) (\<lambda>(virt_fb, s).
             if virt_fb = 0 then Halt
             else obind (fb_init virt_fb fb s) (\<lambda>(ft, s). Ok (lg\<lparr>ft_ctx := ft\<rparr>, s)))
      | _ \<Rightarrow> Fault)"

section \<open>The first tasks\<close>

text \<open>A task with three threads; a failure to create one of them is not noticed.\<close>

definition start_process :: "u64 \<Rightarrow> u64 \<Rightarrow> u8 list \<Rightarrow> kern \<Rightarrow> kern outcome" where
  "start_process exit_fn worker name s =
     obind (task_create (Some name) s) (\<lambda>(p, s).
     obind (task_create_thread exit_fn p worker s) (\<lambda>(_, s).
     obind (task_create_thread exit_fn p worker s) (\<lambda>(_, s).
     obind (task_create_thread exit_fn p worker s) (\<lambda>(_, s). Ok s))))"

definition start_tasks :: "('ft \<Rightarrow> string \<Rightarrow> 'ft) \<Rightarrow> u64 \<Rightarrow> u64 \<Rightarrow> 'ft logger \<times> kern \<Rightarrow> ('ft logger \<times> kern) outcome" where
  "start_tasks fw exit_fn worker st =
     (case st of (lg, s) \<Rightarrow>
        obind (scheduler_init s) (\<lambda>s.
        obind (kn_log fw LOG_DEBUG ''Avvio Stress Test Concorrenza...'' [] (lg, s)) (\<lambda>(lg, s).
        obind (start_process exit_fn worker (bytes ''Processo A'') s) (\<lambda>s.
        obind (start_process exit_fn worker (bytes ''Processo B'') s) (\<lambda>s.
        Ok (lg, set_kn_rflags (kn_rflags s OR RFLAGS_IF) s))))))"

section \<open>The entry point\<close>

text \<open>What the linker and the boot loader fix: places of tables, constants and functions.\<close>

record boot_env =
  be_limine :: limine_responses
  be_image :: kernel_image
  be_gdt :: u64
  be_idt :: u64
  be_stubs :: "u64 list"
  be_rsdp_signature :: u64
  be_exit :: u64
  be_worker :: u64

record 'ft booted =
  bt_gdt :: "u64 list \<times> gdtr"
  bt_idt :: "idt_descriptor list \<times> idtr"
  bt_acpi :: acpi
  bt_log :: "'ft logger"
  bt_kern :: kern

definition on_heap :: "(kheap \<Rightarrow> kheap outcome) \<Rightarrow> kern \<Rightarrow> kern outcome" where
  "on_heap f = on_vm (\<lambda>vm. obind (f (vm_heap vm)) (\<lambda>h. Ok (vm\<lparr>vm_heap := h\<rparr>)))"

definition on_pg :: "(paging \<Rightarrow> paging outcome) \<Rightarrow> kern \<Rightarrow> kern outcome" where
  "on_pg f = on_heap (\<lambda>h. obind (f (kh_pg h)) (\<lambda>pg. Ok (h\<lparr>kh_pg := pg\<rparr>)))"

text \<open>The memory managers, from the map of the boot loader to the kernel's address space.\<close>

definition init_memory :: "('ft \<Rightarrow> string \<Rightarrow> 'ft) \<Rightarrow> boot_env \<Rightarrow> 'ft logger \<times> kern \<Rightarrow> ('ft logger \<times> kern) outcome" where
  "init_memory fw be st =
     (case (hhdm_response (be_limine be), memmap_response (be_limine be), executable_addr_response (be_limine be)) of
        (Some offset, Some (Some memmap), Some k_phys) \<Rightarrow>
          obind (pmm_printUsableRegions fw memmap st) (\<lambda>(lg, s).
          obind (pmm_init offset memmap (kn_rflags s)) (\<lambda>(memmap, pmm).
          obind (on_pg (\<lambda>pg. Ok (pg\<lparr>pg_pmm := pmm, hhdm_offset := offset\<rparr>)) s) (\<lambda>s.
          obind (pmm_dump_state fw pmm (lg, s)) (\<lambda>(lg, s).
          obind (on_pg (paging_init (be_image be) k_phys) s) (\<lambda>s.
          obind (on_heap (kheap_init (be_image be)) s) (\<lambda>s.
          obind (on_vm vmm_init s) (\<lambda>s. Ok (lg, s))))))))
      | _ \<Rightarrow> Fault)"

text \<open>
  \<open>kmain\<close> up to the call of \<open>kernel_idle_thread\<close>, whose endless loop is \<open>idle_round\<close> again and again.
\<close>

definition kmain :: "('ft \<Rightarrow> string \<Rightarrow> 'ft) \<Rightarrow> (u64 \<Rightarrow> limine_framebuffer \<Rightarrow> kern \<Rightarrow> ('ft option \<times> kern) outcome) \<Rightarrow>
    boot_env \<Rightarrow> 'ft logger \<times> kern \<Rightarrow> 'ft booted outcome" where
  "kmain fw fb_init be st =
     obind (limine_verify_requests (be_limine be)) (\<lambda>_.
     let gdt = gdt_init (be_gdt be) in
     obind (idt_init (be_idt be) (be_stubs be)) (\<lambda>idt.
     obind (init_memory fw be st) (\<lambda>st.
     obind (console_init fb_init (be_limine be) st) (\<lambda>(lg, s).
     obind (acpi_init (ram (kn_pg s)) (hhdm_offset (kn_pg s)) (be_rsdp_signature be) (the (rsdp_response (be_limine be))) acpi_start) (\<lambda>acpi.
     obind (lapic_initialize s) (\<lambda>s.
     obind (timer_init s) (\<lambda>s.
     obind (start_tasks fw (be_exit be) (be_worker be) (lg, s)) (\<lambda>(lg, s).
     Ok \<lparr>bt_gdt = gdt, bt_idt = idt, bt_acpi = acpi, bt_log = lg, bt_kern = s\<rparr>))))))))"

section \<open>The reports fit\<close>

definition log_synced :: "'ft logger \<times> kern \<Rightarrow> bool" where
  "log_synced st \<longleftrightarrow> (case st of (lg, s) \<Rightarrow>
     length (log_buffer lg) = LOG_BUFFER_DIM \<and> lock_free (console_lock lg) \<and> drains (kn_machine s))"

lemma kn_log_result:
  assumes "log_synced (lg, s)" and "fits fmt args n" and "n < 1000"
  shows "\<exists>lg' m. kn_log fw lv fmt args (lg, s) = Ok (lg', s\<lparr>kn_machine := m\<rparr>) \<and> log_synced (lg', s\<lparr>kn_machine := m\<rparr>)"
proof -
  let ?lg = "lg\<lparr>lg_rflags := kn_rflags s, lg_machine := kn_machine s\<rparr>"
  obtain out where out: "npf_text_of fmt args = Ok out" "length out < 1000" using assms(2,3) by (auto simp: fits_def)
  have "log_ready ?lg" using assms(1) by (simp add: log_ready_def log_synced_def)
  moreover have "length out < log_room lv" using out(2) log_prefix_length [of lv] by (simp add: log_room_def LOG_BUFFER_DIM_def)
  ultimately obtain lg' where lg': "log_line fw lv fmt args ?lg = Ok lg'" "lg_rflags lg' = kn_rflags s" "log_ready lg'"
    using log_line_result [of ?lg fmt args out lv fw] out(1) by auto
  have "set_kn_rflags (kn_rflags s) (s\<lparr>kn_machine := m\<rparr>) = s\<lparr>kn_machine := m\<rparr>" for m
    by (simp add: set_kn_rflags_def set_kh_rflags_def)
  then show ?thesis using lg' by (auto simp: kn_log_def log_ready_def log_synced_def)
qed

text \<open>An operation that only logs.\<close>

definition only_logs :: "'ft logger \<times> kern \<Rightarrow> ('ft logger \<times> kern) outcome \<Rightarrow> bool" where
  "only_logs st r \<longleftrightarrow> (\<exists>lg m. r = Ok (lg, (snd st)\<lparr>kn_machine := m\<rparr>) \<and> log_synced (lg, (snd st)\<lparr>kn_machine := m\<rparr>))"

lemma only_logs_line: "log_synced st \<Longrightarrow> fits fmt args n \<Longrightarrow> n < 1000 \<Longrightarrow> only_logs st (kn_log fw lv fmt args st)"
  using kn_log_result by (cases st) (auto simp: only_logs_def)

lemma only_logs_nothing: "log_synced st \<Longrightarrow> only_logs st (Ok st)"
  by (cases st) (auto simp: only_logs_def intro!: exI [of _ "kn_machine (snd st)"])

lemma only_logs_obind:
  assumes "only_logs st r" and "\<And>st'. r = Ok st' \<Longrightarrow> log_synced st' \<Longrightarrow> only_logs st' (f st')"
  shows "only_logs st (obind r f)"
proof -
  obtain lg m where r: "r = Ok (lg, (snd st)\<lparr>kn_machine := m\<rparr>)" "log_synced (lg, (snd st)\<lparr>kn_machine := m\<rparr>)"
    using assms(1) by (auto simp: only_logs_def)
  show ?thesis using assms(2) [OF r] r(1) by (auto simp: only_logs_def)
qed

lemma report_fits:
  "fits ''%d) Usable region; Phys range: 0x%llx - 0x%llx; Length: %llu bytes'' [VaLong a, VaLong b, VaLong c, VaLong d] 200"
  "fits ''%s: Printing system memory map: '' [VaStr (Some ''pmm_printUsableRegions'')] 200"
  "fits ''Order %d (%llu KB): %llu blocks free'' [VaInt i, VaLong b, VaLong c] 200"
  "fits ''--- BUDDY ALLOCATOR STATE ---'' [] 200" "fits ''-----------------------------'' [] 200"
  "fits ''Total Memory: %llu MB'' [VaLong a] 200" "fits ''Used Memory:  %llu MB'' [VaLong a] 200" "fits ''Free Memory:  %llu MB'' [VaLong a] 200"
  "fits ''Avvio Stress Test Concorrenza...'' [] 200"
  by ((rule fits_le, ((rule fits_rules; (simp; fail)?)+)[1], simp; fail)+)

lemma print_regions_logs: "log_synced st \<Longrightarrow> only_logs st (print_regions fw i memmap st)"
proof (induction fw i memmap st rule: print_regions.induct)
  case (2 fw i entry entries st)
  then show ?case by (auto intro!: only_logs_obind only_logs_nothing only_logs_line report_fits(1))
qed (simp add: only_logs_nothing)

lemma dump_orders_logs: "log_synced st \<Longrightarrow> only_logs st (dump_orders fw nr i st)"
proof (induction fw nr i st rule: dump_orders.induct)
  case (1 fw nr i st)
  then show ?case
    by (subst dump_orders.simps) (auto intro!: only_logs_obind only_logs_nothing only_logs_line report_fits(3))
qed

text \<open>
  C37: the reports of the physical memory manager, whatever the memory map and the allocator
  look like, consist of lines that fit into the buffer of the logger: they end normally and
  change nothing but the log and its devices.
\<close>

theorem pmm_reports_fit:
  assumes "log_synced st"
  shows "only_logs st (pmm_printUsableRegions fw memmap st) \<and> only_logs st (pmm_dump_state fw p st)"
  unfolding pmm_printUsableRegions_def pmm_dump_state_def
  using assms by (auto intro!: only_logs_obind only_logs_line report_fits print_regions_logs dump_orders_logs)

section \<open>The first tasks are ready\<close>

text \<open>The kernel during the start: room for the stacks of \<open>n\<close> more threads behind the last area.\<close>

definition boot_ok :: "nat \<Rightarrow> nat \<Rightarrow> kern \<Rightarrow> layout \<Rightarrow> bool" where
  "boot_ok root n s ts \<longleftrightarrow> (\<exists>K as. kern_inv root K s as ts \<and> page_areas as \<and> top_of (unat VMM_KERNEL_START) as + 0x4000 * n < 2 ^ 64)"

abbreviation state_of :: "kern \<Rightarrow> u64 \<Rightarrow> thread_state option" where
  "state_of s h \<equiv> map_option th_state (thread_heap (kn_procs s) h)"

text \<open>
  Where memory can run out during the start: the steps are followed through the states they really
  lead to, and at each of them the reasons for a failure are those of the operation itself.
\<close>

definition thread_short :: "nat \<Rightarrow> kern \<Rightarrow> bool" where
  "thread_short root s \<longleftrightarrow> (\<exists>K as. kern_mem root K s as \<and> thread_memory_short root s as)"

primrec threads_short :: "nat \<Rightarrow> u64 \<Rightarrow> u64 \<Rightarrow> u64 \<Rightarrow> nat \<Rightarrow> kern \<Rightarrow> bool" where
  "threads_short root exit_fn worker t 0 s \<longleftrightarrow> False"
| "threads_short root exit_fn worker t (Suc n) s \<longleftrightarrow> thread_short root s \<or>
     (\<exists>p s'. task_create_thread exit_fn t worker s = Ok (p, s') \<and> threads_short root exit_fn worker t n s')"

definition process_short :: "nat \<Rightarrow> u64 \<Rightarrow> u64 \<Rightarrow> u8 list \<Rightarrow> kern \<Rightarrow> bool" where
  "process_short root exit_fn worker name s \<longleftrightarrow> \<not> heap_room root (kn_heap s) sizeof_task \<or>
     (\<exists>p s'. task_create (Some name) s = Ok (p, s') \<and> threads_short root exit_fn worker p 3 s')"

definition processes_short :: "nat \<Rightarrow> u64 \<Rightarrow> u64 \<Rightarrow> u8 list \<Rightarrow> u8 list \<Rightarrow> kern \<Rightarrow> bool" where
  "processes_short root exit_fn worker na nb s \<longleftrightarrow> process_short root exit_fn worker na s \<or>
     (\<exists>s'. start_process exit_fn worker na s = Ok s' \<and> process_short root exit_fn worker nb s')"

definition scheduler_short :: "nat \<Rightarrow> kern \<Rightarrow> bool" where
  "scheduler_short root s \<longleftrightarrow> \<not> heap_room root (kn_heap s) sizeof_task \<or>
     (\<exists>p s1. in_vm (\<lambda>vm. vm_kmalloc vm sizeof_task) s = Ok (p, s1) \<and> \<not> heap_room root (kn_heap s1) sizeof_thread)"

definition start_short :: "('ft \<Rightarrow> string \<Rightarrow> 'ft) \<Rightarrow> nat \<Rightarrow> u64 \<Rightarrow> u64 \<Rightarrow> 'ft logger \<times> kern \<Rightarrow> bool" where
  "start_short fw root exit_fn worker st \<longleftrightarrow> scheduler_short root (snd st) \<or>
     (\<exists>s1 lg s2. scheduler_init (snd st) = Ok s1 \<and> kn_log fw LOG_DEBUG ''Avvio Stress Test Concorrenza...'' [] (fst st, s1) = Ok (lg, s2) \<and>
        processes_short root exit_fn worker (bytes ''Processo A'') (bytes ''Processo B'') s2)"

text \<open>What an operation of the start does when it returns: at most it appends ready threads.\<close>

definition start_grows :: "nat \<Rightarrow> nat \<Rightarrow> kern \<Rightarrow> layout \<Rightarrow> layout \<Rightarrow> kern \<Rightarrow> bool" where
  "start_grows root n s ts ts' s' \<longleftrightarrow> boot_ok root n s' ts' \<and> set (threads_of ts) \<subseteq> set (threads_of ts') \<and>
     (\<forall>h\<in>set (threads_of ts). state_of s' h = state_of s h) \<and>
     (\<forall>h\<in>set (threads_of ts') - set (threads_of ts). state_of s' h = Some THREAD_READY)"

lemma boot_ok_less: "boot_ok root n s ts \<Longrightarrow> m \<le> n \<Longrightarrow> boot_ok root m s ts"
  unfolding boot_ok_def by (elim exE conjE) (intro exI conjI, assumption, assumption, erule le_less_trans [rotated], simp)

lemma start_grows_trans:
  assumes "start_grows root n s ts ts' s'" "start_grows root m s' ts' ts'' s''"
  shows "start_grows root m s ts ts'' s''"
  unfolding start_grows_def
proof (intro conjI ballI)
  show "boot_ok root m s'' ts''" using assms(2) by (simp add: start_grows_def)
  show "set (threads_of ts) \<subseteq> set (threads_of ts'')" using assms by (auto simp: start_grows_def)
  show "state_of s'' h = state_of s h" if "h \<in> set (threads_of ts)" for h
  proof -
    have "h \<in> set (threads_of ts')" "state_of s' h = state_of s h" using assms(1) that by (auto simp: start_grows_def)
    then show ?thesis using assms(2) by (simp add: start_grows_def)
  qed
  show "state_of s'' h = Some THREAD_READY" if "h \<in> set (threads_of ts'') - set (threads_of ts)" for h
  proof (cases "h \<in> set (threads_of ts')")
    case True
    then have "state_of s' h = Some THREAD_READY" using assms(1) that by (simp add: start_grows_def)
    then show ?thesis using assms(2) True by (simp add: start_grows_def)
  next
    case False
    then show ?thesis using assms(2) that by (simp add: start_grows_def)
  qed
qed

lemma insert_top:
  assumes "laid lo (as1 @ (q, b, z, f) # as2)" "unat b \<le> top_of lo (as1 @ as2)"
  shows "top_of lo (as1 @ (q, b, z, f) # as2) \<le> top_of lo (as1 @ as2) + unat z"
proof -
  have app: "top_of lo (xs @ ys) = top_of (top_of lo xs) ys" for lo xs ys by (induction lo xs rule: top_of.induct) auto
  show ?thesis
  proof (cases as2)
    case (Cons a as)
    then show ?thesis by (cases a) (simp add: app)
  qed (use assms(2) in \<open>simp add: app\<close>)
qed

lemma create_thread_grows:
  assumes "boot_ok root (Suc n) s (xs @ [(t, hs)])" "worker \<noteq> 0"
  shows "task_create_thread exit_fn t worker s = Halt \<and> thread_short root s \<or> (\<exists>p s' new. task_create_thread exit_fn t worker s = Ok (p, s') \<and>
    start_grows root n s (xs @ [(t, hs)]) (xs @ [(t, hs @ new)]) s' \<and> length new \<le> 1 \<and> (\<not> thread_short root s \<longrightarrow> length new = 1))"
proof -
  obtain K as where k: "kern_inv root K s as (xs @ (t, hs) # [])" "page_areas as"
      "top_of (unat VMM_KERNEL_START) as + 0x4000 * Suc n < 2 ^ 64"
    using assms(1) by (auto simp: boot_ok_def)
  have room: "top_of (unat VMM_KERNEL_START) as + 0x4000 < 2 ^ 64" using k(3) by simp
  have short: "thread_memory_short root s as \<Longrightarrow> thread_short root s" using k(1) unfolding thread_short_def kern_inv_def by blast
  have sub: "set (threads_of (xs @ [(t, hs)])) \<subseteq> K" using k(1) by (auto simp: kern_inv_def)
  show ?thesis
    using task_create_thread_result [OF k(1,2) assms(2) room, of exit_fn]
  proof (elim disjE exE conjE)
    fix p s'
    assume r: "task_create_thread exit_fn t worker s = Ok (p, s')" "kern_inv root K s' as (xs @ (t, hs) # [])" "kn_procs s' = kn_procs s"
      "thread_memory_short root s as"
    have "boot_ok root n s' (xs @ [(t, hs)])" unfolding boot_ok_def using r(2) k(2,3) by (intro exI conjI) (assumption, assumption, simp)
    then have "start_grows root n s (xs @ [(t, hs)]) (xs @ [(t, hs @ [])]) s'" using r(3) by (simp add: start_grows_def)
    then show ?thesis using r(1) short [OF r(4)] by (intro disjI2 exI [of _ p] exI [of _ s'] exI [of _ "[]"]) simp
  next
    fix p s' and as1 as2 :: "area list" and q b :: u64
    let ?as = "as1 @ (q, b, 0x4000, 0x13) # as2"
    assume r: "task_create_thread exit_fn t worker s = Ok (p, s')" "p \<notin> K" "4096 dvd unat b" "unat b \<le> top_of (unat VMM_KERNEL_START) as"
      "as = as1 @ as2" "thread_started root K s xs t hs [] p worker exit_fn b ?as s'"
    have th: "kern_inv root (insert p K) s' ?as (xs @ [(t, hs @ [p])])" "state_of s' p = Some THREAD_READY"
      using r(6) by (simp_all add: thread_started_def)
    have other: "state_of s' h = state_of s h" if "h \<noteq> p" for h
    proof -
      have "map_option (th_next_update (\<lambda>_. 0)) (thread_heap (kn_procs s') h) = map_option (th_next_update (\<lambda>_. 0)) (thread_heap (kn_procs s) h)"
        using r(6) that by (simp add: thread_started_def)
      then show ?thesis
        by (cases "thread_heap (kn_procs s') h"; cases "thread_heap (kn_procs s) h") (auto dest: arg_cong [where f = th_state])
    qed
    have "laid (unat VMM_KERNEL_START) ?as" using th(1) by (simp add: kern_inv_def kern_mem_def vm_inv_def vm_core_def search_bounds_def)
    from insert_top [OF this] have "top_of (unat VMM_KERNEL_START) ?as \<le> top_of (unat VMM_KERNEL_START) as + 0x4000" using r(4,5) by simp
    then have "top_of (unat VMM_KERNEL_START) ?as + 0x4000 * n < 2 ^ 64" using k(3) by simp
    moreover have "page_areas ?as" using k(2) r(3,5) by simp
    ultimately have ok: "boot_ok root n s' (xs @ [(t, hs @ [p])])" using th(1) unfolding boot_ok_def by blast
    have "p \<notin> set (threads_of (xs @ [(t, hs)]))" using sub r(2) by blast
    then have "start_grows root n s (xs @ [(t, hs)]) (xs @ [(t, hs @ [p])]) s'"
      using ok th(2) other unfolding start_grows_def by (intro conjI ballI) (auto, metis+)
    then show ?thesis using r(1) by (intro disjI2 exI [of _ p] exI [of _ s'] exI [of _ "[p]"]) simp
  qed (use short in simp)
qed

text \<open>Several threads of the same task, one after the other.\<close>

primrec create_threads :: "u64 \<Rightarrow> u64 \<Rightarrow> u64 \<Rightarrow> nat \<Rightarrow> kern \<Rightarrow> kern outcome" where
  "create_threads exit_fn worker t 0 s = Ok s"
| "create_threads exit_fn worker t (Suc k) s =
     obind (task_create_thread exit_fn t worker s) (\<lambda>(_, s). create_threads exit_fn worker t k s)"

lemma start_process_threads:
  "start_process exit_fn worker name s = obind (task_create (Some name) s) (\<lambda>(p, s). create_threads exit_fn worker p 3 s)"
  by (simp add: start_process_def numeral_3_eq_3)

lemma threads_grow:
  assumes "boot_ok root (k + n) s (xs @ [(t, hs)])" "worker \<noteq> 0"
  shows "create_threads exit_fn worker t k s = Halt \<and> threads_short root exit_fn worker t k s \<or>
    (\<exists>s' new. create_threads exit_fn worker t k s = Ok s' \<and> start_grows root n s (xs @ [(t, hs)]) (xs @ [(t, hs @ new)]) s' \<and>
       length new \<le> k \<and> (\<not> threads_short root exit_fn worker t k s \<longrightarrow> length new = k))"
  using assms(1)
proof (induction k arbitrary: s hs)
  case 0
  have "start_grows root n s (xs @ [(t, hs)]) (xs @ [(t, hs @ [])]) s" using 0 by (simp add: start_grows_def)
  then show ?case by (intro disjI2 exI [of _ s] exI [of _ "[]"]) simp
next
  case (Suc k)
  from Suc.prems have b: "boot_ok root (Suc (k + n)) s (xs @ [(t, hs)])" by simp
  from create_thread_grows [OF b assms(2), of exit_fn] show ?case
  proof (elim disjE exE conjE)
    fix p s1 h
    assume c: "task_create_thread exit_fn t worker s = Ok (p, s1)" "start_grows root (k + n) s (xs @ [(t, hs)]) (xs @ [(t, hs @ h)]) s1"
      "length h \<le> 1" "\<not> thread_short root s \<longrightarrow> length h = 1"
    then have b1: "boot_ok root (k + n) s1 (xs @ [(t, hs @ h)])" by (simp add: start_grows_def)
    have run: "create_threads exit_fn worker t (Suc k) s = create_threads exit_fn worker t k s1" using c(1) by simp
    have short: "threads_short root exit_fn worker t k s1 \<Longrightarrow> threads_short root exit_fn worker t (Suc k) s" using c(1) by auto
    from Suc.IH [OF b1] show ?thesis
    proof (elim disjE exE conjE)
      fix s' new
      assume r: "create_threads exit_fn worker t k s1 = Ok s'" "start_grows root n s1 (xs @ [(t, hs @ h)]) (xs @ [(t, (hs @ h) @ new)]) s'"
        "length new \<le> k" "\<not> threads_short root exit_fn worker t k s1 \<longrightarrow> length new = k"
      have "start_grows root n s (xs @ [(t, hs)]) (xs @ [(t, hs @ h @ new)]) s'" using start_grows_trans [OF c(2) r(2)] by simp
      moreover have "\<not> threads_short root exit_fn worker t (Suc k) s \<longrightarrow> length (h @ new) = Suc k" using c(4) r(4) short by auto
      moreover have "length (h @ new) \<le> Suc k" using c(3) r(3) by auto
      ultimately show ?thesis using r(1) run by (intro disjI2 exI [of _ s'] exI [of _ "h @ new"]) simp
    qed (use run short in simp)
  qed simp
qed

lemma start_process_grows:
  assumes "boot_ok root (3 + n) s ts" "worker \<noteq> 0" "length name < 32"
  shows "start_process exit_fn worker name s = Halt \<and> process_short root exit_fn worker name s \<or>
    (\<exists>s' new. start_process exit_fn worker name s = Ok s' \<and> start_grows root n s ts (ts @ new) s' \<and>
       length new \<le> 1 \<and> (\<forall>(t, hs)\<in>set new. length hs \<le> 3) \<and>
       (\<not> process_short root exit_fn worker name s \<longrightarrow> (\<exists>t hs. new = [(t, hs)] \<and> length hs = 3)))"
proof -
  obtain K as where k: "kern_inv root K s as ts" "page_areas as" "top_of (unat VMM_KERNEL_START) as + 0x4000 * (3 + n) < 2 ^ 64"
    using assms(1) by (auto simp: boot_ok_def)
  show ?thesis using task_create_result [OF k(1) assms(3)]
  proof (elim disjE exE conjE)
    fix p s1
    assume c: "task_create (Some name) s = Ok (p, s1)" "p = 0" "kern_inv root K s1 as ts" "kn_procs s1 = kn_procs s"
      "\<not> heap_room root (kn_heap s) sizeof_task"
    have "boot_ok root n s1 ts" unfolding boot_ok_def using c(3) k(2,3) by (intro exI conjI) (assumption, assumption, simp)
    then have "start_grows root n s ts (ts @ []) s1" using c(4) by (simp add: start_grows_def)
    moreover have "start_process exit_fn worker name s = Ok s1" using c(1,2) by (simp add: start_process_def task_create_thread_def)
    moreover have "process_short root exit_fn worker name s" using c(5) by (simp add: process_short_def)
    ultimately show ?thesis by (intro disjI2 exI [of _ s1] exI [of _ "[]"]) simp
  next
    fix p s1
    assume c: "task_create (Some name) s = Ok (p, s1)" "kern_inv root (insert p K) s1 as (ts @ [(p, [])])"
      "thread_heap (kn_procs s1) = thread_heap (kn_procs s)"
    have b: "boot_ok root (3 + n) s1 (ts @ [(p, [])])" unfolding boot_ok_def using c(2) k(2,3) by blast
    then have g: "start_grows root (3 + n) s ts (ts @ [(p, [])]) s1" using c(3) by (simp add: start_grows_def)
    have run: "start_process exit_fn worker name s = create_threads exit_fn worker p 3 s1" using c(1) by (simp add: start_process_threads)
    have short: "threads_short root exit_fn worker p 3 s1 \<Longrightarrow> process_short root exit_fn worker name s"
      using c(1) unfolding process_short_def by blast
    from threads_grow [OF b assms(2), of exit_fn] show ?thesis
    proof (elim disjE exE conjE)
      fix s' hs
      assume r: "create_threads exit_fn worker p 3 s1 = Ok s'" "start_grows root n s1 (ts @ [(p, [])]) (ts @ [(p, [] @ hs)]) s'"
        "length hs \<le> 3" "\<not> threads_short root exit_fn worker p 3 s1 \<longrightarrow> length hs = 3"
      show ?thesis using start_grows_trans [OF g r(2)] r(1,3,4) run short
        by (intro disjI2 exI [of _ s'] exI [of _ "[(p, hs)]"]) auto
    qed (use run short in simp)
  qed (auto simp: start_process_def process_short_def)
qed

lemma two_processes_grow:
  assumes "boot_ok root 6 s ts" "worker \<noteq> 0" "length na < 32" "length nb < 32"
  shows "(let r = obind (start_process exit_fn worker na s) (start_process exit_fn worker nb) in
    r = Halt \<and> processes_short root exit_fn worker na nb s \<or>
    (\<exists>s' new. r = Ok s' \<and> start_grows root 0 s ts (ts @ new) s' \<and> length new \<le> 2 \<and> (\<forall>(t, hs)\<in>set new. length hs \<le> 3) \<and>
      (\<not> processes_short root exit_fn worker na nb s \<longrightarrow> length new = 2 \<and> (\<forall>(t, hs)\<in>set new. length hs = 3))))"
proof -
  let ?p = "start_process exit_fn worker" let ?sh = "process_short root exit_fn worker"
  have b: "boot_ok root (3 + 3) s ts" using assms(1) by simp
  show ?thesis unfolding Let_def using start_process_grows [OF b assms(2,3), of exit_fn]
  proof (elim disjE exE conjE)
    fix s2 newa
    assume a: "?p na s = Ok s2" "start_grows root 3 s ts (ts @ newa) s2" "length newa \<le> 1" "\<forall>(t, hs)\<in>set newa. length hs \<le> 3"
      "\<not> ?sh na s \<longrightarrow> (\<exists>t hs. newa = [(t, hs)] \<and> length hs = 3)"
    have short: "?sh nb s2 \<Longrightarrow> processes_short root exit_fn worker na nb s" using a(1) unfolding processes_short_def by blast
    from a(2) have "boot_ok root (3 + 0) s2 (ts @ newa)" by (simp add: start_grows_def)
    from start_process_grows [OF this assms(2,4), of exit_fn]
    show "obind (?p na s) (?p nb) = Halt \<and> processes_short root exit_fn worker na nb s \<or> (\<exists>s' new. obind (?p na s) (?p nb) = Ok s' \<and>
        start_grows root 0 s ts (ts @ new) s' \<and> length new \<le> 2 \<and> (\<forall>(t, hs)\<in>set new. length hs \<le> 3) \<and>
        (\<not> processes_short root exit_fn worker na nb s \<longrightarrow> length new = 2 \<and> (\<forall>(t, hs)\<in>set new. length hs = 3)))"
    proof (elim disjE exE conjE)
      fix s3 newb
      assume c: "?p nb s2 = Ok s3" "start_grows root 0 s2 (ts @ newa) ((ts @ newa) @ newb) s3" "length newb \<le> 1" "\<forall>(t, hs)\<in>set newb. length hs \<le> 3"
        "\<not> ?sh nb s2 \<longrightarrow> (\<exists>t hs. newb = [(t, hs)] \<and> length hs = 3)"
      have "start_grows root 0 s ts (ts @ newa @ newb) s3" using start_grows_trans [OF a(2) c(2)] by simp
      moreover have "\<forall>(t, hs)\<in>set (newa @ newb). length hs \<le> 3" using a(4) c(4) by auto
      moreover have "\<not> processes_short root exit_fn worker na nb s \<longrightarrow> length (newa @ newb) = 2 \<and> (\<forall>(t, hs)\<in>set (newa @ newb). length hs = 3)"
        using a(5) c(5) short unfolding processes_short_def by auto
      ultimately show ?thesis using a(1,3) c(1,3) by (intro disjI2 exI [of _ s3] exI [of _ "newa @ newb"]) simp
    qed (use a(1) short in simp)
  qed (simp add: processes_short_def)
qed

lemma boot_ok_machine [simp]: "boot_ok root n (s\<lparr>kn_machine := m\<rparr>) ts = boot_ok root n s ts"
  by (simp add: boot_ok_def kern_inv_def)

lemma boot_ok_rflags [simp]: "boot_ok root n (set_kn_rflags rf s) ts = boot_ok root n s ts"
  by (simp add: boot_ok_def kern_inv_def)

lemma in_procs_machine: "in_procs f s = Ok s' \<Longrightarrow> kn_machine s' = kn_machine s"
  by (auto simp: in_procs_def set_kn_procs_def elim!: obind_OkE)

lemma in_vm_machine: "in_vm f s = Ok (r, s') \<Longrightarrow> kn_machine s' = kn_machine s"
  by (auto simp: in_vm_def elim!: obind_OkE split: prod.splits)

lemma set_kn_procs_machine [simp]: "kn_machine (set_kn_procs p s) = kn_machine s" "kn_machine (set_kn_rflags rf s) = kn_machine s"
  by (simp_all add: set_kn_procs_def set_kn_rflags_def)

lemma scheduler_init_machine: "scheduler_init s = Ok s' \<Longrightarrow> kn_machine s' = kn_machine s"
  unfolding scheduler_init_def create_idle_thread_def Let_def
  by (auto elim!: obind_OkE split: run_splits dest!: in_vm_machine in_procs_machine)

text \<open>
  C12: from the initialized memory managers on, the start reaches the idle loop with interrupts
  enabled, the idle thread running and the invariant of the running kernel. Unless one of its
  steps is short of memory, the idle task is followed by exactly the two new tasks with exactly
  three ready threads each. When memory is short, it may stop the kernel or leave out tasks or
  threads, and the threads that it created are ready; it never faults, blocks or spins.
\<close>

theorem start_tasks_ready:
  assumes "kern_mem root K s as" and "page_areas as" and "top_of (unat VMM_KERNEL_START) as + 0x18000 < 2 ^ 64"
    and "worker \<noteq> 0" and "log_synced (lg, s)"
  shows "start_tasks fw exit_fn worker (lg, s) = Halt \<and> start_short fw root exit_fn worker (lg, s) \<or>
    (\<exists>lg' s' idle th new. start_tasks fw exit_fn worker (lg, s) = Ok (lg', s') \<and> boot_ok root 0 s' ((idle, [th]) # new) \<and>
       state_of s' th = Some THREAD_RUNNING \<and> interrupts_enabled (kn_rflags s') \<and>
       (\<forall>(t, hs)\<in>set new. \<forall>h\<in>set hs. state_of s' h = Some THREAD_READY) \<and>
       length new \<le> 2 \<and> (\<forall>(t, hs)\<in>set new. length hs \<le> 3) \<and>
       (\<not> start_short fw root exit_fn worker (lg, s) \<longrightarrow> length new = 2 \<and> (\<forall>(t, hs)\<in>set new. length hs = 3)))"
  using scheduler_init_result [OF assms(1)]
proof (elim disjE exE conjE)
  fix idle th :: u64 and s1
  let ?ts = "[(idle, [th])]"
  assume i: "scheduler_init s = Ok s1" "kern_inv root ({idle, th} \<union> K) s1 as ?ts"
    "map_option (\<lambda>t. (th_state t, th_ticks_remaining t)) (thread_heap (kn_procs s1) th) = Some (THREAD_RUNNING, THREAD_INITIAL_TICKS)"
  have "log_synced (lg, s1)" using assms(5) scheduler_init_machine [OF i(1)] by (simp add: log_synced_def)
  then obtain lg2 m where l: "kn_log fw LOG_DEBUG ''Avvio Stress Test Concorrenza...'' [] (lg, s1) = Ok (lg2, s1\<lparr>kn_machine := m\<rparr>)"
    using kn_log_result [OF _ report_fits(9), of lg s1 fw LOG_DEBUG] by auto
  let ?s = "s1\<lparr>kn_machine := m\<rparr>"
  have "boot_ok root 6 s1 ?ts" unfolding boot_ok_def using i(2) assms(2,3) by (intro exI conjI) (assumption, assumption, simp)
  then have b: "boot_ok root 6 ?s ?ts" by simp
  have th: "state_of ?s th = Some THREAD_RUNNING" using i(3) by auto
  let ?p = "start_process exit_fn worker" let ?r = "obind (?p (bytes ''Processo A'') ?s) (?p (bytes ''Processo B''))"
  let ?sh = "processes_short root exit_fn worker (bytes ''Processo A'') (bytes ''Processo B'') ?s"
  have run: "start_tasks fw exit_fn worker (lg, s) = obind ?r (\<lambda>s. Ok (lg2, set_kn_rflags (kn_rflags s OR RFLAGS_IF) s))"
    using i(1) l by (simp add: start_tasks_def obind_assoc)
  have short: "?sh \<Longrightarrow> start_short fw root exit_fn worker (lg, s)" using i(1) l unfolding start_short_def fst_conv snd_conv by blast
  have len: "length (bytes ''Processo A'') < 32" "length (bytes ''Processo B'') < 32" by simp_all
  show ?thesis using two_processes_grow [OF b assms(4) len, of exit_fn, unfolded Let_def]
  proof (elim disjE exE conjE)
    fix s3 new
    assume c: "?r = Ok s3" "start_grows root 0 ?s ?ts (?ts @ new) s3" "length new \<le> 2" "\<forall>(t, hs)\<in>set new. length hs \<le> 3"
      "\<not> ?sh \<longrightarrow> length new = 2 \<and> (\<forall>(t, hs)\<in>set new. length hs = 3)"
    let ?s' = "set_kn_rflags (kn_rflags s3 OR RFLAGS_IF) s3"
    have d: "distinct (threads_of (?ts @ new))"
      using c(2) by (auto simp: start_grows_def boot_ok_def kern_inv_def sched_inv_def sched_rep_def)
    have "state_of ?s' h = Some THREAD_READY" if "(t, hs) \<in> set new" "h \<in> set hs" for t hs h
    proof -
      have "h \<in> set (threads_of new)" using that by (force simp: threads_of_def)
      then have "h \<in> set (threads_of (?ts @ new)) - set (threads_of ?ts)" using d by auto
      then show ?thesis using c(2) by (simp add: start_grows_def)
    qed
    then have "\<forall>(t, hs)\<in>set new. \<forall>h\<in>set hs. state_of ?s' h = Some THREAD_READY" by blast
    moreover have "boot_ok root 0 ?s' ((idle, [th]) # new)" "state_of ?s' th = Some THREAD_RUNNING"
      using c(2) th by (simp_all add: start_grows_def)
    moreover have "interrupts_enabled (kn_rflags ?s')"
      by (simp add: interrupts_enabled_def and.commute [of _ RFLAGS_IF] bit.conj_disj_distrib) (simp add: RFLAGS_IF_def)
    moreover have "start_tasks fw exit_fn worker (lg, s) = Ok (lg2, ?s')" using run c(1) by simp
    moreover have "\<not> start_short fw root exit_fn worker (lg, s) \<longrightarrow> length new = 2 \<and> (\<forall>(t, hs)\<in>set new. length hs = 3)"
      using c(5) short by blast
    ultimately show ?thesis using c(3,4)
      by (intro disjI2 exI [of _ lg2] exI [of _ ?s'] exI [of _ idle] exI [of _ th] exI [of _ new]) simp
  next
    assume "?r = Halt" ?sh
    then show ?thesis using short run by (intro disjI1) simp
  qed
qed (auto simp: start_tasks_def start_short_def scheduler_short_def)

section \<open>A start\<close>

abbreviation boot_demo :: kern where
  "boot_demo \<equiv> kern_demo THREAD_READY THREAD_READY 4"

lemma boot_demo_synced: "log_synced (logger_demo, boot_demo)"
  by (simp add: log_synced_def logger_demo_def machine_demo_drains)

theorem pmm_reports_fit_witness:
  "only_logs (logger_demo, boot_demo) (pmm_printUsableRegions (@)
     [\<lparr>me_base = 0x100000, me_length = 0xFFFFFFFF00000, me_type = LIMINE_MEMMAP_USABLE\<rparr>] (logger_demo, boot_demo))"
  by (rule pmm_reports_fit [OF boot_demo_synced, THEN conjunct1])

theorem start_tasks_ready_witness:
  "\<not> scheduler_short 1 boot_demo \<and>
     (start_tasks (@) 0x2000 0x1000 (logger_demo, boot_demo) = Halt \<and> start_short (@) 1 0x2000 0x1000 (logger_demo, boot_demo) \<or>
      (\<exists>lg' s' idle th new. start_tasks (@) 0x2000 0x1000 (logger_demo, boot_demo) = Ok (lg', s') \<and>
        boot_ok 1 0 s' ((idle, [th]) # new) \<and> state_of s' th = Some THREAD_RUNNING \<and> interrupts_enabled (kn_rflags s')))"
proof
  have side: "page_areas live_areas" "top_of (unat VMM_KERNEL_START) live_areas + 0x18000 < 2 ^ 64" "(0x1000 :: u64) \<noteq> 0" by simp_all
  show "\<not> scheduler_short 1 boot_demo"
  proof
    assume "scheduler_short 1 boot_demo"
    then show False unfolding scheduler_short_def
    proof (elim disjE exE conjE)
      fix p s1 assume "in_vm (\<lambda>vm. vm_kmalloc vm sizeof_task) boot_demo = Ok (p, s1)" "\<not> heap_room 1 (kn_heap s1) sizeof_thread"
      then show False using live_scheduler_memory(2) by (elim notE)
    qed (use live_scheduler_memory(1) in \<open>elim notE\<close>)
  qed
  show "start_tasks (@) 0x2000 0x1000 (logger_demo, boot_demo) = Halt \<and> start_short (@) 1 0x2000 0x1000 (logger_demo, boot_demo) \<or>
      (\<exists>lg' s' idle th new. start_tasks (@) 0x2000 0x1000 (logger_demo, boot_demo) = Ok (lg', s') \<and>
        boot_ok 1 0 s' ((idle, [th]) # new) \<and> state_of s' th = Some THREAD_RUNNING \<and> interrupts_enabled (kn_rflags s'))"
    using start_tasks_ready [OF kern_demo_mem side boot_demo_synced, where fw = "(@)" and exit_fn = "0x2000"]
  proof (elim disjE exE conjE)
    fix lg' s' idle th new
    assume "start_tasks (@) 0x2000 0x1000 (logger_demo, boot_demo) = Ok (lg', s')" "boot_ok 1 0 s' ((idle, [th]) # new)"
      "state_of s' th = Some THREAD_RUNNING" "interrupts_enabled (kn_rflags s')"
    then show ?thesis
      by (intro disjI2 exI [of _ lg'] exI [of _ s'] exI [of _ idle] exI [of _ th] exI [of _ new] conjI)
  qed (rule disjI1, rule conjI)
qed

end
