(* ===== verification/Npf_Fields.thy ===== *)
theory Npf_Fields
  imports Npf_Props
begin

text \<open>
  What the formatter prints for a number, described without its code: the numeral of the number,
  extended to the precision, with its sign, aligned in the field. The format string is given by
  its parts, so that reading the specification is covered as well.
\<close>

section \<open>The specification\<close>

definition digit_char :: "bool \<Rightarrow> nat \<Rightarrow> char" where
  "digit_char upper d = (if upper then ''0123456789ABCDEF'' else ''0123456789abcdef'') ! d"

text \<open>The numeral of a number, highest digit first, without leading zeros.\<close>

function numeral_text :: "nat \<Rightarrow> bool \<Rightarrow> nat \<Rightarrow> string" where
  "numeral_text b upper n =
     (if n < b \<or> b < 2 then [digit_char upper n] else numeral_text b upper (n div b) @ [digit_char upper (n mod b)])"
  by pat_completeness auto
termination
  by (relation "measure (\<lambda>(b, upper, n). n)") auto

declare numeral_text.simps [simp del]

definition number_base :: "char \<Rightarrow> nat" where
  "number_base c = (if c = CHR ''o'' then 8 else if c = CHR ''x'' \<or> c = CHR ''X'' then 16 else 10)"

definition is_signed :: "char \<Rightarrow> bool" where
  "is_signed c \<longleftrightarrow> c = CHR ''d'' \<or> c = CHR ''i''"

text \<open>A format of flags, width, precision and the conversion of a 64-bit number.\<close>

definition number_format :: "string \<Rightarrow> nat option \<Rightarrow> nat option \<Rightarrow> char \<Rightarrow> string" where
  "number_format fl w p c = CHR ''%'' # fl @ (case w of None \<Rightarrow> [] | Some n \<Rightarrow> numeral_text 10 False n) @
     (case p of None \<Rightarrow> [] | Some n \<Rightarrow> CHR ''.'' # numeral_text 10 False n) @ ''ll'' @ [c]"

definition number_sign :: "string \<Rightarrow> char \<Rightarrow> u64 \<Rightarrow> string" where
  "number_sign fl c v =
     (if \<not> is_signed c then [] else if sint v < 0 then ''-'' else if CHR ''+'' \<in> set fl then ''+'' else if CHR '' '' \<in> set fl then '' '' else [])"

definition number_digits :: "nat option \<Rightarrow> char \<Rightarrow> u64 \<Rightarrow> string" where
  "number_digits p c v =
     (let n = (if is_signed c then nat \<bar>sint v\<bar> else unat v);
          ds = (if n = 0 \<and> p = Some 0 then [] else numeral_text (number_base c) (c = CHR ''X'') n)
      in replicate (case_option 0 id p - length ds) (CHR ''0'') @ ds)"

definition number_field :: "string \<Rightarrow> nat option \<Rightarrow> nat option \<Rightarrow> char \<Rightarrow> u64 \<Rightarrow> string" where
  "number_field fl w p c v =
     (let sg = number_sign fl c v; ds = number_digits p c v;
          gap = case_option 0 id w - length sg - length ds
      in if CHR ''-'' \<in> set fl then sg @ ds @ replicate gap (CHR '' '')
         else if CHR ''0'' \<in> set fl \<and> p = None then sg @ replicate gap (CHR ''0'') @ ds
         else replicate gap (CHR '' '') @ sg @ ds)"

section \<open>Digits\<close>

lemma npf_digit_char: "d < 16 \<Longrightarrow> npf_digit (if upper then 0 else 32) d = digit_char upper d"
proof -
  assume d: "d < 16"
  have "map (npf_digit 0) [0..<16] = ''0123456789ABCDEF''" "map (npf_digit 32) [0..<16] = ''0123456789abcdef''" by code_simp+
  then show ?thesis using nth_map_upt [of d 16 0 "npf_digit (if upper then 0 else 32)"] d
    by (cases upper) (simp_all add: digit_char_def del: upt.simps)
qed

lemma utoa_numeral:
  assumes "2 \<le> unat base" "unat base \<le> 16"
  shows "npf_utoa_rev val buf base (if upper then 0 else 32) = Some (buf @ rev (numeral_text (unat base) upper (unat val)))"
proof (induction "unat val" arbitrary: val buf rule: less_induct)
  case less
  let ?b = "unat base"
  have d: "unat (val mod base) = unat val mod ?b" and q: "unat (val div base) = unat val div ?b" by (simp_all add: unat_mod unat_div)
  have "unat val mod ?b < 16" using assms mod_less_divisor [of ?b "unat val"] by linarith
  note dg = npf_digit_char [OF this, of upper]
  show ?case
  proof (cases "val div base = 0")
    case True
    then have "unat val div ?b = 0" using q by (metis unat_0)
    then have lt: "unat val < ?b" using assms by (simp add: div_eq_0_iff)
    then show ?thesis using True dg d by (subst npf_utoa_rev.simps, subst numeral_text.simps) simp
  next
    case False
    then have pos: "0 < unat val div ?b" using q by (metis unat_gt_0)
    then have "unat (val div base) < unat val" unfolding q using assms by (intro div_less_dividend) (auto intro: Nat.gr0I)
    note IH = less.hyps [OF this]
    have "\<not> unat val < ?b" using pos by auto
    then show ?thesis using False IH assms dg d q by (subst npf_utoa_rev.simps, subst numeral_text.simps) simp
  qed
qed

lemma is_digit_char: "d < 10 \<Longrightarrow> is_digit (digit_char False d) \<and> of_char (digit_char False d) - of_char (CHR ''0'') = int d"
proof -
  assume "d < 10"
  then have "d \<in> {..<10}" by simp
  then have "d \<in> {0, 1, 2, 3, 4, 5, 6, 7, 8, 9}" by (auto simp: lessThan_nat_numeral lessThan_Suc)
  then show ?thesis by (elim insertE) (simp_all add: digit_char_def is_digit_def)
qed

lemma digits_of_numeral:
  assumes "int n \<le> INT_MAX"
  shows "npf_digits 0 (numeral_text 10 False n @ rest) = npf_digits (int n) rest"
  using assms
proof (induction n arbitrary: rest rule: less_induct)
  case (less n)
  show ?case
  proof (cases "n < 10")
    case True
    then show ?thesis using is_digit_char [OF True] less.prems by (subst numeral_text.simps) (simp add: Let_def)
  next
    case False
    have "int (n div 10) \<le> INT_MAX" using less.prems by simp
    then have IH: "npf_digits 0 (numeral_text 10 False (n div 10) @ digit_char False (n mod 10) # rest) =
        npf_digits (int (n div 10)) (digit_char False (n mod 10) # rest)" using False by (intro less.IH) simp_all
    have "n div 10 * 10 + n mod 10 = n" by (rule div_mult_mod_eq)
    then have "int (n div 10) * 10 + int (n mod 10) = int n" by linarith
    then show ?thesis using False IH is_digit_char [of "n mod 10"] less.prems by (subst numeral_text.simps) (simp add: Let_def)
  qed
qed

lemma numeral_text_hd: "\<exists>d ds. numeral_text 10 False n = digit_char False d # ds \<and> d < 10 \<and> (0 < n \<longrightarrow> 0 < d)"
proof (induction n rule: less_induct)
  case (less n)
  show ?case
  proof (cases "n < 10")
    case True
    then show ?thesis by (subst numeral_text.simps) auto
  next
    case False
    then have "n div 10 < n" "0 < n div 10" by simp_all
    from less.IH [OF this(1)] this(2) show ?thesis using False by (subst numeral_text.simps) auto
  qed
qed

section \<open>Reading the specification\<close>

definition flag_chars :: "char set" where
  "flag_chars = {CHR ''-'', CHR ''0'', CHR ''+'', CHR '' ''}"

lemma flags_read:
  assumes "set fl \<subseteq> flag_chars" "cs \<noteq> [] \<longrightarrow> hd cs \<notin> flag_chars"
  shows "npf_flags fs (fl @ cs) = (fs\<lparr>left_justified := left_justified fs \<or> CHR ''-'' \<in> set fl,
    leading_zero_pad := leading_zero_pad fs \<or> CHR ''0'' \<in> set fl,
    prepend := if CHR ''+'' \<in> set fl then Some (CHR ''+'') else if prepend fs \<noteq> None then prepend fs
      else if CHR '' '' \<in> set fl then Some (CHR '' '') else None\<rparr>, cs)"
  using assms(1)
proof (induction fl arbitrary: fs)
  case Nil
  then show ?case using assms(2) by (cases cs) (auto simp: flag_chars_def)
next
  case (Cons c fl)
  then show ?case by (auto simp: flag_chars_def)
qed

definition number_conv :: "char \<Rightarrow> npf_conv" where
  "number_conv c = (if is_signed c then CONV_SIGNED_INT else if c = CHR ''o'' then CONV_OCTAL
     else if c = CHR ''u'' then CONV_UNSIGNED_INT else CONV_HEX_INT)"

definition number_spec :: "string \<Rightarrow> nat option \<Rightarrow> nat option \<Rightarrow> char \<Rightarrow> npf_format_spec" where
  "number_spec fl w p c = \<lparr>field_width = int (case_option 0 id w), prec = int (case_option 0 id p),
     prec_opt = (if p = None then NPF_FMT_SPEC_OPT_NONE else NPF_FMT_SPEC_OPT_LITERAL),
     field_width_opt = (if w = None then NPF_FMT_SPEC_OPT_NONE else NPF_FMT_SPEC_OPT_LITERAL),
     left_justified = CHR ''-'' \<in> set fl, leading_zero_pad = CHR ''0'' \<in> set fl,
     prepend = (if CHR ''+'' \<in> set fl then Some (CHR ''+'') else if CHR '' '' \<in> set fl then Some (CHR '' '') else None),
     case_adjust = (if c = CHR ''X'' then 0 else 32), length_modifier = LEN_MOD_LARGE_LONG_LONG, conv_spec = number_conv c\<rparr>"

lemma number_parsed:
  assumes fl: "set fl \<subseteq> flag_chars" and w: "w \<noteq> Some 0" "int (case_option 0 id w) \<le> INT_MAX" and p: "int (case_option 0 id p) \<le> INT_MAX"
    and c: "c \<in> set ''diouxX''"
  shows "npf_parse_format_spec (tl (number_format fl w p c)) = Ok (Some (number_spec fl w p c, []))"
proof -
  let ?e = "''ll'' @ [c]"
  let ?p = "(case p of None \<Rightarrow> [] | Some n \<Rightarrow> CHR ''.'' # numeral_text 10 False n) @ ?e"
  let ?w = "(case w of None \<Rightarrow> [] | Some n \<Rightarrow> numeral_text 10 False n) @ ?p"
  let ?f1 = "npf_spec_start\<lparr>left_justified := CHR ''-'' \<in> set fl, leading_zero_pad := CHR ''0'' \<in> set fl,
    prepend := if CHR ''+'' \<in> set fl then Some (CHR ''+'') else if CHR '' '' \<in> set fl then Some (CHR '' '') else None\<rparr>"
  have nd: "\<not> is_digit (CHR ''l'')" "\<not> is_digit (CHR ''.'')" by (simp_all add: is_digit_def)
  have hdig: "digit_char False d \<noteq> CHR ''-'' \<and> digit_char False d \<noteq> CHR ''+'' \<and> digit_char False d \<noteq> CHR '' '' \<and> digit_char False d \<noteq> CHR ''*'' \<and>
      (0 < d \<longrightarrow> digit_char False d \<noteq> CHR ''0'')" if "d < 10" for d
  proof -
    have "d \<in> {0, 1, 2, 3, 4, 5, 6, 7, 8, 9}" using that by auto
    then show ?thesis by (elim insertE) (simp_all add: digit_char_def)
  qed
  have pstart: "\<exists>x xs. ?p = x # xs \<and> \<not> is_digit x \<and> x \<noteq> CHR ''*'' \<and> x \<notin> flag_chars"
    by (cases p) (simp_all add: nd flag_chars_def)
  have "?w \<noteq> [] \<longrightarrow> hd ?w \<notin> flag_chars"
  proof (cases w)
    case (Some n)
    then obtain d ds where "numeral_text 10 False n = digit_char False d # ds" "d < 10" "0 < d" using numeral_text_hd [of n] w(1) by auto
    then show ?thesis using Some hdig [of d] by (simp add: flag_chars_def)
  qed (use pstart in auto)
  then have 1: "npf_flags npf_spec_start (fl @ ?w) = (?f1, ?w)" by (subst flags_read [OF fl]) (simp_all add: npf_spec_start_def)
  let ?f2 = "?f1\<lparr>field_width := int (case_option 0 id w), field_width_opt := if w = None then NPF_FMT_SPEC_OPT_NONE else NPF_FMT_SPEC_OPT_LITERAL\<rparr>"
  have 2: "npf_width ?f1 ?w = Ok (?f2, ?p)"
  proof (cases w)
    case None
    then show ?thesis using pstart by (auto simp: npf_width_def npf_spec_start_def)
  next
    case (Some n)
    obtain d ds where n: "numeral_text 10 False n = digit_char False d # ds" "d < 10" using numeral_text_hd [of n] by auto
    obtain x xs where x: "?p = x # xs" "\<not> is_digit x" using pstart by blast
    have "npf_digits 0 (numeral_text 10 False n @ ?p) = Ok (int n, ?p)" using Some w(2) x by (subst digits_of_numeral) simp_all
    then show ?thesis using Some n hdig [OF n(2)] is_digit_char [OF n(2)] by (simp add: npf_width_def npf_spec_start_def)
  qed
  let ?f3 = "?f2\<lparr>prec := int (case_option 0 id p), prec_opt := if p = None then NPF_FMT_SPEC_OPT_NONE else NPF_FMT_SPEC_OPT_LITERAL\<rparr>"
  have 3: "npf_prec ?f2 ?p = Ok (?f3, ?e)"
  proof (cases p)
    case None
    then show ?thesis by (simp add: npf_prec_def npf_spec_start_def)
  next
    case (Some n)
    obtain d ds where n: "numeral_text 10 False n = digit_char False d # ds" "d < 10" using numeral_text_hd [of n] by auto
    have "npf_digits 0 (numeral_text 10 False n @ ?e) = Ok (int n, ?e)" using Some p nd by (subst digits_of_numeral) simp_all
    then show ?thesis using Some n hdig [OF n(2)] by (simp add: npf_prec_def npf_spec_start_def Let_def)
  qed
  have 4: "npf_length ?f3 ?e = (?f3\<lparr>length_modifier := LEN_MOD_LARGE_LONG_LONG\<rparr>, [c])" by simp
  have "npf_conversion (?f3\<lparr>length_modifier := LEN_MOD_LARGE_LONG_LONG\<rparr>) [c] = Some (number_spec fl w p c, [])"
    using c by (auto simp: number_spec_def number_conv_def is_signed_def npf_spec_start_def)
  then show ?thesis using 1 2 3 4 by (simp add: npf_parse_format_spec_def number_format_def)
qed

section \<open>Printing\<close>

lemma number_conv_kind: "number_conv c \<in> {CONV_SIGNED_INT, CONV_OCTAL, CONV_HEX_INT, CONV_UNSIGNED_INT}"
  "number_conv c = CONV_SIGNED_INT \<longleftrightarrow> is_signed c"
  by (simp_all add: number_conv_def)

lemma number_defaults:
  "npf_defaults (number_spec fl w p c) = (number_spec fl w p c)\<lparr>leading_zero_pad := CHR ''0'' \<in> set fl \<and> p = None\<rparr>"
  using number_conv_kind(1) [of c] by (auto simp: npf_defaults_def number_spec_def Let_def)

text \<open>The converted number as the code keeps it.\<close>

definition number_value :: "string \<Rightarrow> nat option \<Rightarrow> char \<Rightarrow> u64 \<Rightarrow> npf_text" where
  "number_value fl p c v =
     (let n = (if is_signed c then nat \<bar>sint v\<bar> else unat v) in
      \<lparr>cbuf = if n = 0 \<and> p = Some 0 then [] else rev (numeral_text (number_base c) (c = CHR ''X'') n),
       sign_c = (case number_sign fl c v of [] \<Rightarrow> None | x # _ \<Rightarrow> Some x), is_zero = n = 0\<rparr>)"

lemma signed_magnitude: "unat (if sint v < 0 then 0 - v else v) = nat \<bar>sint (v :: u64)\<bar>"
proof -
  have "int (unat (if sint v < 0 then 0 - v else v)) = \<bar>sint v\<bar>" using magnitude [of v] by (cases "sint v < 0") auto
  then show ?thesis by (metis nat_int)
qed

lemma magnitude_zero: "nat \<bar>sint (v :: u64)\<bar> = 0 \<longleftrightarrow> v = 0"
  using signed_eq_0_iff [of v] by simp

lemma convert_unsigned: "conv_spec fs \<in> {CONV_OCTAL, CONV_UNSIGNED_INT, CONV_HEX_INT} \<Longrightarrow> npf_convert fs as = npf_unsigned fs as"
  by (auto simp: npf_convert_def)

lemma unsigned_value:
  assumes "conv_spec fs \<noteq> CONV_POINTER" "conv_spec fs \<noteq> CONV_BINARY" "length_modifier fs = LEN_MOD_LARGE_LONG_LONG"
    and "npf_utoa_rev v [] (if conv_spec fs = CONV_OCTAL then 8 else if conv_spec fs = CONV_UNSIGNED_INT then 10 else 16) (case_adjust fs) = Some ds"
  shows "npf_unsigned fs (VaLong v # args) =
    Ok (\<lparr>cbuf = if v = 0 \<and> prec_opt fs \<noteq> NPF_FMT_SPEC_OPT_NONE \<and> prec fs = 0 then [] else ds, sign_c = None, is_zero = v = 0\<rparr>, args)"
  using assms by (simp add: npf_unsigned_def Let_def)

lemma number_spec_fields:
  "conv_spec ((number_spec fl w p c)\<lparr>leading_zero_pad := z\<rparr>) = number_conv c"
  "length_modifier ((number_spec fl w p c)\<lparr>leading_zero_pad := z\<rparr>) = LEN_MOD_LARGE_LONG_LONG"
  "case_adjust ((number_spec fl w p c)\<lparr>leading_zero_pad := z\<rparr>) = (if c = CHR ''X'' then 0 else 32)"
  "prec_opt ((number_spec fl w p c)\<lparr>leading_zero_pad := z\<rparr>) \<noteq> NPF_FMT_SPEC_OPT_NONE \<and> prec ((number_spec fl w p c)\<lparr>leading_zero_pad := z\<rparr>) = 0 \<longleftrightarrow>
     p = Some 0"
  by (auto simp: number_spec_def split: option.splits)

lemma number_converted:
  assumes "c \<in> set ''diouxX''"
  shows "npf_convert ((number_spec fl w p c)\<lparr>leading_zero_pad := z\<rparr>) (VaLong v # args) = Ok (number_value fl p c v, args)"
proof (cases "is_signed c")
  case True
  then have "number_base c = 10" "number_conv c = CONV_SIGNED_INT" "c \<noteq> CHR ''X''" by (auto simp: is_signed_def number_base_def number_conv_def)
  moreover have "npf_utoa_rev (if sint v < 0 then 0 - v else v) [] 10 32 = Some (rev (numeral_text 10 False (nat \<bar>sint v\<bar>)))"
    using utoa_numeral [of 10 "if sint v < 0 then 0 - v else v" "[]" False, unfolded signed_magnitude] by simp
  ultimately show ?thesis using True magnitude_zero [of v]
    by (auto simp: npf_convert_def npf_signed_def number_spec_def number_value_def number_sign_def Let_def)
next
  case False
  let ?b = "if c = CHR ''o'' then 8 else if c = CHR ''u'' then 10 else 16 :: u64"
  have b: "unat ?b = number_base c" using False assms by (auto simp: is_signed_def number_base_def)
  then have "2 \<le> unat ?b" "unat ?b \<le> 16" by (simp_all add: number_base_def)
  note utoa = utoa_numeral [OF this, of v "[]" "c = CHR ''X''", unfolded b]
  have conv: "number_conv c = (if c = CHR ''o'' then CONV_OCTAL else if c = CHR ''u'' then CONV_UNSIGNED_INT else CONV_HEX_INT)"
    using False by (simp add: number_conv_def)
  have bases: "(if number_conv c = CONV_OCTAL then 8 else if number_conv c = CONV_UNSIGNED_INT then 10 else 16) = ?b" unfolding conv by simp
  have nb: "number_conv c \<noteq> CONV_POINTER" "number_conv c \<noteq> CONV_BINARY" unfolding conv by simp_all
  have "npf_convert ((number_spec fl w p c)\<lparr>leading_zero_pad := z\<rparr>) (VaLong v # args) =
      npf_unsigned ((number_spec fl w p c)\<lparr>leading_zero_pad := z\<rparr>) (VaLong v # args)"
    by (rule convert_unsigned) (simp add: number_spec_fields(1) conv)
  also have "\<dots> = Ok (\<lparr>cbuf = if v = 0 \<and> p = Some 0 then [] else rev (numeral_text (number_base c) (c = CHR ''X'') (unat v)),
      sign_c = None, is_zero = v = 0\<rparr>, args)"
    by (subst unsigned_value) (use nb utoa in \<open>simp_all only: number_spec_fields bases append_Nil simp_thms\<close>)
  also have "\<dots> = Ok (number_value fl p c v, args)"
    using False by (simp add: number_value_def number_sign_def unat_eq_zero)
  finally show ?thesis .
qed

lemma number_laid_out:
  assumes "z = (CHR ''0'' \<in> set fl \<and> p = None)"
  shows "npf_layout ((number_spec fl w p c)\<lparr>leading_zero_pad := z\<rparr>) (number_value fl p c v) = number_field fl w p c v"
proof -
  have ns: "number_conv c \<noteq> CONV_STRING" "number_conv c \<noteq> CONV_BINARY" using number_conv_kind(1) [of c] by auto
  have sg: "number_sign fl c v = [] \<or> (\<exists>x. number_sign fl c v = [x])" by (simp add: number_sign_def)
  define n where "n = (if is_signed c then nat \<bar>sint v\<bar> else unat v)"
  define ds where "ds = (if n = 0 \<and> p = Some 0 then [] else numeral_text (number_base c) (c = CHR ''X'') n)"
  define sign where "sign = number_sign fl c v"
  have val: "number_value fl p c v = \<lparr>cbuf = rev ds, sign_c = (case sign of [] \<Rightarrow> None | x # _ \<Rightarrow> Some x), is_zero = n = 0\<rparr>"
    by (simp add: number_value_def n_def ds_def sign_def Let_def)
  have dig: "number_digits p c v = replicate (case_option 0 id p - length ds) (CHR ''0'') @ ds"
    by (simp add: number_digits_def n_def ds_def Let_def)
  have arith: "nat (max 0 (int a - int b)) = a - b" "nat (max 0 (int a - int b - 1)) = a - Suc b"
    "nat (max 0 (int a - int b - max 0 (int e - int b))) = a - (e - b + b)"
    "nat (max 0 (int a - int b - 1 - max 0 (int e - int b))) = a - Suc (e - b + b)" for a b e by auto
  from sg [folded sign_def] show ?thesis
    unfolding npf_layout_def npf_pad_char_def number_field_def val dig sign_def [symmetric] Let_def
    using ns assms by (elim disjE exE; cases w; cases p) (simp_all add: number_spec_def arith)
qed

lemma number_printed:
  assumes "c \<in> set ''diouxX''"
  shows "npf_print (number_spec fl w p c) (VaLong v # args) = Ok (number_field fl w p c v, args)"
proof -
  have "npf_star_width (number_spec fl w p c) as = Ok (number_spec fl w p c, as)"
    "npf_star_prec (number_spec fl w p c) as = Ok (number_spec fl w p c, as)" for as
    by (simp_all add: npf_star_width_def npf_star_prec_def number_spec_def)
  then show ?thesis
    by (simp add: npf_print_def number_defaults number_converted [OF assms] number_laid_out Let_def)
qed

text \<open>
  C20: \<open>npf_vpprintf\<close> of a format with any flags, width and precision and a conversion of a
  64-bit number prints the field that the C standard describes: the numeral in the base and case
  of the conversion with zeros up to the precision (and nothing for zero with precision zero),
  behind the sign that the number and the flags ask for; in a wider field it is moved to the
  left, to the right, or, with the zero flag and no precision, filled up with zeros between sign
  and numeral. The characters go through the callback in order, and their number is returned.
\<close>

theorem npf_vpprintf_prints_number:
  assumes "set fl \<subseteq> {CHR ''-'', CHR ''0'', CHR ''+'', CHR '' ''}" and "c \<in> set ''diouxX''"
    and "w \<noteq> Some 0" and "int (case_option 0 id w) \<le> INT_MAX" and "int (case_option 0 id p) \<le> INT_MAX"
  shows "npf_vpprintf pc ctx (number_format fl w p c) [VaLong v] =
    Ok (of_nat (length (number_field fl w p c v)), fold pc (number_field fl w p c v) ctx)"
proof -
  have "npf_parse_format_spec (tl (number_format fl w p c)) = Ok (Some (number_spec fl w p c, []))"
    by (rule number_parsed [OF assms(1) [folded flag_chars_def] assms(3,4,5,2)])
  from text_of_spec [OF this number_printed [OF assms(2)], of v "[]"] show ?thesis
    using npf_loop_text [of pc "number_format fl w p c" "[VaLong v]" 0 ctx] by (simp add: npf_vpprintf_def number_format_def)
qed

theorem npf_vpprintf_prints_number_witness:
  "npf_vpprintf (#) [] ''%+08lld'' [VaLong 1193] = Ok (8, rev ''+0001193'') \<and>
   npf_vpprintf (#) [] ''%-8.4llX'' [VaLong 0x3F8] = Ok (8, rev ''03F8    '')"
proof
  have n: "numeral_text 10 False 8 = ''8''" "numeral_text 10 False 4 = ''4''"
    by (simp_all add: numeral_text.simps digit_char_def)
  have m: "int 8 \<le> INT_MAX" "int 4 \<le> INT_MAX" "int 0 \<le> INT_MAX" by (simp_all add: INT_MAX_def)
  have "number_format ''+0'' (Some 8) None (CHR ''d'') = ''%+08lld''" using n by (simp add: number_format_def)
  moreover have "number_field ''+0'' (Some 8) None (CHR ''d'') 1193 = ''+0001193''"
    by code_simp
  ultimately show "npf_vpprintf (#) [] ''%+08lld'' [VaLong 1193] = Ok (8, rev ''+0001193'')"
    using npf_vpprintf_prints_number [of "''+0''" "CHR ''d''" "Some 8" None "(#)" "[]" 1193] m by simp
  have "number_format ''-'' (Some 8) (Some 4) (CHR ''X'') = ''%-8.4llX''" using n by (simp add: number_format_def)
  moreover have "number_field ''-'' (Some 8) (Some 4) (CHR ''X'') 0x3F8 = ''03F8    ''"
    by code_simp
  ultimately show "npf_vpprintf (#) [] ''%-8.4llX'' [VaLong 0x3F8] = Ok (8, rev ''03F8    '')"
    using npf_vpprintf_prints_number [of "''-''" "CHR ''X''" "Some 8" "Some 4" "(#)" "[]" "0x3F8"] m by simp
qed

end
