(* ===== verification/Spec2Isabelle.thy ===== *)
theory Spec2Isabelle
  imports Boot Npf_Fields
begin

text \<open>
  A verification library for the plos kernel, a small kernel for x86-64 machines written in C and
  started by the boot loader Limine. The paths below are relative to \<open>src/kernel/\<close>.

  \<^bold>\<open>The program.\<close> \<open>kmain\<close> (\<open>src/main.c\<close>) brings up the descriptor tables, the physical memory
  manager, page tables, the kernel heap, the virtual memory manager, the console, ACPI, the local
  interrupt controller and the timer, then the scheduler with its first tasks, enables interrupts
  and becomes the idle thread, which reaps dead threads. From then on everything happens in
  interrupts: the timer interrupt counts, wakes sleepers and preempts the running thread, a page
  fault backs a page of an anonymous area with a zeroed frame, and a software interrupt lets a
  thread give up the processor. The components are layers: the buddy allocator hands out frames,
  paging builds tables from frames, the heap grows by mapping frames, address spaces keep their
  areas on the heap, tasks and threads live on the heap and have stacks in areas, and the
  scheduler chooses among the threads.

  \<^bold>\<open>How C is translated.\<close> Integers are words of their C width wherever they can overflow; frame
  numbers, orders and list positions, which cannot, are natural numbers. A structure is a record,
  a pointer a 64-bit address with 0 as \<open>NULL\<close>, and the objects of a type are a partial map from
  addresses (a typed heap); page tables and strings are in byte memory. Global variables are fields
  of the record of their component, and the records are nested as the layers are: \<open>pmm\<close> in
  \<open>paging\<close> in \<open>kheap\<close> in \<open>vmm\<close> in \<open>kern\<close>. An operation maps a state to an \<open>outcome\<close> (theory
  \<open>Prelude\<close>): \<open>Ok\<close> with a result, \<open>Halt\<close> for \<open>hcf\<close>, \<open>Spin\<close> for a loop that never ends, \<open>Block\<close> for a
  thread that is put to sleep, \<open>Fault\<close> for an access that C leaves undefined. Loops over data are
  recursive functions with a termination proof; loops that may run for ever are partial functions
  with values in \<open>option\<close>, and the theorems show that they return. One loop has fuel, \<open>free_range\<close> of
  \<open>pmm_init\<close> over a usable region: its fuel is the number of the frame behind the region, which is enough
  because every round advances by at least one frame, and running out of it is the outcome \<open>Spin\<close>.

  \<^bold>\<open>Foundations.\<close> \<open>Prelude\<close> has the types and the sequencing of outcomes. \<open>Dll\<close> translates
  \<open>src/common/dll.c\<close> and shows that its rings of nodes implement lists (locale \<open>intrusive_list\<close>,
  interpreted on the code's operations). \<open>Libk_String\<close> and \<open>Mem64\<close> model \<open>src/libk/string.c\<close> and words
  in byte memory; \<open>memmove\<close> is correct for overlapping blocks. \<open>Spinlock\<close> models the ticket lock of
  \<open>src/scheduling/lock.c\<close> twice: as one processor runs it, and as a step relation that interleaves the
  same atomic steps on any number of processors, for which mutual exclusion, progress in the order
  of the tickets and a refinement to a queue are proved. \<open>Threads\<close> has the structures of
  \<open>include/scheduling/task.h\<close> and the sleeping lock, which refines a queue of waiting threads.

  \<^bold>\<open>Physical memory.\<close> \<open>Buddy\<close> is the arithmetic of blocks, \<open>Pmm\<close> the translation of
  \<open>src/memory/pmm.c\<close>, \<open>Pmm_Inv\<close> its invariant (disjoint aligned blocks, free lists that agree with the
  descriptors, no two free buddies), \<open>Pmm_Props\<close> the contract: an allocation grants a free block of
  the rounded size, freeing returns it, both together restore the free blocks, a failing request
  changes nothing, and the statistic of used pages drifts. \<open>Pmm_Init\<close> shows that \<open>pmm_init\<close> establishes
  the invariant with exactly the frames of the usable regions. \<open>Frame_Alloc\<close> is the interface for
  the layers above (locale \<open>frame_allocator\<close>, interpreted on \<open>pmm_alloc\<close> and \<open>pmm_page_dec_ref\<close>).

  \<^bold>\<open>Paging.\<close> \<open>Hhdm\<close> is the direct map, \<open>Paging\<close> the translation of \<open>src/memory/paging.c\<close>,
  \<open>Paging_Inv\<close> the tree of tables, \<open>Paging_Props\<close> the effect on the translation of addresses: a
  mapped page, a mapped region and an unmapped page change exactly the translations they should.
  Translation caches have no state: \<open>invlpg\<close> does nothing.

  \<^bold>\<open>Kernel heap.\<close> \<open>Kheap\<close> translates \<open>src/memory/kheap.c\<close>, \<open>Kheap_Inv\<close> relates the headers to a list
  of blocks, \<open>Kheap_Props\<close> and \<open>Kheap_Contract\<close> show what \<open>kmalloc\<close> and \<open>kfree\<close> promise (locale
  \<open>kernel_heap\<close>, interpreted on them), that every page by which the heap grows is mapped, and that the
  search for memory ends: every round that does not find a block takes frames from the finite supply.

  \<^bold>\<open>Address spaces.\<close> \<open>Vmm\<close> translates \<open>src/memory/vmm.c\<close>. \<open>Vmm_Props\<close>, \<open>Vmm_Align\<close> and \<open>Vmm_Free\<close> show
  that areas stay sorted and disjoint, that the page fault handler backs a page with a zeroed frame,
  and that freeing an area gives the frames back. \<open>Kern_Frame\<close> collects what these operations
  leave alone.

  \<^bold>\<open>Devices and interrupts.\<close> \<open>Devices\<close> models ports, memory-mapped registers and registers of the
  processor (\<open>src/drivers/portsIO.c\<close>, \<open>src/cpu.c\<close>): what a device answers is an arbitrary function of
  the register and of the number of accesses before, and every access is recorded in order. \<open>Serial\<close>,
  \<open>Lapic\<close>, \<open>Acpi\<close>, \<open>Gdt\<close> translate the drivers and the descriptor tables, \<open>Uptime\<close> and \<open>Timer\<close>
  \<open>src/devices/timer.c\<close>, \<open>Isr\<close> the dispatcher with entry and exit. \<open>Timer_Props\<close> shows that
  calibration measures what it should through exactly the right accesses, \<open>Interrupt_Props\<close> that
  every interrupt keeps the invariant of the kernel.

  \<^bold>\<open>Scheduling.\<close> \<open>Scheduler\<close> translates \<open>src/scheduling/scheduler.c\<close>, \<open>Task\<close> \<open>src/scheduling/task.c\<close>.
  \<open>Scheduler_Props\<close> flattens the circular lists into one list of slots and shows that the scheduler
  continues the next ready thread and wakes exactly the due sleepers; \<open>Task_Lists\<close>, \<open>Task_Props\<close>,
  \<open>Thread_Props\<close> and \<open>Switch_Props\<close> treat creation, reaping, exit and sleep over the state of the whole
  kernel (\<open>Kern\<close>). \<open>Kern_Demo\<close> is a small running kernel on which these theorems are evaluated.

  \<^bold>\<open>Output.\<close> \<open>Npf\<close> translates the formatter \<open>include/libk/nanoprintf.h\<close> as \<open>src/libk/stdio.c\<close>
  configures it. \<open>Npf_Props\<close> shows that buffers are not overrun and that printed numbers can be read
  back, \<open>Npf_Fields\<close> that a number is printed as the C standard describes. \<open>Log\<close> has \<open>printf\<close> and the
  logger of \<open>src/common/logging.c\<close>: a message that fits is written as one line, a longer one is
  written outside of the buffer. \<open>Boot\<close> has the boot loader's answers (\<open>src/limine_requests.c\<close>), the
  console, the reports of the physical memory manager and \<open>kmain\<close>; the start of the first tasks
  reaches the idle loop with all threads ready unless memory is short at one of its steps.

  \<^bold>\<open>Parameters.\<close> The terminal emulator flanterm, which is not part of the repository, is a pair of
  functions; the answers of the boot loader, the addresses the linker chooses and the answers of
  the hardware are arguments or fields of the state. No theorem assumes more of them than is written in it.

  \<^bold>\<open>Bounds.\<close> \<open>heap_env\<close> asks that the heap lies in the uppermost \<open>2 ^ 46\<close> bytes of the address space,
  that nothing there is mapped with huge pages, and that all free frames together cannot carry the
  heap to the end of the address space. Frame numbers are below \<open>2 ^ 40\<close> where page tables hold them, as
  the address field of an entry requires. The length of a printed text is below \<open>2 ^ 31\<close>, as the C
  type of the count requires.

  \<^bold>\<open>Not modelled.\<close> The messages that components other than the reports of the physical memory
  manager send to the logger; the body of the test threads (\<open>stress_test_worker\<close>), which runs between
  the modelled steps; the assembler stubs, represented by the frames they build; the parts of the
  formatter that the configuration switches off (floating point, small lengths, write-back,
  alternative form); translation caches; \<open>include/drivers/pic.h\<close>, which declares a function that
  is neither defined nor called. Interleaving of processors is modelled for the spinlock only: the
  kernel starts one processor.
\<close>

end
